(* ===== verification/Prelude.thy ===== *)
theory Prelude
  imports Main "HOL-Library.Word" "HOL-Library.AList" "HOL-Library.Char_ord"
begin

text \<open>
  Shared vocabulary of the development: the Python exceptions the modelled code raises, a
  result type with its sequencing operation, the byte strings, and generic lemmas on lists
  and association lists. A Python \<^verbatim>\<open>dict\<close> whose iteration order matters is an
  association list updated with \<open>AList.update\<close>, which keeps the position of an existing
  key and puts a new key at the end, as an insertion-ordered \<^verbatim>\<open>dict\<close> does.
\<close>

section \<open>Exceptions and results\<close>

datatype py_error =
    ValueError
  | IndexError
  | KeyError
  | TypeError
  | AssertionError
  | AttributeError
  | LogicError
  | PlenumValueError
  | ConsistencyError
  | ProofError
  | ConsistencyVerificationFailed
  | StopIteration
  | RecursionError
  | RuntimeError
  | OSError
  | ZeroDivisionError
  | NotImplementedError
  | EncodingError
  | DecodingError
  | InvalidClientRequest
  | UnauthorizedClientRequest
  | InvalidMessageException
  | SuspiciousPrePrepare
  | GenericException
  | PlenumTypeError
  | InvalidSPVProof
  | SuspiciousNode
  | MissingProtocolVersionError
  | UnicodeDecodeError
  | MissingNodeOp
  | InvalidNodeOp
  | InvalidNodeMsg
  | OverflowError

type_synonym 'a result = "py_error + 'a"

type_synonym byte = "8 word"
type_synonym bytes = "byte list"

definition bindE :: "'a result \<Rightarrow> ('a \<Rightarrow> 'b result) \<Rightarrow> 'b result" where
  "bindE m f = (case m of Inl e \<Rightarrow> Inl e | Inr x \<Rightarrow> f x)"

text \<open>A list comprehension whose element expression may raise.\<close>

fun mapE :: "('a \<Rightarrow> 'b result) \<Rightarrow> 'a list \<Rightarrow> 'b list result" where
  "mapE f [] = Inr []"
| "mapE f (x # xs) = bindE (f x) (\<lambda>y. bindE (mapE f xs) (\<lambda>ys. Inr (y # ys)))"

text \<open>A loop over a list that threads a state and may raise.\<close>

fun foldE :: "('s \<Rightarrow> 'a \<Rightarrow> 's result) \<Rightarrow> 's \<Rightarrow> 'a list \<Rightarrow> 's result" where
  "foldE f s [] = Inr s"
| "foldE f s (x # xs) = bindE (f s x) (\<lambda>s'. foldE f s' xs)"

definition assertE :: "py_error \<Rightarrow> bool \<Rightarrow> unit result" where
  "assertE e b = (if b then Inr () else Inl e)"

lemma bindE_simps [simp]:
  "bindE (Inl e) f = Inl e"
  "bindE (Inr x) f = f x"
  by (simp_all add: bindE_def)

lemma bindE_eq_Inr: "bindE m f = Inr y \<longleftrightarrow> (\<exists>x. m = Inr x \<and> f x = Inr y)"
  by (cases m) simp_all

lemma bindE_assoc: "bindE (bindE m f) g = bindE m (\<lambda>x. bindE (f x) g)"
  by (cases m) simp_all

lemma assertE_eq_Inr [simp]: "assertE e b = Inr u \<longleftrightarrow> b"
  by (simp add: assertE_def)

lemma assertE_simps [simp]: "assertE e True = Inr ()" "assertE e False = Inl e"
  by (simp_all add: assertE_def)

lemma mapE_eq_map: "(\<And>x. x \<in> set xs \<Longrightarrow> f x = Inr (g x)) \<Longrightarrow> mapE f xs = Inr (map g xs)"
  by (induction xs) simp_all

lemma mapE_append:
  "mapE f (xs @ ys) = bindE (mapE f xs) (\<lambda>us. bindE (mapE f ys) (\<lambda>vs. Inr (us @ vs)))"
  by (induction xs) (simp_all add: bindE_def split: sum.splits)

lemma foldE_total: "(\<And>s x. \<exists>s'. f s x = Inr s') \<Longrightarrow> \<exists>s'. foldE f s xs = Inr s'"
proof (induction xs arbitrary: s)
  case (Cons x xs)
  obtain s' where "f s x = Inr s'" using Cons.prems by blast
  then show ?case using Cons.IH [OF Cons.prems, of s'] by simp
qed simp

lemma foldE_append: "foldE f s (xs @ ys) = bindE (foldE f s xs) (\<lambda>s'. foldE f s' ys)"
  by (induction xs arbitrary: s) (simp_all add: bindE_assoc)

lemma foldE_invariant:
  "foldE f s xs = Inr s' \<Longrightarrow> P s \<Longrightarrow> (\<And>s x s'. P s \<Longrightarrow> f s x = Inr s' \<Longrightarrow> P s') \<Longrightarrow> P s'"
  by (induction xs arbitrary: s) (auto simp: bindE_eq_Inr)

section \<open>Lists\<close>

text \<open>Python's half-open slice \<^verbatim>\<open>xs[i:j]\<close> for non-negative bounds.\<close>

definition py_slice :: "nat \<Rightarrow> nat \<Rightarrow> 'a list \<Rightarrow> 'a list" where
  "py_slice i j xs = take (j - i) (drop i xs)"

lemma length_py_slice [simp]: "length (py_slice i j xs) = min (j - i) (length xs - i)"
  by (simp add: py_slice_def min.commute)

lemma py_slice_eq_Nil [simp]: "py_slice i j xs = [] \<longleftrightarrow> j \<le> i \<or> length xs \<le> i"
  by (auto simp: py_slice_def)

lemma py_slice_append_left: "j \<le> length xs \<Longrightarrow> py_slice i j (xs @ ys) = py_slice i j xs"
  by (simp add: py_slice_def)

lemma py_slice_full [simp]: "py_slice 0 (length xs) xs = xs"
  by (simp add: py_slice_def)

lemma py_slice_0 [simp]: "py_slice 0 j xs = take j xs"
  by (simp add: py_slice_def)

lemma py_slice_split: "i \<le> k \<Longrightarrow> k \<le> j \<Longrightarrow> py_slice i j xs = py_slice i k xs @ py_slice k j xs"
proof -
  assume "i \<le> k" "k \<le> j"
  then have "take (j - i) (drop i xs) = take ((k - i) + (j - k)) (drop i xs)" by simp
  also have "\<dots> = take (k - i) (drop i xs) @ take (j - k) (drop (k - i) (drop i xs))"
    by (rule take_add)
  also have "drop (k - i) (drop i xs) = drop k xs" using \<open>i \<le> k\<close> by simp
  finally show ?thesis by (simp add: py_slice_def)
qed

lemma py_slice_single: "i < length xs \<Longrightarrow> py_slice i (Suc i) xs = [xs ! i]"
  by (simp add: py_slice_def take_Suc_conv_app_nth hd_drop_conv_nth Suc_diff_le)

lemma nth_py_slice: "k < j - i \<Longrightarrow> j \<le> length xs \<Longrightarrow> py_slice i j xs ! k = xs ! (i + k)"
  by (simp add: py_slice_def)

section \<open>Association lists\<close>

lemma set_update_cases: "x \<in> set (AList.update k v xs) \<Longrightarrow> x = (k, v) \<or> x \<in> set xs"
  by (induction xs) (auto split: if_splits)

section \<open>Decimal strings\<close>

text \<open>\<^verbatim>\<open>str(n)\<close> of an integer, and \<^verbatim>\<open>encode()\<close> of an ASCII string.\<close>

fun dec_digits :: "nat \<Rightarrow> nat list" where
  "dec_digits n = (if n < 10 then [n] else dec_digits (n div 10) @ [n mod 10])"

declare dec_digits.simps [simp del]

definition py_str :: "int \<Rightarrow> string" where
  "py_str i = (if i < 0 then ''-'' else []) @ map (\<lambda>d. char_of (48 + d)) (dec_digits (nat \<bar>i\<bar>))"

definition encode :: "string \<Rightarrow> bytes" where
  "encode s = map (\<lambda>c. word_of_nat (of_char c)) s"

fun from_dec :: "nat list \<Rightarrow> nat" where
  "from_dec ds = foldl (\<lambda>a d. 10 * a + d) 0 ds"

lemma from_dec_dec_digits: "from_dec (dec_digits n) = n"
proof (induction n rule: dec_digits.induct)
  case (1 n)
  then show ?case by (subst dec_digits.simps) simp
qed

lemma dec_digits_lt: "d \<in> set (dec_digits n) \<Longrightarrow> d < 10"
proof (induction n rule: dec_digits.induct)
  case (1 n)
  then show ?case by (subst (asm) dec_digits.simps) (auto split: if_splits)
qed

lemma inj_encode: "inj encode"
proof -
  have "inj (\<lambda>c. word_of_nat (of_char c) :: byte)"
  proof (rule injI)
    fix c d :: char
    assume "(word_of_nat (of_char c) :: byte) = word_of_nat (of_char d)"
    then have "(of_char c :: nat) mod 256 = of_char d mod 256"
      by (simp add: word_of_nat_eq_iff take_bit_eq_mod)
    then have "(of_char c :: nat) = of_char d" by simp
    then show "c = d" by (simp only: of_char_eq_iff)
  qed
  then show ?thesis by (simp add: inj_def encode_def inj_map_eq_map)
qed

lemma py_str_nonneg_inj: "0 \<le> i \<Longrightarrow> 0 \<le> j \<Longrightarrow> py_str i = py_str j \<Longrightarrow> i = j"
proof -
  assume ij: "0 \<le> i" "0 \<le> j" and eq: "py_str i = py_str j"
  have inj: "inj_on (\<lambda>d::nat. char_of (48 + d) :: char) {d. d < 10}"
  proof (rule inj_onI)
    fix x y :: nat
    assume "x \<in> {d. d < 10}" "y \<in> {d. d < 10}" "(char_of (48 + x) :: char) = char_of (48 + y)"
    then have "(of_char (char_of (48 + x) :: char) :: nat) = of_char (char_of (48 + y) :: char)" and "x < 10" "y < 10" by auto
    then show "x = y" by simp
  qed
  have "map (\<lambda>d. char_of (48 + d) :: char) (dec_digits (nat i)) = map (\<lambda>d. char_of (48 + d)) (dec_digits (nat j))"
    using eq ij by (simp add: py_str_def)
  then have "dec_digits (nat i) = dec_digits (nat j)"
    by (rule map_inj_on) (rule inj_on_subset [OF inj], auto dest: dec_digits_lt)
  then have "nat i = nat j" by (metis from_dec_dec_digits)
  with ij show ?thesis by simp
qed

text \<open>\<^verbatim>\<open>decode()\<close> of ASCII bytes, \<^verbatim>\<open>isdigit()\<close>, and \<^verbatim>\<open>int(s)\<close> of a string of digits.\<close>

definition decode :: "bytes \<Rightarrow> string" where
  "decode bs = map (\<lambda>b. char_of (unat b)) bs"

definition isdigit :: "string \<Rightarrow> bool" where
  "isdigit s = (s \<noteq> [] \<and> list_all (\<lambda>c. CHR ''0'' \<le> c \<and> c \<le> CHR ''9'') s)"

definition py_int :: "string \<Rightarrow> nat" where
  "py_int s = from_dec (map (\<lambda>c. of_char c - 48) s)"

lemma decode_encode: "decode (encode s) = s"
proof -
  have "(char_of (unat (word_of_nat (of_char c) :: byte)) :: char) = c" for c
  proof -
    have "unat (word_of_nat (of_char c) :: byte) = of_char c mod 2 ^ 8" by (simp add: unat_of_nat)
    then show ?thesis by simp
  qed
  then show ?thesis by (simp add: decode_def encode_def comp_def)
qed

lemma py_str_char: "c \<in> set (py_str (int n)) \<Longrightarrow> \<exists>d < 10. c = char_of (48 + d :: nat)"
  by (auto simp: py_str_def dest: dec_digits_lt)

lemma dec_digits_nonempty: "dec_digits n \<noteq> []"
  by (subst dec_digits.simps) simp

lemma digit_char: "(d::nat) < 10 \<Longrightarrow> CHR ''0'' \<le> (char_of (48 + d) :: char) \<and> (char_of (48 + d) :: char) \<le> CHR ''9'' \<and> (of_char (char_of (48 + d) :: char) :: nat) = 48 + d"
  by (simp add: less_eq_char_def)

lemma isdigit_py_str: "isdigit (py_str (int n))"
proof -
  have "py_str (int n) \<noteq> []" by (simp add: py_str_def dec_digits_nonempty)
  moreover have "CHR ''0'' \<le> c \<and> c \<le> CHR ''9''" if "c \<in> set (py_str (int n))" for c
    using py_str_char [OF that] digit_char by blast
  ultimately show ?thesis by (simp add: isdigit_def list_all_iff)
qed

lemma py_int_py_str: "py_int (py_str (int n)) = n"
proof -
  have "map (\<lambda>c. of_char c - 48) (map (\<lambda>d. char_of (48 + d) :: char) (dec_digits n)) = dec_digits n"
    unfolding map_map by (rule map_idI) (drule dec_digits_lt, simp)
  then show ?thesis using from_dec_dec_digits by (simp add: py_int_def py_str_def del: from_dec.simps)
qed

text \<open>\<^verbatim>\<open>join\<close>, \<^verbatim>\<open>split\<close> and \<^verbatim>\<open>strip\<close> of strings with a separator of one character.\<close>

fun py_join :: "char \<Rightarrow> string list \<Rightarrow> string" where
  "py_join c [] = []"
| "py_join c [s] = s"
| "py_join c (s # t # ss) = s @ c # py_join c (t # ss)"

fun py_split :: "char \<Rightarrow> string \<Rightarrow> string list" where
  "py_split c [] = [[]]"
| "py_split c (x # xs) = (if x = c then [] # py_split c xs else (x # hd (py_split c xs)) # tl (py_split c xs))"

definition py_strip :: "char \<Rightarrow> string \<Rightarrow> string" where
  "py_strip c s = rev (dropWhile (\<lambda>x. x = c) (rev (dropWhile (\<lambda>x. x = c) s)))"

lemma py_join_Cons: "ss \<noteq> [] \<Longrightarrow> py_join c (s # ss) = s @ c # py_join c ss"
  by (cases ss) simp_all

lemma py_join_append: "ss \<noteq> [] \<Longrightarrow> ts \<noteq> [] \<Longrightarrow> py_join c (ss @ ts) = py_join c ss @ c # py_join c ts"
proof (induction ss)
  case (Cons s ss)
  then show ?case by (cases "ss = []") (simp_all add: py_join_Cons)
qed simp

lemma py_split_no: "c \<notin> set s \<Longrightarrow> py_split c s = [s]"
  by (induction s) auto

lemma py_split_append: "c \<notin> set s \<Longrightarrow> py_split c (s @ c # r) = s # py_split c r"
  by (induction s) auto

lemma py_split_join: "ss \<noteq> [] \<Longrightarrow> \<forall>s \<in> set ss. c \<notin> set s \<Longrightarrow> py_split c (py_join c ss) = ss"
proof (induction ss)
  case (Cons s ss)
  then show ?case by (cases "ss = []") (simp_all add: py_join_Cons py_split_no py_split_append)
qed simp

lemma py_join_hd_last:
  "ss \<noteq> [] \<Longrightarrow> \<forall>s \<in> set ss. s \<noteq> [] \<and> c \<notin> set s \<Longrightarrow> py_join c ss \<noteq> [] \<and> hd (py_join c ss) \<noteq> c \<and> last (py_join c ss) \<noteq> c"
proof (induction ss)
  case (Cons s ss)
  then have "hd s \<in> set s" "last s \<in> set s" "s \<noteq> []" "c \<notin> set s" by simp_all
  then show ?case using Cons by (cases "ss = []") (auto simp: py_join_Cons)
qed simp

lemma py_strip_id: "s \<noteq> [] \<Longrightarrow> hd s \<noteq> c \<Longrightarrow> last s \<noteq> c \<Longrightarrow> py_strip c s = s \<and> py_strip c (c # s) = s"
proof -
  assume s: "s \<noteq> []" "hd s \<noteq> c" "last s \<noteq> c"
  then have "dropWhile (\<lambda>x. x = c) s = s" by (cases s) simp_all
  moreover have "dropWhile (\<lambda>x. x = c) (rev s) = rev s" using s(1,3) by (cases s rule: rev_cases) simp_all
  ultimately show ?thesis by (simp add: py_strip_def)
qed

end
