(* ===== verification/Ledger_Util.thy ===== *)
theory Ledger_Util
  imports Prelude
begin

text \<open>
  \<^verbatim>\<open>ledger/util.py\<close>: the bit-counting helpers the Merkle tree uses to read the shape of a
  tree off its size, on non-negative integers, with the recursion equations on
  \<open>2 * n\<close> and \<open>2 * n + 1\<close> that the tree proofs use.
\<close>

unbundle bit_operations_syntax

section \<open>Definitions\<close>

lemma and_pred_less: "0 < i \<Longrightarrow> i AND (i - 1) < (i::nat)"
proof -
  assume "0 < i"
  have "int (i AND (i - 1)) \<le> int (i - 1)"
    by (simp only: of_nat_and_eq) (rule AND_upper2, simp)
  then show ?thesis using \<open>0 < i\<close> by simp
qed

function count_bits_set :: "nat \<Rightarrow> nat" where
  "count_bits_set i = (if i = 0 then 0 else Suc (count_bits_set (i AND (i - 1))))"
  by pat_completeness auto
termination
  by (relation "measure id") (auto simp: and_pred_less [unfolded One_nat_def])

definition isPowerOf2 :: "nat \<Rightarrow> bool" where
  "isPowerOf2 i \<longleftrightarrow> count_bits_set i = 1"

fun highest_bit_set :: "nat \<Rightarrow> nat" where
  "highest_bit_set hi = (if hi = 0 then 0 else Suc (highest_bit_set (hi div 2)))"

definition lowest_bit_set :: "nat \<Rightarrow> nat" where
  "lowest_bit_set i = highest_bit_set (nat (int i AND - int i))"

definition has_nth_bit_set :: "nat \<Rightarrow> nat \<Rightarrow> bool" where
  "has_nth_bit_set number n \<longleftrightarrow> (push_bit n 1 AND number) > 0"

definition highestPowerOf2LessThan :: "nat \<Rightarrow> int" where
  "highestPowerOf2LessThan n = int (highest_bit_set n) - 1"

declare count_bits_set.simps [simp del] highest_bit_set.simps [simp del]

section \<open>Recursion on the binary representation\<close>

lemma nat_bit_cases [case_names zero even odd]:
  fixes n :: nat
  assumes "n = 0 \<Longrightarrow> P" and "\<And>m. 0 < m \<Longrightarrow> n = 2 * m \<Longrightarrow> P" and "\<And>m. n = 2 * m + 1 \<Longrightarrow> P"
  shows P
  using assms by (cases "n = 0"; cases "even n") (auto elim!: evenE oddE)

lemma nat_bit_induct' [case_names zero even odd]:
  fixes n :: nat
  assumes "P 0" and "\<And>m. 0 < m \<Longrightarrow> P m \<Longrightarrow> P (2 * m)" and "\<And>m. P m \<Longrightarrow> P (2 * m + 1)"
  shows "P n"
proof (induction n rule: less_induct)
  case (less n)
  show ?case
  proof (cases n rule: nat_bit_cases)
    case (even m)
    then show ?thesis using assms(2) [OF _ less.IH, of m] by simp
  next
    case (odd m)
    then show ?thesis using assms(3) [OF less.IH, of m] by simp
  qed (simp add: assms(1))
qed

lemma and_pred_odd: "(2 * n + 1) AND (2 * n) = 2 * (n::nat)"
  by (simp add: and_rec)

lemma and_pred_even: "0 < n \<Longrightarrow> (2 * n) AND (2 * n - 1) = 2 * (n AND (n - 1) :: nat)"
proof -
  assume "0 < n"
  then have "2 * n - 1 = 2 * (n - 1) + 1" by simp
  then show ?thesis by (subst and_rec) (simp add: \<open>0 < n\<close>)
qed

lemma count_bits_set_0 [simp]: "count_bits_set 0 = 0"
  by (simp add: count_bits_set.simps)

lemma count_bits_set_even [simp]: "count_bits_set (2 * n) = count_bits_set n"
proof (induction n rule: less_induct)
  case (less n)
  show ?case
  proof (cases "n = 0")
    case False
    then have "count_bits_set (2 * (n AND (n - 1))) = count_bits_set (n AND (n - 1))"
      by (intro less) (simp add: and_pred_less [unfolded One_nat_def])
    with False show ?thesis
      by (simp add: count_bits_set.simps [of "2 * n"] count_bits_set.simps [of n]
          and_pred_even [unfolded One_nat_def])
  qed simp
qed

lemma count_bits_set_odd [simp]: "count_bits_set (Suc (2 * n)) = Suc (count_bits_set n)"
  using and_pred_odd [of n] by (simp add: count_bits_set.simps [of "Suc (2 * n)"])

lemma highest_bit_set_0 [simp]: "highest_bit_set 0 = 0"
  by (simp add: highest_bit_set.simps)

lemma highest_bit_set_even [simp]: "0 < n \<Longrightarrow> highest_bit_set (2 * n) = Suc (highest_bit_set n)"
  by (simp add: highest_bit_set.simps [of "2 * n"])

lemma highest_bit_set_odd [simp]: "highest_bit_set (Suc (2 * n)) = Suc (highest_bit_set n)"
  by (simp add: highest_bit_set.simps [of "Suc (2 * n)"])

lemma lowest_bit_set_0 [simp]: "lowest_bit_set 0 = 0"
  by (simp add: lowest_bit_set_def)

lemma and_uminus_pos: "0 < i \<Longrightarrow> 0 < (i AND - i :: int)"
proof (induction "nat i" arbitrary: i rule: less_induct)
  case less
  show ?case
  proof (cases "even i")
    case True
    then obtain j where j: "i = 2 * j" by (elim evenE)
    then have "- i div 2 = - j" by simp
    with j have "i AND - i = 2 * (j AND - j)" by (subst and_rec) simp
    moreover have "0 < j AND - j" using less j by (intro less) auto
    ultimately show ?thesis by simp
  next
    case False
    then have "odd (i AND - i)" by (simp add: even_and_iff)
    moreover have "0 \<le> i AND - i" using less by simp
    ultimately show ?thesis by (metis even_zero order_le_less)
  qed
qed

lemma lowest_bit_set_even [simp]: "0 < n \<Longrightarrow> lowest_bit_set (2 * n) = Suc (lowest_bit_set n)"
proof -
  assume n: "0 < n"
  have "- int (2 * n) div 2 = - int n" by simp
  then have "int (2 * n) AND - int (2 * n) = 2 * (int n AND - int n)"
    by (subst and_rec) simp
  then have "nat (int (2 * n) AND - int (2 * n)) = 2 * nat (int n AND - int n)"
    by (simp add: nat_mult_distrib)
  then show ?thesis using n by (simp add: lowest_bit_set_def and_uminus_pos)
qed

lemma lowest_bit_set_odd [simp]: "lowest_bit_set (Suc (2 * n)) = 1"
proof -
  have "int (Suc (2 * n)) AND - int (Suc (2 * n)) = 1"
  proof -
    have "int (Suc (2 * n)) AND - int (Suc (2 * n))
        = 1 + 2 * (int (Suc (2 * n)) div 2 AND - int (Suc (2 * n)) div 2)"
      by (subst and_rec) simp
    also have "int (Suc (2 * n)) div 2 = int n" by simp
    also have "- int (Suc (2 * n)) div 2 = NOT (int n)" by (simp add: not_int_def)
    also have "int n AND NOT (int n) = 0" by simp
    finally show ?thesis by simp
  qed
  then show ?thesis by (simp add: lowest_bit_set_def highest_bit_set.simps)
qed

section \<open>Powers of two\<close>

lemma highest_bit_set_bounds:
  "0 < n \<Longrightarrow> 2 ^ (highest_bit_set n - 1) \<le> n \<and> n < 2 ^ highest_bit_set n \<and> 0 < highest_bit_set n"
proof (induction n rule: nat_bit_induct')
  case (even m)
  then show ?case by (cases "highest_bit_set m") auto
next
  case (odd m)
  then show ?case
    using highest_bit_set_odd [of 0] by (cases "m = 0"; cases "highest_bit_set m") auto
qed simp

lemma highest_bit_set_unique: "2 ^ p \<le> n \<Longrightarrow> n < 2 ^ Suc p \<Longrightarrow> highest_bit_set n = Suc p"
proof (induction p arbitrary: n)
  case 0
  then have "n = 1" by simp
  then show ?case by (simp add: highest_bit_set.simps)
next
  case (Suc p)
  then have "2 ^ p \<le> n div 2" "n div 2 < 2 ^ Suc p" by auto
  then have "highest_bit_set (n div 2) = Suc p" by (rule Suc.IH)
  moreover have "n \<noteq> 0" using Suc.prems(1) by (metis not_less zero_less_power zero_less_numeral)
  ultimately show ?case by (simp add: highest_bit_set.simps [of n])
qed

lemma highest_bit_set_pow2 [simp]: "highest_bit_set (2 ^ p) = Suc p"
  by (rule highest_bit_set_unique) simp_all

lemma count_bits_set_pow2 [simp]: "count_bits_set (2 ^ p) = 1"
proof (induction p)
  case 0
  show ?case using count_bits_set_odd [of 0] by simp
qed simp

lemma lowest_bit_set_pow2 [simp]: "lowest_bit_set (2 ^ p) = Suc p"
proof (induction p)
  case 0
  show ?case using lowest_bit_set_odd [of 0] by simp
qed simp

lemma count_bits_set_1D: "count_bits_set n = 1 \<Longrightarrow> \<exists>p. n = 2 ^ p"
proof (induction n rule: nat_bit_induct')
  case (even m)
  then obtain p where "m = 2 ^ p" by auto
  then have "2 * m = 2 ^ Suc p" by simp
  then show ?case by blast
next
  case (odd m)
  then have "count_bits_set m = 0" by simp
  then have "m = 0" by (simp add: count_bits_set.simps [of m] split: if_splits)
  then have "2 * m + 1 = 2 ^ 0" by simp
  then show ?case by blast
qed simp

lemma count_bits_set_eq_0 [simp]: "count_bits_set n = 0 \<longleftrightarrow> n = 0"
  by (simp add: count_bits_set.simps [of n])

lemma lowest_bit_set_eq_0 [simp]: "lowest_bit_set n = 0 \<longleftrightarrow> n = 0"
  by (cases n rule: nat_bit_cases) auto

lemma count_bits_set_le: "count_bits_set n \<le> n"
  by (induction n rule: nat_bit_induct') auto

lemma count_bits_set_add_pow2: "r < 2 ^ p \<Longrightarrow> count_bits_set (2 ^ p + r) = Suc (count_bits_set r)"
proof (induction p arbitrary: r)
  case 0
  show ?case using 0 count_bits_set_odd [of 0] by simp
next
  case (Suc p)
  show ?case
  proof (cases "even r")
    case True
    then obtain k where k: "r = 2 * k" by (elim evenE)
    have "count_bits_set (2 ^ Suc p + r) = count_bits_set (2 * (2 ^ p + k))" by (simp add: k)
    also have "\<dots> = Suc (count_bits_set k)"
      unfolding count_bits_set_even using Suc k by (intro Suc.IH) simp
    finally show ?thesis by (simp add: k)
  next
    case False
    then obtain k where k: "r = 2 * k + 1" by (elim oddE)
    have "count_bits_set (2 ^ Suc p + r) = count_bits_set (Suc (2 * (2 ^ p + k)))" by (simp add: k)
    also have "\<dots> = Suc (Suc (count_bits_set k))"
      unfolding count_bits_set_odd using Suc k by (subst Suc.IH) simp_all
    finally show ?thesis by (simp add: k)
  qed
qed

lemma lowest_bit_set_add_pow2: "0 < r \<Longrightarrow> r < 2 ^ p \<Longrightarrow> lowest_bit_set (2 ^ p + r) = lowest_bit_set r"
proof (induction p arbitrary: r)
  case (Suc p)
  show ?case
  proof (cases "even r")
    case True
    then obtain k where k: "r = 2 * k" by (elim evenE)
    have "lowest_bit_set (2 ^ Suc p + r) = lowest_bit_set (2 * (2 ^ p + k))" by (simp add: k)
    also have "\<dots> = Suc (lowest_bit_set (2 ^ p + k))" by (subst lowest_bit_set_even) simp_all
    also have "lowest_bit_set (2 ^ p + k) = lowest_bit_set k" using Suc k by (intro Suc.IH) auto
    finally show ?thesis using Suc.prems k by simp
  next
    case False
    then obtain k where k: "r = 2 * k + 1" by (elim oddE)
    have "2 ^ Suc p + r = Suc (2 * (2 ^ p + k))" by (simp add: k)
    then show ?thesis using k by (simp only: lowest_bit_set_odd Suc_eq_plus1 [symmetric])
  qed
qed simp

text \<open>Adding one to the size clears the trailing ones and sets the next bit.\<close>

lemma count_bits_set_Suc: "count_bits_set (Suc n) + lowest_bit_set (Suc n) = count_bits_set n + 2"
proof (induction n rule: nat_bit_induct')
  case zero
  show ?case using count_bits_set_odd [of 0] lowest_bit_set_odd [of 0] by simp
next
  case (odd m)
  have "Suc (2 * m + 1) = 2 * Suc m" by simp
  then show ?case using odd by (simp only: count_bits_set_even lowest_bit_set_even) simp
qed simp

lemma pow2_lowest_dvd: "0 < n \<Longrightarrow> 2 ^ (lowest_bit_set n - 1) dvd n"
proof (induction n rule: nat_bit_induct')
  case (even m)
  then have "2 ^ (lowest_bit_set m - 1) dvd m" and "0 < lowest_bit_set m" by (auto simp: neq0_conv [symmetric] simp del: neq0_conv)
  then show ?case using even by (cases "lowest_bit_set m") auto
qed auto

lemma pow2_dvd_lowest: "0 < n \<Longrightarrow> 2 ^ p dvd n \<Longrightarrow> p < lowest_bit_set n"
proof (induction n arbitrary: p rule: nat_bit_induct')
  case (even m)
  then show ?case by (cases p) auto
next
  case (odd m)
  have "p = 0"
  proof (rule ccontr)
    assume "p \<noteq> 0"
    then have "2 dvd (2::nat) ^ p" by simp
    then have "2 dvd 2 * m + 1" using odd.prems(2) by (rule dvd_trans)
    then show False by simp
  qed
  then show ?case by simp
qed auto

end
