(* ===== verification/Tree_Hasher.thy ===== *)
theory Tree_Hasher
  imports Ledger_Util
begin

text \<open>
  \<^verbatim>\<open>ledger/tree_hasher.py\<close>. The digest function (\<^verbatim>\<open>hashlib.sha256\<close> by default, an
  argument of the class) is a parameter \<open>H\<close> of every definition. The reference the code is
  compared with is the Merkle tree hash of RFC 6962, \<open>mth\<close>, over the list of leaf hashes.
\<close>

section \<open>Definitions\<close>

definition hash_empty :: "(bytes \<Rightarrow> bytes) \<Rightarrow> bytes" where
  "hash_empty H = H []"

definition hash_leaf :: "(bytes \<Rightarrow> bytes) \<Rightarrow> bytes \<Rightarrow> bytes" where
  "hash_leaf H data = H (0 # data)"

definition hash_children :: "(bytes \<Rightarrow> bytes) \<Rightarrow> bytes \<Rightarrow> bytes \<Rightarrow> bytes" where
  "hash_children H left right = H (1 # left @ right)"

text \<open>
  \<^verbatim>\<open>_hash_full\<close> with its two assertions. \<^verbatim>\<open>(width - 1).bit_length()\<close> is the position
  of the highest bit. The left call's range is strictly smaller whenever the first assertion
  holds, which is why the assertion guards the recursion.
\<close>

function hash_full :: "(bytes \<Rightarrow> bytes) \<Rightarrow> bytes list \<Rightarrow> nat \<Rightarrow> nat \<Rightarrow> (bytes \<times> bytes list) result" where
  "hash_full H leaves l_idx r_idx =
     (if r_idx < l_idx \<or> r_idx > length leaves then Inl IndexError
      else let width = r_idx - l_idx in
        if width = 0 then Inr (hash_empty H, [])
        else if width = 1 then
          (let leaf_hash = hash_leaf H (leaves ! l_idx) in Inr (leaf_hash, [leaf_hash]))
        else
          (let split_width = 2 ^ (highest_bit_set (width - 1) - 1) in
           if \<not> (split_width < width \<and> width \<le> 2 * split_width) then Inl AssertionError
           else
             bindE (hash_full H leaves l_idx (l_idx + split_width)) (\<lambda>(l_root, l_hashes).
             bindE (assertE AssertionError (length l_hashes = 1)) (\<lambda>_.
             bindE (hash_full H leaves (l_idx + split_width) r_idx) (\<lambda>(r_root, r_hashes).
               let root_hash = hash_children H l_root r_root in
               Inr (root_hash, if split_width * 2 = width then [root_hash] else l_hashes @ r_hashes))))))"
  by pat_completeness auto
termination
  by (relation "measure (\<lambda>(H, leaves, l, r). r - l)") (auto intro!: diff_less_mono2)

definition hash_fold :: "(bytes \<Rightarrow> bytes) \<Rightarrow> bytes list \<Rightarrow> bytes result" where
  "hash_fold H hashes =
     (case rev hashes of
        [] \<Rightarrow> Inl StopIteration
      | accum # rest \<Rightarrow> Inr (foldl (\<lambda>accum cur. hash_children H cur accum) accum rest))"

definition hash_full_tree :: "(bytes \<Rightarrow> bytes) \<Rightarrow> bytes list \<Rightarrow> bytes result" where
  "hash_full_tree H leaves =
     bindE (hash_full H leaves 0 (length leaves)) (\<lambda>(root_hash, _). Inr root_hash)"

declare hash_full.simps [simp del]

section \<open>The RFC 6962 tree hash\<close>

text \<open>The largest power of two below \<open>n\<close>, and the largest one not above \<open>n\<close>.\<close>

definition split_pt :: "nat \<Rightarrow> nat" where
  "split_pt n = 2 ^ (highest_bit_set (n - 1) - 1)"

definition top_pow :: "nat \<Rightarrow> nat" where
  "top_pow n = 2 ^ (highest_bit_set n - 1)"

lemma split_pt_bounds: "2 \<le> n \<Longrightarrow> 0 < split_pt n \<and> split_pt n < n \<and> n \<le> 2 * split_pt n"
  using highest_bit_set_bounds [of "n - 1"]
  by (cases "highest_bit_set (n - 1)") (auto simp: split_pt_def)

lemma top_pow_bounds: "0 < n \<Longrightarrow> 0 < top_pow n \<and> top_pow n \<le> n \<and> n < 2 * top_pow n"
  using highest_bit_set_bounds [of n] by (cases "highest_bit_set n") (auto simp: top_pow_def)

lemma pow2_sandwich: "2 ^ p < (m::nat) \<Longrightarrow> m \<le> 2 * 2 ^ p \<Longrightarrow> 2 ^ q < m \<Longrightarrow> m \<le> 2 * 2 ^ q \<Longrightarrow> p = q"
proof (rule ccontr)
  assume a: "2 ^ p < m" "m \<le> 2 * 2 ^ p" "2 ^ q < m" "m \<le> 2 * 2 ^ q" and "p \<noteq> q"
  then consider "Suc p \<le> q" | "Suc q \<le> p" by linarith
  then show False
  proof cases
    case 1
    then have "2 ^ Suc p \<le> (2::nat) ^ q" by (rule power_increasing) simp
    with a show False by simp
  next
    case 2
    then have "2 ^ Suc q \<le> (2::nat) ^ p" by (rule power_increasing) simp
    with a show False by simp
  qed
qed

lemma split_pt_unique: "2 ^ p < n \<Longrightarrow> n \<le> 2 * 2 ^ p \<Longrightarrow> split_pt n = 2 ^ p"
proof -
  assume a: "2 ^ p < n" "n \<le> 2 * 2 ^ p"
  then have "2 \<le> n" using one_le_power [of "2::nat" p] by linarith
  from split_pt_bounds [OF this] a show ?thesis
    using pow2_sandwich [of p n "highest_bit_set (n - 1) - 1"] by (simp add: split_pt_def)
qed

lemma top_pow_unique: "2 ^ p \<le> n \<Longrightarrow> n < 2 * 2 ^ p \<Longrightarrow> top_pow n = 2 ^ p"
  using highest_bit_set_unique [of p n] by (simp add: top_pow_def)

lemma split_pt_top_pow: "2 \<le> n \<Longrightarrow> n \<noteq> top_pow n \<Longrightarrow> split_pt n = top_pow n"
  using top_pow_bounds [of n] split_pt_unique [of "highest_bit_set n - 1" n]
  by (simp add: top_pow_def)

lemma split_pt_pow2: "split_pt (2 ^ Suc p) = 2 ^ p"
  by (rule split_pt_unique) simp_all

lemma top_pow_pow2 [simp]: "top_pow (2 ^ p) = 2 ^ p"
  by (rule top_pow_unique) simp_all

function mth :: "(bytes \<Rightarrow> bytes) \<Rightarrow> bytes list \<Rightarrow> bytes" where
  "mth H hs =
     (if length hs = 0 then hash_empty H
      else if length hs = 1 then hs ! 0
      else hash_children H (mth H (take (split_pt (length hs)) hs)) (mth H (drop (split_pt (length hs)) hs)))"
  by pat_completeness auto
termination
proof (relation "measure (\<lambda>(H, hs). length hs)")
  fix hs :: "bytes list" and H :: "bytes \<Rightarrow> bytes"
  assume "length hs \<noteq> 0" "length hs \<noteq> 1"
  then have "2 \<le> length hs" by linarith
  from split_pt_bounds [OF this]
  show "((H, take (split_pt (length hs)) hs), (H, hs)) \<in> measure (\<lambda>(H, hs). length hs)"
    and "((H, drop (split_pt (length hs)) hs), (H, hs)) \<in> measure (\<lambda>(H, hs). length hs)"
    by auto
qed simp

declare mth.simps [simp del]

lemma mth_single [simp]: "mth H [h] = h"
  by (simp add: mth.simps)

lemma mth_append:
  assumes "length as = 2 ^ p" and "bs \<noteq> []" and "length bs \<le> 2 ^ p"
  shows "mth H (as @ bs) = hash_children H (mth H as) (mth H bs)"
proof -
  have "0 < length bs" using assms by simp
  then have "split_pt (length (as @ bs)) = 2 ^ p"
    by (intro split_pt_unique) (simp_all add: assms)
  moreover have "2 \<le> length (as @ bs)"
    unfolding length_append assms(1) using \<open>0 < length bs\<close> one_le_power [of "2::nat" p] by linarith
  ultimately show ?thesis using assms by (subst mth.simps) simp
qed

section \<open>The full subtrees of a tree\<close>

text \<open>The roots of the full subtrees a tree decomposes into, largest first.\<close>

function subroots :: "(bytes \<Rightarrow> bytes) \<Rightarrow> bytes list \<Rightarrow> bytes list" where
  "subroots H hs =
     (if hs = [] then []
      else mth H (take (top_pow (length hs)) hs) # subroots H (drop (top_pow (length hs)) hs))"
  by pat_completeness auto
termination
proof (relation "measure (\<lambda>(H, hs). length hs)")
  fix hs :: "bytes list" and H :: "bytes \<Rightarrow> bytes"
  assume "hs \<noteq> []"
  with top_pow_bounds [of "length hs"]
  show "((H, drop (top_pow (length hs)) hs), (H, hs)) \<in> measure (\<lambda>(H, hs). length hs)" by simp
qed simp

declare subroots.simps [simp del]

lemma subroots_Nil [simp]: "subroots H [] = []"
  by (simp add: subroots.simps)

lemma subroots_eq_Nil [simp]: "subroots H hs = [] \<longleftrightarrow> hs = []"
  by (subst subroots.simps) simp

lemma subroots_full: "length hs = 2 ^ p \<Longrightarrow> subroots H hs = [mth H hs]"
  by (subst subroots.simps) auto

lemma subroots_split:
  "length as = 2 ^ p \<Longrightarrow> length bs < 2 ^ p \<Longrightarrow> subroots H (as @ bs) = mth H as # subroots H bs"
  using top_pow_unique [of p "length (as @ bs)"] by (subst subroots.simps) auto

fun hfold :: "(bytes \<Rightarrow> bytes) \<Rightarrow> bytes list \<Rightarrow> bytes" where
  "hfold H [] = hash_empty H"
| "hfold H [h] = h"
| "hfold H (h # hs) = hash_children H h (hfold H hs)"

lemma hfold_Cons: "hs \<noteq> [] \<Longrightarrow> hfold H (h # hs) = hash_children H h (hfold H hs)"
  by (cases hs) simp_all

lemma hash_fold_hfold: "hs \<noteq> [] \<Longrightarrow> hash_fold H hs = Inr (hfold H hs)"
proof (induction hs rule: list_nonempty_induct)
  case (cons x xs)
  then obtain a r where r: "rev xs = a # r" by (cases "rev xs") auto
  with cons show ?case by (simp add: hash_fold_def hfold_Cons)
qed (simp add: hash_fold_def)

lemma hfold_subroots: "hfold H (subroots H hs) = mth H hs"
proof (induction hs rule: length_induct)
  case (1 hs)
  show ?case
  proof (cases "hs = []")
    case True
    then show ?thesis by (simp add: mth.simps)
  next
    case False
    let ?k = "top_pow (length hs)"
    have k: "0 < ?k" "?k \<le> length hs" "length hs < 2 * ?k" using False top_pow_bounds by auto
    show ?thesis
    proof (cases "length hs = ?k")
      case True
      then show ?thesis using False by (subst subroots.simps) simp
    next
      case ne: False
      with k have d: "drop ?k hs \<noteq> []" by simp
      have "mth H hs = mth H (take ?k hs @ drop ?k hs)" by simp
      also have "\<dots> = hash_children H (mth H (take ?k hs)) (mth H (drop ?k hs))"
        using k d by (intro mth_append [where p = "highest_bit_set (length hs) - 1"])
          (auto simp: top_pow_def)
      also have "mth H (drop ?k hs) = hfold H (subroots H (drop ?k hs))"
        using 1 k by simp
      finally show ?thesis
        using False d by (subst subroots.simps) (simp add: hfold_Cons)
    qed
  qed
qed

text \<open>\<^verbatim>\<open>_hash_full\<close> computes the tree hash and the roots of the full subtrees of its range.\<close>

lemma hash_full_wide:
  assumes "2 \<le> r - l" and "r \<le> length leaves"
  shows "hash_full H leaves l r =
     bindE (hash_full H leaves l (l + split_pt (r - l))) (\<lambda>(l_root, l_hashes).
     bindE (assertE AssertionError (length l_hashes = 1)) (\<lambda>_.
     bindE (hash_full H leaves (l + split_pt (r - l)) r) (\<lambda>(r_root, r_hashes).
       Inr (hash_children H l_root r_root,
            if split_pt (r - l) * 2 = r - l then [hash_children H l_root r_root] else l_hashes @ r_hashes))))"
proof -
  have "\<not> (r < l \<or> r > length leaves)" "r - l \<noteq> 0" "r - l \<noteq> 1" using assms by auto
  moreover have "split_pt (r - l) < r - l \<and> r - l \<le> 2 * split_pt (r - l)"
    using split_pt_bounds [OF assms(1)] by simp
  ultimately show ?thesis
    by (subst hash_full.simps) (simp only: Let_def split_pt_def if_False not_True_eq_False conj_absorb)
qed

lemma mth_subroots_split:
  assumes "2 \<le> length hs"
  defines "s \<equiv> split_pt (length hs)"
  shows "mth H hs = hash_children H (mth H (take s hs)) (mth H (drop s hs))"
    and "subroots H (take s hs) = [mth H (take s hs)]"
    and "subroots H hs = (if s * 2 = length hs then [mth H hs] else mth H (take s hs) # subroots H (drop s hs))"
proof -
  note b = split_pt_bounds [OF assms(1), folded s_def]
  obtain p where p: "s = 2 ^ p" by (simp add: s_def split_pt_def)
  show "mth H hs = hash_children H (mth H (take s hs)) (mth H (drop s hs))"
    using assms(1) by (subst mth.simps) (auto simp: s_def)
  show "subroots H (take s hs) = [mth H (take s hs)]"
    using b p by (intro subroots_full [of _ p]) simp
  show "subroots H hs = (if s * 2 = length hs then [mth H hs] else mth H (take s hs) # subroots H (drop s hs))"
  proof (cases "s * 2 = length hs")
    case True
    then show ?thesis using p subroots_full [of hs "Suc p"] by simp
  next
    case False
    with b p have "length (take s hs) = 2 ^ p" "length (drop s hs) < 2 ^ p" by auto
    from subroots_split [OF this] False show ?thesis by simp
  qed
qed

theorem hash_full_correct:
  "l \<le> r \<Longrightarrow> r \<le> length leaves \<Longrightarrow>
   hash_full H leaves l r =
     Inr (mth H (map (hash_leaf H) (py_slice l r leaves)), subroots H (map (hash_leaf H) (py_slice l r leaves)))"
proof (induction "r - l" arbitrary: l r rule: less_induct)
  case less
  let ?L = "\<lambda>i j. map (hash_leaf H) (py_slice i j leaves)"
  let ?w = "r - l"
  consider "?w = 0" | "?w = 1" | "2 \<le> ?w" by linarith
  then show ?case
  proof cases
    case 1
    then show ?thesis using less.prems by (subst hash_full.simps) (simp add: mth.simps py_slice_def)
  next
    case 2
    then have "r = Suc l" by simp
    moreover have "l < length leaves" using 2 less.prems by simp
    ultimately show ?thesis
      by (subst hash_full.simps) (simp add: Let_def py_slice_single subroots_full [where p = 0])
  next
    case 3
    let ?s = "split_pt ?w"
    note b = split_pt_bounds [OF 3]
    have ls: "l + ?s \<le> length leaves" "l + ?s \<le> r" using b less.prems by linarith+
    have len: "length (?L l r) = ?w" using less.prems by simp
    have tk: "take ?s (?L l r) = ?L l (l + ?s)" and dr: "drop ?s (?L l r) = ?L (l + ?s) r"
      using ls less.prems by (simp_all add: py_slice_def take_map drop_map drop_take add.commute)
    have left: "hash_full H leaves l (l + ?s) = Inr (mth H (?L l (l + ?s)), subroots H (?L l (l + ?s)))"
      using b ls less.prems by (intro less.hyps) auto
    have right: "hash_full H leaves (l + ?s) r = Inr (mth H (?L (l + ?s) r), subroots H (?L (l + ?s) r))"
      using b ls less.prems by (intro less.hyps) auto
    note sp = mth_subroots_split [of "?L l r" H, unfolded len tk dr, OF 3]
    show ?thesis
      unfolding hash_full_wide [OF 3 less.prems(2)] left right sp(2)
      by (simp add: sp(1) [symmetric] sp(3))
  qed
qed

end
