(* ===== verification/KV_Store.thy ===== *)
theory KV_Store
  imports Prelude
begin

text \<open>
  The key-value storage interface of \<^verbatim>\<open>storage/kv_store.py\<close> as a record of operations and a
  contract, and the in-memory storage of \<^verbatim>\<open>storage/kv_in_memory.py\<close>, which satisfies it. The
  LevelDB and RocksDB storages only forward to their libraries; what the rest of the code
  relies on is the contract.
\<close>

section \<open>The interface\<close>

record 'kv KeyValueStorage =
  kv_put :: "'kv \<Rightarrow> bytes \<Rightarrow> bytes \<Rightarrow> 'kv"
  kv_get :: "'kv \<Rightarrow> bytes \<Rightarrow> bytes result"
  kv_remove :: "'kv \<Rightarrow> bytes \<Rightarrow> 'kv result"
  kv_reset :: "'kv \<Rightarrow> 'kv"
  kv_items :: "'kv \<Rightarrow> (bytes \<times> bytes) list"

text \<open>The operations the base class defines over the abstract ones.\<close>

definition kv_size :: "('kv, 'a) KeyValueStorage_scheme \<Rightarrow> 'kv \<Rightarrow> nat" where
  "kv_size ops s = length (kv_items ops s)"

definition has_key :: "('kv, 'a) KeyValueStorage_scheme \<Rightarrow> 'kv \<Rightarrow> bytes \<Rightarrow> bool result" where
  "has_key ops s key =
     (case kv_get ops s key of
        Inr _ \<Rightarrow> Inr True
      | Inl e \<Rightarrow> if e = KeyError then Inr False else Inl e)"

section \<open>The in-memory storage\<close>

type_synonym kvm = "(bytes \<times> bytes) list"

definition kvm_get :: "kvm \<Rightarrow> bytes \<Rightarrow> bytes result" where
  "kvm_get d key = (case map_of d key of None \<Rightarrow> Inl KeyError | Some v \<Rightarrow> Inr v)"

definition kvm_put :: "kvm \<Rightarrow> bytes \<Rightarrow> bytes \<Rightarrow> kvm" where
  "kvm_put d key v = AList.update key v d"

definition kvm_remove :: "kvm \<Rightarrow> bytes \<Rightarrow> kvm result" where
  "kvm_remove d key = (if map_of d key = None then Inl KeyError else Inr (AList.delete key d))"

definition kvm_setBatch :: "kvm \<Rightarrow> (bytes \<times> bytes) list \<Rightarrow> kvm" where
  "kvm_setBatch d batch = foldl (\<lambda>d (key, v). kvm_put d key v) d batch"

definition WRITE_OP :: int where "WRITE_OP = 1"

definition REMOVE_OP :: int where "REMOVE_OP = 2"

definition kvm_do_ops_in_batch :: "kvm \<Rightarrow> (int \<times> bytes \<times> bytes) list \<Rightarrow> kvm result" where
  "kvm_do_ops_in_batch d batch =
     foldE (\<lambda>d (op, key, v).
        if op = WRITE_OP then Inr (kvm_put d key v)
        else if op = REMOVE_OP then kvm_remove d key
        else Inl ValueError) d batch"

definition kvm_reset :: "kvm \<Rightarrow> kvm" where
  "kvm_reset d = []"

definition kvm_ops :: "kvm KeyValueStorage" where
  "kvm_ops =
     \<lparr>kv_put = kvm_put, kv_get = kvm_get, kv_remove = kvm_remove, kv_reset = kvm_reset,
      kv_items = (\<lambda>d. d)\<rparr>"

section \<open>The contract\<close>

locale kv_storage =
  fixes ops :: "'kv KeyValueStorage" and kv_map :: "'kv \<Rightarrow> bytes \<rightharpoonup> bytes" and kv_inv :: "'kv \<Rightarrow> bool"
  assumes get_spec: "kv_inv s \<Longrightarrow> kv_get ops s k = (case kv_map s k of None \<Rightarrow> Inl KeyError | Some v \<Rightarrow> Inr v)"
    and put_inv: "kv_inv s \<Longrightarrow> kv_inv (kv_put ops s k v)"
    and put_map: "kv_inv s \<Longrightarrow> kv_map (kv_put ops s k v) = (kv_map s)(k \<mapsto> v)"
    and remove_spec: "kv_inv s \<Longrightarrow> kv_map s k \<noteq> None \<Longrightarrow>
          \<exists>s'. kv_remove ops s k = Inr s' \<and> kv_inv s' \<and> kv_map s' = (kv_map s)(k := None)"
    and reset_inv: "kv_inv s \<Longrightarrow> kv_inv (kv_reset ops s)"
    and reset_map: "kv_inv s \<Longrightarrow> kv_map (kv_reset ops s) = Map.empty"
    and items_distinct: "kv_inv s \<Longrightarrow> distinct (map fst (kv_items ops s))"
    and items_map: "kv_inv s \<Longrightarrow> map_of (kv_items ops s) = kv_map s"
begin

lemma size_card: "kv_inv s \<Longrightarrow> kv_size ops s = card (dom (kv_map s))"
  using distinct_card [OF items_distinct, of s] items_map [of s, symmetric]
  by (simp add: kv_size_def dom_map_of_conv_image_fst)

lemma has_key_spec: "kv_inv s \<Longrightarrow> has_key ops s k = Inr (kv_map s k \<noteq> None)"
  by (simp add: has_key_def get_spec split: option.splits)

lemma finite_dom: "kv_inv s \<Longrightarrow> finite (dom (kv_map s))"
  using items_map [of s, symmetric] by (simp add: dom_map_of_conv_image_fst)

end

interpretation kvm: kv_storage kvm_ops map_of "\<lambda>d. distinct (map fst d)"
proof
  fix s :: kvm and k v :: bytes
  assume "distinct (map fst s)"
  note [simp] = kvm_ops_def kvm_put_def kvm_get_def kvm_remove_def kvm_reset_def
  show "kv_get kvm_ops s k = (case map_of s k of None \<Rightarrow> Inl KeyError | Some v \<Rightarrow> Inr v)" by simp
  show "distinct (map fst (kv_put kvm_ops s k v))"
    using \<open>distinct (map fst s)\<close> by (simp add: distinct_update)
  show "map_of (kv_put kvm_ops s k v) = (map_of s)(k \<mapsto> v)" by (simp add: update_conv')
  show "map_of s k \<noteq> None \<Longrightarrow>
      \<exists>s'. kv_remove kvm_ops s k = Inr s' \<and> distinct (map fst s') \<and> map_of s' = (map_of s)(k := None)"
    using \<open>distinct (map fst s)\<close> by (simp add: distinct_delete delete_conv')
  show "distinct (map fst (kv_reset kvm_ops s))" by simp
  show "map_of (kv_reset kvm_ops s) = Map.empty" by simp
  show "distinct (map fst (kv_items kvm_ops s))" using \<open>distinct (map fst s)\<close> by simp
  show "map_of (kv_items kvm_ops s) = map_of s" by simp
qed

end
