(* ===== verification/Hash_Store.thy ===== *)
theory Hash_Store
  imports Tree_Hasher KV_Store
begin

text \<open>
  \<^verbatim>\<open>ledger/hash_stores\<close> and \<^verbatim>\<open>plenum/persistence/db_hash_store.py\<close>: the stores that keep
  the leaf hashes and the hashes of the full inner nodes of a Merkle tree, numbered from 1.
  The abstract class is a record of operations; its numbering functions
  \<open>getNodePosition\<close> and \<open>getPath\<close> are shared by all stores. The contract
  \<open>hash_store\<close> is what the tree relies on; the file store and the database store (over any
  key-value storage) satisfy it.
\<close>

section \<open>The interface and the numbering of nodes\<close>

text \<open>The writing half alone is what appending to a tree uses.\<close>

record 'hs HashWriter =
  hs_writeLeaf :: "'hs \<Rightarrow> bytes \<Rightarrow> 'hs result"
  hs_writeNode :: "'hs \<Rightarrow> nat \<times> nat \<times> bytes \<Rightarrow> 'hs result"

record 'hs HashStore = "'hs HashWriter" +
  hs_readLeaf :: "'hs \<Rightarrow> int \<Rightarrow> bytes option result"
  hs_readNode :: "'hs \<Rightarrow> int \<Rightarrow> bytes option result"
  hs_leafCount :: "'hs \<Rightarrow> nat"
  hs_nodeCount :: "'hs \<Rightarrow> nat"
  hs_reset :: "'hs \<Rightarrow> 'hs"

text \<open>
  \<^verbatim>\<open>getNodePosition(start, height)\<close>; a missing height is 0, since the source takes
  \<^verbatim>\<open>height or pwr\<close>. For \<open>start = 0\<close> the source computes \<^verbatim>\<open>pow(2, -1)\<close>, a float, and
  the next \<^verbatim>\<open>highest_bit_set\<close> raises on it.
\<close>

function getNodePosition :: "nat \<Rightarrow> nat \<Rightarrow> int result" where
  "getNodePosition start height =
     (if start = 0 then Inl TypeError
      else let pwr = highest_bit_set start - 1; height' = (if height = 0 then pwr else height) in
        if count_bits_set start = 1 then Inr (int start - 1 + (int height' - int pwr))
        else let c = 2 ^ pwr in
          bindE (getNodePosition c pwr) (\<lambda>a.
          bindE (getNodePosition (start - c) height') (\<lambda>b. Inr (a + b))))"
  by pat_completeness auto
termination
proof (relation "measure fst")
  fix start pwr c :: nat
  assume "start \<noteq> 0" "pwr = highest_bit_set start - 1" "count_bits_set start \<noteq> 1" "c = 2 ^ pwr"
  then have "c \<le> start" using highest_bit_set_bounds [of start] by simp
  moreover have "c \<noteq> start" using \<open>count_bits_set start \<noteq> 1\<close> \<open>c = 2 ^ pwr\<close> by (metis count_bits_set_pow2)
  moreover have "0 < c" using \<open>c = 2 ^ pwr\<close> by simp
  ultimately show "((c, pwr), start, height) \<in> measure fst" 
    and "((start - c, h'), start, height) \<in> measure fst" for height h' :: nat
    by auto
qed simp

declare getNodePosition.simps [simp del]

function getPath :: "nat \<Rightarrow> nat \<Rightarrow> (nat list \<times> int list) result" where
  "getPath seqNo offset =
     (if offset \<ge> seqNo then Inl ValueError
      else let pwr = int (highest_bit_set (seqNo - 1 - offset)) - 1 in
        if pwr \<le> 0 then (if seqNo mod 2 = 0 then Inr ([seqNo - 1], []) else Inr ([], []))
        else let c = 2 ^ nat pwr + offset in
          bindE (getPath seqNo c) (\<lambda>(leafs, nodes).
          bindE (getNodePosition c (nat pwr)) (\<lambda>pos. Inr (leafs, nodes @ [pos]))))"
  by pat_completeness auto
termination
  by (relation "measure (\<lambda>(seqNo, offset). seqNo - offset)") (auto intro!: diff_less_mono2)

declare getPath.simps [simp del]

definition validatePos :: "int \<Rightarrow> unit result" where
  "validatePos start = assertE IndexError (\<not> start < 1)"

section \<open>The memory store\<close>

text \<open>
  \<^verbatim>\<open>MemoryHashStore.writeNode\<close> appends what it is given, and the tree gives every store the
  triple of start, height and hash.
\<close>

record MemoryHashStore =
  m_leafs :: "bytes list"
  m_nodes :: "(nat \<times> nat \<times> bytes) list"

definition mhs_reset :: "MemoryHashStore \<Rightarrow> MemoryHashStore" where
  "mhs_reset s = s\<lparr>m_nodes := [], m_leafs := []\<rparr>"

definition mhs_writeLeaf :: "MemoryHashStore \<Rightarrow> bytes \<Rightarrow> MemoryHashStore" where
  "mhs_writeLeaf s leafHash = s\<lparr>m_leafs := m_leafs s @ [leafHash]\<rparr>"

definition mhs_writeNode :: "MemoryHashStore \<Rightarrow> nat \<times> nat \<times> bytes \<Rightarrow> MemoryHashStore" where
  "mhs_writeNode s nodeHash = s\<lparr>m_nodes := m_nodes s @ [nodeHash]\<rparr>"

text \<open>Python's indexing of a list: a negative index counts from the end.\<close>

definition py_nth :: "'a list \<Rightarrow> int \<Rightarrow> 'a result" where
  "py_nth xs i =
     (let j = (if i < 0 then i + int (length xs) else i) in
      if 0 \<le> j \<and> j < int (length xs) then Inr (xs ! nat j) else Inl IndexError)"

definition mhs_readLeaf :: "MemoryHashStore \<Rightarrow> int \<Rightarrow> bytes result" where
  "mhs_readLeaf s pos = py_nth (m_leafs s) (pos - 1)"

definition mhs_readNode :: "MemoryHashStore \<Rightarrow> int \<Rightarrow> (nat \<times> nat \<times> bytes) result" where
  "mhs_readNode s pos = py_nth (m_nodes s) (pos - 1)"

definition mhs_leafCount :: "MemoryHashStore \<Rightarrow> nat" where
  "mhs_leafCount s = length (m_leafs s)"

definition mhs_nodeCount :: "MemoryHashStore \<Rightarrow> nat" where
  "mhs_nodeCount s = length (m_nodes s)"

definition mhs_empty :: MemoryHashStore where
  "mhs_empty = \<lparr>m_leafs = [], m_nodes = []\<rparr>"

definition mhs_ops :: "MemoryHashStore HashWriter" where
  "mhs_ops = \<lparr>hs_writeLeaf = (\<lambda>s h. Inr (mhs_writeLeaf s h)), hs_writeNode = (\<lambda>s n. Inr (mhs_writeNode s n))\<rparr>"

section \<open>The file store\<close>

text \<open>
  The two files hold fixed-size records. They are opened in append mode, so a write goes to
  the end wherever a read left the position; a read past the end is short.
\<close>

record FileHashStore =
  nodesFile :: bytes
  leavesFile :: bytes
  nodeSize :: nat
  leafSize :: nat

definition fhs_write :: "bytes \<Rightarrow> bytes \<Rightarrow> nat \<Rightarrow> bytes result" where
  "fhs_write data store sz = (if length data \<noteq> sz then Inl ValueError else Inr (store @ data))"

definition fhs_read :: "bytes \<Rightarrow> int \<Rightarrow> nat \<Rightarrow> bytes result" where
  "fhs_read store entryNo sz =
     (let off = (entryNo - 1) * int sz in
      if off < 0 then Inl OSError else Inr (take sz (drop (nat off) store)))"

definition fhs_writeNode :: "FileHashStore \<Rightarrow> nat \<times> nat \<times> bytes \<Rightarrow> FileHashStore result" where
  "fhs_writeNode s node =
     (let data = snd (snd node) in
      bindE (fhs_write data (nodesFile s) (nodeSize s)) (\<lambda>f. Inr (s\<lparr>nodesFile := f\<rparr>)))"

definition fhs_writeLeaf :: "FileHashStore \<Rightarrow> bytes \<Rightarrow> FileHashStore result" where
  "fhs_writeLeaf s leafHash =
     bindE (fhs_write leafHash (leavesFile s) (leafSize s)) (\<lambda>f. Inr (s\<lparr>leavesFile := f\<rparr>))"

definition fhs_readNode :: "FileHashStore \<Rightarrow> int \<Rightarrow> bytes option result" where
  "fhs_readNode s pos =
     bindE (fhs_read (nodesFile s) pos (nodeSize s)) (\<lambda>data.
       if length data < nodeSize s then Inl IndexError else Inr (Some data))"

definition fhs_readLeaf :: "FileHashStore \<Rightarrow> int \<Rightarrow> bytes option result" where
  "fhs_readLeaf s pos =
     bindE (fhs_read (leavesFile s) pos (leafSize s)) (\<lambda>data.
       if length data < leafSize s then Inl IndexError else Inr (Some data))"

definition fhs_leafCount :: "FileHashStore \<Rightarrow> nat" where
  "fhs_leafCount s = length (leavesFile s) div leafSize s"

definition fhs_nodeCount :: "FileHashStore \<Rightarrow> nat" where
  "fhs_nodeCount s = length (nodesFile s) div nodeSize s"

definition fhs_reset :: "FileHashStore \<Rightarrow> FileHashStore" where
  "fhs_reset s = s\<lparr>nodesFile := [], leavesFile := []\<rparr>"

definition fhs_ops :: "FileHashStore HashStore" where
  "fhs_ops =
     \<lparr>hs_writeLeaf = fhs_writeLeaf, hs_writeNode = fhs_writeNode, hs_readLeaf = fhs_readLeaf,
      hs_readNode = fhs_readNode, hs_leafCount = fhs_leafCount, hs_nodeCount = fhs_nodeCount,
      hs_reset = fhs_reset\<rparr>"

section \<open>The database store\<close>

record 'kv DbHashStore =
  nodesDb :: 'kv
  leavesDb :: 'kv
  dbLeafCount :: nat

text \<open>\<^verbatim>\<open>open\<close> over the two storages; the leaf count is their recorded size.\<close>

definition dhs_open :: "'kv KeyValueStorage \<Rightarrow> 'kv \<Rightarrow> 'kv \<Rightarrow> 'kv DbHashStore" where
  "dhs_open kv nodes leaves = \<lparr>nodesDb = nodes, leavesDb = leaves, dbLeafCount = kv_size kv leaves\<rparr>"

definition db_key :: "int \<Rightarrow> bytes" where
  "db_key i = encode (py_str i)"

definition dhs_writeLeaf :: "'kv KeyValueStorage \<Rightarrow> 'kv DbHashStore \<Rightarrow> bytes \<Rightarrow> 'kv DbHashStore result" where
  "dhs_writeLeaf kv s leafHash =
     Inr (s\<lparr>leavesDb := kv_put kv (leavesDb s) (db_key (int (dbLeafCount s) + 1)) leafHash,
            dbLeafCount := dbLeafCount s + 1\<rparr>)"

definition dhs_writeNode ::
  "'kv KeyValueStorage \<Rightarrow> 'kv DbHashStore \<Rightarrow> nat \<times> nat \<times> bytes \<Rightarrow> 'kv DbHashStore result" where
  "dhs_writeNode kv s node =
     (case node of (start, height, nodeHash) \<Rightarrow>
        bindE (getNodePosition start height) (\<lambda>seqNo.
          Inr (s\<lparr>nodesDb := kv_put kv (nodesDb s) (db_key seqNo) nodeHash\<rparr>)))"

text \<open>\<^verbatim>\<open>_readOne\<close> logs a missing key and returns \<^verbatim>\<open>None\<close>.\<close>

definition dhs_readOne :: "'kv KeyValueStorage \<Rightarrow> int \<Rightarrow> 'kv \<Rightarrow> bytes option result" where
  "dhs_readOne kv pos db =
     bindE (validatePos pos) (\<lambda>_.
       case kv_get kv db (db_key pos) of
         Inr v \<Rightarrow> Inr (Some v)
       | Inl e \<Rightarrow> if e = KeyError then Inr None else Inl e)"

definition dhs_readLeaf :: "'kv KeyValueStorage \<Rightarrow> 'kv DbHashStore \<Rightarrow> int \<Rightarrow> bytes option result" where
  "dhs_readLeaf kv s seqNo = dhs_readOne kv seqNo (leavesDb s)"

definition dhs_readNode :: "'kv KeyValueStorage \<Rightarrow> 'kv DbHashStore \<Rightarrow> int \<Rightarrow> bytes option result" where
  "dhs_readNode kv s seqNo = dhs_readOne kv seqNo (nodesDb s)"

definition dhs_nodeCount :: "'kv KeyValueStorage \<Rightarrow> 'kv DbHashStore \<Rightarrow> nat" where
  "dhs_nodeCount kv s = kv_size kv (nodesDb s)"

definition dhs_reset :: "'kv KeyValueStorage \<Rightarrow> 'kv DbHashStore \<Rightarrow> 'kv DbHashStore" where
  "dhs_reset kv s =
     s\<lparr>nodesDb := kv_reset kv (nodesDb s), leavesDb := kv_reset kv (leavesDb s), dbLeafCount := 0\<rparr>"

definition dhs_ops :: "'kv KeyValueStorage \<Rightarrow> 'kv DbHashStore HashStore" where
  "dhs_ops kv =
     \<lparr>hs_writeLeaf = dhs_writeLeaf kv, hs_writeNode = dhs_writeNode kv,
      hs_readLeaf = dhs_readLeaf kv, hs_readNode = dhs_readNode kv,
      hs_leafCount = dbLeafCount, hs_nodeCount = dhs_nodeCount kv, hs_reset = dhs_reset kv\<rparr>"

section \<open>Where the nodes are\<close>

text \<open>
  A tree of \<open>n\<close> leaves has a stored node for every full subtree of at least two leaves. The
  nodes are stored in the order their last leaf arrives, lowest first; \<open>node_list\<close> is that
  order, \<open>getNodePosition\<close> the index into it.
\<close>

fun node_list :: "(bytes \<Rightarrow> bytes) \<Rightarrow> bytes list \<Rightarrow> nat \<Rightarrow> bytes list" where
  "node_list H hs 0 = []"
| "node_list H hs (Suc n) =
     node_list H hs n @ map (\<lambda>h. mth H (py_slice (Suc n - 2 ^ h) (Suc n) hs)) [1..<lowest_bit_set (Suc n)]"

lemma length_node_list: "length (node_list H hs n) + count_bits_set n = n"
proof (induction n)
  case (Suc n)
  have "0 < lowest_bit_set (Suc n)" using lowest_bit_set_eq_0 [of "Suc n"] by (simp del: lowest_bit_set_eq_0)
  then show ?case using Suc count_bits_set_Suc [of n] by simp
qed simp

lemma node_list_append: "n \<le> length hs \<Longrightarrow> node_list H (hs @ hs') n = node_list H hs n"
  by (induction n) (simp_all add: py_slice_append_left)

lemma node_list_nth:
  assumes "1 \<le> h" and "h < lowest_bit_set i" and "i \<le> n" and "0 < i"
  shows "node_list H hs n ! (length (node_list H hs (i - 1)) + h - 1) = mth H (py_slice (i - 2 ^ h) i hs)"
    and "length (node_list H hs (i - 1)) + h \<le> length (node_list H hs n)"
proof -
  obtain j where i: "i = Suc j" using assms by (cases i) auto
  have "length (node_list H hs (i - 1)) + h \<le> length (node_list H hs n) \<and>
     node_list H hs n ! (length (node_list H hs (i - 1)) + h - 1) = mth H (py_slice (i - 2 ^ h) i hs)"
    using \<open>i \<le> n\<close>
  proof (induction n)
    case 0
    then show ?case using assms by simp
  next
    case (Suc n)
    show ?case
    proof (cases "i = Suc n")
      case True
      moreover have "\<not> length (node_list H hs n) + h - 1 < length (node_list H hs n)"
        and "length (node_list H hs n) + h - 1 - length (node_list H hs n) = h - 1"
        using assms(1) by linarith+
      ultimately show ?thesis using assms(1,2) by (simp add: nth_append)
    next
      case False
      with Suc have IH: "length (node_list H hs (i - 1)) + h \<le> length (node_list H hs n) \<and>
        node_list H hs n ! (length (node_list H hs (i - 1)) + h - 1) = mth H (py_slice (i - 2 ^ h) i hs)"
        by simp
      then have "length (node_list H hs (i - 1)) + h - 1 < length (node_list H hs n)" using assms by linarith
      with IH show ?thesis by (simp add: nth_append)
    qed
  qed
  then show "node_list H hs n ! (length (node_list H hs (i - 1)) + h - 1) = mth H (py_slice (i - 2 ^ h) i hs)"
    and "length (node_list H hs (i - 1)) + h \<le> length (node_list H hs n)" by auto
qed

lemma getNodePosition_closed:
  "0 < start \<Longrightarrow> 0 < height \<Longrightarrow>
   getNodePosition start height =
     Inr (int start - int (count_bits_set start) - int (lowest_bit_set start) + 1 + int height)"
proof (induction start arbitrary: height rule: less_induct)
  case (less start)
  let ?pwr = "highest_bit_set start - 1"
  let ?c = "2 ^ ?pwr :: nat"
  have b: "?c \<le> start" "start < 2 * ?c"
    using highest_bit_set_bounds [OF less.prems(1)] by (cases "highest_bit_set start"; simp)+
  show ?case
  proof (cases "count_bits_set start = 1")
    case True
    then obtain p where "start = 2 ^ p" using count_bits_set_1D by blast
    then show ?thesis using less.prems by (subst getNodePosition.simps) (simp add: Let_def)
  next
    case False
    then have "start \<noteq> ?c" by (metis count_bits_set_pow2)
    define r where "r = start - ?c"
    have r: "0 < r" "r < ?c" "start = ?c + r" using b \<open>start \<noteq> ?c\<close> by (auto simp: r_def)
    have "getNodePosition ?c ?pwr = Inr (int ?c - 1)"
      by (subst getNodePosition.simps) (simp add: Let_def)
    moreover have "getNodePosition r height =
        Inr (int r - int (count_bits_set r) - int (lowest_bit_set r) + 1 + int height)"
      using r less.prems by (intro less.IH) auto
    moreover have "count_bits_set start = Suc (count_bits_set r)"
      using r count_bits_set_add_pow2 [of r ?pwr] by simp
    moreover have "lowest_bit_set start = lowest_bit_set r"
      using r lowest_bit_set_add_pow2 [of r ?pwr] by simp
    moreover have "int start = int ?c + int r" using r(3) by linarith
    moreover have "getNodePosition start height =
        bindE (getNodePosition ?c ?pwr) (\<lambda>a. bindE (getNodePosition r height) (\<lambda>b. Inr (a + b)))"
      using False less.prems by (subst getNodePosition.simps) (simp add: Let_def r_def)
    ultimately show ?thesis by simp
  qed
qed

text \<open>The position of the node of height \<open>h\<close> that leaf \<open>i\<close> completes.\<close>

lemma getNodePosition_node_list:
  assumes "0 < i" and "1 \<le> h"
  shows "getNodePosition i h = Inr (int (length (node_list H hs (i - 1))) + int h)"
proof -
  obtain j where i: "i = Suc j" using assms by (cases i) auto
  have "count_bits_set i + lowest_bit_set i = count_bits_set j + 2"
    using count_bits_set_Suc [of j] by (simp add: i)
  moreover have "length (node_list H hs j) + count_bits_set j = j" by (rule length_node_list)
  ultimately have "int (length (node_list H hs j)) =
      int i - int (count_bits_set i) - int (lowest_bit_set i) + 1"
    using i by linarith
  then show ?thesis using assms getNodePosition_closed [of i h] by (simp add: i)
qed

section \<open>The contract of a hash store\<close>

text \<open>
  A store holds a list of leaf hashes and a list of node hashes. Writing a node is only
  promised to work for the next free position: the file store ignores the position and
  appends, the database store writes at the position. A digest has \<open>dlen\<close> bytes.
\<close>

locale hash_store =
  fixes ops :: "'hs HashStore" and dlen :: nat
    and leafs :: "'hs \<Rightarrow> bytes list" and nodes :: "'hs \<Rightarrow> bytes list" and hs_ok :: "'hs \<Rightarrow> bool"
  assumes writeLeaf: "hs_ok s \<Longrightarrow> length h = dlen \<Longrightarrow>
      \<exists>s'. hs_writeLeaf ops s h = Inr s' \<and> hs_ok s' \<and> leafs s' = leafs s @ [h] \<and> nodes s' = nodes s"
    and writeNode: "hs_ok s \<Longrightarrow> length h = dlen \<Longrightarrow>
      getNodePosition start height = Inr (int (length (nodes s)) + 1) \<Longrightarrow>
      \<exists>s'. hs_writeNode ops s (start, height, h) = Inr s' \<and> hs_ok s' \<and>
        leafs s' = leafs s \<and> nodes s' = nodes s @ [h]"
    and readLeaf: "hs_ok s \<Longrightarrow> 1 \<le> pos \<Longrightarrow> pos \<le> int (length (leafs s)) \<Longrightarrow>
      hs_readLeaf ops s pos = Inr (Some (leafs s ! nat (pos - 1)))"
    and readNode: "hs_ok s \<Longrightarrow> 1 \<le> pos \<Longrightarrow> pos \<le> int (length (nodes s)) \<Longrightarrow>
      hs_readNode ops s pos = Inr (Some (nodes s ! nat (pos - 1)))"
    and leafCount: "hs_ok s \<Longrightarrow> hs_leafCount ops s = length (leafs s)"
    and nodeCount: "hs_ok s \<Longrightarrow> hs_nodeCount ops s = length (nodes s)"
    and reset_store: "hs_ok s \<Longrightarrow>
      hs_ok (hs_reset ops s) \<and> leafs (hs_reset ops s) = [] \<and> nodes (hs_reset ops s) = []"

section \<open>The file store meets the contract\<close>

definition records :: "nat \<Rightarrow> bytes \<Rightarrow> bytes list" where
  "records sz f = map (\<lambda>i. take sz (drop (i * sz) f)) [0..<length f div sz]"

definition fhs_ok :: "nat \<Rightarrow> FileHashStore \<Rightarrow> bool" where
  "fhs_ok sz s \<longleftrightarrow> leafSize s = sz \<and> nodeSize s = sz \<and> sz dvd length (leavesFile s) \<and> sz dvd length (nodesFile s)"

lemma length_records [simp]: "length (records sz f) = length f div sz"
  by (simp add: records_def)

lemma records_Nil [simp]: "records sz [] = []"
  by (simp add: records_def)

lemma records_append:
  assumes "0 < sz" and "sz dvd length f" and "length d = sz"
  shows "records sz (f @ d) = records sz f @ [d]"
proof -
  obtain k where k: "length f = sz * k" using assms(2) by (elim dvdE)
  have "(sz * k + sz) div sz = Suc k" using assms(1) by simp
  moreover have "take sz (drop (i * sz) (f @ d)) = take sz (drop (i * sz) f)" if "i < k" for i
  proof -
    have "Suc i * sz \<le> k * sz" using that by (intro mult_le_mono1) simp
    then show ?thesis using k by (simp add: mult.commute [of k])
  qed
  ultimately show ?thesis using assms by (simp add: records_def k mult.commute)
qed

lemma fhs_read_records:
  assumes "0 < sz" and "sz dvd length f" and "1 \<le> pos" and "pos \<le> int (length f div sz)"
  shows "fhs_read f pos sz = Inr (records sz f ! nat (pos - 1))"
    and "length (records sz f ! nat (pos - 1)) = sz"
proof -
  define i where "i = nat (pos - 1)"
  have pos: "pos - 1 = int i" using assms by (simp add: i_def)
  obtain k where k: "length f = sz * k" using assms(2) by (elim dvdE)
  have "i < k" using assms k pos by simp
  then have "Suc i * sz \<le> k * sz" by (intro mult_le_mono1) simp
  moreover have "nat (int i * int sz) = i * sz" by (simp add: nat_mult_distrib)
  moreover have r: "records sz f ! i = take sz (drop (i * sz) f)"
    using \<open>i < k\<close> k assms(1) by (simp add: records_def)
  ultimately show "fhs_read f pos sz = Inr (records sz f ! nat (pos - 1))"
    and "length (records sz f ! nat (pos - 1)) = sz"
    by (simp_all add: fhs_read_def Let_def pos k mult.commute not_less)
qed

interpretation fhs: hash_store fhs_ops 32 "\<lambda>s. records 32 (leavesFile s)" "\<lambda>s. records 32 (nodesFile s)" "fhs_ok 32"
proof
  fix s :: FileHashStore and h :: bytes and start height :: nat and pos :: int
  assume s: "fhs_ok 32 s"
  note defs = fhs_ops_def fhs_ok_def fhs_writeLeaf_def fhs_writeNode_def fhs_write_def
  show "\<exists>s'. hs_writeLeaf fhs_ops s h = Inr s' \<and> fhs_ok 32 s' \<and>
      records 32 (leavesFile s') = records 32 (leavesFile s) @ [h] \<and> records 32 (nodesFile s') = records 32 (nodesFile s)"
    if "length h = 32"
    using s that by (simp add: defs records_append)
  show "\<exists>s'. hs_writeNode fhs_ops s (start, height, h) = Inr s' \<and> fhs_ok 32 s' \<and>
      records 32 (leavesFile s') = records 32 (leavesFile s) \<and> records 32 (nodesFile s') = records 32 (nodesFile s) @ [h]"
    if "length h = 32"
    using s that by (simp add: defs records_append)
  show "hs_readLeaf fhs_ops s pos = Inr (Some (records 32 (leavesFile s) ! nat (pos - 1)))"
    if "1 \<le> pos" "pos \<le> int (length (records 32 (leavesFile s)))"
    using s that fhs_read_records [of 32 "leavesFile s" pos]
    by (simp add: fhs_ops_def fhs_readLeaf_def fhs_ok_def)
  show "hs_readNode fhs_ops s pos = Inr (Some (records 32 (nodesFile s) ! nat (pos - 1)))"
    if "1 \<le> pos" "pos \<le> int (length (records 32 (nodesFile s)))"
    using s that fhs_read_records [of 32 "nodesFile s" pos]
    by (simp add: fhs_ops_def fhs_readNode_def fhs_ok_def)
  show "hs_leafCount fhs_ops s = length (records 32 (leavesFile s))"
    using s by (simp add: fhs_ops_def fhs_leafCount_def fhs_ok_def)
  show "hs_nodeCount fhs_ops s = length (records 32 (nodesFile s))"
    using s by (simp add: fhs_ops_def fhs_nodeCount_def fhs_ok_def)
  show "fhs_ok 32 (hs_reset fhs_ops s) \<and> records 32 (leavesFile (hs_reset fhs_ops s)) = [] \<and>
      records 32 (nodesFile (hs_reset fhs_ops s)) = []"
    using s by (simp add: fhs_ops_def fhs_reset_def fhs_ok_def)
qed

section \<open>The database store meets the contract over any key-value storage\<close>

lemma db_key_inj: "0 \<le> i \<Longrightarrow> 0 \<le> j \<Longrightarrow> db_key i = db_key j \<longleftrightarrow> i = j"
  using py_str_nonneg_inj inj_encode by (auto simp: db_key_def inj_def)

text \<open>A storage that holds exactly the keys \<open>1..n\<close> is a list.\<close>

definition numbered :: "(bytes \<rightharpoonup> bytes) \<Rightarrow> nat \<Rightarrow> bool" where
  "numbered m n \<longleftrightarrow> dom m = (\<lambda>i. db_key (int i + 1)) ` {..<n}"

definition numbered_list :: "(bytes \<rightharpoonup> bytes) \<Rightarrow> nat \<Rightarrow> bytes list" where
  "numbered_list m n = map (\<lambda>i. the (m (db_key (int i + 1)))) [0..<n]"

lemma numbered_card: "numbered m n \<Longrightarrow> card (dom m) = n"
proof -
  have "inj_on (\<lambda>i. db_key (int i + 1)) {..<n}" by (auto simp: inj_on_def db_key_inj)
  then show "numbered m n \<Longrightarrow> card (dom m) = n" by (simp add: numbered_def card_image)
qed

lemma numbered_put:
  assumes "numbered m n"
  shows "numbered (m(db_key (int n + 1) \<mapsto> h)) (Suc n)"
    and "numbered_list (m(db_key (int n + 1) \<mapsto> h)) (Suc n) = numbered_list m n @ [h]"
  using assms by (auto simp: numbered_def numbered_list_def db_key_inj lessThan_Suc)

lemma numbered_nth:
  assumes "numbered m n" and "1 \<le> pos" and "pos \<le> int n"
  shows "m (db_key pos) = Some (numbered_list m n ! nat (pos - 1))"
proof -
  have "db_key pos \<in> dom m"
    using assms by (auto simp: numbered_def intro!: image_eqI [of _ _ "nat (pos - 1)"])
  moreover have "nat (pos - 1) < n" using assms by linarith
  ultimately show ?thesis using assms by (auto simp: numbered_list_def)
qed

lemma numbered_empty [simp]: "numbered Map.empty 0" "numbered_list m 0 = []"
  by (simp_all add: numbered_def numbered_list_def)

definition dhs_ok :: "('kv \<Rightarrow> bytes \<rightharpoonup> bytes) \<Rightarrow> ('kv \<Rightarrow> bool) \<Rightarrow> 'kv DbHashStore \<Rightarrow> bool" where
  "dhs_ok kv_map kv_inv s \<longleftrightarrow>
     kv_inv (leavesDb s) \<and> kv_inv (nodesDb s) \<and> numbered (kv_map (leavesDb s)) (dbLeafCount s) \<and>
     numbered (kv_map (nodesDb s)) (card (dom (kv_map (nodesDb s))))"

definition dhs_leafs :: "('kv \<Rightarrow> bytes \<rightharpoonup> bytes) \<Rightarrow> 'kv DbHashStore \<Rightarrow> bytes list" where
  "dhs_leafs kv_map s = numbered_list (kv_map (leavesDb s)) (dbLeafCount s)"

definition dhs_nodes :: "('kv \<Rightarrow> bytes \<rightharpoonup> bytes) \<Rightarrow> 'kv DbHashStore \<Rightarrow> bytes list" where
  "dhs_nodes kv_map s = numbered_list (kv_map (nodesDb s)) (card (dom (kv_map (nodesDb s))))"

lemma length_numbered_list [simp]: "length (numbered_list m n) = n"
  by (simp add: numbered_list_def)

sublocale kv_storage \<subseteq> dhs: hash_store "dhs_ops ops" 32 "dhs_leafs kv_map" "dhs_nodes kv_map" "dhs_ok kv_map kv_inv"
proof
  fix s :: "'kv DbHashStore" and h :: bytes and start height :: nat and pos :: int
  assume s: "dhs_ok kv_map kv_inv s"
  show "\<exists>s'. hs_writeLeaf (dhs_ops ops) s h = Inr s' \<and> dhs_ok kv_map kv_inv s' \<and>
      dhs_leafs kv_map s' = dhs_leafs kv_map s @ [h] \<and> dhs_nodes kv_map s' = dhs_nodes kv_map s"
    using s by (simp add: dhs_ops_def dhs_writeLeaf_def dhs_ok_def dhs_leafs_def dhs_nodes_def put_inv put_map numbered_put)
  show "\<exists>s'. hs_writeNode (dhs_ops ops) s (start, height, h) = Inr s' \<and> dhs_ok kv_map kv_inv s' \<and>
      dhs_leafs kv_map s' = dhs_leafs kv_map s \<and> dhs_nodes kv_map s' = dhs_nodes kv_map s @ [h]"
    if "getNodePosition start height = Inr (int (length (dhs_nodes kv_map s)) + 1)"
  proof -
    let ?m = "kv_map (nodesDb s)"
    let ?m' = "?m(db_key (int (card (dom ?m)) + 1) \<mapsto> h)"
    have n: "numbered ?m (card (dom ?m))" using s by (simp add: dhs_ok_def)
    have "card (dom ?m') = Suc (card (dom ?m))" by (rule numbered_card [OF numbered_put(1) [OF n]])
    then show ?thesis
      using s that numbered_put [OF n, of h]
      by (simp add: dhs_ops_def dhs_writeNode_def dhs_ok_def dhs_leafs_def dhs_nodes_def put_inv put_map del: dom_fun_upd)
  qed
  show "hs_readLeaf (dhs_ops ops) s pos = Inr (Some (dhs_leafs kv_map s ! nat (pos - 1)))"
    if "1 \<le> pos" "pos \<le> int (length (dhs_leafs kv_map s))"
    using s that numbered_nth [of "kv_map (leavesDb s)" "dbLeafCount s" pos]
    by (simp add: dhs_ops_def dhs_readLeaf_def dhs_readOne_def validatePos_def dhs_ok_def dhs_leafs_def get_spec)
  show "hs_readNode (dhs_ops ops) s pos = Inr (Some (dhs_nodes kv_map s ! nat (pos - 1)))"
    if "1 \<le> pos" "pos \<le> int (length (dhs_nodes kv_map s))"
    using s that numbered_nth [of "kv_map (nodesDb s)" "card (dom (kv_map (nodesDb s)))" pos]
    by (simp add: dhs_ops_def dhs_readNode_def dhs_readOne_def validatePos_def dhs_ok_def dhs_nodes_def get_spec)
  show "hs_leafCount (dhs_ops ops) s = length (dhs_leafs kv_map s)"
    by (simp add: dhs_ops_def dhs_leafs_def)
  show "hs_nodeCount (dhs_ops ops) s = length (dhs_nodes kv_map s)"
    using s by (simp add: dhs_ops_def dhs_nodeCount_def dhs_nodes_def dhs_ok_def size_card)
  show "dhs_ok kv_map kv_inv (hs_reset (dhs_ops ops) s) \<and>
      dhs_leafs kv_map (hs_reset (dhs_ops ops) s) = [] \<and> dhs_nodes kv_map (hs_reset (dhs_ops ops) s) = []"
    using s by (simp add: dhs_ops_def dhs_reset_def dhs_ok_def dhs_leafs_def dhs_nodes_def reset_inv reset_map)
qed

end
