(* ===== verification/Compact_Merkle_Tree.thy ===== *)
theory Compact_Merkle_Tree
  imports Hash_Store
begin

text \<open>
  \<^verbatim>\<open>ledger/compact_merkle_tree.py\<close>. A tree keeps its size and the hashes of its full
  subtrees, largest first, next to a hash store. The hash store is any implementation of the
  interface: its operations are the first argument of the operations that use it. The private
  root-hash field of the source is a memo of \<^verbatim>\<open>root_hash\<close> that every \<^verbatim>\<open>_update\<close> clears, and
  \<^verbatim>\<open>merkle_tree_hash\<close> is wrapped in \<^verbatim>\<open>functools.lru_cache\<close>; both are modelled without the
  memo, and \<open>merkle_tree_hash_stable\<close> below shows that appending never invalidates one.
\<close>

section \<open>Definitions\<close>

record 'hs CompactMerkleTree =
  t_hashStore :: 'hs
  tree_size :: nat
  t_hashes :: "bytes list"
  mintree_height :: nat

definition update_tree :: "'hs CompactMerkleTree \<Rightarrow> nat \<Rightarrow> bytes list \<Rightarrow> 'hs CompactMerkleTree result" where
  "update_tree t size' hashes =
     (let bits_set = count_bits_set size'; num_hashes = length hashes in
      if num_hashes \<noteq> bits_set then Inl ValueError
      else Inr (t\<lparr>tree_size := size', t_hashes := hashes, mintree_height := lowest_bit_set size'\<rparr>))"

definition mk_CompactMerkleTree :: "'hs \<Rightarrow> 'hs CompactMerkleTree" where
  "mk_CompactMerkleTree store = \<lparr>t_hashStore = store, tree_size = 0, t_hashes = [], mintree_height = 0\<rparr>"

text \<open>
  \<^verbatim>\<open>__copy__\<close> passes no hash store, so the copy has a fresh one; \<open>fresh\<close> is the empty store.
\<close>

definition copy_tree :: "'m \<Rightarrow> 'hs CompactMerkleTree \<Rightarrow> 'm CompactMerkleTree result" where
  "copy_tree fresh t = update_tree (mk_CompactMerkleTree fresh) (tree_size t) (t_hashes t)"

definition root_hash :: "(bytes \<Rightarrow> bytes) \<Rightarrow> 'hs CompactMerkleTree \<Rightarrow> bytes result" where
  "root_hash H t = (if t_hashes t \<noteq> [] then hash_fold H (t_hashes t) else Inr (hash_empty H))"

lemma bindE_cong [fundef_cong]:
  "m = m' \<Longrightarrow> (\<And>x. m' = Inr x \<Longrightarrow> f x = f' x) \<Longrightarrow> bindE m f = bindE m' f'"
  by (cases m') simp_all

function push_subtree_hash ::
  "(bytes \<Rightarrow> bytes) \<Rightarrow> 'hs CompactMerkleTree \<Rightarrow> nat \<Rightarrow> bytes \<Rightarrow> ('hs CompactMerkleTree \<times> (bytes \<times> nat) list) result" where
  "push_subtree_hash H t subtree_h sub_hash =
     (let sz = 2 ^ (subtree_h - 1); mintree_h = mintree_height t in
      if subtree_h < mintree_h \<or> mintree_h = 0 then
        bindE (update_tree t (tree_size t + sz) (t_hashes t @ [sub_hash])) (\<lambda>t'. Inr (t', []))
      else
        bindE (assertE AssertionError (subtree_h = mintree_h)) (\<lambda>_.
        bindE (if t_hashes t = [] then Inl IndexError else Inr (last (t_hashes t))) (\<lambda>prev_hash.
        bindE (update_tree t (tree_size t - sz) (butlast (t_hashes t))) (\<lambda>t'.
        bindE (assertE AssertionError (mintree_h < mintree_height t' \<or> mintree_height t' = 0)) (\<lambda>_.
        let next_hash = hash_children H prev_hash sub_hash in
        bindE (push_subtree_hash H t' (subtree_h + 1) next_hash) (\<lambda>(t'', nodes).
          Inr (t'', (next_hash, subtree_h) # nodes)))))))"
  by pat_completeness auto
termination
  by (relation "measure (\<lambda>(H, t, h, sh). length (t_hashes t))")
    (auto simp: update_tree_def Let_def length_greater_0_conv [symmetric]
      split: if_splits simp del: length_greater_0_conv)

declare push_subtree_hash.simps [simp del]

definition writeLeaves :: "('hs, 'z) HashWriter_scheme \<Rightarrow> 'hs \<Rightarrow> bytes list \<Rightarrow> 'hs result" where
  "writeLeaves ops st hashes = foldE (hs_writeLeaf ops) st hashes"

definition writeNodes :: "('hs, 'z) HashWriter_scheme \<Rightarrow> 'hs \<Rightarrow> (nat \<times> nat \<times> bytes) list \<Rightarrow> 'hs result" where
  "writeNodes ops st nodes = foldE (hs_writeNode ops) st nodes"

definition push_subtree ::
  "('hs, 'z) HashWriter_scheme \<Rightarrow> (bytes \<Rightarrow> bytes) \<Rightarrow> 'hs CompactMerkleTree \<Rightarrow> bytes list \<Rightarrow> 'hs CompactMerkleTree result" where
  "push_subtree ops H t leaves =
     (let sz = length leaves in
      if count_bits_set sz \<noteq> 1 then Inl ValueError
      else let subtree_h = lowest_bit_set sz; mintree_h = mintree_height t in
        if mintree_h > 0 \<and> subtree_h > mintree_h then Inl ValueError
        else
          bindE (hash_full H leaves 0 sz) (\<lambda>(root, hashes).
          bindE (writeLeaves ops (t_hashStore t) hashes) (\<lambda>st.
          bindE (push_subtree_hash H (t\<lparr>t_hashStore := st\<rparr>) subtree_h root) (\<lambda>(t', new_node_hashes).
          let nodes = map (\<lambda>(h, height). (tree_size t', height, h)) new_node_hashes in
          bindE (writeNodes ops (t_hashStore t') nodes) (\<lambda>st'.
            Inr (t'\<lparr>t_hashStore := st'\<rparr>))))))"

definition append_leaf ::
  "('hs, 'z) HashWriter_scheme \<Rightarrow> (bytes \<Rightarrow> bytes) \<Rightarrow> 'hs CompactMerkleTree \<Rightarrow> bytes \<Rightarrow> ('hs CompactMerkleTree \<times> bytes list) result" where
  "append_leaf ops H t new_leaf =
     (let auditPath = rev (t_hashes t) in
      bindE (push_subtree ops H t [new_leaf]) (\<lambda>t'. Inr (t', auditPath)))"

text \<open>The loop of \<^verbatim>\<open>extend\<close>, then \<^verbatim>\<open>extend\<close> and \<^verbatim>\<open>extended\<close>.\<close>

function extend_loop ::
  "('hs, 'z) HashWriter_scheme \<Rightarrow> (bytes \<Rightarrow> bytes) \<Rightarrow> 'hs CompactMerkleTree \<Rightarrow> bytes list \<Rightarrow> nat \<Rightarrow> ('hs CompactMerkleTree \<times> nat) result" where
  "extend_loop ops H t new_leaves idx =
     (let max_h = mintree_height t; max_size = (if max_h > 0 then 2 ^ (max_h - 1) else 0) in
      if max_h > 0 \<and> idx + max_size \<le> length new_leaves then
        bindE (push_subtree ops H t (py_slice idx (idx + max_size) new_leaves)) (\<lambda>t'.
          extend_loop ops H t' new_leaves (idx + max_size))
      else Inr (t, idx))"
  by pat_completeness auto
termination
  by (relation "measure (\<lambda>(ops, H, t, ls, idx). length ls - idx)") (auto simp: Let_def intro!: diff_less_mono2 elim!: order.strict_trans2 [rotated])

declare extend_loop.simps [simp del]

definition extend ::
  "('hs, 'z) HashWriter_scheme \<Rightarrow> (bytes \<Rightarrow> bytes) \<Rightarrow> 'hs CompactMerkleTree \<Rightarrow> bytes list \<Rightarrow> 'hs CompactMerkleTree result" where
  "extend ops H t new_leaves =
     (let sz = length new_leaves; final_size = tree_size t + sz in
      bindE (extend_loop ops H t new_leaves 0) (\<lambda>(t', idx).
      bindE (if idx < sz then
               bindE (hash_full H new_leaves idx sz) (\<lambda>(_, hashes).
                 update_tree t' final_size (t_hashes t' @ hashes))
             else Inr t') (\<lambda>t''.
      bindE (assertE AssertionError (tree_size t'' = final_size)) (\<lambda>_. Inr t''))))"

definition extended ::
  "('m, 'z) HashWriter_scheme \<Rightarrow> (bytes \<Rightarrow> bytes) \<Rightarrow> 'm \<Rightarrow> 'hs CompactMerkleTree \<Rightarrow> bytes list \<Rightarrow> 'm CompactMerkleTree result" where
  "extended ops H fresh t new_leaves = bindE (copy_tree fresh t) (\<lambda>new_tree. extend ops H new_tree new_leaves)"

text \<open>
  A missing position of the database store reads as \<^verbatim>\<open>None\<close>, and concatenating \<^verbatim>\<open>None\<close> to
  a byte string raises.
\<close>

definition fold_read :: "(bytes \<Rightarrow> bytes) \<Rightarrow> bytes option list \<Rightarrow> bytes option result" where
  "fold_read H hashes =
     (case rev hashes of
        [] \<Rightarrow> Inl StopIteration
      | accum # rest \<Rightarrow>
          foldE (\<lambda>accum cur. case (cur, accum) of
                   (Some c, Some a) \<Rightarrow> Inr (Some (hash_children H c a))
                 | _ \<Rightarrow> Inl TypeError) accum rest)"

definition merkle_tree_hash ::
  "'hs HashStore \<Rightarrow> (bytes \<Rightarrow> bytes) \<Rightarrow> 'hs CompactMerkleTree \<Rightarrow> nat \<Rightarrow> nat \<Rightarrow> bytes option result" where
  "merkle_tree_hash ops H t start end' =
     (let st = t_hashStore t in
      if \<not> end' > start then Inl ValueError
      else if end' - start = 1 then hs_readLeaf ops st (int end')
      else
        bindE (getPath end' start) (\<lambda>(leafs, nodes).
        bindE (hs_readLeaf ops st (int end')) (\<lambda>leafHash.
        bindE (mapE (\<lambda>h. hs_readLeaf ops st (int h)) leafs) (\<lambda>lhs.
        bindE (mapE (\<lambda>h. hs_readNode ops st h) nodes) (\<lambda>nhs.
          fold_read H (rev (leafHash # lhs @ nhs)))))))"

text \<open>\<^verbatim>\<open>len(bin(x))\<close>: the sign, the prefix and at least one digit.\<close>

definition len_bin :: "int \<Rightarrow> int" where
  "len_bin x = (if x < 0 then 1 else 0) + 2 + max 1 (int (highest_bit_set (nat \<bar>x\<bar>)))"

text \<open>
  The two recursions need not return (\<open>_subproof\<close> of 0 does not); the interpreter then raises
  \<^verbatim>\<open>RecursionError\<close>. \<open>None\<close> stands for a call that does not return.
\<close>

partial_function (option) subproof :: "int \<Rightarrow> int \<Rightarrow> int \<Rightarrow> bool \<Rightarrow> (int \<times> int) list option" where
  "subproof m start_n end_n b =
     (let n = end_n - start_n in
      if m = n then (if b then Some [] else Some [(start_n, end_n)])
      else let k = 2 ^ nat (len_bin (n - 1) - 3) in
        if m \<le> k then
          Option.bind (subproof m start_n (start_n + k) b) (\<lambda>p. Some (p @ [(start_n + k, end_n)]))
        else
          Option.bind (subproof (m - k) (start_n + k) end_n False) (\<lambda>p. Some (p @ [(start_n, start_n + k)])))"

partial_function (option) path :: "int \<Rightarrow> int \<Rightarrow> int \<Rightarrow> (int \<times> int) list option" where
  "path m start_n end_n =
     (let n = end_n - start_n in
      if n = 1 then Some []
      else let k = 2 ^ nat (len_bin (n - 1) - 3) in
        if m < k then
          Option.bind (path m start_n (start_n + k)) (\<lambda>p. Some (p @ [(start_n + k, end_n)]))
        else
          Option.bind (path (m - k) (start_n + k) end_n) (\<lambda>p. Some (p @ [(start_n, start_n + k)])))"

definition range_hashes ::
  "'hs HashStore \<Rightarrow> (bytes \<Rightarrow> bytes) \<Rightarrow> 'hs CompactMerkleTree \<Rightarrow> (int \<times> int) list option \<Rightarrow> bytes option list result" where
  "range_hashes ops H t ranges =
     (case ranges of
        None \<Rightarrow> Inl RecursionError
      | Some rs \<Rightarrow> mapE (\<lambda>(a, b). merkle_tree_hash ops H t (nat a) (nat b)) rs)"

definition consistency_proof ::
  "'hs HashStore \<Rightarrow> (bytes \<Rightarrow> bytes) \<Rightarrow> 'hs CompactMerkleTree \<Rightarrow> nat \<Rightarrow> nat \<Rightarrow> bytes option list result" where
  "consistency_proof ops H t first second =
     range_hashes ops H t (subproof (int first) 0 (int second) True)"

definition inclusion_proof ::
  "'hs HashStore \<Rightarrow> (bytes \<Rightarrow> bytes) \<Rightarrow> 'hs CompactMerkleTree \<Rightarrow> nat \<Rightarrow> nat \<Rightarrow> bytes option list result" where
  "inclusion_proof ops H t start end' = range_hashes ops H t (path (int start) 0 (int end'))"

definition get_tree_head ::
  "'hs HashStore \<Rightarrow> (bytes \<Rightarrow> bytes) \<Rightarrow> 'hs CompactMerkleTree \<Rightarrow> nat option \<Rightarrow> (nat \<times> bytes option) result" where
  "get_tree_head ops H t seq =
     (let seq' = (case seq of None \<Rightarrow> tree_size t | Some n \<Rightarrow> n) in
      if seq' > tree_size t then Inl IndexError
      else bindE (if seq' \<noteq> 0 then merkle_tree_hash ops H t 0 seq' else Inr None) (\<lambda>h. Inr (seq', h)))"

fun expected_node_count_loop :: "nat \<Rightarrow> nat \<Rightarrow> nat" where
  "expected_node_count_loop leaf_count count =
     (if leaf_count > 1 then expected_node_count_loop (leaf_count div 2) (count + leaf_count div 2) else count)"

declare expected_node_count_loop.simps [simp del]

definition get_expected_node_count :: "nat \<Rightarrow> nat" where
  "get_expected_node_count leaf_count = expected_node_count_loop leaf_count 0"

definition verify_consistency :: "'hs HashStore \<Rightarrow> 'hs CompactMerkleTree \<Rightarrow> nat \<Rightarrow> bool result" where
  "verify_consistency ops t expected_leaf_count =
     (let st = t_hashStore t in
      if expected_leaf_count \<noteq> hs_leafCount ops st then Inl ConsistencyVerificationFailed
      else if get_expected_node_count (hs_leafCount ops st) \<noteq> hs_nodeCount ops st
        then Inl ConsistencyVerificationFailed
      else Inr True)"

definition reset_tree :: "'hs HashStore \<Rightarrow> 'hs CompactMerkleTree \<Rightarrow> 'hs CompactMerkleTree result" where
  "reset_tree ops t = update_tree (t\<lparr>t_hashStore := hs_reset ops (t_hashStore t)\<rparr>) 0 []"

section \<open>The shape of the tree\<close>

lemma length_subroots: "length (subroots H hs) = count_bits_set (length hs)"
proof (induction hs rule: length_induct)
  case (1 hs)
  show ?case
  proof (cases "hs = []")
    case False
    let ?k = "top_pow (length hs)"
    have k: "0 < ?k" "?k \<le> length hs" "length hs < 2 * ?k" using False top_pow_bounds by auto
    then have "length hs - ?k < 2 ^ (highest_bit_set (length hs) - 1)" by (simp add: top_pow_def)
    then have "count_bits_set (2 ^ (highest_bit_set (length hs) - 1) + (length hs - ?k)) =
        Suc (count_bits_set (length hs - ?k))" by (rule count_bits_set_add_pow2)
    then have "count_bits_set (length hs) = Suc (count_bits_set (length hs - ?k))"
      using k(2) by (simp add: top_pow_def)
    moreover have "length (subroots H (drop ?k hs)) = count_bits_set (length hs - ?k)"
      using 1 k by simp
    ultimately show ?thesis using False by (subst subroots.simps) simp
  qed simp
qed

lemma dvd_add_le: "d dvd a \<Longrightarrow> d dvd b \<Longrightarrow> a < b \<Longrightarrow> a + d \<le> (b::nat)"
proof -
  assume "d dvd a" "d dvd b" "a < b"
  then have "d dvd b - a" by simp
  then have "d \<le> b - a" using \<open>a < b\<close> by (intro dvd_imp_le) auto
  then show ?thesis using \<open>a < b\<close> by simp
qed

lemma subroots_append:
  "2 ^ q dvd length hs \<Longrightarrow> length rest < 2 ^ q \<Longrightarrow>
   subroots H (hs @ rest) = subroots H hs @ subroots H rest"
proof (induction hs rule: length_induct)
  case (1 hs)
  show ?case
  proof (cases "hs = []")
    case False
    define p where "p = highest_bit_set (length hs) - 1"
    have k: "2 ^ p \<le> length hs" "length hs < 2 * 2 ^ p" and tp: "top_pow (length hs) = 2 ^ p"
      using False top_pow_bounds [of "length hs"] by (auto simp: p_def top_pow_def)
    have "2 ^ q \<le> length hs" using "1.prems"(1) False by (intro dvd_imp_le) auto
    with k have "(2::nat) ^ q < 2 ^ Suc p" by simp
    then have "q \<le> p" by (metis less_Suc_eq_le power_strict_increasing_iff one_less_numeral_iff semiring_norm(76))
    then have dvd: "2 ^ q dvd (2::nat) ^ p" by (rule le_imp_power_dvd)
    then have "length hs + 2 ^ q \<le> 2 * 2 ^ p" using "1.prems"(1) k(2) by (intro dvd_add_le) auto
    then have "top_pow (length (hs @ rest)) = 2 ^ p"
      using k "1.prems"(2) by (intro top_pow_unique) auto
    moreover have "subroots H (drop (2 ^ p) hs @ rest) = subroots H (drop (2 ^ p) hs) @ subroots H rest"
      using 1 k dvd False by (simp add: dvd_diff_nat)
    ultimately show ?thesis
      using False k by (subst (1 2) subroots.simps) (simp add: tp)
  qed simp
qed

lemma lowest_bit_set_add: "2 ^ Suc p dvd a \<Longrightarrow> lowest_bit_set (a + 2 ^ p) = Suc p"
proof (induction p arbitrary: a)
  case 0
  then obtain b where "a = 2 * b" by auto
  then show ?case using lowest_bit_set_odd [of b] by simp
next
  case (Suc p)
  then obtain b where a: "a = 2 * b" and b: "2 ^ Suc p dvd b" by auto
  then have "lowest_bit_set (a + 2 ^ Suc p) = lowest_bit_set (2 * (b + 2 ^ p))" by simp
  also have "\<dots> = Suc (Suc p)" using Suc.IH [OF b] by (subst lowest_bit_set_even) simp_all
  finally show ?case .
qed

definition tree_shape :: "(bytes \<Rightarrow> bytes) \<Rightarrow> 'hs CompactMerkleTree \<Rightarrow> bytes list \<Rightarrow> bool" where
  "tree_shape H t hs \<longleftrightarrow>
     tree_size t = length hs \<and> t_hashes t = subroots H hs \<and> mintree_height t = lowest_bit_set (length hs)"

lemma update_tree_shape:
  "\<exists>t'. update_tree t (length hs) (subroots H hs) = Inr t' \<and> tree_shape H t' hs \<and> t_hashStore t' = t_hashStore t"
  by (simp add: update_tree_def length_subroots tree_shape_def)

lemma root_hash_shape: "tree_shape H t hs \<Longrightarrow> root_hash H t = Inr (mth H hs)"
  using hfold_subroots [of H hs]
  by (cases "hs = []") (auto simp: root_hash_def tree_shape_def hash_fold_hfold)

text \<open>Pushing a full subtree: the carry chain of the binary counter, and the nodes it completes.\<close>

definition new_nodes :: "(bytes \<Rightarrow> bytes) \<Rightarrow> bytes list \<Rightarrow> nat \<Rightarrow> (bytes \<times> nat) list" where
  "new_nodes H hs p =
     map (\<lambda>h. (mth H (py_slice (length hs - 2 ^ h) (length hs) hs), h)) [p..<lowest_bit_set (length hs)]"

lemma push_subtree_hash_correct:
  assumes "tree_shape H t hs" and "length ss = 2 ^ p" and "2 ^ p dvd length hs"
  shows "\<exists>t'. push_subtree_hash H t (Suc p) (mth H ss) = Inr (t', new_nodes H (hs @ ss) (Suc p)) \<and>
           tree_shape H t' (hs @ ss) \<and> t_hashStore t' = t_hashStore t"
  using assms
proof (induction "length hs" arbitrary: hs ss p t rule: less_induct)
  case less
  have shape: "tree_size t = length hs" "t_hashes t = subroots H hs" "mintree_height t = lowest_bit_set (length hs)"
    using less.prems(1) by (auto simp: tree_shape_def)
  show ?case
  proof (cases "2 ^ Suc p dvd length hs")
    case True
    have "Suc p < lowest_bit_set (length hs) \<or> lowest_bit_set (length hs) = 0"
      using pow2_dvd_lowest [OF _ True] by auto
    moreover have "subroots H (hs @ ss) = subroots H hs @ [mth H ss]"
      using subroots_append [OF True, of ss H] subroots_full [OF less.prems(2), of H] less.prems(2) by simp
    moreover have "new_nodes H (hs @ ss) (Suc p) = []"
      using lowest_bit_set_add [OF True] less.prems(2) by (simp add: new_nodes_def)
    moreover have "update_tree t (length (hs @ ss)) (subroots H (hs @ ss)) =
        update_tree t (length hs + 2 ^ p) (subroots H hs @ [mth H ss])"
      using calculation less.prems(2) by simp
    ultimately show ?thesis
      using update_tree_shape [of t "hs @ ss" H]
      by (subst push_subtree_hash.simps) (auto simp: Let_def shape)
  next
    case False
    then have pos: "0 < length hs" by auto
    have low: "lowest_bit_set (length hs) = Suc p"
      using pow2_dvd_lowest [OF pos less.prems(3)] pow2_lowest_dvd [OF pos] False
        power_le_dvd [of 2 "lowest_bit_set (length hs) - 1" "length hs" "Suc p"] by fastforce
    define hs' where "hs' = take (length hs - 2 ^ p) hs"
    define ts where "ts = drop (length hs - 2 ^ p) hs"
    have le: "2 ^ p \<le> length hs" using less.prems(3) pos by (rule dvd_imp_le)
    have hs: "hs = hs' @ ts" and lts: "length ts = 2 ^ p" and lhs': "length hs' = length hs - 2 ^ p"
      using le by (auto simp: hs'_def ts_def)
    have dvd': "2 ^ Suc p dvd length hs'"
    proof -
      obtain c where c: "length hs = 2 ^ p * c" using less.prems(3) by (elim dvdE)
      then have "odd c" using False by (auto elim: evenE)
      then obtain d where "c = 2 * d + 1" by (elim oddE)
      then show ?thesis using c lhs' by simp
    qed
    have sr: "subroots H hs = subroots H hs' @ [mth H ts]"
      using subroots_append [OF dvd', of ts H] subroots_full [OF lts, of H] lts hs by simp
    obtain t' where t': "update_tree t (length hs') (subroots H hs') = Inr t'" "tree_shape H t' hs'"
      "t_hashStore t' = t_hashStore t"
      using update_tree_shape by blast
    have up: "Suc p < mintree_height t' \<or> mintree_height t' = 0"
      using t'(2) pow2_dvd_lowest [OF _ dvd'] by (auto simp: tree_shape_def)
    have nxt: "hash_children H (mth H ts) (mth H ss) = mth H (ts @ ss)"
      using lts less.prems(2) by (intro mth_append [symmetric, of _ p]) auto
    obtain t'' where t'': "push_subtree_hash H t' (Suc (Suc p)) (mth H (ts @ ss)) =
          Inr (t'', new_nodes H (hs' @ ts @ ss) (Suc (Suc p)))"
        "tree_shape H t'' (hs' @ ts @ ss)" "t_hashStore t'' = t_hashStore t'"
      using less.hyps [of hs' t' "ts @ ss" "Suc p"] t'(2) dvd' lts less.prems(2) lhs' pos le by auto
    have "Suc p < lowest_bit_set (length (hs @ ss))"
      using dvd' hs lts less.prems(2) by (intro pow2_dvd_lowest) auto
    then have nn: "new_nodes H (hs @ ss) (Suc p) =
        (mth H (ts @ ss), Suc p) # new_nodes H (hs' @ ts @ ss) (Suc (Suc p))"
      using hs lts less.prems(2) by (simp add: new_nodes_def upt_rec [of "Suc p"] py_slice_def)
    have "push_subtree_hash H t (Suc p) (mth H ss) =
        Inr (t'', (mth H (ts @ ss), Suc p) # new_nodes H (hs' @ ts @ ss) (Suc (Suc p)))"
      using up by (subst push_subtree_hash.simps)
        (simp add: Let_def shape low sr nxt t'(1) [unfolded lhs'] t''(1))
    then have "push_subtree_hash H t (Suc p) (mth H ss) = Inr (t'', new_nodes H (hs @ ss) (Suc p))"
      by (simp only: nn)
    moreover have "tree_shape H t'' (hs @ ss)" using t''(2) by (simp only: hs append_assoc)
    ultimately show ?thesis using t''(3) t'(3) by auto
  qed
qed

section \<open>Node counts\<close>

lemma expected_node_count_loop: "0 < n \<Longrightarrow> expected_node_count_loop n c + count_bits_set n = c + n"
proof (induction n arbitrary: c rule: nat_bit_induct')
  case (even m)
  then show ?case using even.IH [of "c + m"] by (subst expected_node_count_loop.simps) simp
next
  case (odd m)
  show ?case
  proof (cases "m = 0")
    case True
    then show ?thesis using count_bits_set_odd [of 0] by (subst expected_node_count_loop.simps) simp
  next
    case False
    then show ?thesis using odd.IH [of "c + m"] by (subst expected_node_count_loop.simps) simp
  qed
qed simp

lemma get_expected_node_count: "get_expected_node_count n + count_bits_set n = n"
  using expected_node_count_loop [of n 0]
  by (cases "n = 0") (simp_all add: get_expected_node_count_def expected_node_count_loop.simps)

section \<open>Ranges read back from the store\<close>

lemma fold_read_Some: "xs \<noteq> [] \<Longrightarrow> fold_read H (map Some xs) = Inr (Some (hfold H xs))"
proof (induction xs rule: list_nonempty_induct)
  case (cons x xs)
  then obtain a r where r: "rev xs = a # r" by (cases "rev xs") auto
  with cons show ?case by (simp add: fold_read_def rev_map [symmetric] foldE_append hfold_Cons)
qed (simp add: fold_read_def)

text \<open>
  A range that starts at a multiple of a power of two not smaller than its width is a union
  of full subtrees of the tree.
\<close>

definition aligned :: "nat \<Rightarrow> nat \<Rightarrow> bool" where
  "aligned s e \<longleftrightarrow> (\<exists>q. e - s \<le> 2 ^ q \<and> 2 ^ q dvd s)"

lemma aligned_0 [simp]: "aligned 0 e"
  by (auto simp: aligned_def intro!: exI [of _ e] less_imp_le)

lemma getPath_correct:
  assumes "s < e" and "e \<le> length hs" and "1 \<le> q" and "e - s \<le> 2 ^ q" and "2 ^ q dvd s"
  shows "\<exists>ls ns. getPath e s = Inr (ls, ns) \<and> (\<forall>l \<in> set ls. 1 \<le> l \<and> l \<le> length hs) \<and>
     (\<forall>p \<in> set ns. 1 \<le> p \<and> p \<le> int (length (node_list H hs (length hs)))) \<and>
     hfold H (rev (hs ! (e - 1) # map (\<lambda>l. hs ! (l - 1)) ls @
       map (\<lambda>p. node_list H hs (length hs) ! nat (p - 1)) ns)) = mth H (py_slice s e hs)"
  using assms
proof (induction "e - s" arbitrary: s q rule: less_induct)
  case less
  have "2 dvd (2::nat) ^ q" using less.prems(3) by simp
  then have "even s" using less.prems(5) by (rule dvd_trans)
  consider "e = Suc s" | "e = s + 2" | "3 \<le> e - s" using less.prems(1) by linarith
  then show ?case
  proof cases
    case 1
    then show ?thesis
      using less.prems(2) \<open>even s\<close> by (subst getPath.simps) (auto simp: Let_def py_slice_single mod2_eq_if)
  next
    case 2
    have "py_slice s e hs = [hs ! s, hs ! Suc s]"
      using 2 less.prems(2) py_slice_split [of s "Suc s" e hs] by (simp add: py_slice_single)
    moreover have "mth H [hs ! s, hs ! Suc s] = hash_children H (hs ! s) (hs ! Suc s)"
      using mth_append [of "[hs ! s]" 0 "[hs ! Suc s]" H] by simp
    moreover have "highest_bit_set 1 = 1" using highest_bit_set_odd [of 0] by simp
    ultimately show ?thesis
      using 2 less.prems(2) \<open>even s\<close> by (subst getPath.simps) (auto simp: Let_def mod2_eq_if)
  next
    case 3
    define p where "p = highest_bit_set (e - 1 - s) - 1"
    have hb: "highest_bit_set (e - 1 - s) = Suc p" "1 \<le> p"
    proof -
      have "2 \<le> e - 1 - s" using 3 by simp
      moreover have "\<not> highest_bit_set (e - 1 - s) \<le> 1"
      proof
        assume "highest_bit_set (e - 1 - s) \<le> 1"
        then have "(2::nat) ^ highest_bit_set (e - 1 - s) \<le> 2 ^ 1" by (intro power_increasing) auto
        moreover have "e - 1 - s < 2 ^ highest_bit_set (e - 1 - s)"
          using highest_bit_set_bounds [of "e - 1 - s"] \<open>2 \<le> e - 1 - s\<close> by linarith
        ultimately show False using \<open>2 \<le> e - 1 - s\<close> by simp
      qed
      ultimately show "highest_bit_set (e - 1 - s) = Suc p" "1 \<le> p" by (auto simp: p_def)
    qed
    define c where "c = 2 ^ p + s"
    have b: "2 ^ p < e - s" "e - s \<le> 2 * 2 ^ p"
    proof -
      have "0 < e - 1 - s" using 3 by linarith
      from highest_bit_set_bounds [OF this, unfolded hb(1)]
      have "2 ^ p \<le> e - 1 - s" "e - 1 - s < 2 * 2 ^ p" by simp_all
      with 3 show "2 ^ p < e - s" "e - s \<le> 2 * 2 ^ p" by linarith+
    qed
    have "(2::nat) ^ p < 2 ^ q" using b(1) less.prems(4) by linarith
    then have "2 ^ p dvd (2::nat) ^ q" by (intro le_imp_power_dvd) simp
    then have dc: "2 ^ p dvd c" using less.prems(5) by (auto simp: c_def intro: dvd_trans)
    have cb: "c < e" "e - c \<le> 2 ^ p" "e - c < e - s" "c \<le> length hs" "s < c" "0 < c" "c - 2 ^ p = s" "c - s = 2 ^ p"
      unfolding c_def using b less.prems(1,2) by (linarith | simp)+
    obtain ls ns where IH: "getPath e c = Inr (ls, ns)" "\<forall>l \<in> set ls. 1 \<le> l \<and> l \<le> length hs"
      "\<forall>p \<in> set ns. 1 \<le> p \<and> p \<le> int (length (node_list H hs (length hs)))"
      "hfold H (rev (hs ! (e - 1) # map (\<lambda>l. hs ! (l - 1)) ls @
         map (\<lambda>p. node_list H hs (length hs) ! nat (p - 1)) ns)) = mth H (py_slice c e hs)"
      using less.hyps [OF cb(3,1) less.prems(2) hb(2) cb(2) dc] by blast
    define pos where "pos = length (node_list H hs (c - 1)) + p"
    have gp: "getNodePosition c p = Inr (int pos)"
      using hb(2) by (subst getNodePosition_node_list [where H = H and hs = hs]) (auto simp: c_def pos_def)
    have low: "p < lowest_bit_set c" using dc by (intro pow2_dvd_lowest) (simp_all add: c_def)
    note nl = node_list_nth [OF hb(2) low cb(4,6), of H hs]
    have nd: "node_list H hs (length hs) ! nat (int pos - 1) = mth H (py_slice s c hs)"
      "pos \<le> length (node_list H hs (length hs))" "1 \<le> pos"
    proof -
      have "nat (int pos - 1) = pos - 1" by (cases pos) auto
      then show "node_list H hs (length hs) ! nat (int pos - 1) = mth H (py_slice s c hs)"
        using nl(1) by (simp only: pos_def cb(7))
      show "pos \<le> length (node_list H hs (length hs))" "1 \<le> pos" using nl(2) hb(2) by (auto simp: pos_def)
    qed
    have "py_slice s e hs = py_slice s c hs @ py_slice c e hs"
      using cb by (intro py_slice_split) auto
    then have m: "mth H (py_slice s e hs) = hash_children H (mth H (py_slice s c hs)) (mth H (py_slice c e hs))"
      using cb(1-5,8) less.prems(2) by (auto intro!: mth_append [of _ p])
    have "getPath e s = Inr (ls, ns @ [int pos])"
      using less.prems(1) hb IH(1) gp by (subst getPath.simps) (simp add: Let_def c_def)
    moreover have "hfold H (rev (hs ! (e - 1) # map (\<lambda>l. hs ! (l - 1)) ls @
         map (\<lambda>p. node_list H hs (length hs) ! nat (p - 1)) (ns @ [int pos]))) = mth H (py_slice s e hs)"
      unfolding m IH(4) [symmetric] by (simp add: hfold_Cons nd(1))
    moreover have "\<forall>p \<in> set (ns @ [int pos]). 1 \<le> p \<and> p \<le> int (length (node_list H hs (length hs)))"
      using IH(3) nd(2,3) by auto
    ultimately show ?thesis using IH(2) by blast
  qed
qed

section \<open>The tree next to its store\<close>

text \<open>The tree and its store describe the leaves \<open>ls\<close>.\<close>

definition tree_ok ::
  "('hs \<Rightarrow> bool) \<Rightarrow> ('hs \<Rightarrow> bytes list) \<Rightarrow> ('hs \<Rightarrow> bytes list) \<Rightarrow> (bytes \<Rightarrow> bytes) \<Rightarrow>
   'hs CompactMerkleTree \<Rightarrow> bytes list \<Rightarrow> bool" where
  "tree_ok hs_ok leafs nodes H t ls \<longleftrightarrow>
     tree_shape H t (map (hash_leaf H) ls) \<and> hs_ok (t_hashStore t) \<and>
     leafs (t_hashStore t) = map (hash_leaf H) ls \<and>
     nodes (t_hashStore t) = node_list H (map (hash_leaf H) ls) (length ls)"

lemma tree_ok_size: "tree_ok ok lf nd H t ls \<Longrightarrow> tree_size t = length ls"
  by (simp add: tree_ok_def tree_shape_def)

lemma tree_ok_root: "tree_ok ok lf nd H t ls \<Longrightarrow> root_hash H t = Inr (mth H (map (hash_leaf H) ls))"
  by (simp add: tree_ok_def root_hash_shape)

text \<open>
  The size and the hashes do not depend on the store: over a store whose writes never fail,
  such as the memory store of an uncommitted copy, appending keeps the shape.
\<close>

lemma bits_of_1: "lowest_bit_set (Suc 0) = Suc 0" "count_bits_set (Suc 0) = Suc 0"
  using lowest_bit_set_odd [of 0] count_bits_set_odd [of 0] by simp_all

lemma hash_full_single: "hash_full H [l] 0 (Suc 0) = Inr (hash_leaf H l, [hash_leaf H l])"
  by (subst hash_full_correct) (simp_all add: subroots_full [where p = 0])

locale hash_writer =
  fixes ops :: "('hs, 'z) HashWriter_scheme"
  assumes leaf_total: "\<exists>st'. hs_writeLeaf ops st h = Inr st'"
    and node_total: "\<exists>st'. hs_writeNode ops st nd = Inr st'"
begin

lemma writes_total: "\<exists>st'. writeLeaves ops st ls = Inr st'" "\<exists>st'. writeNodes ops st nds = Inr st'"
  unfolding writeLeaves_def writeNodes_def by (intro foldE_total leaf_total node_total)+

lemma append_leaf_shape:
  assumes "tree_shape H t hs"
  shows "\<exists>t'. append_leaf ops H t l = Inr (t', rev (subroots H hs)) \<and> tree_shape H t' (hs @ [hash_leaf H l])"
proof -
  obtain st where st: "writeLeaves ops (t_hashStore t) [hash_leaf H l] = Inr st" using writes_total(1) by blast
  have "tree_shape H (t\<lparr>t_hashStore := st\<rparr>) hs" using assms by (simp add: tree_shape_def)
  from push_subtree_hash_correct [OF this, of "[hash_leaf H l]" 0] obtain t1 where
    t1: "push_subtree_hash H (t\<lparr>t_hashStore := st\<rparr>) 1 (hash_leaf H l) = Inr (t1, new_nodes H (hs @ [hash_leaf H l]) 1)"
      "tree_shape H t1 (hs @ [hash_leaf H l])" by (auto simp: mth_single)
  obtain st' where "writeNodes ops (t_hashStore t1)
      (map (\<lambda>(h, height). (tree_size t1, height, h)) (new_nodes H (hs @ [hash_leaf H l]) 1)) = Inr st'"
    using writes_total(2) by blast
  then show ?thesis
    using assms st t1 hash_full_single [of H l]
    by (auto simp: bits_of_1 append_leaf_def push_subtree_def Let_def tree_shape_def)
qed

end

interpretation mhs: hash_writer mhs_ops
  by unfold_locales (simp_all add: mhs_ops_def)

context hash_store
begin

lemma mk_tree_ok: "hs_ok st \<Longrightarrow> leafs st = [] \<Longrightarrow> nodes st = [] \<Longrightarrow> tree_ok hs_ok leafs nodes H (mk_CompactMerkleTree st) []"
  by (simp add: tree_ok_def tree_shape_def mk_CompactMerkleTree_def)

lemma reset_tree_ok:
  "tree_ok hs_ok leafs nodes H t ls \<Longrightarrow> \<exists>t'. reset_tree ops t = Inr t' \<and> tree_ok hs_ok leafs nodes H t' []"
  using reset_store by (simp add: reset_tree_def update_tree_def tree_ok_def tree_shape_def)

lemma writeNodes_ok:
  assumes "hs_ok st" and "\<forall>x \<in> set ns. length (fst x) = dlen" and "0 < n" and "1 \<le> p"
    and "map snd ns = [p..<p + length ns]" and "length (nodes st) + 1 = length (node_list H hs (n - 1)) + p"
  shows "\<exists>st'. writeNodes ops st (map (\<lambda>(h, height). (n, height, h)) ns) = Inr st' \<and> hs_ok st' \<and>
     leafs st' = leafs st \<and> nodes st' = nodes st @ map fst ns"
  using assms
proof (induction ns arbitrary: st p)
  case Nil
  then show ?case by (simp add: writeNodes_def)
next
  case (Cons x ns)
  have "map snd (x # ns) = p # [Suc p..<Suc p + length ns]"
    using Cons.prems(5) by (simp add: upt_conv_Cons del: upt_Suc)
  then obtain h where x: "x = (h, p)" and rest: "map snd ns = [Suc p..<Suc p + length ns]"
    by (cases x) simp
  have "getNodePosition n p = Inr (int (length (nodes st)) + 1)"
    using getNodePosition_node_list [OF Cons.prems(3,4), of H hs] Cons.prems(6) by simp
  then obtain st1 where st1: "hs_writeNode ops st (n, p, h) = Inr st1" "hs_ok st1"
    "leafs st1 = leafs st" "nodes st1 = nodes st @ [h]"
    using writeNode [OF Cons.prems(1), of h n p] Cons.prems(2) x by auto
  obtain st2 where "writeNodes ops st1 (map (\<lambda>(h, height). (n, height, h)) ns) = Inr st2" "hs_ok st2"
    "leafs st2 = leafs st1" "nodes st2 = nodes st1 @ map fst ns"
    using Cons.IH [of st1 "Suc p"] st1 rest Cons.prems by auto
  then show ?case using st1 x by (simp add: writeNodes_def)
qed

lemma append_leaf_ok:
  assumes t: "tree_ok hs_ok leafs nodes H t ls" and dig: "\<And>x. length (H x) = dlen"
  shows "\<exists>t'. append_leaf ops H t l = Inr (t', rev (subroots H (map (hash_leaf H) ls))) \<and>
    tree_ok hs_ok leafs nodes H t' (ls @ [l])"
proof -
  let ?hs = "map (hash_leaf H) ls" and ?h = "hash_leaf H l"
  let ?n = "Suc (length ls)"
  have t': "tree_shape H t ?hs" "hs_ok (t_hashStore t)" "leafs (t_hashStore t) = ?hs"
    "nodes (t_hashStore t) = node_list H ?hs (length ls)"
    using t by (auto simp: tree_ok_def)
  have lg: "length ?h = dlen" by (simp add: hash_leaf_def dig)
  note full = hash_full_single [of H l]
  obtain st1 where st1: "hs_writeLeaf ops (t_hashStore t) ?h = Inr st1" "hs_ok st1"
    "leafs st1 = ?hs @ [?h]" "nodes st1 = nodes (t_hashStore t)"
    using writeLeaf [OF t'(2) lg] t'(3) by auto
  have "tree_shape H (t\<lparr>t_hashStore := st1\<rparr>) ?hs" using t'(1) by (simp add: tree_shape_def)
  then obtain t2 where t2: "push_subtree_hash H (t\<lparr>t_hashStore := st1\<rparr>) (Suc 0) ?h = Inr (t2, new_nodes H (?hs @ [?h]) (Suc 0))"
    "tree_shape H t2 (?hs @ [?h])" "t_hashStore t2 = st1"
    using push_subtree_hash_correct [of H "t\<lparr>t_hashStore := st1\<rparr>" ?hs "[?h]" 0] by auto
  let ?ns = "new_nodes H (?hs @ [?h]) (Suc 0)"
  have len: "length (mth H xs) = dlen" if "2 \<le> length xs" for xs
    using that by (subst mth.simps) (auto simp: hash_children_def dig)
  have digs: "\<forall>x \<in> set ?ns. length (fst x) = dlen"
  proof
    fix x assume "x \<in> set ?ns"
    then obtain k where k: "1 \<le> k" "k < lowest_bit_set ?n"
      and x: "fst x = mth H (py_slice (?n - 2 ^ k) ?n (?hs @ [?h]))"
      by (auto simp: new_nodes_def)
    have "2 ^ k dvd ?n"
      using k pow2_lowest_dvd [of ?n] power_le_dvd [of 2 "lowest_bit_set ?n - 1" ?n k] by simp
    then have "2 ^ k \<le> ?n" by (intro dvd_imp_le) auto
    moreover have "(2::nat) ^ 1 \<le> 2 ^ k" using k by (intro power_increasing) auto
    ultimately have "2 \<le> length (py_slice (?n - 2 ^ k) ?n (?hs @ [?h]))" by simp
    then show "length (fst x) = dlen" unfolding x by (rule len)
  qed
  have snds: "map snd ?ns = [1..<1 + length ?ns]"
    by (cases "lowest_bit_set ?n") (auto simp: new_nodes_def comp_def simp del: upt_Suc)
  obtain st3 where st3: "writeNodes ops st1 (map (\<lambda>(h, height). (?n, height, h)) ?ns) = Inr st3" "hs_ok st3"
    "leafs st3 = leafs st1" "nodes st3 = nodes st1 @ map fst ?ns"
    using writeNodes_ok [OF st1(2) digs, of ?n 1 H ?hs] snds st1(4) t'(4) by auto
  have nodes: "nodes st3 = node_list H (?hs @ [?h]) ?n"
    using st3(4) st1(4) t'(4) by (simp add: node_list_append new_nodes_def comp_def)
  have "push_subtree ops H t [l] = Inr (t2\<lparr>t_hashStore := st3\<rparr>)"
    using t2 st1 st3(1) full bits_of_1
    by (auto simp: push_subtree_def Let_def writeLeaves_def tree_shape_def)
  moreover have "tree_ok hs_ok leafs nodes H (t2\<lparr>t_hashStore := st3\<rparr>) (ls @ [l])"
    using t2(2) st3 st1(3) nodes by (simp add: tree_ok_def tree_shape_def)
  ultimately show ?thesis using t'(1) by (simp add: append_leaf_def Let_def tree_shape_def)
qed

lemma merkle_tree_hash_ok:
  assumes t: "tree_ok hs_ok leafs nodes H t ls" and se: "s < e" "e \<le> length ls" and al: "aligned s e"
  shows "merkle_tree_hash ops H t s e = Inr (Some (mth H (map (hash_leaf H) (py_slice s e ls))))"
proof -
  let ?hs = "map (hash_leaf H) ls" and ?st = "t_hashStore t"
  have st: "hs_ok ?st" "leafs ?st = ?hs" "nodes ?st = node_list H ?hs (length ?hs)"
    using t by (auto simp: tree_ok_def)
  have sl: "map (hash_leaf H) (py_slice s e ls) = py_slice s e ?hs"
    by (simp add: py_slice_def take_map drop_map)
  have leaf: "hs_readLeaf ops ?st (int l) = Inr (Some (?hs ! (l - 1)))" if "1 \<le> l" "l \<le> length ?hs" for l
    using readLeaf [OF st(1), of "int l"] that st(2) by (simp add: nat_diff_distrib)
  show ?thesis
  proof (cases "e - s = 1")
    case True
    then have "e = Suc s" by simp
    then show ?thesis using se leaf [of e] by (simp add: merkle_tree_hash_def sl py_slice_single)
  next
    case False
    obtain q where q: "e - s \<le> 2 ^ q" "2 ^ q dvd s" using al by (auto simp: aligned_def)
    have "1 \<le> q" using q False se by (cases q) auto
    with q obtain lfs nds where p: "getPath e s = Inr (lfs, nds)"
      "\<forall>l \<in> set lfs. 1 \<le> l \<and> l \<le> length ?hs"
      "\<forall>p \<in> set nds. 1 \<le> p \<and> p \<le> int (length (node_list H ?hs (length ?hs)))"
      "hfold H (rev (?hs ! (e - 1) # map (\<lambda>l. ?hs ! (l - 1)) lfs @
         map (\<lambda>p. node_list H ?hs (length ?hs) ! nat (p - 1)) nds)) = mth H (py_slice s e ?hs)"
      using getPath_correct [of s e ?hs q H] se by auto
    have "mapE (\<lambda>h. hs_readLeaf ops ?st (int h)) lfs = Inr (map (\<lambda>l. Some (?hs ! (l - 1))) lfs)"
      using p(2) leaf by (intro mapE_eq_map) auto
    moreover have "mapE (\<lambda>h. hs_readNode ops ?st h) nds =
        Inr (map (\<lambda>p. Some (node_list H ?hs (length ?hs) ! nat (p - 1))) nds)"
      using p(3) readNode [OF st(1)] st(3) by (intro mapE_eq_map) auto
    moreover have "rev (Some (?hs ! (e - 1)) # map (\<lambda>l. Some (?hs ! (l - 1))) lfs @
           map (\<lambda>p. Some (node_list H ?hs (length ?hs) ! nat (p - 1))) nds) =
        map Some (rev (?hs ! (e - 1) # map (\<lambda>l. ?hs ! (l - 1)) lfs @
           map (\<lambda>p. node_list H ?hs (length ?hs) ! nat (p - 1)) nds))"
      by (simp add: rev_map comp_def)
    ultimately show ?thesis
      using False se p(1,4) leaf [of e]
      by (simp add: merkle_tree_hash_def sl fold_read_Some del: rev.simps map_append list.map)
  qed
qed

lemma verify_consistency_ok:
  "tree_ok hs_ok leafs nodes H t ls \<Longrightarrow>
   verify_consistency ops t n = (if n = length ls then Inr True else Inl ConsistencyVerificationFailed)"
  using get_expected_node_count [of "length ls"] length_node_list [of H "map (hash_leaf H) ls" "length ls"]
  by (auto simp: verify_consistency_def Let_def tree_ok_def leafCount nodeCount)

end

end
