(* ===== verification/Merkle_Verifier.thy ===== *)
theory Merkle_Verifier
  imports Compact_Merkle_Tree
begin

text \<open>
  \<^verbatim>\<open>ledger/merkle_verifier.py\<close>, and that it accepts the proofs the tree makes: the audit
  path of every leaf and the consistency proof of every two sizes. The \<^verbatim>\<open>while\<close> loops are
  recursive functions over their variables; an iterator over the proof is the list of what is
  left of it.
\<close>

section \<open>Definitions\<close>

fun shift_right_child :: "nat \<Rightarrow> nat \<Rightarrow> nat \<times> nat" where
  "shift_right_child node last_node =
     (if node mod 2 \<noteq> 0 then shift_right_child (node div 2) (last_node div 2) else (node, last_node))"

text \<open>The two loops over the proof; \<open>None\<close> when the iterator is exhausted.\<close>

fun node_loop ::
  "(bytes \<Rightarrow> bytes) \<Rightarrow> nat \<Rightarrow> nat \<Rightarrow> bytes \<Rightarrow> bytes \<Rightarrow> bytes list \<Rightarrow> (nat \<times> bytes \<times> bytes \<times> bytes list) option" where
  "node_loop H node last_node old_hash new_hash p =
     (if node = 0 then Some (last_node, old_hash, new_hash, p)
      else if node mod 2 \<noteq> 0 then
        (case p of [] \<Rightarrow> None
         | next_node # p' \<Rightarrow> node_loop H (node div 2) (last_node div 2)
             (hash_children H next_node old_hash) (hash_children H next_node new_hash) p')
      else if node < last_node then
        (case p of [] \<Rightarrow> None
         | x # p' \<Rightarrow> node_loop H (node div 2) (last_node div 2) old_hash (hash_children H new_hash x) p')
      else node_loop H (node div 2) (last_node div 2) old_hash new_hash p)"

fun last_loop :: "(bytes \<Rightarrow> bytes) \<Rightarrow> nat \<Rightarrow> bytes \<Rightarrow> bytes list \<Rightarrow> (bytes \<times> bytes list) option" where
  "last_loop H last_node new_hash p =
     (if last_node = 0 then Some (new_hash, p)
      else (case p of [] \<Rightarrow> None
            | n # p' \<Rightarrow> last_loop H (last_node div 2) (hash_children H new_hash n) p'))"

declare shift_right_child.simps [simp del] node_loop.simps [simp del] last_loop.simps [simp del]

definition verify_tree_consistency ::
  "(bytes \<Rightarrow> bytes) \<Rightarrow> int \<Rightarrow> int \<Rightarrow> bytes \<Rightarrow> bytes \<Rightarrow> bytes list \<Rightarrow> bool result" where
  "verify_tree_consistency H old_size new_size old_root new_root prf =
     (if old_size < 0 \<or> new_size < 0 then Inl ValueError
      else if old_size > new_size then Inl ValueError
      else if old_size = new_size then
        (if old_root = new_root then Inr True else Inl ConsistencyError)
      else if old_size = 0 then Inr True
      else
        (case shift_right_child (nat (old_size - 1)) (nat (new_size - 1)) of (node, last_node) \<Rightarrow>
         case (if node \<noteq> 0 then (case prf of [] \<Rightarrow> None | x # p \<Rightarrow> Some (x, p))
               else Some (old_root, prf)) of
           None \<Rightarrow> Inl ProofError
         | Some (start, p) \<Rightarrow>
             (case node_loop H node last_node start start p of
                None \<Rightarrow> Inl ProofError
              | Some (last_node', old_hash, new_hash, p') \<Rightarrow>
                  (case last_loop H last_node' new_hash p' of
                     None \<Rightarrow> Inl ProofError
                   | Some (new_hash', _) \<Rightarrow>
                       if new_hash' \<noteq> new_root then Inl ProofError
                       else if old_hash \<noteq> old_root then Inl ConsistencyError
                       else Inr True))))"

fun audit_loop :: "(bytes \<Rightarrow> bytes) \<Rightarrow> nat \<Rightarrow> nat \<Rightarrow> bytes \<Rightarrow> bytes list \<Rightarrow> bytes result" where
  "audit_loop H node_index last_node calculated_hash audit_path =
     (if last_node > 0 then
        (case audit_path of
           [] \<Rightarrow> Inl ProofError
         | audit_hash # rest \<Rightarrow>
             if node_index mod 2 \<noteq> 0 then
               audit_loop H (node_index div 2) (last_node div 2) (hash_children H audit_hash calculated_hash) rest
             else if node_index < last_node then
               audit_loop H (node_index div 2) (last_node div 2) (hash_children H calculated_hash audit_hash) rest
             else audit_loop H (node_index div 2) (last_node div 2) calculated_hash audit_path)
      else if audit_path \<noteq> [] then Inl ProofError
      else Inr calculated_hash)"

declare audit_loop.simps [simp del]

definition calculate_root_hash_from_audit_path ::
  "(bytes \<Rightarrow> bytes) \<Rightarrow> bytes \<Rightarrow> nat \<Rightarrow> bytes list \<Rightarrow> nat \<Rightarrow> bytes result" where
  "calculate_root_hash_from_audit_path H leaf_hash node_index audit_path tsize =
     audit_loop H node_index (tsize - 1) leaf_hash audit_path"

fun audit_path_length_loop :: "nat \<Rightarrow> nat \<Rightarrow> nat \<Rightarrow> nat" where
  "audit_path_length_loop index last_node len =
     (if last_node > 0 then
        audit_path_length_loop (index div 2) (last_node div 2)
          (if index mod 2 \<noteq> 0 \<or> index < last_node then len + 1 else len)
      else len)"

declare audit_path_length_loop.simps [simp del]

definition audit_path_length :: "nat \<Rightarrow> nat \<Rightarrow> nat" where
  "audit_path_length index tsize = audit_path_length_loop index (tsize - 1) 0"

text \<open>A signed tree head is the pair of a size and a root hash.\<close>

definition verify_leaf_hash_inclusion ::
  "(bytes \<Rightarrow> bytes) \<Rightarrow> bytes \<Rightarrow> int \<Rightarrow> bytes list \<Rightarrow> int \<times> bytes \<Rightarrow> bool result" where
  "verify_leaf_hash_inclusion H leaf_hash leaf_index prf sth =
     (case sth of (tsize, sha256_root_hash) \<Rightarrow>
        if tsize \<le> leaf_index then Inl ValueError
        else if tsize < 0 \<or> leaf_index < 0 then Inl ValueError
        else
          bindE (calculate_root_hash_from_audit_path H leaf_hash (nat leaf_index) prf (nat tsize))
            (\<lambda>calculated_root_hash.
               if calculated_root_hash = sha256_root_hash then Inr True else Inl ProofError))"

definition verify_leaf_inclusion ::
  "(bytes \<Rightarrow> bytes) \<Rightarrow> bytes \<Rightarrow> int \<Rightarrow> bytes list \<Rightarrow> int \<times> bytes \<Rightarrow> bool result" where
  "verify_leaf_inclusion H leaf leaf_index prf sth =
     verify_leaf_hash_inclusion H (hash_leaf H leaf) leaf_index prf sth"

section \<open>Audit paths, from the root down\<close>

text \<open>
  The number of siblings on the way from a leaf to the root, the root such a path leads to,
  and the path that belongs to a list of leaf hashes.
\<close>

function path_len :: "nat \<Rightarrow> nat \<Rightarrow> nat" where
  "path_len m n =
     (if n \<le> 1 then 0
      else if m < split_pt n then Suc (path_len m (split_pt n))
      else Suc (path_len (m - split_pt n) (n - split_pt n)))"
  by pat_completeness auto
termination
proof (relation "measure snd")
  fix m n :: nat
  assume "\<not> n \<le> 1"
  then have "2 \<le> n" by simp
  from split_pt_bounds [OF this]
  show "((m, split_pt n), m, n) \<in> measure snd"
    and "((m - split_pt n, n - split_pt n), m, n) \<in> measure snd" by auto
qed simp

function root_from :: "(bytes \<Rightarrow> bytes) \<Rightarrow> nat \<Rightarrow> nat \<Rightarrow> bytes \<Rightarrow> bytes list \<Rightarrow> bytes" where
  "root_from H m n c xs =
     (if n \<le> 1 then c
      else if m < split_pt n then hash_children H (root_from H m (split_pt n) c (butlast xs)) (last xs)
      else hash_children H (last xs) (root_from H (m - split_pt n) (n - split_pt n) c (butlast xs)))"
  by pat_completeness auto
termination
proof (relation "measure (\<lambda>(H, m, n, c, xs). n)")
  fix m n :: nat and H :: "bytes \<Rightarrow> bytes" and c :: bytes and xs :: "bytes list"
  assume "\<not> n \<le> 1"
  then have "2 \<le> n" by simp
  from split_pt_bounds [OF this]
  show "((H, m, split_pt n, c, butlast xs), H, m, n, c, xs) \<in> measure (\<lambda>(H, m, n, c, xs). n)"
    and "((H, m - split_pt n, n - split_pt n, c, butlast xs), H, m, n, c, xs) \<in> measure (\<lambda>(H, m, n, c, xs). n)"
    by auto
qed simp

function audit_path :: "(bytes \<Rightarrow> bytes) \<Rightarrow> nat \<Rightarrow> bytes list \<Rightarrow> bytes list" where
  "audit_path H m hs =
     (if length hs \<le> 1 then []
      else let k = split_pt (length hs) in
        if m < k then audit_path H m (take k hs) @ [mth H (drop k hs)]
        else audit_path H (m - k) (drop k hs) @ [mth H (take k hs)])"
  by pat_completeness auto
termination
proof (relation "measure (\<lambda>(H, m, hs). length hs)")
  fix m k :: nat and H :: "bytes \<Rightarrow> bytes" and hs :: "bytes list"
  assume "\<not> length hs \<le> 1" "k = split_pt (length hs)"
  then have "2 \<le> length hs" by simp
  from split_pt_bounds [OF this] \<open>k = _\<close>
  show "((H, m, take k hs), H, m, hs) \<in> measure (\<lambda>(H, m, hs). length hs)"
    and "((H, m - k, drop k hs), H, m, hs) \<in> measure (\<lambda>(H, m, hs). length hs)"
    by auto
qed simp

declare path_len.simps [simp del] root_from.simps [simp del] audit_path.simps [simp del]

lemma length_audit_path: "length (audit_path H m hs) = path_len m (length hs)"
proof (induction H m hs rule: audit_path.induct)
  case (1 H m hs)
  show ?case
  proof (cases "length hs \<le> 1")
    case True
    then show ?thesis by (simp add: audit_path.simps [of H m hs] path_len.simps [of m "length hs"])
  next
    case False
    then have "2 \<le> length hs" by simp
    note b = split_pt_bounds [OF this]
    show ?thesis
      using 1 False b
      by (subst audit_path.simps, subst path_len.simps) (simp add: Let_def min_absorb2)
  qed
qed

lemma root_from_audit_path: "m < length hs \<Longrightarrow> root_from H m (length hs) (hs ! m) (audit_path H m hs) = mth H hs"
proof (induction H m hs rule: audit_path.induct)
  case (1 H m hs)
  show ?case
  proof (cases "length hs \<le> 1")
    case True
    then have "length hs = 1" using 1 by linarith
    then show ?thesis using 1(3) by (simp add: root_from.simps [of H _ "Suc 0"] mth.simps [of H hs])
  next
    case False
    then have "2 \<le> length hs" by simp
    note b = split_pt_bounds [OF this] and sp = mth_subroots_split(1) [OF this, of H]
    show ?thesis
      using 1 False b
      by (subst audit_path.simps, subst root_from.simps) (simp add: Let_def min_absorb2 sp)
  qed
qed

section \<open>The verifier climbs the same path\<close>

lemma split_pt_level: "2 ^ p < n \<Longrightarrow> n \<le> 2 ^ Suc p \<Longrightarrow> split_pt n = 2 ^ p"
  by (rule split_pt_unique) auto

text \<open>
  A subtree of \<open>n \<le> 2 ^ p\<close> leaves at offset \<open>a * 2 ^ p\<close> of a tree whose last leaf has index
  \<open>L\<close>: it is full, or it is the right edge of the tree.
\<close>

definition subtree_at :: "nat \<Rightarrow> nat \<Rightarrow> nat \<Rightarrow> nat \<Rightarrow> bool" where
  "subtree_at p a n L \<longleftrightarrow>
     1 \<le> n \<and> n \<le> 2 ^ p \<and> (n = 2 ^ p \<and> a * 2 ^ p + 2 ^ p \<le> Suc L \<or> Suc L = a * 2 ^ p + n)"

lemma subtree_at_thin:
  assumes "subtree_at (Suc p) a n L" and "n \<le> 2 ^ p"
  shows "subtree_at p (2 * a) n L" and "L div 2 ^ p = 2 * a" and "L div 2 ^ Suc p = a"
proof -
  have n: "1 \<le> n" and L: "L = a * 2 ^ Suc p + (n - 1)"
    using assms by (auto simp: subtree_at_def)
  then show "subtree_at p (2 * a) n L" using assms(2) by (auto simp: subtree_at_def)
  have "n - 1 < 2 ^ p" "n - 1 < 2 ^ Suc p" using assms(2) n by auto
  then show "L div 2 ^ Suc p = a" by (simp add: L del: power_Suc)
  have "L = (2 * a) * 2 ^ p + (n - 1)" using L by simp
  with \<open>n - 1 < 2 ^ p\<close> show "L div 2 ^ p = 2 * a" by (simp only: div_mult_self3) simp
qed

lemma subtree_at_left:
  assumes "subtree_at (Suc p) a n L" and "2 ^ p < n"
  shows "subtree_at p (2 * a) (2 ^ p) L" and "2 * a < L div 2 ^ p"
proof -
  have "a * 2 ^ Suc p + n \<le> Suc L" using assms by (auto simp: subtree_at_def)
  then have "(2 * a + 1) * 2 ^ p \<le> L" using assms(2) by simp
  then have "2 * a + 1 \<le> L div 2 ^ p" by (simp add: less_eq_div_iff_mult_less_eq)
  then show "2 * a < L div 2 ^ p" by simp
  show "subtree_at p (2 * a) (2 ^ p) L"
    using \<open>a * 2 ^ Suc p + n \<le> Suc L\<close> assms(2) by (auto simp: subtree_at_def)
qed

lemma subtree_at_right:
  assumes "subtree_at (Suc p) a n L" and "2 ^ p < n"
  shows "subtree_at p (2 * a + 1) (n - 2 ^ p) L"
  using assms by (auto simp: subtree_at_def)

lemma div_pow2_Suc: "L div 2 ^ p div 2 = L div (2 ^ Suc p :: nat)"
  by (simp only: power_Suc2 div_mult2_eq)

lemma audit_loop_climb:
  assumes "subtree_at p a n L" and "m < n" and "length xs = path_len m n"
    and "rest = [] \<Longrightarrow> L div 2 ^ p = 0"
  shows "audit_loop H (a * 2 ^ p + m) L c (xs @ rest) = audit_loop H a (L div 2 ^ p) (root_from H m n c xs) rest"
  using assms
proof (induction p arbitrary: a n m xs rest)
  case 0
  then have "n = 1" "m = 0" by (auto simp: subtree_at_def)
  with 0 show ?case by (simp add: path_len.simps root_from.simps)
next
  case (Suc p)
  let ?R = "audit_loop H a (L div 2 ^ Suc p) (root_from H m n c xs) rest"
  show ?case
  proof (cases "n \<le> 2 ^ p")
    case True
    note th = subtree_at_thin [OF Suc.prems(1) True]
    have "audit_loop H ((2 * a) * 2 ^ p + m) L c (xs @ rest) =
        audit_loop H (2 * a) (L div 2 ^ p) (root_from H m n c xs) rest"
      using Suc.prems th by (intro Suc.IH) auto
    also have "\<dots> = audit_loop H (2 * a) (2 * a) (root_from H m n c xs) rest" by (simp only: th(2))
    also have "\<dots> = audit_loop H a a (root_from H m n c xs) rest"
      using Suc.prems(4) th(3)
      by (cases "a = 0"; cases rest) (simp_all add: audit_loop.simps [of H "2 * a" "2 * a"])
    finally show ?thesis unfolding th(3) by (simp add: ac_simps)
  next
    case False
    then have gt: "2 ^ p < n" by simp
    have le: "n \<le> 2 ^ Suc p" using Suc.prems(1) by (simp add: subtree_at_def)
    note sp = split_pt_level [OF gt le]
    have n2: "\<not> n \<le> 1" using gt one_le_power [of "2::nat" p] by linarith
    have xs: "xs \<noteq> []" using Suc.prems(3) n2 by (auto simp: path_len.simps [of m n] split: if_splits)
    define y where "y = last xs"
    define ys where "ys = butlast xs"
    have xsy: "xs = ys @ [y]" using xs by (simp add: y_def ys_def)
    note left = subtree_at_left [OF Suc.prems(1) gt]
    show ?thesis
    proof (cases "m < 2 ^ p")
      case True
      have "length ys = path_len m (2 ^ p)"
        using Suc.prems(3) n2 True by (simp add: xsy path_len.simps [of m n] sp)
      then have "audit_loop H ((2 * a) * 2 ^ p + m) L c (ys @ y # rest) =
          audit_loop H (2 * a) (L div 2 ^ p) (root_from H m (2 ^ p) c ys) (y # rest)"
        using left True by (intro Suc.IH) auto
      also have "\<dots> = audit_loop H a (L div 2 ^ p div 2) (hash_children H (root_from H m (2 ^ p) c ys) y) rest"
        using left(2) by (subst audit_loop.simps) auto
      also have "hash_children H (root_from H m (2 ^ p) c ys) y = root_from H m n c xs"
        using n2 True by (simp add: root_from.simps [of H m n] sp xsy)
      finally show ?thesis by (simp add: xsy div_pow2_Suc ac_simps)
    next
      case ge: False
      have "length ys = path_len (m - 2 ^ p) (n - 2 ^ p)"
        using Suc.prems(3) n2 ge by (simp add: xsy path_len.simps [of m n] sp)
      then have "audit_loop H ((2 * a + 1) * 2 ^ p + (m - 2 ^ p)) L c (ys @ y # rest) =
          audit_loop H (2 * a + 1) (L div 2 ^ p) (root_from H (m - 2 ^ p) (n - 2 ^ p) c ys) (y # rest)"
        using subtree_at_right [OF Suc.prems(1) gt] Suc.prems(2) ge by (intro Suc.IH) auto
      also have "\<dots> = audit_loop H a (L div 2 ^ p div 2) (hash_children H y (root_from H (m - 2 ^ p) (n - 2 ^ p) c ys)) rest"
        using left(2) by (subst audit_loop.simps) auto
      also have "hash_children H y (root_from H (m - 2 ^ p) (n - 2 ^ p) c ys) = root_from H m n c xs"
        using n2 ge by (simp add: root_from.simps [of H m n] sp xsy)
      moreover have "(2 * a + 1) * 2 ^ p + (m - 2 ^ p) = a * 2 ^ Suc p + m" using ge by simp
      ultimately show ?thesis by (simp only: xsy div_pow2_Suc append_assoc append_Cons append_Nil)
    qed
  qed
qed

lemma audit_loop_root_from:
  assumes "m < n" and "length xs = path_len m n"
  shows "audit_loop H m (n - 1) c xs = Inr (root_from H m n c xs)"
proof -
  have n: "n \<le> 2 ^ n" by (simp add: less_imp_le)
  have "(n - 1) div 2 ^ n = 0" using assms n by (intro div_less) linarith
  moreover have "subtree_at n 0 n (n - 1)" using assms n by (auto simp: subtree_at_def)
  ultimately have "audit_loop H (0 * 2 ^ n + m) (n - 1) c (xs @ []) = audit_loop H 0 0 (root_from H m n c xs) []"
    using audit_loop_climb [of n 0 n "n - 1" m xs "[]" H c] assms by simp
  then show ?thesis by (simp add: audit_loop.simps)
qed

theorem audit_path_accepted:
  assumes "m < length hs"
  shows "verify_leaf_hash_inclusion H (hs ! m) (int m) (audit_path H m hs) (int (length hs), mth H hs) = Inr True"
  using assms audit_loop_root_from [OF assms length_audit_path, of H "hs ! m" H] root_from_audit_path [OF assms]
  by (simp add: verify_leaf_hash_inclusion_def calculate_root_hash_from_audit_path_def)

section \<open>The ranges a proof is made of\<close>

lemma len_bin_split: "2 \<le> n \<Longrightarrow> 2 ^ nat (len_bin (int n - 1) - 3) = int (split_pt n)"
  by (simp add: len_bin_def split_pt_def nat_diff_distrib' max_def)

lemma aligned_split:
  assumes "aligned s (s + n)" and "2 \<le> n"
  shows "aligned s (s + split_pt n)" and "aligned (s + split_pt n) (s + n)"
proof -
  obtain q where q: "n \<le> 2 ^ q" "2 ^ q dvd s" using assms(1) by (auto simp: aligned_def)
  note b = split_pt_bounds [OF assms(2)]
  then show "aligned s (s + split_pt n)" using q by (auto simp: aligned_def intro!: exI [of _ q])
  obtain p where p: "split_pt n = 2 ^ p" by (simp add: split_pt_def)
  then have "(2::nat) ^ p < 2 ^ q" using b q(1) by linarith
  then have "(2::nat) ^ p dvd 2 ^ q" by (simp add: le_imp_power_dvd)
  then have "2 ^ p dvd s" using q(2) by (rule dvd_trans)
  then have "2 ^ p dvd s + split_pt n" by (simp add: p)
  then show "aligned (s + split_pt n) (s + n)" using b p by (auto simp: aligned_def intro!: exI [of _ p])
qed

definition int_ranges :: "(nat \<times> nat) list \<Rightarrow> (int \<times> int) list" where
  "int_ranges = map (\<lambda>(a, b). (int a, int b))"

definition ranges_in :: "nat \<Rightarrow> nat \<Rightarrow> (nat \<times> nat) list \<Rightarrow> bool" where
  "ranges_in s e rs \<longleftrightarrow> (\<forall>(a, b) \<in> set rs. s \<le> a \<and> a < b \<and> b \<le> e \<and> aligned a b)"

definition range_mths :: "(bytes \<Rightarrow> bytes) \<Rightarrow> bytes list \<Rightarrow> (nat \<times> nat) list \<Rightarrow> bytes list" where
  "range_mths H hs = map (\<lambda>(a, b). mth H (py_slice a b hs))"

lemma int_ranges_append [simp]: "int_ranges (rs @ [(a, b)]) = int_ranges rs @ [(int a, int b)]"
  by (simp add: int_ranges_def)

lemma range_mths_append [simp]: "range_mths H hs (rs @ [(a, b)]) = range_mths H hs rs @ [mth H (py_slice a b hs)]"
  by (simp add: range_mths_def)

lemma ranges_in_append [simp]:
  "ranges_in s e (rs @ [(a, b)]) \<longleftrightarrow> ranges_in s e rs \<and> s \<le> a \<and> a < b \<and> b \<le> e \<and> aligned a b"
  by (auto simp: ranges_in_def)

lemma ranges_in_mono: "ranges_in s e rs \<Longrightarrow> s' \<le> s \<Longrightarrow> e \<le> e' \<Longrightarrow> ranges_in s' e' rs"
  by (fastforce simp: ranges_in_def)

lemma py_slice_take: "k \<le> n \<Longrightarrow> take k (py_slice s (s + n) xs) = py_slice s (s + k) xs"
  by (simp add: py_slice_def min_def)

lemma py_slice_drop: "k \<le> n \<Longrightarrow> drop k (py_slice s (s + n) xs) = py_slice (s + k) (s + n) xs"
  by (simp add: py_slice_def drop_take add.commute)

lemma path_ranges:
  assumes "m < n" and "aligned s (s + n)" and "s + n \<le> length hs"
  shows "\<exists>rs. path (int m) (int s) (int s + int n) = Some (int_ranges rs) \<and> ranges_in s (s + n) rs \<and>
    range_mths H hs rs = audit_path H m (py_slice s (s + n) hs)"
  using assms
proof (induction n arbitrary: m s rule: less_induct)
  case (less n)
  have len: "length (py_slice s (s + n) hs) = n" using less.prems(3) by (simp add: length_py_slice)
  show ?case
  proof (cases "n \<le> 1")
    case True
    then have "n = 1" using less.prems by simp
    then show ?thesis
      using len by (intro exI [of _ "[]"])
        (simp add: path.simps int_ranges_def ranges_in_def range_mths_def audit_path.simps)
  next
    case False
    then have n: "2 \<le> n" by simp
    let ?k = "split_pt n"
    note b = split_pt_bounds [OF n] and al = aligned_split [OF less.prems(2) n] and lb = len_bin_split [OF n]
    have ap: "audit_path H m (py_slice s (s + n) hs) =
        (if m < ?k then audit_path H m (py_slice s (s + ?k) hs) @ [mth H (py_slice (s + ?k) (s + n) hs)]
         else audit_path H (m - ?k) (py_slice (s + ?k) (s + n) hs) @ [mth H (py_slice s (s + ?k) hs)])"
      using b False by (subst audit_path.simps) (simp add: len Let_def py_slice_take py_slice_drop del: length_py_slice)
    show ?thesis
    proof (cases "m < ?k")
      case True
      obtain rs where rs: "path (int m) (int s) (int s + int ?k) = Some (int_ranges rs)"
        "ranges_in s (s + ?k) rs" "range_mths H hs rs = audit_path H m (py_slice s (s + ?k) hs)"
        using less.IH [of ?k m s] True b al less.prems by auto
      have "path (int m) (int s) (int s + int n) = Some (int_ranges (rs @ [(s + ?k, s + n)]))"
        using n True rs(1) by (subst path.simps) (simp add: Let_def lb)
      moreover have "ranges_in s (s + n) rs" using rs(2) b by (auto elim: ranges_in_mono)
      ultimately show ?thesis
        using b al rs(3) True by (intro exI [of _ "rs @ [(s + ?k, s + n)]"]) (simp add: ap)
    next
      case False
      have "aligned (s + ?k) (s + ?k + (n - ?k))" "m - ?k < n - ?k" using al(2) b False less.prems(1) by simp_all
      then obtain rs where rs: "path (int (m - ?k)) (int (s + ?k)) (int (s + ?k) + int (n - ?k)) = Some (int_ranges rs)"
        "ranges_in (s + ?k) (s + ?k + (n - ?k)) rs"
        "range_mths H hs rs = audit_path H (m - ?k) (py_slice (s + ?k) (s + ?k + (n - ?k)) hs)"
        using less.IH [of "n - ?k" "m - ?k" "s + ?k"] False b less.prems by auto
      have "path (int m) (int s) (int s + int n) = Some (int_ranges (rs @ [(s, s + ?k)]))"
        using n False rs(1) b by (subst path.simps) (simp add: Let_def lb of_nat_diff algebra_simps)
      moreover have "ranges_in s (s + n) rs" using rs(2) b by (auto elim: ranges_in_mono)
      ultimately show ?thesis
        using b al rs(3) False by (intro exI [of _ "rs @ [(s, s + ?k)]"]) (simp add: ap)
    qed
  qed
qed

section \<open>Consistency proofs\<close>

function cons_path :: "(bytes \<Rightarrow> bytes) \<Rightarrow> nat \<Rightarrow> bytes list \<Rightarrow> bool \<Rightarrow> bytes list" where
  "cons_path H m hs b =
     (if m = length hs \<or> length hs \<le> 1 then (if b then [] else [mth H hs])
      else let k = split_pt (length hs) in
        if m \<le> k then cons_path H m (take k hs) b @ [mth H (drop k hs)]
        else cons_path H (m - k) (drop k hs) False @ [mth H (take k hs)])"
  by pat_completeness auto
termination
proof (relation "measure (\<lambda>(H, m, hs, b). length hs)")
  fix m k :: nat and H :: "bytes \<Rightarrow> bytes" and hs :: "bytes list" and b
  assume "\<not> (m = length hs \<or> length hs \<le> 1)" "k = split_pt (length hs)"
  then have "2 \<le> length hs" by simp
  from split_pt_bounds [OF this] \<open>k = _\<close>
  show "((H, m, take k hs, b), H, m, hs, b) \<in> measure (\<lambda>(H, m, hs, b). length hs)"
    and "((H, m - k, drop k hs, False), H, m, hs, b) \<in> measure (\<lambda>(H, m, hs, b). length hs)"
    by auto
qed simp

declare cons_path.simps [simp del]

lemma subproof_ranges:
  assumes "1 \<le> m" and "m \<le> n" and "aligned s (s + n)" and "s + n \<le> length hs"
  shows "\<exists>rs. subproof (int m) (int s) (int s + int n) b = Some (int_ranges rs) \<and> ranges_in s (s + n) rs \<and>
    range_mths H hs rs = cons_path H m (py_slice s (s + n) hs) b"
  using assms
proof (induction n arbitrary: m s b rule: less_induct)
  case (less n)
  have len: "length (py_slice s (s + n) hs) = n" using less.prems(4) by (simp add: length_py_slice)
  show ?case
  proof (cases "m = n")
    case True
    then show ?thesis
      using len less.prems by (intro exI [of _ "if b then [] else [(s, s + n)]"])
        (simp add: subproof.simps int_ranges_def ranges_in_def range_mths_def cons_path.simps)
  next
    case False
    then have n: "2 \<le> n" using less.prems by simp
    let ?k = "split_pt n"
    note b = split_pt_bounds [OF n] and al = aligned_split [OF less.prems(3) n] and lb = len_bin_split [OF n]
    have ap: "cons_path H m (py_slice s (s + n) hs) b =
        (if m \<le> ?k then cons_path H m (py_slice s (s + ?k) hs) b @ [mth H (py_slice (s + ?k) (s + n) hs)]
         else cons_path H (m - ?k) (py_slice (s + ?k) (s + n) hs) False @ [mth H (py_slice s (s + ?k) hs)])"
      using b False n
      by (subst cons_path.simps) (simp add: len Let_def py_slice_take py_slice_drop del: length_py_slice)
    show ?thesis
    proof (cases "m \<le> ?k")
      case True
      obtain rs where rs: "subproof (int m) (int s) (int s + int ?k) b = Some (int_ranges rs)"
        "ranges_in s (s + ?k) rs" "range_mths H hs rs = cons_path H m (py_slice s (s + ?k) hs) b"
        using less.IH [of ?k m s b] True b al less.prems by auto
      have "subproof (int m) (int s) (int s + int n) b = Some (int_ranges (rs @ [(s + ?k, s + n)]))"
        using n True rs(1) False by (subst subproof.simps) (simp add: Let_def lb)
      moreover have "ranges_in s (s + n) rs" using rs(2) b by (auto elim: ranges_in_mono)
      ultimately show ?thesis
        using b al rs(3) True by (intro exI [of _ "rs @ [(s + ?k, s + n)]"]) (simp add: ap)
    next
      case gt: False
      have "aligned (s + ?k) (s + ?k + (n - ?k))" "1 \<le> m - ?k" "m - ?k \<le> n - ?k"
        using al(2) b gt less.prems(2) by simp_all
      then obtain rs where rs: "subproof (int (m - ?k)) (int (s + ?k)) (int (s + ?k) + int (n - ?k)) False = Some (int_ranges rs)"
        "ranges_in (s + ?k) (s + ?k + (n - ?k)) rs"
        "range_mths H hs rs = cons_path H (m - ?k) (py_slice (s + ?k) (s + ?k + (n - ?k)) hs) False"
        using less.IH [of "n - ?k" "m - ?k" "s + ?k" False] b less.prems by auto
      have "subproof (int m) (int s) (int s + int n) b = Some (int_ranges (rs @ [(s, s + ?k)]))"
        using n gt False rs(1) b by (subst subproof.simps) (simp add: Let_def lb of_nat_diff algebra_simps)
      moreover have "ranges_in s (s + n) rs" using rs(2) b by (auto elim: ranges_in_mono)
      ultimately show ?thesis
        using b al rs(3) gt by (intro exI [of _ "rs @ [(s, s + ?k)]"]) (simp add: ap)
    qed
  qed
qed

text \<open>The two loops of the verifier are one loop that runs until the last node is the root.\<close>

fun climb :: "(bytes \<Rightarrow> bytes) \<Rightarrow> nat \<Rightarrow> nat \<Rightarrow> bytes \<Rightarrow> bytes \<Rightarrow> bytes list \<Rightarrow> (bytes \<times> bytes \<times> bytes list) option" where
  "climb H node lst x y p =
     (if lst = 0 then Some (x, y, p)
      else if node mod 2 \<noteq> 0 then
        (case p of [] \<Rightarrow> None | z # p' \<Rightarrow> climb H (node div 2) (lst div 2) (hash_children H z x) (hash_children H z y) p')
      else if node < lst then
        (case p of [] \<Rightarrow> None | z # p' \<Rightarrow> climb H (node div 2) (lst div 2) x (hash_children H y z) p')
      else climb H (node div 2) (lst div 2) x y p)"

declare climb.simps [simp del]

lemma climb_last: "climb H 0 lst x y p = map_option (\<lambda>(y', p'). (x, y', p')) (last_loop H lst y p)"
proof (induction H lst y p rule: last_loop.induct)
  case (1 H lst y p)
  then show ?case
    by (subst climb.simps, subst last_loop.simps) (auto split: list.split)
qed

lemma climb_node:
  "node \<le> lst \<Longrightarrow> climb H node lst x y p =
     Option.bind (node_loop H node lst x y p) (\<lambda>(l, x', y', p'). map_option (\<lambda>(y'', p''). (x', y'', p'')) (last_loop H l y' p'))"
proof (induction H node lst x y p rule: node_loop.induct)
  case (1 H node lst x y p)
  show ?case
  proof (cases "node = 0")
    case True
    then show ?thesis by (simp add: climb_last node_loop.simps)
  next
    case False
    have "node div 2 \<le> lst div 2" using 1(4) by (rule div_le_mono)
    with 1 False show ?thesis
      by (subst climb.simps, subst node_loop.simps) (auto split: list.split)
  qed
qed

definition low :: "nat \<Rightarrow> nat" where
  "low m = 2 ^ (lowest_bit_set m - 1)"

lemma low_pow2 [simp]: "low (2 ^ p) = 2 ^ p"
  by (simp add: low_def)

lemma low_even: "0 < m \<Longrightarrow> low (2 * m) = 2 * low m"
proof -
  assume "0 < m"
  then have "lowest_bit_set m \<noteq> 0" by simp
  then show ?thesis using lowest_bit_set_even [OF \<open>0 < m\<close>]
    by (cases "lowest_bit_set m") (simp_all add: low_def)
qed

lemma low_odd: "low (2 * m + 1) = 1"
  by (simp add: low_def lowest_bit_set_odd [unfolded One_nat_def])

lemma shift_right_child_low: "0 < m \<Longrightarrow> shift_right_child (m - 1) l = ((m - 1) div low m, l div low m)"
proof (induction m arbitrary: l rule: nat_bit_induct')
  case (even m)
  have "(2 * m - 1) mod 2 = 1" "(2 * m - 1) div 2 = m - 1" using even by (cases m; simp)+
  moreover have "(2 * m - 1) div (2 * low m) = (m - 1) div low m"
    using \<open>(2 * m - 1) div 2 = m - 1\<close> by (simp add: div_mult2_eq)
  ultimately show ?case
    using even by (subst shift_right_child.simps) (simp add: low_even div_mult2_eq)
next
  case (odd m)
  then show ?case using low_odd [of m] by (subst shift_right_child.simps) simp
qed simp

lemma mth_level:
  assumes "2 ^ p < length hs" and "length hs \<le> 2 ^ Suc p"
  shows "mth H hs = hash_children H (mth H (take (2 ^ p) hs)) (mth H (drop (2 ^ p) hs))"
  using mth_append [of "take (2 ^ p) hs" p "drop (2 ^ p) hs" H] assms by simp

lemma cons_path_level:
  assumes "2 ^ p < length hs" and "length hs \<le> 2 ^ Suc p" and "m \<noteq> length hs"
  shows "cons_path H m hs b =
    (if m \<le> 2 ^ p then cons_path H m (take (2 ^ p) hs) b @ [mth H (drop (2 ^ p) hs)]
     else cons_path H (m - 2 ^ p) (drop (2 ^ p) hs) False @ [mth H (take (2 ^ p) hs)])"
  using assms split_pt_level [OF assms(1,2)] one_le_power [of "2::nat" p]
  by (subst cons_path.simps) (auto simp: Let_def)

lemma cons_path_full: "m = length hs \<Longrightarrow> cons_path H m hs b = (if b then [] else [mth H hs])"
  by (simp add: cons_path.simps)

lemma cons_path_False_nonempty: "cons_path H m hs False \<noteq> []"
  by (subst cons_path.simps) (simp add: Let_def)

lemma low_add_pow2: "0 < r \<Longrightarrow> r < 2 ^ p \<Longrightarrow> low (2 ^ p + r) = low r"
  by (simp add: low_def lowest_bit_set_add_pow2)

lemma climb_cons_path:
  assumes "subtree_at p a (length hs) L" and "1 \<le> m" and "m < length hs \<or> m = length hs \<and> m = 2 ^ p"
    and "cons_path H m hs False = x # sp"
  shows "climb H ((a * 2 ^ p + m - 1) div low m) (L div low m) x x (sp @ rest) =
    climb H a (L div 2 ^ p) (mth H (take m hs)) (mth H hs) rest"
  using assms
proof (induction p arbitrary: a hs m sp rest)
  case 0
  then have "length hs = 1" "m = 1" by (auto simp: subtree_at_def)
  moreover from this have "x = mth H hs" "sp = []" using "0.prems"(4) by (simp_all add: cons_path_full)
  ultimately show ?case using low_odd [of 0] by simp
next
  case (Suc p)
  show ?case
  proof (cases "m = length hs")
    case True
    then have m: "m = 2 ^ Suc p" using Suc.prems(3) by simp
    have "a * m + m - 1 = a * m + (m - 1)" "m - 1 < m" using Suc.prems(2) by simp_all
    then have "(a * m + m - 1) div m = a" by (simp only: div_mult_self3) simp
    moreover have "x = mth H hs" "sp = []" using Suc.prems(4) True by (simp_all add: cons_path_full)
    ultimately show ?thesis using True m low_pow2 [of "Suc p"] by (simp del: power_Suc)
  next
    case False
    then have ml: "m < length hs" using Suc.prems(3) by simp
    have le: "length hs \<le> 2 ^ Suc p" using Suc.prems(1) by (simp add: subtree_at_def)
    show ?thesis
    proof (cases "length hs \<le> 2 ^ p")
      case True
      note th = subtree_at_thin [OF Suc.prems(1) True]
      have "climb H ((2 * a * 2 ^ p + m - 1) div low m) (L div low m) x x (sp @ rest) =
          climb H (2 * a) (L div 2 ^ p) (mth H (take m hs)) (mth H hs) rest"
        using th(1) Suc.prems(2,4) ml by (intro Suc.IH) auto
      also have "\<dots> = climb H (2 * a) (2 * a) (mth H (take m hs)) (mth H hs) rest" by (simp only: th(2))
      also have "\<dots> = climb H a a (mth H (take m hs)) (mth H hs) rest"
        by (cases "a = 0") (simp_all add: climb.simps [of H "2 * a" "2 * a"])
      finally show ?thesis unfolding th(3) by (simp add: ac_simps)
    next
      case wide: False
      then have gt: "2 ^ p < length hs" by simp
      note left = subtree_at_left [OF Suc.prems(1) gt] and right = subtree_at_right [OF Suc.prems(1) gt]
      note cp = cons_path_level [OF gt le False, of H False] and mt = mth_level [OF gt le, of H]
      show ?thesis
      proof (cases "m \<le> 2 ^ p")
        case True
        obtain sp' where sp': "cons_path H m (take (2 ^ p) hs) False = x # sp'" "sp = sp' @ [mth H (drop (2 ^ p) hs)]"
          using Suc.prems(4) cp True cons_path_False_nonempty [of H m "take (2 ^ p) hs"]
          by (cases "cons_path H m (take (2 ^ p) hs) False") auto
        have "climb H ((2 * a * 2 ^ p + m - 1) div low m) (L div low m) x x (sp' @ mth H (drop (2 ^ p) hs) # rest) =
            climb H (2 * a) (L div 2 ^ p) (mth H (take m (take (2 ^ p) hs))) (mth H (take (2 ^ p) hs)) (mth H (drop (2 ^ p) hs) # rest)"
          using left(1) gt True Suc.prems(2) sp'(1) by (intro Suc.IH) (auto simp: min_absorb2)
        also have "\<dots> = climb H a (L div 2 ^ p div 2) (mth H (take m hs)) (mth H hs) rest"
          using left(2) True by (subst climb.simps) (simp add: mt min_absorb1)
        finally show ?thesis unfolding div_pow2_Suc by (simp add: sp'(2) ac_simps)
      next
        case m: False
        obtain sp' where sp': "cons_path H (m - 2 ^ p) (drop (2 ^ p) hs) False = x # sp'" "sp = sp' @ [mth H (take (2 ^ p) hs)]"
          using Suc.prems(4) cp m cons_path_False_nonempty [of H "m - 2 ^ p" "drop (2 ^ p) hs"]
          by (cases "cons_path H (m - 2 ^ p) (drop (2 ^ p) hs) False") auto
        have lw: "low (m - 2 ^ p) = low m" using low_add_pow2 [of "m - 2 ^ p" p] m ml le by simp
        have ix: "(2 * a + 1) * 2 ^ p + (m - 2 ^ p) - 1 = a * 2 ^ Suc p + m - 1" using m by simp
        have tk: "mth H (take m hs) = hash_children H (mth H (take (2 ^ p) hs)) (mth H (take (m - 2 ^ p) (drop (2 ^ p) hs)))"
          using mth_level [of p "take m hs" H] m ml le by (simp add: min_absorb1 min_absorb2 drop_take)
        have "climb H (((2 * a + 1) * 2 ^ p + (m - 2 ^ p) - 1) div low (m - 2 ^ p)) (L div low (m - 2 ^ p)) x x
              (sp' @ mth H (take (2 ^ p) hs) # rest) =
            climb H (2 * a + 1) (L div 2 ^ p) (mth H (take (m - 2 ^ p) (drop (2 ^ p) hs))) (mth H (drop (2 ^ p) hs)) (mth H (take (2 ^ p) hs) # rest)"
          using right m ml sp'(1) by (intro Suc.IH) (auto simp: min_absorb2)
        also have "\<dots> = climb H a (L div 2 ^ p div 2) (mth H (take m hs)) (mth H hs) rest"
          using left(2) by (subst climb.simps) (simp add: mt tk)
        finally show ?thesis unfolding div_pow2_Suc lw ix by (simp add: sp'(2))
      qed
    qed
  qed
qed

lemma low_le: "0 < m \<Longrightarrow> low m \<le> m"
  using pow2_lowest_dvd [of m] by (simp add: low_def dvd_imp_le)

lemma cons_path_True:
  assumes "1 \<le> m" and "length hs \<le> 2 ^ p" and "m < length hs \<or> m = length hs \<and> m = 2 ^ p"
  shows "cons_path H m hs False =
    (if m = low m then mth H (take m hs) # cons_path H m hs True else cons_path H m hs True)"
  using assms
proof (induction p arbitrary: hs)
  case 0
  then have "length hs = 1" "m = 1" by auto
  then show ?case using low_odd [of 0] by (simp add: cons_path_full)
next
  case (Suc p)
  consider "m = length hs" "m = 2 ^ Suc p" | "m < length hs" "length hs \<le> 2 ^ p"
    | "m < length hs" "2 ^ p < length hs" using Suc.prems by linarith
  then show ?case
  proof cases
    case 1
    then show ?thesis using low_pow2 [of "Suc p"] by (simp add: cons_path_full del: power_Suc)
  next
    case 2
    then show ?thesis using Suc.IH Suc.prems(1) by blast
  next
    case 3
    note cp = cons_path_level [OF 3(2) Suc.prems(2), of m H]
    show ?thesis
    proof (cases "m \<le> 2 ^ p")
      case True
      have "cons_path H m (take (2 ^ p) hs) False =
          (if m = low m then mth H (take m (take (2 ^ p) hs)) # cons_path H m (take (2 ^ p) hs) True
           else cons_path H m (take (2 ^ p) hs) True)"
        using True 3 Suc.prems(1) by (intro Suc.IH) (auto simp: min_absorb2)
      then show ?thesis using True 3 by (simp add: cp min_absorb1)
    next
      case False
      have "low m = low (m - 2 ^ p)" using low_add_pow2 [of "m - 2 ^ p" p] False 3 Suc.prems(2) by simp
      also have "\<dots> \<le> m - 2 ^ p" using False by (intro low_le) simp
      also have "\<dots> < m" using False by simp
      finally show ?thesis using False 3 by (simp add: cp)
    qed
  qed
qed

lemma verify_climb:
  assumes "0 < m" and "m < n"
    and "(if (m - 1) div low m \<noteq> 0 then (case prf of [] \<Rightarrow> None | x # p \<Rightarrow> Some (x, p)) else Some (r, prf)) = Some (x, p)"
    and "climb H ((m - 1) div low m) ((n - 1) div low m) x x p = Some (r, r', q)"
  shows "verify_tree_consistency H (int m) (int n) r r' prf = Inr True"
proof -
  have le: "(m - 1) div low m \<le> (n - 1) div low m" using assms(2) by (intro div_le_mono) simp
  obtain l y p' where nl: "node_loop H ((m - 1) div low m) ((n - 1) div low m) x x p = Some (l, r, y, p')"
    and ll: "last_loop H l y p' = Some (r', q)"
    using assms(4) climb_node [OF le] by (auto simp: bind_eq_Some_conv)
  have "shift_right_child (nat (int m - 1)) (nat (int n - 1)) = ((m - 1) div low m, (n - 1) div low m)"
    using shift_right_child_low [OF assms(1)] assms(1,2) by (simp add: nat_diff_distrib')
  then show ?thesis
    using assms(1-3) nl ll by (simp add: verify_tree_consistency_def)
qed

theorem cons_path_accepted:
  assumes "0 < m" and "m < length hs"
  shows "verify_tree_consistency H (int m) (int (length hs)) (mth H (take m hs)) (mth H hs) (cons_path H m hs True) = Inr True"
proof -
  let ?n = "length hs"
  have n: "?n \<le> 2 ^ ?n" by (simp add: less_imp_le)
  obtain x sp where cp: "cons_path H m hs False = x # sp"
    using cons_path_False_nonempty [of H m hs] by (cases "cons_path H m hs False") auto
  have div0: "(?n - 1) div 2 ^ ?n = 0" using assms n by (intro div_less) linarith
  have "subtree_at ?n 0 ?n (?n - 1)" using assms n by (auto simp: subtree_at_def)
  then have cl: "climb H ((m - 1) div low m) ((?n - 1) div low m) x x sp = Some (mth H (take m hs), mth H hs, [])"
    using climb_cons_path [of ?n 0 hs "?n - 1" m H x sp "[]"] assms cp div0 by (simp add: climb.simps [of H 0 0])
  have "0 < low m" by (simp add: low_def)
  then have "(m - 1) div low m = 0 \<longleftrightarrow> m \<le> low m" by (auto simp: div_eq_0_iff)
  then have lw: "(m - 1) div low m = 0 \<longleftrightarrow> m = low m" using low_le [OF assms(1)] by auto
  have "cons_path H m hs False = (if m = low m then mth H (take m hs) # cons_path H m hs True else cons_path H m hs True)"
    using assms n by (intro cons_path_True [of _ _ "length hs"]) auto
  then show ?thesis
    using assms cl cp lw
    by (intro verify_climb [where x = x and p = sp and q = "[]"]) (auto split: if_splits list.splits)
qed

end
