(* ===== verification/Merkle_Proofs.thy ===== *)
theory Merkle_Proofs
  imports Merkle_Verifier
begin

text \<open>
  What the Merkle tree and its verifier promise together. A tree that was filled by
  \<^verbatim>\<open>append\<close> has the root hash of RFC 6962 over the leaves appended; its stored node hashes
  are complete; the hash of a range never changes once it is in the tree; its inclusion and
  consistency proofs are accepted; and an accepted inclusion proof is the proof of the
  leaf that is in the tree, unless two of the byte strings hashed by the tree and by the
  verifier collide. The lemmas are proved for every hash store; the properties are stated
  for the database store over any key-value storage that meets its contract.
\<close>

section \<open>Definitions\<close>

text \<open>\<^verbatim>\<open>for leaf in leaves: tree.append(leaf)\<close>.\<close>

definition append_all ::
  "('hs, 'z) HashWriter_scheme \<Rightarrow> (bytes \<Rightarrow> bytes) \<Rightarrow> 'hs CompactMerkleTree \<Rightarrow> bytes list \<Rightarrow> 'hs CompactMerkleTree result" where
  "append_all ops H t ls = foldE (\<lambda>t l. bindE (append_leaf ops H t l) (\<lambda>(t', _). Inr t')) t ls"

text \<open>The byte strings that are hashed by the verifier of an audit path and by the tree.\<close>

function root_inputs :: "(bytes \<Rightarrow> bytes) \<Rightarrow> nat \<Rightarrow> nat \<Rightarrow> bytes \<Rightarrow> bytes list \<Rightarrow> bytes list" where
  "root_inputs H m n c xs =
     (if n \<le> 1 then []
      else if m < split_pt n then
        (1 # root_from H m (split_pt n) c (butlast xs) @ last xs) # root_inputs H m (split_pt n) c (butlast xs)
      else
        (1 # last xs @ root_from H (m - split_pt n) (n - split_pt n) c (butlast xs))
          # root_inputs H (m - split_pt n) (n - split_pt n) c (butlast xs))"
  by pat_completeness auto
termination
proof (relation "measure (\<lambda>(H, m, n, c, xs). n)")
  fix m n :: nat and H :: "bytes \<Rightarrow> bytes" and c :: bytes and xs :: "bytes list"
  assume "\<not> n \<le> 1"
  then have "2 \<le> n" by simp
  from split_pt_bounds [OF this]
  show "((H, m, split_pt n, c, butlast xs), H, m, n, c, xs) \<in> measure (\<lambda>(H, m, n, c, xs). n)"
    and "((H, m - split_pt n, n - split_pt n, c, butlast xs), H, m, n, c, xs) \<in> measure (\<lambda>(H, m, n, c, xs). n)"
    by auto
qed simp

function mth_inputs :: "(bytes \<Rightarrow> bytes) \<Rightarrow> bytes list \<Rightarrow> bytes list" where
  "mth_inputs H hs =
     (if length hs \<le> 1 then []
      else let k = split_pt (length hs) in
        (1 # mth H (take k hs) @ mth H (drop k hs)) # mth_inputs H (take k hs) @ mth_inputs H (drop k hs))"
  by pat_completeness auto
termination
proof (relation "measure (\<lambda>(H, hs). length hs)")
  fix k :: nat and H :: "bytes \<Rightarrow> bytes" and hs :: "bytes list"
  assume "\<not> length hs \<le> 1" "k = split_pt (length hs)"
  then have "2 \<le> length hs" by simp
  from split_pt_bounds [OF this] \<open>k = _\<close>
  show "((H, take k hs), H, hs) \<in> measure (\<lambda>(H, hs). length hs)"
    and "((H, drop k hs), H, hs) \<in> measure (\<lambda>(H, hs). length hs)" by auto
qed simp

declare root_inputs.simps [simp del] mth_inputs.simps [simp del]

definition hashed_inputs :: "(bytes \<Rightarrow> bytes) \<Rightarrow> bytes \<Rightarrow> nat \<Rightarrow> bytes list \<Rightarrow> bytes list \<Rightarrow> bytes list" where
  "hashed_inputs H leaf m prf ls =
     (0 # leaf) # map (\<lambda>l. 0 # l) ls @ root_inputs H m (length ls) (hash_leaf H leaf) prf
       @ mth_inputs H (map (hash_leaf H) ls)"

section \<open>Accepted audit paths are the paths of the tree\<close>

lemma audit_loop_length: "audit_loop H i l c xs = Inr r \<Longrightarrow> length xs + k = audit_path_length_loop i l k"
proof (induction H i l c xs arbitrary: k rule: audit_loop.induct)
  case (1 H i l c xs)
  show ?case
  proof (cases "l = 0")
    case True
    then show ?thesis
      using 1(4) by (simp add: audit_loop.simps [of H i 0] audit_path_length_loop.simps [of i 0] split: if_splits)
  next
    case False
    then have l: "l > 0" by simp
    have st: "audit_path_length_loop i l k =
        audit_path_length_loop (i div 2) (l div 2) (if i mod 2 \<noteq> 0 \<or> i < l then k + 1 else k)"
      using l by (subst audit_path_length_loop.simps) simp
    obtain x rest where xs: "xs = x # rest"
      using 1(4) l by (cases xs) (auto simp: audit_loop.simps [of H i l])
    consider "i mod 2 \<noteq> 0" | "i mod 2 = 0" "i < l" | "i mod 2 = 0" "\<not> i < l" by blast
    then show ?thesis
    proof cases
      case 1
      then have "audit_loop H (i div 2) (l div 2) (hash_children H x c) rest = Inr r"
        using "1.prems" l xs by (simp add: audit_loop.simps [of H i l])
      then show ?thesis using "1.IH"(1) [OF l xs 1, of "k + 1"] 1 st xs by simp
    next
      case 2
      then have "audit_loop H (i div 2) (l div 2) (hash_children H c x) rest = Inr r"
        using "1.prems" l xs by (simp add: audit_loop.simps [of H i l])
      then show ?thesis using "1.IH"(2) [OF l xs _ 2(2), of "k + 1"] 2 st xs by simp
    next
      case 3
      then have "audit_loop H (i div 2) (l div 2) c xs = Inr r"
        using "1.prems" l xs by (simp add: audit_loop.simps [of H i l])
      then show ?thesis using "1.IH"(3) [OF l xs _ 3(2), of k] 3 st by simp
    qed
  qed
qed

lemma audit_path_length: "m < n \<Longrightarrow> audit_path_length m n = path_len m n"
  using audit_loop_length [OF audit_loop_root_from [of m n "replicate (path_len m n) []" "\<lambda>x. x" "[]"], of 0]
  by (simp add: audit_path_length_def)

lemma audit_loop_sound:
  assumes "audit_loop H m (n - 1) c xs = Inr r" and "m < n"
  shows "length xs = path_len m n" and "root_from H m n c xs = r"
proof -
  show l: "length xs = path_len m n"
    using audit_loop_length [OF assms(1), of 0] audit_path_length [OF assms(2)] by (simp add: audit_path_length_def)
  show "root_from H m n c xs = r" using audit_loop_root_from [OF assms(2) l, of H c] assms(1) by simp
qed

lemma length_root_from: "(\<And>x. length (H x) = d) \<Longrightarrow> length c = d \<Longrightarrow> length (root_from H m n c xs) = d"
  by (subst root_from.simps) (simp add: hash_children_def)

lemma length_mth:
  "(\<And>x. length (H x) = d) \<Longrightarrow> (\<forall>h \<in> set hs. length h = d) \<Longrightarrow> hs \<noteq> [] \<Longrightarrow> length (mth H hs) = d"
  by (subst mth.simps) (auto simp: hash_children_def Let_def hd_in_set)

lemma hash_children_inj:
  assumes "hash_children H a b = hash_children H a' b'" and "inj_on H S" and "1 # a @ b \<in> S" and "1 # a' @ b' \<in> S"
    and "length a = length a' \<or> length b = length b'"
  shows "a = a' \<and> b = b'"
proof -
  have "1 # a @ b = 1 # a' @ b'" using assms(1-4) by (auto simp: hash_children_def dest: inj_onD)
  then show ?thesis using assms(5) by auto
qed

lemma root_from_inj:
  assumes H: "\<And>x. length (H x) = d" and c: "length c = d"
  shows "m < length hs \<Longrightarrow> length xs = path_len m (length hs) \<Longrightarrow> \<forall>h \<in> set hs. length h = d \<Longrightarrow>
    inj_on H (set (root_inputs H m (length hs) c xs) \<union> set (mth_inputs H hs)) \<Longrightarrow>
    root_from H m (length hs) c xs = mth H hs \<Longrightarrow> c = hs ! m \<and> xs = audit_path H m hs"
proof (induction "length hs" arbitrary: hs m xs rule: less_induct)
  case less
  show ?case
  proof (cases "length hs \<le> 1")
    case True
    then have "length hs = 1" using less.prems by linarith
    then show ?thesis
      using less.prems by (simp add: root_from.simps [of H _ "Suc 0"] mth.simps [of H hs] path_len.simps audit_path.simps)
  next
    case False
    then have n: "2 \<le> length hs" by simp
    let ?k = "split_pt (length hs)" and ?ys = "butlast xs" and ?y = "last xs"
    let ?l = "take ?k hs" and ?r = "drop ?k hs" and ?S = "set (root_inputs H m (length hs) c xs) \<union> set (mth_inputs H hs)"
    note b = split_pt_bounds [OF n] and lr = length_root_from [of H d c, OF H c]
    have len: "length ?l = ?k" "length ?r = length hs - ?k" "?l \<noteq> []" "?r \<noteq> []" using b by auto
    have dl: "\<forall>h \<in> set ?l. length h = d" and dr: "\<forall>h \<in> set ?r. length h = d"
      using less.prems(3) by (auto dest: in_set_takeD in_set_dropD)
    have dm: "length (mth H ?l) = d" "length (mth H ?r) = d"
      using length_mth [of H d, OF H dl len(3)] length_mth [of H d, OF H dr len(4)] by auto
    have xs: "xs \<noteq> []" using less.prems(2) False by (auto simp: path_len.simps [of m "length hs"] split: if_splits)
    have xsy: "xs = ?ys @ [?y]" using xs by simp
    have ti: "mth_inputs H hs = (1 # mth H ?l @ mth H ?r) # mth_inputs H ?l @ mth_inputs H ?r"
      using False by (subst mth_inputs.simps) (simp add: Let_def)
    have mt: "mth H hs = hash_children H (mth H ?l) (mth H ?r)"
      using False by (subst mth.simps) (auto simp: Let_def)
    show ?thesis
    proof (cases "m < ?k")
      case True
      let ?a = "root_from H m ?k c ?ys"
      have ri: "root_inputs H m (length hs) c xs = (1 # ?a @ ?y) # root_inputs H m ?k c ?ys"
        using False True by (subst root_inputs.simps) simp
      have "hash_children H ?a ?y = hash_children H (mth H ?l) (mth H ?r)"
        using less.prems(5) False True mt by (simp add: root_from.simps [of H m "length hs"])
      then have eq: "?a = mth H ?l \<and> ?y = mth H ?r"
        by (rule hash_children_inj [OF _ less.prems(4)]) (simp_all add: ri ti dm lr)
      have "inj_on H (set (root_inputs H m ?k c ?ys) \<union> set (mth_inputs H ?l))"
        using less.prems(4) by (rule inj_on_subset) (auto simp: ri ti)
      moreover have "length ?ys = path_len m ?k"
        using less.prems(2) False True by (simp add: path_len.simps [of m "length hs"])
      ultimately have "c = ?l ! m \<and> ?ys = audit_path H m ?l"
        using less.hyps [of ?l "m" ?ys] less.prems(1,3) True b len eq by (simp add: dl)
      then show ?thesis
        using True False eq xsy by (subst audit_path.simps) (simp add: Let_def)
    next
      case ge: False
      let ?a = "root_from H (m - ?k) (length hs - ?k) c ?ys"
      have ri: "root_inputs H m (length hs) c xs = (1 # ?y @ ?a) # root_inputs H (m - ?k) (length hs - ?k) c ?ys"
        using False ge by (subst root_inputs.simps) simp
      have "hash_children H ?y ?a = hash_children H (mth H ?l) (mth H ?r)"
        using less.prems(5) False ge mt by (simp add: root_from.simps [of H m "length hs"])
      then have eq: "?y = mth H ?l \<and> ?a = mth H ?r"
        by (rule hash_children_inj [OF _ less.prems(4)]) (simp_all add: ri ti dm lr)
      have "inj_on H (set (root_inputs H (m - ?k) (length hs - ?k) c ?ys) \<union> set (mth_inputs H ?r))"
        using less.prems(4) by (rule inj_on_subset) (auto simp: ri ti)
      moreover have "length ?ys = path_len (m - ?k) (length hs - ?k)"
        using less.prems(2) False ge by (simp add: path_len.simps [of m "length hs"])
      ultimately have "c = ?r ! (m - ?k) \<and> ?ys = audit_path H (m - ?k) ?r"
        using less.hyps [of ?r "m - ?k" ?ys] less.prems(1,3) ge b len eq by (simp add: dr)
      then show ?thesis
        using ge False eq xsy b by (subst audit_path.simps) (simp add: Let_def)
    qed
  qed
qed

section \<open>Trees over a hash store\<close>

lemma map_py_slice: "map f (py_slice a b xs) = py_slice a b (map f xs)"
  by (simp add: py_slice_def take_map drop_map)

context hash_store
begin

lemma append_all_ok:
  assumes "\<And>x. length (H x) = dlen"
  shows "tree_ok hs_ok leafs nodes H t ls0 \<Longrightarrow>
    \<exists>t'. append_all ops H t ls = Inr t' \<and> tree_ok hs_ok leafs nodes H t' (ls0 @ ls)"
proof (induction ls arbitrary: t ls0)
  case Nil
  then show ?case by (simp add: append_all_def)
next
  case (Cons l ls)
  from append_leaf_ok [OF Cons.prems assms, where ?l = l] obtain t1 where
    "append_leaf ops H t l = Inr (t1, rev (subroots H (map (hash_leaf H) ls0)))"
    "tree_ok hs_ok leafs nodes H t1 (ls0 @ [l])" by blast
  then show ?case using Cons.IH [of t1 "ls0 @ [l]"] by (simp add: append_all_def)
qed

lemma range_hashes_ok:
  assumes "tree_ok hs_ok leafs nodes H t ls" and "ranges_in 0 (length ls) rs"
  shows "range_hashes ops H t (Some (int_ranges rs)) = Inr (map Some (range_mths H (map (hash_leaf H) ls) rs))"
  using assms(2)
proof (induction rs)
  case (Cons r rs)
  then show ?case
    by (cases r) (simp add: range_hashes_def int_ranges_def range_mths_def ranges_in_def map_py_slice
        merkle_tree_hash_ok [OF assms(1)])
qed (simp add: range_hashes_def int_ranges_def range_mths_def)

lemma inclusion_proof_ok:
  assumes t: "tree_ok hs_ok leafs nodes H t ls" and "m < n" and "n \<le> length ls"
  shows "inclusion_proof ops H t m n = Inr (map Some (audit_path H m (map (hash_leaf H) (take n ls))))"
proof -
  obtain rs where rs: "path (int m) 0 (int n) = Some (int_ranges rs)" "ranges_in 0 n rs"
    "range_mths H (map (hash_leaf H) ls) rs = audit_path H m (py_slice 0 n (map (hash_leaf H) ls))"
    using path_ranges [of m n 0 "map (hash_leaf H) ls" H] assms by auto
  have "ranges_in 0 (length ls) rs" using rs(2) assms(3) by (auto elim: ranges_in_mono)
  from range_hashes_ok [OF t this] show ?thesis
    using rs(1,3) by (simp add: inclusion_proof_def py_slice_0 take_map)
qed

lemma consistency_proof_ok:
  assumes t: "tree_ok hs_ok leafs nodes H t ls" and "1 \<le> m" and "m \<le> n" and "n \<le> length ls"
  shows "consistency_proof ops H t m n = Inr (map Some (cons_path H m (map (hash_leaf H) (take n ls)) True))"
proof -
  obtain rs where rs: "subproof (int m) 0 (int n) True = Some (int_ranges rs)" "ranges_in 0 n rs"
    "range_mths H (map (hash_leaf H) ls) rs = cons_path H m (py_slice 0 n (map (hash_leaf H) ls)) True"
    using subproof_ranges [of m n 0 "map (hash_leaf H) ls" True H] assms by auto
  have "ranges_in 0 (length ls) rs" using rs(2) assms(4) by (auto elim: ranges_in_mono)
  from range_hashes_ok [OF t this] show ?thesis
    using rs(1,3) by (simp add: consistency_proof_def py_slice_0 take_map)
qed

text \<open>A range that is in the tree keeps its hash: the memo of \<^verbatim>\<open>merkle_tree_hash\<close> stays valid.\<close>

lemma merkle_tree_hash_stable:
  assumes t: "tree_ok hs_ok leafs nodes H t ls" and "append_leaf ops H t l = Inr (t', p)"
    and "\<And>x. length (H x) = dlen" and "s < e" and "e \<le> length ls" and "aligned s e"
  shows "merkle_tree_hash ops H t' s e = merkle_tree_hash ops H t s e"
proof -
  have "tree_ok hs_ok leafs nodes H t' (ls @ [l])"
    using append_leaf_ok [OF t assms(3), where ?l = l] assms(2) by auto
  from merkle_tree_hash_ok [OF this assms(4) _ assms(6)] merkle_tree_hash_ok [OF t assms(4,5,6)] assms(5)
  show ?thesis by (simp add: py_slice_append_left)
qed

lemma get_tree_head_ok:
  assumes t: "tree_ok hs_ok leafs nodes H t ls" and "0 < n" and "n \<le> length ls"
  shows "get_tree_head ops H t (Some n) = Inr (n, Some (mth H (map (hash_leaf H) (take n ls))))"
  using merkle_tree_hash_ok [OF t assms(2,3) aligned_0] assms tree_ok_size [OF t]
  by (simp add: get_tree_head_def py_slice_0)

end

context kv_storage
begin

lemma dhs_open_empty:
  assumes "kv_inv n" and "kv_inv l" and "kv_map n = Map.empty" and "kv_map l = Map.empty"
  shows "tree_ok (dhs_ok kv_map kv_inv) (dhs_leafs kv_map) (dhs_nodes kv_map) H (mk_CompactMerkleTree (dhs_open ops n l)) []"
proof -
  have "kv_size ops l = 0" using size_card [OF assms(2)] assms(4) by simp
  then show ?thesis
    using assms by (intro dhs.mk_tree_ok) (simp_all add: dhs_open_def dhs_ok_def dhs_leafs_def dhs_nodes_def)
qed

lemma db_tree_built:
  assumes "kv_inv n" and "kv_inv l" and "kv_map n = Map.empty" and "kv_map l = Map.empty" and "\<And>x. length (H x) = 32"
  shows "\<exists>t. append_all (dhs_ops ops) H (mk_CompactMerkleTree (dhs_open ops n l)) ls = Inr t \<and>
    tree_ok (dhs_ok kv_map kv_inv) (dhs_leafs kv_map) (dhs_nodes kv_map) H t ls"
  using dhs.append_all_ok [OF assms(5) dhs_open_empty [OF assms(1-4)]] by simp

lemmas db_inclusion_proof = dhs.inclusion_proof_ok
lemmas db_consistency_proof = dhs.consistency_proof_ok
lemmas db_get_tree_head = dhs.get_tree_head_ok
lemmas db_verify_consistency = dhs.verify_consistency_ok
lemmas db_append_leaf = dhs.append_leaf_ok
lemmas db_reset_tree = dhs.reset_tree_ok

end

section \<open>Properties\<close>

text \<open>A hash function for the examples: a digest of 32 bytes, the input cut or padded.\<close>

definition pad_hash :: "bytes \<Rightarrow> bytes" where
  "pad_hash x = take 32 (x @ replicate 32 0)"

lemma length_pad_hash [simp]: "length (pad_hash x) = 32"
  by (simp add: pad_hash_def)

text \<open>
  C15: appending any sequence of leaves to an empty tree over an empty database store succeeds.
  The tree has that many leaves, its root hash is the RFC 6962 tree hash of the leaves, and
  the store holds a leaf hash per leaf and a node hash per full subtree, so that
  \<^verbatim>\<open>verify_consistency\<close> accepts it. The key-value storage is any one that meets its contract.
\<close>

theorem tree_append_correct:
  assumes "kv_storage ops kv_map kv_inv" and "kv_inv n" and "kv_inv l"
    and "kv_map n = Map.empty" and "kv_map l = Map.empty" and "\<And>x. length (H x) = 32"
  shows "\<exists>t. append_all (dhs_ops ops) H (mk_CompactMerkleTree (dhs_open ops n l)) ls = Inr t \<and>
    tree_size t = length ls \<and> root_hash H t = Inr (mth H (map (hash_leaf H) ls)) \<and>
    verify_consistency (dhs_ops ops) t (length ls) = Inr True"
proof -
  from kv_storage.db_tree_built [where ?ls = ls and ?H = H, OF assms] obtain t where
    "append_all (dhs_ops ops) H (mk_CompactMerkleTree (dhs_open ops n l)) ls = Inr t" and
    t: "tree_ok (dhs_ok kv_map kv_inv) (dhs_leafs kv_map) (dhs_nodes kv_map) H t ls" by blast
  then show ?thesis
    using tree_ok_size [OF t] tree_ok_root [OF t] kv_storage.db_verify_consistency [OF assms(1) t, of "length ls"]
    by simp
qed

theorem tree_append_correct_witness:
  "\<exists>t. append_all (dhs_ops kvm_ops) pad_hash (mk_CompactMerkleTree (dhs_open kvm_ops [] [])) [[1], [2], [3]] = Inr t \<and>
    tree_size t = 3 \<and> root_hash pad_hash t = Inr (mth pad_hash (map (hash_leaf pad_hash) [[1], [2], [3]])) \<and>
    verify_consistency (dhs_ops kvm_ops) t 3 = Inr True"
  using tree_append_correct [of kvm_ops map_of "\<lambda>d. distinct (map fst d)" "[]" "[]" pad_hash "[[1], [2], [3]]"]
    kvm.kv_storage_axioms by (simp add: eval_nat_numeral)

text \<open>
  C12: the inclusion proof that a tree makes for any of its leaves, against the tree head of
  any size that has the leaf, is accepted by the verifier.
\<close>

theorem inclusion_proof_verified:
  assumes "kv_storage ops kv_map kv_inv" and "kv_inv n" and "kv_inv l"
    and "kv_map n = Map.empty" and "kv_map l = Map.empty" and "\<And>x. length (H x) = 32"
    and "append_all (dhs_ops ops) H (mk_CompactMerkleTree (dhs_open ops n l)) ls = Inr t"
    and "i < sz" and "sz \<le> length ls"
  shows "\<exists>prf root. inclusion_proof (dhs_ops ops) H t i sz = Inr (map Some prf) \<and>
    get_tree_head (dhs_ops ops) H t (Some sz) = Inr (sz, Some root) \<and>
    verify_leaf_inclusion H (ls ! i) (int i) prf (int sz, root) = Inr True"
proof -
  have t: "tree_ok (dhs_ok kv_map kv_inv) (dhs_leafs kv_map) (dhs_nodes kv_map) H t ls"
    using kv_storage.db_tree_built [where ?ls = ls and ?H = H, OF assms(1-6)] assms(7) by simp
  show ?thesis
    using kv_storage.db_inclusion_proof [OF assms(1) t assms(8,9)] kv_storage.db_get_tree_head [OF assms(1) t _ assms(9)]
      audit_path_accepted [of i "map (hash_leaf H) (take sz ls)" H] assms(8,9)
    by (simp add: verify_leaf_inclusion_def min_absorb2)
qed

lemma pad_tree_built:
  "\<exists>t. append_all (dhs_ops kvm_ops) pad_hash (mk_CompactMerkleTree (dhs_open kvm_ops [] [])) ls = Inr t"
  using kvm.db_tree_built [of "[]" "[]" pad_hash ls] by auto

theorem inclusion_proof_verified_witness:
  "\<exists>t prf root. append_all (dhs_ops kvm_ops) pad_hash (mk_CompactMerkleTree (dhs_open kvm_ops [] [])) [[1], [2], [3]] = Inr t \<and>
    inclusion_proof (dhs_ops kvm_ops) pad_hash t 1 3 = Inr (map Some prf) \<and>
    get_tree_head (dhs_ops kvm_ops) pad_hash t (Some 3) = Inr (3, Some root) \<and>
    verify_leaf_inclusion pad_hash [2] 1 prf (3, root) = Inr True"
proof -
  obtain t where t: "append_all (dhs_ops kvm_ops) pad_hash (mk_CompactMerkleTree (dhs_open kvm_ops [] [])) [[1], [2], [3]] = Inr t"
    using pad_tree_built by blast
  show ?thesis
    using inclusion_proof_verified [OF kvm.kv_storage_axioms _ _ _ _ length_pad_hash t, of 1 3] t by simp
qed

text \<open>
  C14: the consistency proof that a tree makes between any two of its sizes is accepted by the
  verifier against the root hashes of those sizes.
\<close>

theorem consistency_proof_verified:
  assumes "kv_storage ops kv_map kv_inv" and "kv_inv n" and "kv_inv l"
    and "kv_map n = Map.empty" and "kv_map l = Map.empty" and "\<And>x. length (H x) = 32"
    and "append_all (dhs_ops ops) H (mk_CompactMerkleTree (dhs_open ops n l)) ls = Inr t"
    and "0 < old" and "old \<le> new" and "new \<le> length ls"
  shows "\<exists>prf r1 r2. consistency_proof (dhs_ops ops) H t old new = Inr (map Some prf) \<and>
    get_tree_head (dhs_ops ops) H t (Some old) = Inr (old, Some r1) \<and>
    get_tree_head (dhs_ops ops) H t (Some new) = Inr (new, Some r2) \<and>
    verify_tree_consistency H (int old) (int new) r1 r2 prf = Inr True"
proof -
  have t: "tree_ok (dhs_ok kv_map kv_inv) (dhs_leafs kv_map) (dhs_nodes kv_map) H t ls"
    using kv_storage.db_tree_built [where ?ls = ls and ?H = H, OF assms(1-6)] assms(7) by simp
  have "verify_tree_consistency H (int old) (int new) (mth H (map (hash_leaf H) (take old ls))) (mth H (map (hash_leaf H) (take new ls)))
      (cons_path H old (map (hash_leaf H) (take new ls)) True) = Inr True"
  proof (cases "old = new")
    case True
    then show ?thesis by (simp add: verify_tree_consistency_def)
  next
    case False
    then show ?thesis
      using cons_path_accepted [of old "map (hash_leaf H) (take new ls)" H] assms(8-10)
      by (simp add: min_absorb1 min_absorb2 take_map)
  qed
  then show ?thesis
    using kv_storage.db_consistency_proof [OF assms(1) t _ assms(9,10)] assms(8-10)
      kv_storage.db_get_tree_head [OF assms(1) t, of old] kv_storage.db_get_tree_head [OF assms(1) t, of new]
    by simp
qed

theorem consistency_proof_verified_witness:
  "\<exists>t prf r1 r2. append_all (dhs_ops kvm_ops) pad_hash (mk_CompactMerkleTree (dhs_open kvm_ops [] [])) [[1], [2], [3]] = Inr t \<and>
    consistency_proof (dhs_ops kvm_ops) pad_hash t 2 3 = Inr (map Some prf) \<and>
    get_tree_head (dhs_ops kvm_ops) pad_hash t (Some 2) = Inr (2, Some r1) \<and>
    get_tree_head (dhs_ops kvm_ops) pad_hash t (Some 3) = Inr (3, Some r2) \<and>
    verify_tree_consistency pad_hash 2 3 r1 r2 prf = Inr True"
proof -
  obtain t where t: "append_all (dhs_ops kvm_ops) pad_hash (mk_CompactMerkleTree (dhs_open kvm_ops [] [])) [[1], [2], [3]] = Inr t"
    using pad_tree_built by blast
  show ?thesis
    using consistency_proof_verified [OF kvm.kv_storage_axioms _ _ _ _ length_pad_hash t, of 2 3] t by simp
qed

text \<open>
  C13: an inclusion proof that the verifier accepts against the root hash of a list of leaves
  is for the leaf at that index and is the audit path of the tree, provided that no two of
  the byte strings that the tree and the verifier hashed collide.
\<close>

theorem inclusion_proof_sound:
  assumes "verify_leaf_inclusion H leaf (int i) prf (int (length ls), mth H (map (hash_leaf H) ls)) = Inr True"
    and "\<And>x. length (H x) = d" and "inj_on H (set (hashed_inputs H leaf i prf ls))"
  shows "leaf = ls ! i \<and> prf = audit_path H i (map (hash_leaf H) ls)"
proof -
  let ?hs = "map (hash_leaf H) ls"
  have i: "i < length ls"
    using assms(1) by (auto simp: verify_leaf_inclusion_def verify_leaf_hash_inclusion_def split: if_splits)
  have "audit_loop H i (length ls - 1) (hash_leaf H leaf) prf = Inr (mth H ?hs)"
    using assms(1) i
    by (auto simp: verify_leaf_inclusion_def verify_leaf_hash_inclusion_def calculate_root_hash_from_audit_path_def
        bindE_eq_Inr split: if_splits)
  note s = audit_loop_sound [OF this i]
  have "inj_on H (set (root_inputs H i (length ?hs) (hash_leaf H leaf) prf) \<union> set (mth_inputs H ?hs))"
    using assms(3) by (rule inj_on_subset) (auto simp: hashed_inputs_def)
  then have r: "hash_leaf H leaf = ?hs ! i \<and> prf = audit_path H i ?hs"
    using s i assms(2) by (intro root_from_inj [of H d]) (auto simp: hash_leaf_def)
  have eq: "H (0 # leaf) = H (0 # ls ! i)" using r i by (simp add: hash_leaf_def)
  have "0 # leaf \<in> set (hashed_inputs H leaf i prf ls)" and "0 # ls ! i \<in> set (hashed_inputs H leaf i prf ls)"
    using i by (simp_all add: hashed_inputs_def)
  from inj_onD [OF assms(3) eq this] show ?thesis using r by simp
qed

theorem inclusion_proof_sound_witness:
  "verify_leaf_inclusion pad_hash [7] 1 [hash_leaf pad_hash [5]] (2, mth pad_hash (map (hash_leaf pad_hash) [[5], [7]])) = Inr True \<and>
   [7] = [[5], [7 :: 8 word]] ! 1 \<and> [hash_leaf pad_hash [5]] = audit_path pad_hash 1 (map (hash_leaf pad_hash) [[5], [7]])"
proof -
  have v: "verify_leaf_inclusion pad_hash [7] (int 1) [hash_leaf pad_hash [5]]
      (int (length [[5], [7]]), mth pad_hash (map (hash_leaf pad_hash) [[5], [7]])) = Inr True"
    by code_simp
  have "inj_on pad_hash (set (hashed_inputs pad_hash [7] 1 [hash_leaf pad_hash [5]] [[5], [7]]))"
    by code_simp
  from inclusion_proof_sound [OF v length_pad_hash this] v show ?thesis by simp
qed

end
