(* ===== verification/Ledger_Base.thy ===== *)
theory Ledger_Base
  imports Merkle_Proofs
begin

text \<open>
  \<^verbatim>\<open>ledger/ledger.py\<close>: a ledger is a transaction log, a key-value storage with the sequence
  numbers as keys, next to a Merkle tree over the serialised transactions. The serialisers
  (MessagePack, Base58) are libraries: a record of functions that every operation takes. The
  storages are parameters with their contracts.
\<close>

section \<open>Definitions\<close>

record 'txn Serializers =
  txn_ser :: "'txn \<Rightarrow> bytes"
  txn_deser :: "bytes \<Rightarrow> 'txn"
  hash_ser :: "'txn \<Rightarrow> bytes"
  same_ser :: bool
  root_ser :: "bytes \<Rightarrow> string"

record ('hs, 'kv) Ledger =
  l_tree :: "'hs CompactMerkleTree"
  transactionLog :: 'kv
  l_seqNo :: nat
  l_read_only :: bool

record MerkleInfo =
  mi_seqNo :: "nat option"
  mi_rootHash :: "string option"
  mi_auditPath :: "string option list"
  mi_ledgerSize :: "nat option"

definition hashToStr :: "'txn Serializers \<Rightarrow> bytes option \<Rightarrow> string option" where
  "hashToStr S h = map_option (root_ser S) h"

definition ledger_size :: "('hs, 'kv, 'z) Ledger_scheme \<Rightarrow> nat" where
  "ledger_size L = tree_size (l_tree L)"

definition addToStore ::
  "'kv KeyValueStorage \<Rightarrow> ('hs, 'kv, 'z) Ledger_scheme \<Rightarrow> bytes \<Rightarrow> ('hs, 'kv, 'z) Ledger_scheme" where
  "addToStore kv L data =
     L\<lparr>transactionLog := kv_put kv (transactionLog L) (db_key (int (l_seqNo L) + 1)) data\<rparr>"

definition build_merkle_proof ::
  "(bytes \<Rightarrow> bytes) \<Rightarrow> 'txn Serializers \<Rightarrow> ('hs, 'kv, 'z) Ledger_scheme \<Rightarrow> bytes list \<Rightarrow> MerkleInfo result" where
  "build_merkle_proof H S L apath =
     bindE (root_hash H (l_tree L)) (\<lambda>r.
       Inr \<lparr>mi_seqNo = Some (l_seqNo L), mi_rootHash = hashToStr S (Some r),
            mi_auditPath = map (\<lambda>h. hashToStr S (Some h)) apath, mi_ledgerSize = None\<rparr>)"

definition addToTreeSerialized ::
  "('hs, 'y) HashWriter_scheme \<Rightarrow> (bytes \<Rightarrow> bytes) \<Rightarrow> 'txn Serializers \<Rightarrow> ('hs, 'kv, 'z) Ledger_scheme \<Rightarrow> bytes \<Rightarrow>
   (('hs, 'kv, 'z) Ledger_scheme \<times> MerkleInfo) result" where
  "addToTreeSerialized ops H S L serializedLeafData =
     bindE (append_leaf ops H (l_tree L) serializedLeafData) (\<lambda>(t, apath).
       let L' = L\<lparr>l_tree := t, l_seqNo := l_seqNo L + 1\<rparr> in
       bindE (build_merkle_proof H S L' apath) (\<lambda>info. Inr (L', info)))"

definition ledger_add ::
  "('hs, 'y) HashWriter_scheme \<Rightarrow> 'kv KeyValueStorage \<Rightarrow> (bytes \<Rightarrow> bytes) \<Rightarrow> 'txn Serializers \<Rightarrow>
   ('hs, 'kv, 'z) Ledger_scheme \<Rightarrow> 'txn \<Rightarrow> (('hs, 'kv, 'z) Ledger_scheme \<times> MerkleInfo) result" where
  "ledger_add ops kv H S L leaf =
     (let serz_leaf = txn_ser S leaf; L' = addToStore kv L serz_leaf; serz_leaf_for_tree = hash_ser S leaf in
      addToTreeSerialized ops H S L' serz_leaf_for_tree)"

definition tree_entry :: "'txn Serializers \<Rightarrow> bytes \<Rightarrow> bytes" where
  "tree_entry S entry = (if \<not> same_ser S then hash_ser S (txn_deser S entry) else entry)"

definition recoverTreeFromTxnLog ::
  "'hs HashStore \<Rightarrow> 'kv KeyValueStorage \<Rightarrow> (bytes \<Rightarrow> bytes) \<Rightarrow> 'txn Serializers \<Rightarrow>
   ('hs, 'kv, 'z) Ledger_scheme \<Rightarrow> ('hs, 'kv, 'z) Ledger_scheme result" where
  "recoverTreeFromTxnLog ops kv H S L =
     bindE (if \<not> l_read_only L then reset_tree ops (l_tree L) else Inr (l_tree L)) (\<lambda>t.
       foldE (\<lambda>L (key, entry).
          bindE (addToTreeSerialized ops H S L (tree_entry S entry)) (\<lambda>(L', _). Inr L'))
         (L\<lparr>l_tree := t, l_seqNo := 0\<rparr>) (kv_items kv (transactionLog L)))"

text \<open>
  \<^verbatim>\<open>recoverTreeFromHashStore\<close> updates the ledger before the check that may raise, so it returns
  the ledger next to the outcome. A hash that the store does not have reads as \<^verbatim>\<open>None\<close>; the
  source stores it and the next use of the root hash raises; here that is \<open>TypeError\<close> at once.
\<close>

definition recoverTreeFromHashStore ::
  "'hs HashStore \<Rightarrow> 'kv KeyValueStorage \<Rightarrow> (bytes \<Rightarrow> bytes) \<Rightarrow>
   ('hs, 'kv, 'z) Ledger_scheme \<Rightarrow> ('hs, 'kv, 'z) Ledger_scheme \<times> unit result" where
  "recoverTreeFromHashStore ops kv H L =
     (let treeSize = hs_leafCount ops (t_hashStore (l_tree L)); L1 = L\<lparr>l_seqNo := treeSize\<rparr> in
      case inclusion_proof ops H (l_tree L1) treeSize (treeSize + 1) of
        Inl e \<Rightarrow> (L1, Inl e)
      | Inr prf \<Rightarrow>
          let hashes = rev prf in
          (case update_tree (l_tree L1) (hs_leafCount ops (t_hashStore (l_tree L1))) (map the hashes) of
             Inl e \<Rightarrow> (L1, Inl e)
           | Inr t \<Rightarrow>
               let L2 = L1\<lparr>l_tree := t\<rparr> in
               (case verify_consistency ops t (kv_size kv (transactionLog L2)) of
                  Inl e \<Rightarrow> (L2, Inl e)
                | Inr _ \<Rightarrow> (L2, if None \<in> set hashes then Inl TypeError else Inr ()))))"

definition recoverTree ::
  "'hs HashStore \<Rightarrow> 'kv KeyValueStorage \<Rightarrow> (bytes \<Rightarrow> bytes) \<Rightarrow> 'txn Serializers \<Rightarrow> bool \<Rightarrow>
   ('hs, 'kv, 'z) Ledger_scheme \<Rightarrow> ('hs, 'kv, 'z) Ledger_scheme result" where
  "recoverTree ops kv H S is_persistent L =
     (if \<not> is_persistent \<or> hs_leafCount ops (t_hashStore (l_tree L)) = 0 then recoverTreeFromTxnLog ops kv H S L
      else
        case recoverTreeFromHashStore ops kv H L of
          (L', Inr _) \<Rightarrow> Inr L'
        | (L', Inl e) \<Rightarrow>
            if e = ConsistencyVerificationFailed then recoverTreeFromTxnLog ops kv H S L' else Inl e)"

text \<open>\<^verbatim>\<open>getBySeqNo\<close> returns an empty value as it is; here that is \<open>None\<close>.\<close>

definition getBySeqNo ::
  "'kv KeyValueStorage \<Rightarrow> 'txn Serializers \<Rightarrow> ('hs, 'kv, 'z) Ledger_scheme \<Rightarrow> int \<Rightarrow> 'txn option result" where
  "getBySeqNo kv S L seqNo =
     bindE (kv_get kv (transactionLog L) (db_key seqNo)) (\<lambda>v.
       Inr (if v \<noteq> [] then Some (txn_deser S v) else None))"

definition merkleInfo ::
  "'hs HashStore \<Rightarrow> (bytes \<Rightarrow> bytes) \<Rightarrow> 'txn Serializers \<Rightarrow> ('hs, 'kv, 'z) Ledger_scheme \<Rightarrow> int \<Rightarrow> MerkleInfo result" where
  "merkleInfo ops H S L seqNo =
     (if seqNo \<le> 0 then Inl PlenumValueError
      else
        bindE (merkle_tree_hash ops H (l_tree L) 0 (nat seqNo)) (\<lambda>rootHash.
        bindE (inclusion_proof ops H (l_tree L) (nat (seqNo - 1)) (nat seqNo)) (\<lambda>auditPath.
          Inr \<lparr>mi_seqNo = None, mi_rootHash = hashToStr S rootHash, mi_auditPath = map (hashToStr S) auditPath,
               mi_ledgerSize = None\<rparr>)))"

definition auditProof ::
  "'hs HashStore \<Rightarrow> (bytes \<Rightarrow> bytes) \<Rightarrow> 'txn Serializers \<Rightarrow> ('hs, 'kv, 'z) Ledger_scheme \<Rightarrow> int \<Rightarrow> MerkleInfo result" where
  "auditProof ops H S L seqNo =
     (if seqNo \<le> 0 then Inl PlenumValueError
      else
        bindE (merkle_tree_hash ops H (l_tree L) 0 (ledger_size L)) (\<lambda>rootHash.
        bindE (inclusion_proof ops H (l_tree L) (nat (seqNo - 1)) (ledger_size L)) (\<lambda>auditPath.
          Inr \<lparr>mi_seqNo = None, mi_rootHash = hashToStr S rootHash, mi_auditPath = map (hashToStr S) auditPath,
               mi_ledgerSize = Some (ledger_size L)\<rparr>)))"

definition ledger_reset ::
  "'hs HashStore \<Rightarrow> 'kv KeyValueStorage \<Rightarrow> ('hs, 'kv, 'z) Ledger_scheme \<Rightarrow> ('hs, 'kv, 'z) Ledger_scheme" where
  "ledger_reset ops kv L =
     L\<lparr>transactionLog := kv_reset kv (transactionLog L),
       l_tree := (l_tree L)\<lparr>t_hashStore := hs_reset ops (t_hashStore (l_tree L))\<rparr>\<rparr>"

text \<open>The constructor: the log is opened, then the tree is recovered.\<close>

definition mk_Ledger ::
  "'hs HashStore \<Rightarrow> 'kv KeyValueStorage \<Rightarrow> (bytes \<Rightarrow> bytes) \<Rightarrow> 'txn Serializers \<Rightarrow> bool \<Rightarrow>
   'hs CompactMerkleTree \<Rightarrow> 'kv \<Rightarrow> bool \<Rightarrow> ('hs, 'kv) Ledger result" where
  "mk_Ledger ops kv H S is_persistent tree log read_only =
     recoverTree ops kv H S is_persistent
       \<lparr>l_tree = tree, transactionLog = log, l_seqNo = 0, l_read_only = read_only\<rparr>"

section \<open>The transaction log\<close>

text \<open>
  A storage with integer keys iterates in the order of the keys, and the in-memory storage in
  the order of insertion; writing the entry that follows the last one puts it at the end in
  both. That is the law a log needs on top of the contract of the storage.
\<close>

definition log_entries :: "bytes list \<Rightarrow> (bytes \<times> bytes) list" where
  "log_entries xs = map (\<lambda>i. (db_key (int i + 1), xs ! i)) [0..<length xs]"

lemma log_entries_snoc: "log_entries (xs @ [x]) = log_entries xs @ [(db_key (int (length xs) + 1), x)]"
  by (auto simp: log_entries_def nth_append intro!: map_cong)

lemma log_entries_Nil [simp]: "log_entries [] = []"
  by (simp add: log_entries_def)

lemma length_log_entries [simp]: "length (log_entries xs) = length xs"
  by (simp add: log_entries_def)

lemma snd_log_entries: "map snd (log_entries xs) = xs"
  by (simp add: log_entries_def comp_def map_nth)

lemma map_of_log_entries:
  assumes "1 \<le> i" and "i \<le> int (length xs)"
  shows "map_of (log_entries xs) (db_key i) = Some (xs ! nat (i - 1))"
proof -
  have "distinct (map fst (log_entries xs))"
    by (auto simp: log_entries_def comp_def distinct_map inj_on_def db_key_inj)
  moreover have "(db_key i, xs ! nat (i - 1)) \<in> set (log_entries xs)"
    using assms by (auto simp: log_entries_def intro!: image_eqI [of _ _ "nat (i - 1)"])
  ultimately show ?thesis by (rule map_of_is_SomeI)
qed

lemma map_of_log_entries_None: "int (length xs) < i \<Longrightarrow> map_of (log_entries xs) (db_key i) = None"
  by (auto simp: log_entries_def map_of_eq_None_iff db_key_inj image_iff)

locale txn_log = kv_storage +
  assumes put_next: "kv_inv s \<Longrightarrow> kv_items ops s = log_entries xs \<Longrightarrow>
    kv_items ops (kv_put ops s (db_key (int (length xs) + 1)) v) = log_entries (xs @ [v])"

lemma update_fresh: "k \<notin> fst ` set xs \<Longrightarrow> AList.update k v xs = xs @ [(k, v)]"
  by (induction xs) auto

interpretation kvm_log: txn_log kvm_ops map_of "\<lambda>d. distinct (map fst d)"
proof
  fix s :: kvm and xs :: "bytes list" and v :: bytes
  assume s: "kv_items kvm_ops s = log_entries xs"
  have "db_key (int (length xs) + 1) \<notin> fst ` set (log_entries xs)"
    by (auto simp: log_entries_def db_key_inj)
  then show "kv_items kvm_ops (kv_put kvm_ops s (db_key (int (length xs) + 1)) v) = log_entries (xs @ [v])"
    using s by (simp add: kvm_ops_def kvm_put_def log_entries_snoc update_fresh)
qed

section \<open>The path of the next leaf\<close>

lemma split_pt_Suc: "0 < n \<Longrightarrow> split_pt (Suc n) = top_pow n"
  by (simp add: split_pt_def top_pow_def)

lemma path_last:
  assumes "aligned s (s + Suc n)" and "s + n \<le> length hs"
  shows "\<exists>rs. path (int n) (int s) (int s + int (Suc n)) = Some (int_ranges rs) \<and> ranges_in s (s + n) rs \<and>
    range_mths H hs rs = rev (subroots H (py_slice s (s + n) hs))"
  using assms
proof (induction n arbitrary: s rule: less_induct)
  case (less n)
  show ?case
  proof (cases "n = 0")
    case True
    then show ?thesis
      by (intro exI [of _ "[]"]) (simp add: path.simps int_ranges_def ranges_in_def range_mths_def)
  next
    case False
    let ?k = "top_pow n"
    have k: "0 < ?k" "?k \<le> n" using top_pow_bounds [of n] False by auto
    have n2: "2 \<le> Suc n" using False by simp
    note sp = split_pt_Suc [of n] and al = aligned_split [OF less.prems(1) n2]
    have lb: "2 ^ nat (len_bin (int n) - 3) = int ?k" using len_bin_split [OF n2] False by (simp add: sp)
    have "aligned (s + ?k) (s + ?k + Suc (n - ?k))" using al(2) k False by (simp add: sp)
    then obtain rs where rs: "path (int (n - ?k)) (int (s + ?k)) (int (s + ?k) + int (Suc (n - ?k))) = Some (int_ranges rs)"
      "ranges_in (s + ?k) (s + ?k + (n - ?k)) rs"
      "range_mths H hs rs = rev (subroots H (py_slice (s + ?k) (s + ?k + (n - ?k)) hs))"
      using less.IH [of "n - ?k" "s + ?k"] k less.prems(2) by auto
    have "path (int n) (int s) (int s + int (Suc n)) = Some (int_ranges (rs @ [(s, s + ?k)]))"
      using False rs(1) k by (subst path.simps) (simp add: Let_def lb of_nat_diff algebra_simps)
    moreover have "ranges_in s (s + n) (rs @ [(s, s + ?k)])"
      using rs(2) k al(1) False by (auto simp: sp elim: ranges_in_mono)
    moreover have "subroots H (py_slice s (s + n) hs) =
        mth H (py_slice s (s + ?k) hs) # subroots H (py_slice (s + ?k) (s + n) hs)"
      using False less.prems(2) k
      by (subst subroots.simps) (auto simp: py_slice_eq_Nil py_slice_take py_slice_drop length_py_slice)
    ultimately show ?thesis using rs(3) k by (intro exI [of _ "rs @ [(s, s + ?k)]"]) simp
  qed
qed

lemma int_ranges_inj [simp]: "int_ranges rs = int_ranges rs' \<longleftrightarrow> rs = rs'"
  by (auto simp: int_ranges_def inj_map_eq_map inj_def)

text \<open>The hashes that \<^verbatim>\<open>append\<close> returns are the audit path of the new leaf.\<close>

lemma audit_path_last: "audit_path H (length hs) (hs @ [x]) = rev (subroots H hs)"
proof -
  let ?n = "length hs"
  obtain rs where "path (int ?n) 0 (int (Suc ?n)) = Some (int_ranges rs)"
    "range_mths H (hs @ [x]) rs = audit_path H ?n (py_slice 0 (Suc ?n) (hs @ [x]))"
    using path_ranges [of ?n "Suc ?n" 0 "hs @ [x]" H] by auto
  moreover obtain rs' where "path (int ?n) 0 (int (Suc ?n)) = Some (int_ranges rs')"
    "range_mths H (hs @ [x]) rs' = rev (subroots H (py_slice 0 ?n (hs @ [x])))"
    using path_last [of 0 ?n "hs @ [x]" H] by auto
  ultimately show ?thesis by (simp add: py_slice_0)
qed

section \<open>The invariant\<close>

definition store_ok ::
  "('hs \<Rightarrow> bool) \<Rightarrow> ('hs \<Rightarrow> bytes list) \<Rightarrow> ('hs \<Rightarrow> bytes list) \<Rightarrow> (bytes \<Rightarrow> bytes) \<Rightarrow> 'hs \<Rightarrow> bytes list \<Rightarrow> bool" where
  "store_ok hs_ok leafs nodes H st ls \<longleftrightarrow>
     hs_ok st \<and> leafs st = map (hash_leaf H) ls \<and> nodes st = node_list H (map (hash_leaf H) ls) (length ls)"

lemma tree_ok_alt: "tree_ok ok lf nd H t ls \<longleftrightarrow> tree_shape H t (map (hash_leaf H) ls) \<and> store_ok ok lf nd H (t_hashStore t) ls"
  by (auto simp: tree_ok_def store_ok_def)

lemma merkle_tree_hash_store:
  "t_hashStore t = t_hashStore t' \<Longrightarrow> merkle_tree_hash ops H t a b = merkle_tree_hash ops H t' a b"
  by (simp add: merkle_tree_hash_def)

lemma inclusion_proof_store:
  "t_hashStore t = t_hashStore t' \<Longrightarrow> inclusion_proof ops H t a b = inclusion_proof ops H t' a b"
  by (simp add: inclusion_proof_def range_hashes_def merkle_tree_hash_store [of t t'] cong: option.case_cong)

context hash_store
begin

text \<open>The hashes of the tree are read back from a store that is complete for its leaves.\<close>

lemma inclusion_proof_next:
  assumes "store_ok hs_ok leafs nodes H (t_hashStore t) ls"
  shows "inclusion_proof ops H t (length ls) (Suc (length ls)) =
    Inr (map Some (rev (subroots H (map (hash_leaf H) ls))))"
proof -
  let ?hs = "map (hash_leaf H) ls"
  obtain t' where "update_tree t (length ?hs) (subroots H ?hs) = Inr t'" "tree_shape H t' ?hs" "t_hashStore t' = t_hashStore t"
    using update_tree_shape [of t ?hs H] by blast
  then have t': "tree_ok hs_ok leafs nodes H t' ls" "t_hashStore t = t_hashStore t'"
    using assms by (auto simp: tree_ok_alt)
  obtain rs where rs: "path (int (length ls)) 0 (int (Suc (length ls))) = Some (int_ranges rs)" "ranges_in 0 (length ls) rs"
    "range_mths H ?hs rs = rev (subroots H (py_slice 0 (length ls) ?hs))"
    using path_last [of 0 "length ls" ?hs H] by auto
  have "inclusion_proof ops H t' (length ls) (Suc (length ls)) = Inr (map Some (rev (subroots H ?hs)))"
    unfolding inclusion_proof_def rs(1) using range_hashes_ok [OF t'(1) rs(2)] rs(3) by (simp add: py_slice_0)
  then show ?thesis by (simp only: inclusion_proof_store [OF t'(2)])
qed

end

definition ledger_ok ::
  "('hs \<Rightarrow> bool) \<Rightarrow> ('hs \<Rightarrow> bytes list) \<Rightarrow> ('hs \<Rightarrow> bytes list) \<Rightarrow> 'kv KeyValueStorage \<Rightarrow> ('kv \<Rightarrow> bool) \<Rightarrow>
   (bytes \<Rightarrow> bytes) \<Rightarrow> 'txn Serializers \<Rightarrow> ('hs, 'kv, 'z) Ledger_scheme \<Rightarrow> 'txn list \<Rightarrow> bool" where
  "ledger_ok hs_ok leafs nodes kv kv_inv H S L txns \<longleftrightarrow>
     tree_ok hs_ok leafs nodes H (l_tree L) (map (hash_ser S) txns) \<and> l_seqNo L = length txns \<and>
     kv_inv (transactionLog L) \<and> kv_items kv (transactionLog L) = log_entries (map (txn_ser S) txns)"

text \<open>What the code relies on of the serialisers: reading back what was written.\<close>

definition ser_ok :: "'txn Serializers \<Rightarrow> bool" where
  "ser_ok S \<longleftrightarrow> (\<forall>t. txn_deser S (txn_ser S t) = t) \<and> (same_ser S \<longrightarrow> txn_ser S = hash_ser S)"

locale ledger_stores =
  hash_store ops dlen leafs nodes hs_ok + log: txn_log kv kv_map kv_inv
  for ops :: "'hs HashStore" and dlen leafs nodes hs_ok
    and kv :: "'kv KeyValueStorage" and kv_map kv_inv +
  fixes H :: "bytes \<Rightarrow> bytes" and S :: "'txn Serializers"
  assumes digest: "length (H x) = dlen"
begin

lemma addToTreeSerialized_ok:
  assumes "tree_ok hs_ok leafs nodes H (l_tree L) ls"
  shows "\<exists>t. addToTreeSerialized ops H S L l =
      Inr (L\<lparr>l_tree := t, l_seqNo := l_seqNo L + 1\<rparr>,
        \<lparr>mi_seqNo = Some (l_seqNo L + 1), mi_rootHash = Some (root_ser S (mth H (map (hash_leaf H) (ls @ [l])))),
         mi_auditPath = map (\<lambda>h. Some (root_ser S h)) (audit_path H (length ls) (map (hash_leaf H) (ls @ [l]))),
         mi_ledgerSize = None\<rparr>) \<and>
    tree_ok hs_ok leafs nodes H t (ls @ [l])"
proof -
  obtain t where t: "append_leaf ops H (l_tree L) l = Inr (t, rev (subroots H (map (hash_leaf H) ls)))"
    "tree_ok hs_ok leafs nodes H t (ls @ [l])" using append_leaf_ok [OF assms digest] by blast
  show ?thesis
    using t tree_ok_root [OF t(2)] audit_path_last [of H "map (hash_leaf H) ls" "hash_leaf H l"]
    by (intro exI [of _ t]) (simp add: addToTreeSerialized_def build_merkle_proof_def hashToStr_def Let_def)
qed

lemma ledger_add_ok:
  assumes L: "ledger_ok hs_ok leafs nodes kv kv_inv H S L txns"
  shows "\<exists>L'. ledger_add ops kv H S L txn =
      Inr (L', \<lparr>mi_seqNo = Some (length txns + 1),
        mi_rootHash = Some (root_ser S (mth H (map (hash_leaf H \<circ> hash_ser S) (txns @ [txn])))),
        mi_auditPath = map (\<lambda>h. Some (root_ser S h)) (audit_path H (length txns) (map (hash_leaf H \<circ> hash_ser S) (txns @ [txn]))),
        mi_ledgerSize = None\<rparr>) \<and>
    ledger_ok hs_ok leafs nodes kv kv_inv H S L' (txns @ [txn]) \<and> l_read_only L' = l_read_only L \<and>
    Ledger.more L' = Ledger.more L"
proof -
  let ?L1 = "addToStore kv L (txn_ser S txn)"
  have t: "tree_ok hs_ok leafs nodes H (l_tree ?L1) (map (hash_ser S) txns)" "l_seqNo ?L1 = length txns"
    using L by (simp_all add: ledger_ok_def addToStore_def)
  have log: "kv_inv (transactionLog ?L1)" "kv_items kv (transactionLog ?L1) = log_entries (map (txn_ser S) (txns @ [txn]))"
    using L log.put_inv log.put_next [of "transactionLog L" "map (txn_ser S) txns"]
    by (simp_all add: ledger_ok_def addToStore_def)
  obtain t' where t': "addToTreeSerialized ops H S ?L1 (hash_ser S txn) =
      Inr (?L1\<lparr>l_tree := t', l_seqNo := l_seqNo ?L1 + 1\<rparr>,
        \<lparr>mi_seqNo = Some (l_seqNo ?L1 + 1), mi_rootHash = Some (root_ser S (mth H (map (hash_leaf H) (map (hash_ser S) txns @ [hash_ser S txn])))),
         mi_auditPath = map (\<lambda>h. Some (root_ser S h)) (audit_path H (length (map (hash_ser S) txns)) (map (hash_leaf H) (map (hash_ser S) txns @ [hash_ser S txn]))),
         mi_ledgerSize = None\<rparr>)" "tree_ok hs_ok leafs nodes H t' (map (hash_ser S) txns @ [hash_ser S txn])"
    using addToTreeSerialized_ok [OF t(1)] by blast
  show ?thesis
    using t' t(2) log by (simp add: ledger_add_def ledger_ok_def addToStore_def)
qed

lemma ledger_size_ok: "ledger_ok hs_ok leafs nodes kv kv_inv H S L txns \<Longrightarrow> ledger_size L = length txns"
  by (auto simp: ledger_ok_def ledger_size_def dest!: tree_ok_size)

lemma kv_size_ok: "ledger_ok hs_ok leafs nodes kv kv_inv H S L txns \<Longrightarrow> kv_size kv (transactionLog L) = length txns"
  by (simp add: ledger_ok_def kv_size_def)

lemma getBySeqNo_ok:
  assumes L: "ledger_ok hs_ok leafs nodes kv kv_inv H S L txns" and "1 \<le> i" and "i \<le> int (length txns)"
    and "txn_ser S (txns ! nat (i - 1)) \<noteq> []" and "\<And>t. txn_deser S (txn_ser S t) = t"
  shows "getBySeqNo kv S L i = Inr (Some (txns ! nat (i - 1)))"
proof -
  have m: "kv_map (transactionLog L) = map_of (log_entries (map (txn_ser S) txns))"
    using L log.items_map [of "transactionLog L"] by (simp add: ledger_ok_def)
  show ?thesis
    using L assms(2-5) map_of_log_entries [of i "map (txn_ser S) txns"]
    by (simp add: getBySeqNo_def ledger_ok_def log.get_spec m)
qed

lemma getBySeqNo_beyond:
  assumes L: "ledger_ok hs_ok leafs nodes kv kv_inv H S L txns" and "int (length txns) < i"
  shows "getBySeqNo kv S L i = Inl KeyError"
proof -
  have m: "kv_map (transactionLog L) = map_of (log_entries (map (txn_ser S) txns))"
    using L log.items_map [of "transactionLog L"] by (simp add: ledger_ok_def)
  show ?thesis
    using L assms(2) map_of_log_entries_None [of "map (txn_ser S) txns" i]
    by (simp add: getBySeqNo_def ledger_ok_def log.get_spec m)
qed

lemma recover_entries:
  assumes "ser_ok S"
  shows "tree_ok hs_ok leafs nodes H (l_tree L) (map (hash_ser S) ts0) \<Longrightarrow> l_seqNo L = length ts0 \<Longrightarrow>
    map snd es = map (txn_ser S) ts \<Longrightarrow>
    \<exists>L'. foldE (\<lambda>L (key, entry).
          bindE (addToTreeSerialized ops H S L (tree_entry S entry)) (\<lambda>(L', _). Inr L')) L es = Inr L' \<and>
      tree_ok hs_ok leafs nodes H (l_tree L') (map (hash_ser S) (ts0 @ ts)) \<and> l_seqNo L' = length (ts0 @ ts) \<and>
      transactionLog L' = transactionLog L"
proof (induction es arbitrary: L ts0 ts)
  case (Cons e es)
  then obtain t ts' where ts: "ts = t # ts'" "snd e = txn_ser S t" "map snd es = map (txn_ser S) ts'"
    by (cases ts) auto
  have e: "tree_entry S (snd e) = hash_ser S t"
    using assms by (auto simp: ser_ok_def ts(2) tree_entry_def)
  obtain t' i where t': "addToTreeSerialized ops H S L (hash_ser S t) = Inr (L\<lparr>l_tree := t', l_seqNo := l_seqNo L + 1\<rparr>, i)"
    "tree_ok hs_ok leafs nodes H t' (map (hash_ser S) ts0 @ [hash_ser S t])"
    using addToTreeSerialized_ok [OF Cons.prems(1), of "hash_ser S t"] by blast
  show ?case
    using Cons.IH [of "L\<lparr>l_tree := t', l_seqNo := l_seqNo L + 1\<rparr>" "ts0 @ [t]" ts'] t' ts Cons.prems(2) e
    by (cases e) simp
qed simp

lemma recoverTreeFromTxnLog_ok:
  assumes "ser_ok S" and "hs_ok (t_hashStore (l_tree L))" and "\<not> l_read_only L"
    and "kv_inv (transactionLog L)" and "kv_items kv (transactionLog L) = log_entries (map (txn_ser S) txns)"
  shows "\<exists>L'. recoverTreeFromTxnLog ops kv H S L = Inr L' \<and> ledger_ok hs_ok leafs nodes kv kv_inv H S L' txns"
proof -
  obtain t where t: "reset_tree ops (l_tree L) = Inr t" "tree_ok hs_ok leafs nodes H t []"
    using reset_store [OF assms(2)] by (auto simp: reset_tree_def update_tree_def tree_ok_def tree_shape_def)
  show ?thesis
    using recover_entries [OF assms(1), of "L\<lparr>l_tree := t, l_seqNo := 0\<rparr>" "[]" "log_entries (map (txn_ser S) txns)" txns]
      t assms(3-5) snd_log_entries [of "map (txn_ser S) txns"]
    by (auto simp: recoverTreeFromTxnLog_def ledger_ok_def)
qed

lemma recoverTreeFromHashStore_ok:
  assumes st: "store_ok hs_ok leafs nodes H (t_hashStore (l_tree L)) ls"
  shows "\<exists>t. recoverTreeFromHashStore ops kv H L =
      (L\<lparr>l_seqNo := length ls, l_tree := t\<rparr>,
       if kv_size kv (transactionLog L) = length ls then Inr () else Inl ConsistencyVerificationFailed) \<and>
    tree_ok hs_ok leafs nodes H t ls"
proof -
  let ?hs = "map (hash_leaf H) ls"
  have lc: "hs_leafCount ops (t_hashStore (l_tree L)) = length ls"
    using st leafCount by (simp add: store_ok_def)
  obtain t where t: "update_tree (l_tree L) (length ls) (subroots H ?hs) = Inr t" "tree_shape H t ?hs"
      "t_hashStore t = t_hashStore (l_tree L)"
    using update_tree_shape [of "l_tree L" ?hs H] by auto
  then have ok: "tree_ok hs_ok leafs nodes H t ls" using st by (simp add: tree_ok_alt)
  show ?thesis
    using t(1) ok inclusion_proof_next [OF st] verify_consistency_ok [OF ok, of "kv_size kv (transactionLog L)"]
    by (intro exI [of _ t]) (auto simp: recoverTreeFromHashStore_def lc rev_map comp_def)
qed

lemma recoverTree_ok:
  assumes "ser_ok S" and "store_ok hs_ok leafs nodes H (t_hashStore (l_tree L)) (map (hash_ser S) (take k txns))"
    and "\<not> l_read_only L" and "kv_inv (transactionLog L)"
    and "kv_items kv (transactionLog L) = log_entries (map (txn_ser S) txns)"
  shows "\<exists>L'. recoverTree ops kv H S is_persistent L = Inr L' \<and> ledger_ok hs_ok leafs nodes kv kv_inv H S L' txns"
proof -
  have st: "hs_ok (t_hashStore (l_tree L))" using assms(2) by (simp add: store_ok_def)
  have sz: "kv_size kv (transactionLog L) = length txns" using assms(5) by (simp add: kv_size_def)
  obtain t where t: "recoverTreeFromHashStore ops kv H L =
      (L\<lparr>l_seqNo := min k (length txns), l_tree := t\<rparr>,
       if length txns = min k (length txns) then Inr () else Inl ConsistencyVerificationFailed)"
    "tree_ok hs_ok leafs nodes H t (map (hash_ser S) (take k txns))"
    using recoverTreeFromHashStore_ok [OF assms(2)] by (auto simp: sz min.commute)
  consider "\<not> is_persistent \<or> hs_leafCount ops (t_hashStore (l_tree L)) = 0"
    | "is_persistent" "hs_leafCount ops (t_hashStore (l_tree L)) \<noteq> 0" "length txns \<le> k"
    | "is_persistent" "hs_leafCount ops (t_hashStore (l_tree L)) \<noteq> 0" "k < length txns" by linarith
  then show ?thesis
  proof cases
    case 1
    then show ?thesis using recoverTreeFromTxnLog_ok [OF assms(1) st assms(3-5)] by (simp add: recoverTree_def)
  next
    case 2
    then show ?thesis using t assms(4,5) by (simp add: recoverTree_def ledger_ok_def)
  next
    case 3
    have "\<exists>L'. recoverTreeFromTxnLog ops kv H S (L\<lparr>l_seqNo := k, l_tree := t\<rparr>) = Inr L' \<and>
        ledger_ok hs_ok leafs nodes kv kv_inv H S L' txns"
      using assms t(2) by (intro recoverTreeFromTxnLog_ok) (auto simp: tree_ok_def)
    then show ?thesis using 3 t(1) by (simp add: recoverTree_def)
  qed
qed

lemma auditProof_ok:
  assumes L: "ledger_ok hs_ok leafs nodes kv kv_inv H S L txns" and "1 \<le> i" and "i \<le> length txns"
  shows "auditProof ops H S L (int i) =
    Inr \<lparr>mi_seqNo = None, mi_rootHash = Some (root_ser S (mth H (map (hash_leaf H \<circ> hash_ser S) txns))),
         mi_auditPath = map (\<lambda>h. Some (root_ser S h)) (audit_path H (i - 1) (map (hash_leaf H \<circ> hash_ser S) txns)),
         mi_ledgerSize = Some (length txns)\<rparr>"
proof -
  have t: "tree_ok hs_ok leafs nodes H (l_tree L) (map (hash_ser S) txns)" using L by (simp add: ledger_ok_def)
  have n: "nat (int i - 1) = i - 1" "txns \<noteq> []" using assms(2,3) by auto
  show ?thesis
    using merkle_tree_hash_ok [OF t, of 0 "length txns"] inclusion_proof_ok [OF t, of "i - 1" "length txns"] assms(2,3)
    by (simp add: auditProof_def ledger_size_ok [OF L] n hashToStr_def py_slice_0 comp_def)
qed

end

context kv_storage
begin

lemmas db_hash_store = dhs.hash_store_axioms

end

lemma db_ledger_stores:
  assumes "txn_log ops kv_map kv_inv" and "\<And>x. length (H x) = 32"
  shows "ledger_stores (dhs_ops ops) 32 (dhs_leafs kv_map) (dhs_nodes kv_map) (dhs_ok kv_map kv_inv) ops kv_map kv_inv H"
  using assms kv_storage.db_hash_store [OF txn_log.axioms(1) [OF assms(1)]]
  by (intro ledger_stores.intro) (auto simp: ledger_stores_axioms_def)

abbreviation db_ledger_ok ::
  "'kv KeyValueStorage \<Rightarrow> ('kv \<Rightarrow> bytes \<rightharpoonup> bytes) \<Rightarrow> ('kv \<Rightarrow> bool) \<Rightarrow> (bytes \<Rightarrow> bytes) \<Rightarrow> 'txn Serializers \<Rightarrow>
   ('kv DbHashStore, 'kv, 'z) Ledger_scheme \<Rightarrow> 'txn list \<Rightarrow> bool" where
  "db_ledger_ok ops kv_map kv_inv \<equiv>
     ledger_ok (dhs_ok kv_map kv_inv) (dhs_leafs kv_map) (dhs_nodes kv_map) ops kv_inv"

text \<open>Serialisers for the examples: transactions that are byte strings already.\<close>

definition byte_ser :: "bytes Serializers" where
  "byte_ser = \<lparr>txn_ser = id, txn_deser = id, hash_ser = id, same_ser = False, root_ser = map (\<lambda>b. char_of (unat b))\<rparr>"

interpretation pad_ledger: ledger_stores "dhs_ops kvm_ops" 32 "dhs_leafs map_of" "dhs_nodes map_of"
  "dhs_ok map_of (\<lambda>d. distinct (map fst d))" kvm_ops map_of "\<lambda>d. distinct (map fst d)" pad_hash byte_ser
  by (rule db_ledger_stores [OF kvm_log.txn_log_axioms]) simp

section \<open>Properties\<close>

text \<open>
  C16: opening a ledger after a crash. The log has been written and the hash store may lag behind
  it by any number of transactions (every \<^verbatim>\<open>add\<close> writes the log first). The constructor
  recovers the tree, from the hash store when it is complete and from the log otherwise; the
  ledger then has every transaction of the log and their root hash.
\<close>

theorem ledger_recovers:
  assumes "txn_log ops kv_map kv_inv" and "ser_ok S" and "\<And>x. length (H x) = 32"
    and "kv_inv log" and "kv_items ops log = log_entries (map (txn_ser S) txns)"
    and "store_ok (dhs_ok kv_map kv_inv) (dhs_leafs kv_map) (dhs_nodes kv_map) H st (map (hash_ser S) (take k txns))"
  shows "\<exists>L. mk_Ledger (dhs_ops ops) ops H S is_persistent (mk_CompactMerkleTree st) log False = Inr L \<and>
    db_ledger_ok ops kv_map kv_inv H S L txns \<and> ledger_size L = length txns \<and>
    root_hash H (l_tree L) = Inr (mth H (map (hash_leaf H \<circ> hash_ser S) txns))"
proof -
  note ls = db_ledger_stores [where ?H = H, OF assms(1,3)]
  obtain L where L: "mk_Ledger (dhs_ops ops) ops H S is_persistent (mk_CompactMerkleTree st) log False = Inr L"
    "db_ledger_ok ops kv_map kv_inv H S L txns"
    using ledger_stores.recoverTree_ok [OF ls assms(2), where ?L = "\<lparr>l_tree = mk_CompactMerkleTree st, transactionLog = log,
      l_seqNo = 0, l_read_only = False\<rparr>" and ?k = k and ?txns = txns and ?is_persistent = is_persistent] assms(4-6)
    by (auto simp: mk_Ledger_def mk_CompactMerkleTree_def)
  then show ?thesis
    using ledger_stores.ledger_size_ok [OF ls L(2)] tree_ok_root [of _ _ _ H "l_tree L" "map (hash_ser S) txns"]
    by (auto simp: ledger_ok_def)
qed

theorem ledger_recovers_witness:
  "\<exists>st L. hs_leafCount (dhs_ops kvm_ops) st = 1 \<and>
    mk_Ledger (dhs_ops kvm_ops) kvm_ops pad_hash byte_ser True (mk_CompactMerkleTree st) (log_entries [[5], [6]]) False = Inr L \<and>
    ledger_size L = 2"
proof -
  obtain t where t: "tree_ok (dhs_ok map_of (\<lambda>d. distinct (map fst d))) (dhs_leafs map_of) (dhs_nodes map_of) pad_hash t [[5]]"
    using kvm.db_tree_built [of "[]" "[]" pad_hash "[[5]]"] by auto
  have "distinct (map fst (log_entries [[5], [6]]))"
    by (simp add: log_entries_def db_key_inj)
  moreover have "ser_ok byte_ser" by (simp add: ser_ok_def byte_ser_def)
  ultimately have "\<exists>L. mk_Ledger (dhs_ops kvm_ops) kvm_ops pad_hash byte_ser True (mk_CompactMerkleTree (t_hashStore t))
      (log_entries [[5], [6]]) False = Inr L \<and> ledger_size L = 2"
    using ledger_recovers [where ?H = pad_hash and ?S = byte_ser and ?log = "log_entries [[5], [6]]" and ?txns = "[[5], [6]]"
        and ?st = "t_hashStore t" and ?k = 1 and ?is_persistent = True, OF kvm_log.txn_log_axioms] t
    by (auto simp: byte_ser_def kvm_ops_def tree_ok_alt)
  moreover have "hs_leafCount (dhs_ops kvm_ops) (t_hashStore t) = 1"
    using kvm.dhs.leafCount [of "t_hashStore t"] t by (simp add: tree_ok_def)
  ultimately show ?thesis by blast
qed

text \<open>
  Adding a transaction to a ledger appends it to the log under the next sequence number and
  to the tree, and the returned root hash and audit path are an inclusion proof of the
  transaction that the verifier accepts.
\<close>

theorem ledger_add_proof_verified:
  assumes "txn_log ops kv_map kv_inv" and "\<And>x. length (H x) = 32" and "db_ledger_ok ops kv_map kv_inv H S L txns"
  shows "\<exists>L' r prf. ledger_add (dhs_ops ops) ops H S L txn =
      Inr (L', \<lparr>mi_seqNo = Some (length txns + 1), mi_rootHash = hashToStr S (Some r),
                mi_auditPath = map (\<lambda>h. hashToStr S (Some h)) prf, mi_ledgerSize = None\<rparr>) \<and>
    root_hash H (l_tree L') = Inr r \<and>
    verify_leaf_inclusion H (hash_ser S txn) (int (length txns)) prf (int (length txns) + 1, r) = Inr True \<and>
    db_ledger_ok ops kv_map kv_inv H S L' (txns @ [txn])"
proof -
  let ?hs = "map (hash_leaf H \<circ> hash_ser S) (txns @ [txn])"
  obtain L' where L': "ledger_add (dhs_ops ops) ops H S L txn =
      Inr (L', \<lparr>mi_seqNo = Some (length txns + 1), mi_rootHash = Some (root_ser S (mth H ?hs)),
        mi_auditPath = map (\<lambda>h. Some (root_ser S h)) (audit_path H (length txns) ?hs), mi_ledgerSize = None\<rparr>)"
    "db_ledger_ok ops kv_map kv_inv H S L' (txns @ [txn])"
    using ledger_stores.ledger_add_ok [OF db_ledger_stores [where ?H = H, OF assms(1,2)] assms(3)] by blast
  have "root_hash H (l_tree L') = Inr (mth H ?hs)"
    using L'(2) tree_ok_root [of _ _ _ H "l_tree L'" "map (hash_ser S) (txns @ [txn])"] by (auto simp: ledger_ok_def)
  moreover have "verify_leaf_inclusion H (hash_ser S txn) (int (length txns)) (audit_path H (length txns) ?hs)
      (int (length txns) + 1, mth H ?hs) = Inr True"
    using audit_path_accepted [of "length txns" ?hs H] by (simp add: verify_leaf_inclusion_def nth_append add.commute)
  ultimately show ?thesis
    using L' by (intro exI [of _ L'] exI [of _ "mth H ?hs"] exI [of _ "audit_path H (length txns) ?hs"]) (simp add: hashToStr_def)
qed

lemma pad_ledger_exists: "\<exists>L :: (kvm DbHashStore, kvm) Ledger.
  db_ledger_ok kvm_ops map_of (\<lambda>d. distinct (map fst d)) pad_hash byte_ser L []"
proof -
  have "tree_ok (dhs_ok map_of (\<lambda>d. distinct (map fst d))) (dhs_leafs map_of) (dhs_nodes map_of) pad_hash
      (mk_CompactMerkleTree (dhs_open kvm_ops [] [])) []" by (rule kvm.dhs_open_empty) simp_all
  then show ?thesis
    by (intro exI [of _ "\<lparr>l_tree = mk_CompactMerkleTree (dhs_open kvm_ops [] []), transactionLog = [],
      l_seqNo = 0, l_read_only = False\<rparr>"]) (simp add: ledger_ok_def kvm_ops_def)
qed

theorem ledger_add_proof_verified_witness:
  "\<exists>(L :: (kvm DbHashStore, kvm) Ledger) L' r prf. ledger_add (dhs_ops kvm_ops) kvm_ops pad_hash byte_ser L [9] =
      Inr (L', \<lparr>mi_seqNo = Some 1, mi_rootHash = hashToStr byte_ser (Some r),
                mi_auditPath = map (\<lambda>h. hashToStr byte_ser (Some h)) prf, mi_ledgerSize = None\<rparr>) \<and>
    verify_leaf_inclusion pad_hash [9] 0 prf (1, r) = Inr True"
proof -
  obtain L :: "(kvm DbHashStore, kvm) Ledger" where
    "db_ledger_ok kvm_ops map_of (\<lambda>d. distinct (map fst d)) pad_hash byte_ser L []" using pad_ledger_exists by blast
  from ledger_add_proof_verified [OF kvm_log.txn_log_axioms length_pad_hash this, of "[9]"]
  show ?thesis by (auto simp: byte_ser_def)
qed

text \<open>
  The audit proof that a ledger gives for any of its transactions is accepted against the
  root hash and size that come with it.
\<close>

theorem auditProof_verified:
  assumes "txn_log ops kv_map kv_inv" and "\<And>x. length (H x) = 32" and "db_ledger_ok ops kv_map kv_inv H S L txns"
    and "1 \<le> i" and "i \<le> length txns"
  shows "\<exists>r prf. auditProof (dhs_ops ops) H S L (int i) =
      Inr \<lparr>mi_seqNo = None, mi_rootHash = hashToStr S (Some r), mi_auditPath = map (\<lambda>h. hashToStr S (Some h)) prf,
           mi_ledgerSize = Some (length txns)\<rparr> \<and>
    root_hash H (l_tree L) = Inr r \<and>
    verify_leaf_inclusion H (hash_ser S (txns ! (i - 1))) (int i - 1) prf (int (length txns), r) = Inr True"
proof -
  let ?hs = "map (hash_leaf H \<circ> hash_ser S) txns"
  have a: "auditProof (dhs_ops ops) H S L (int i) =
      Inr \<lparr>mi_seqNo = None, mi_rootHash = Some (root_ser S (mth H ?hs)),
           mi_auditPath = map (\<lambda>h. Some (root_ser S h)) (audit_path H (i - 1) ?hs), mi_ledgerSize = Some (length txns)\<rparr>"
    using ledger_stores.auditProof_ok [OF db_ledger_stores [where ?H = H, OF assms(1,2)] assms(3-5)] .
  moreover have "root_hash H (l_tree L) = Inr (mth H ?hs)"
    using assms(3) tree_ok_root [of _ _ _ H "l_tree L" "map (hash_ser S) txns"] by (auto simp: ledger_ok_def)
  moreover have "verify_leaf_inclusion H (hash_ser S (txns ! (i - 1))) (int i - 1) (audit_path H (i - 1) ?hs)
      (int (length txns), mth H ?hs) = Inr True"
    using audit_path_accepted [of "i - 1" ?hs H] assms(4,5) by (simp add: verify_leaf_inclusion_def of_nat_diff)
  ultimately show ?thesis
    by (intro exI [of _ "mth H ?hs"] exI [of _ "audit_path H (i - 1) ?hs"]) (simp add: hashToStr_def)
qed

theorem auditProof_verified_witness:
  "\<exists>(L :: (kvm DbHashStore, kvm) Ledger) r prf. auditProof (dhs_ops kvm_ops) pad_hash byte_ser L 1 =
      Inr \<lparr>mi_seqNo = None, mi_rootHash = hashToStr byte_ser (Some r),
           mi_auditPath = map (\<lambda>h. hashToStr byte_ser (Some h)) prf, mi_ledgerSize = Some 1\<rparr> \<and>
    verify_leaf_inclusion pad_hash [9] 0 prf (1, r) = Inr True"
proof -
  obtain L0 :: "(kvm DbHashStore, kvm) Ledger" where
    "db_ledger_ok kvm_ops map_of (\<lambda>d. distinct (map fst d)) pad_hash byte_ser L0 []" using pad_ledger_exists by blast
  from pad_ledger.ledger_add_ok [OF this, of "[9]"] obtain L :: "(kvm DbHashStore, kvm) Ledger" where
    "db_ledger_ok kvm_ops map_of (\<lambda>d. distinct (map fst d)) pad_hash byte_ser L [[9]]" by auto
  from auditProof_verified [OF kvm_log.txn_log_axioms length_pad_hash this, of 1]
  show ?thesis by (auto simp: byte_ser_def)
qed

end
