(* ===== verification/Plenum_Ledger.thy ===== *)
theory Plenum_Ledger
  imports Ledger_Base
begin

text \<open>
  \<^verbatim>\<open>plenum/common/ledger.py\<close>: a ledger with transactions that are applied but not yet
  committed. Their tree is a compact copy of the committed tree with the transactions
  appended; the copy keeps its hashes in a fresh memory store. A transaction is its content
  with the metadata that the ledger reads and writes.
\<close>

section \<open>Definitions\<close>

record 'b Txn =
  txn_body :: 'b
  txn_seqNo :: "nat option"
  txn_time :: "int option"
  txn_id :: "string option"
  txn_rootHash :: "string option"
  txn_auditPath :: "string option list option"

definition append_txn_metadata :: "'b Txn \<Rightarrow> nat option \<Rightarrow> int option \<Rightarrow> string option \<Rightarrow> 'b Txn" where
  "append_txn_metadata txn sn tm ident =
     (let t1 = (if sn \<noteq> None then txn\<lparr>txn_seqNo := sn\<rparr> else txn);
          t2 = (if tm \<noteq> None then t1\<lparr>txn_time := tm\<rparr> else t1) in
      if ident \<noteq> None then t2\<lparr>txn_id := ident\<rparr> else t2)"

record ('hs, 'kv, 'b) PLedger = "('hs, 'kv) Ledger" +
  uncommittedTxns :: "'b Txn list"
  uncommittedRootHash :: "bytes option"
  uncommittedTree :: "MemoryHashStore CompactMerkleTree option"

definition uncommitted_size :: "('hs, 'kv, 'b) PLedger \<Rightarrow> nat" where
  "uncommitted_size L = ledger_size L + length (uncommittedTxns L)"

text \<open>An empty byte string is false in Python, as \<^verbatim>\<open>None\<close> is.\<close>

definition uncommitted_root_hash :: "(bytes \<Rightarrow> bytes) \<Rightarrow> ('hs, 'kv, 'b) PLedger \<Rightarrow> bytes result" where
  "uncommitted_root_hash H L =
     (case uncommittedRootHash L of
        Some (b # bs) \<Rightarrow> Inr (b # bs)
      | _ \<Rightarrow> root_hash H (l_tree L))"

fun append_seq_no :: "'b Txn list \<Rightarrow> nat \<Rightarrow> 'b Txn list" where
  "append_seq_no [] seq_no = []"
| "append_seq_no (txn # txns) seq_no =
     append_txn_metadata txn (Some (seq_no + 1)) None None # append_seq_no txns (seq_no + 1)"

definition append_txns_metadata :: "('hs, 'kv, 'b) PLedger \<Rightarrow> 'b Txn list \<Rightarrow> int option \<Rightarrow> 'b Txn list" where
  "append_txns_metadata L txns tm =
     (let txns' = (if tm \<noteq> None then map (\<lambda>txn. append_txn_metadata txn None tm None) txns else txns) in
      append_seq_no txns' (l_seqNo L + length (uncommittedTxns L)))"

text \<open>A tree without leaves is false in Python, since it has a length.\<close>

definition treeWithAppliedTxns ::
  "(bytes \<Rightarrow> bytes) \<Rightarrow> 'b Txn Serializers \<Rightarrow> ('hs, 'kv, 'b) PLedger \<Rightarrow> 'b Txn list \<Rightarrow>
   MemoryHashStore CompactMerkleTree option \<Rightarrow> MemoryHashStore CompactMerkleTree result" where
  "treeWithAppliedTxns H S L txns currentTree =
     bindE (case currentTree of
              None \<Rightarrow> copy_tree mhs_empty (l_tree L)
            | Some t \<Rightarrow> if tree_size t = 0 then copy_tree mhs_empty (l_tree L) else copy_tree mhs_empty t)
       (\<lambda>tempTree.
          foldE (\<lambda>t txn. bindE (append_leaf mhs_ops H t (hash_ser S txn)) (\<lambda>(t', _). Inr t')) tempTree txns)"

definition appendTxns ::
  "(bytes \<Rightarrow> bytes) \<Rightarrow> 'b Txn Serializers \<Rightarrow> ('hs, 'kv, 'b) PLedger \<Rightarrow> 'b Txn list \<Rightarrow>
   (('hs, 'kv, 'b) PLedger \<times> (nat \<times> nat) \<times> 'b Txn list) result" where
  "appendTxns H S L txns =
     (let no_seq_no_txns = filter (\<lambda>txn. txn_seqNo txn = None) txns in
      if no_seq_no_txns \<noteq> [] then Inl PlenumValueError
      else let uncommittedSize = ledger_size L + length (uncommittedTxns L) in
        bindE (treeWithAppliedTxns H S L txns (uncommittedTree L)) (\<lambda>tree.
        bindE (root_hash H tree) (\<lambda>rootHash.
        let L' = L\<lparr>uncommittedTree := Some tree, uncommittedRootHash := Some rootHash,
                    uncommittedTxns := uncommittedTxns L @ txns\<rparr> in
        Inr (L', if txns \<noteq> [] then (uncommittedSize + 1, uncommittedSize + length txns)
                 else (uncommittedSize, uncommittedSize), txns))))"

text \<open>\<^verbatim>\<open>add\<close> may number the transaction it is given, so it returns it.\<close>

definition pl_add ::
  "('hs, 'y) HashWriter_scheme \<Rightarrow> 'kv KeyValueStorage \<Rightarrow> (bytes \<Rightarrow> bytes) \<Rightarrow> 'b Txn Serializers \<Rightarrow>
   ('hs, 'kv, 'b) PLedger \<Rightarrow> 'b Txn \<Rightarrow> (('hs, 'kv, 'b) PLedger \<times> 'b Txn \<times> MerkleInfo) result" where
  "pl_add ops kv H S L txn =
     (let txn' = (if txn_seqNo txn = None then append_txn_metadata txn (Some (l_seqNo L + 1)) None None else txn) in
      bindE (ledger_add ops kv H S L txn') (\<lambda>(L', merkle_info). Inr (L', txn', merkle_info\<lparr>mi_seqNo := None\<rparr>)))"

definition update_txn :: "'b Txn \<Rightarrow> MerkleInfo \<Rightarrow> 'b Txn" where
  "update_txn txn info = txn\<lparr>txn_rootHash := mi_rootHash info, txn_auditPath := Some (mi_auditPath info)\<rparr>"

definition commitTxns ::
  "('hs, 'y) HashWriter_scheme \<Rightarrow> 'kv KeyValueStorage \<Rightarrow> (bytes \<Rightarrow> bytes) \<Rightarrow> 'b Txn Serializers \<Rightarrow>
   ('hs, 'kv, 'b) PLedger \<Rightarrow> nat \<Rightarrow> (('hs, 'kv, 'b) PLedger \<times> (nat \<times> nat) \<times> 'b Txn list) result" where
  "commitTxns ops kv H S L count =
     (let committedSize = ledger_size L in
      bindE (foldE (\<lambda>(L, committed) txn.
               bindE (pl_add ops kv H S L txn) (\<lambda>(L', txn', info). Inr (L', committed @ [update_txn txn' info])))
             (L, []) (take count (uncommittedTxns L))) (\<lambda>(L1, committedTxns).
      let L2 = L1\<lparr>uncommittedTxns := drop count (uncommittedTxns L1)\<rparr>;
          L3 = (if uncommittedTxns L2 = [] then L2\<lparr>uncommittedTree := None, uncommittedRootHash := None\<rparr> else L2) in
      Inr (L3, if committedTxns \<noteq> [] then (committedSize + 1, committedSize + count) else (committedSize, committedSize),
           committedTxns)))"

definition discardTxns ::
  "(bytes \<Rightarrow> bytes) \<Rightarrow> 'b Txn Serializers \<Rightarrow> ('hs, 'kv, 'b) PLedger \<Rightarrow> nat \<Rightarrow> ('hs, 'kv, 'b) PLedger result" where
  "discardTxns H S L count =
     (if count = 0 then Inr L
      else if count > length (uncommittedTxns L) then Inl LogicError
      else
        let L1 = L\<lparr>uncommittedTxns := take (length (uncommittedTxns L) - count) (uncommittedTxns L)\<rparr> in
        if uncommittedTxns L1 = [] then Inr (L1\<lparr>uncommittedTree := None, uncommittedRootHash := None\<rparr>)
        else
          bindE (treeWithAppliedTxns H S L1 (uncommittedTxns L1) None) (\<lambda>tree.
          bindE (root_hash H tree) (\<lambda>rootHash.
            Inr (L1\<lparr>uncommittedTree := Some tree, uncommittedRootHash := Some rootHash\<rparr>))))"

definition reset_uncommitted :: "('hs, 'kv, 'b) PLedger \<Rightarrow> ('hs, 'kv, 'b) PLedger" where
  "reset_uncommitted L = L\<lparr>uncommittedTxns := [], uncommittedRootHash := None, uncommittedTree := None\<rparr>"

definition get_last_committed_txn ::
  "'kv KeyValueStorage \<Rightarrow> 'b Txn Serializers \<Rightarrow> ('hs, 'kv, 'b) PLedger \<Rightarrow> 'b Txn option result" where
  "get_last_committed_txn kv S L =
     (if ledger_size L > 0 then getBySeqNo kv S L (int (ledger_size L)) else Inr None)"

definition get_last_txn ::
  "'kv KeyValueStorage \<Rightarrow> 'b Txn Serializers \<Rightarrow> ('hs, 'kv, 'b) PLedger \<Rightarrow> 'b Txn option result" where
  "get_last_txn kv S L =
     (if uncommittedTxns L \<noteq> [] then Inr (Some (last (uncommittedTxns L))) else get_last_committed_txn kv S L)"

definition get_by_seq_no_uncommitted ::
  "'kv KeyValueStorage \<Rightarrow> 'b Txn Serializers \<Rightarrow> ('hs, 'kv, 'b) PLedger \<Rightarrow> int \<Rightarrow> 'b Txn option result" where
  "get_by_seq_no_uncommitted kv S L seq_no =
     (if seq_no > int (uncommitted_size L) then Inl KeyError
      else if seq_no > int (ledger_size L) then
        Inr (Some (uncommittedTxns L ! nat (seq_no - int (ledger_size L) - 1)))
      else getBySeqNo kv S L seq_no)"

section \<open>The uncommitted tree\<close>

definition txn_hashes :: "(bytes \<Rightarrow> bytes) \<Rightarrow> 'b Txn Serializers \<Rightarrow> 'b Txn list \<Rightarrow> bytes list" where
  "txn_hashes H S = map (hash_leaf H \<circ> hash_ser S)"

text \<open>The committed transactions are \<open>cs\<close>; what the ledger keeps of the uncommitted ones belongs to both.\<close>

definition uncommitted_ok :: "(bytes \<Rightarrow> bytes) \<Rightarrow> 'b Txn Serializers \<Rightarrow> ('hs, 'kv, 'b) PLedger \<Rightarrow> 'b Txn list \<Rightarrow> bool" where
  "uncommitted_ok H S L cs \<longleftrightarrow>
     (\<forall>txn \<in> set (uncommittedTxns L). txn_seqNo txn \<noteq> None) \<and>
     (case uncommittedTree L of
        None \<Rightarrow> uncommittedTxns L = [] \<and> uncommittedRootHash L = None
      | Some t \<Rightarrow> tree_shape H t (txn_hashes H S (cs @ uncommittedTxns L)) \<and>
                 uncommittedRootHash L = Some (mth H (txn_hashes H S (cs @ uncommittedTxns L))))"

lemma txn_hashes_append [simp]: "txn_hashes H S (xs @ ys) = txn_hashes H S xs @ txn_hashes H S ys"
  and txn_hashes_Cons [simp]: "txn_hashes H S (x # xs) = hash_leaf H (hash_ser S x) # txn_hashes H S xs"
  and txn_hashes_Nil [simp]: "txn_hashes H S [] = []"
  and length_txn_hashes [simp]: "length (txn_hashes H S xs) = length xs"
  by (simp_all add: txn_hashes_def)

lemma append_txns_shape:
  "tree_shape H t hs \<Longrightarrow>
   \<exists>t'. foldE (\<lambda>t txn. bindE (append_leaf mhs_ops H t (hash_ser S txn)) (\<lambda>(t', _). Inr t')) t txns = Inr t' \<and>
     tree_shape H t' (hs @ txn_hashes H S txns)"
proof (induction txns arbitrary: t hs)
  case (Cons txn txns)
  obtain t1 where "append_leaf mhs_ops H t (hash_ser S txn) = Inr (t1, rev (subroots H hs))"
    "tree_shape H t1 (hs @ [hash_leaf H (hash_ser S txn)])"
    using mhs.append_leaf_shape [OF Cons.prems] by blast
  then show ?case using Cons.IH [of t1 "hs @ [hash_leaf H (hash_ser S txn)]"] by simp
qed simp

lemma copy_tree_shape:
  assumes "tree_shape H t hs"
  shows "\<exists>t'. copy_tree mhs_empty t = Inr t' \<and> tree_shape H t' hs"
  using assms update_tree_shape [of "mk_CompactMerkleTree mhs_empty" hs H] by (auto simp: copy_tree_def tree_shape_def)

lemma treeWithAppliedTxns_ok:
  assumes "tree_shape H (l_tree L) (txn_hashes H S cs)" and "case cur of None \<Rightarrow> us = [] | Some t \<Rightarrow> tree_shape H t (txn_hashes H S (cs @ us))"
  shows "\<exists>t. treeWithAppliedTxns H S L txns cur = Inr t \<and> tree_shape H t (txn_hashes H S (cs @ us @ txns))"
proof -
  have "\<exists>t. (case cur of None \<Rightarrow> copy_tree mhs_empty (l_tree L)
            | Some t \<Rightarrow> if tree_size t = 0 then copy_tree mhs_empty (l_tree L) else copy_tree mhs_empty t) = Inr t \<and>
          tree_shape H t (txn_hashes H S (cs @ us))"
  proof (cases cur)
    case None
    then show ?thesis using assms copy_tree_shape [OF assms(1)] by simp
  next
    case (Some t)
    then have t: "tree_shape H t (txn_hashes H S (cs @ us))" using assms(2) by simp
    show ?thesis
    proof (cases "tree_size t = 0")
      case True
      then have "us = []" using t by (simp add: tree_shape_def)
      then show ?thesis using Some True copy_tree_shape [OF assms(1)] by simp
    next
      case False
      then show ?thesis using Some copy_tree_shape [OF t] by simp
    qed
  qed
  then obtain t where t: "(case cur of None \<Rightarrow> copy_tree mhs_empty (l_tree L)
      | Some t \<Rightarrow> if tree_size t = 0 then copy_tree mhs_empty (l_tree L) else copy_tree mhs_empty t) = Inr t"
    "tree_shape H t (txn_hashes H S (cs @ us))" by blast
  show ?thesis
    using append_txns_shape [OF t(2), of S txns] t(1) by (simp add: treeWithAppliedTxns_def)
qed

lemma mth_nonempty:
  assumes "\<And>x. length (H x) = d" and "0 < d" and "\<forall>h \<in> set hs. length h = d"
  shows "mth H hs \<noteq> []"
proof (cases "hs = []")
  case True
  then show ?thesis using assms(1) [of "[]"] assms(2) by (auto simp: mth.simps hash_empty_def)
next
  case False
  then show ?thesis using length_mth [of H d hs] assms by auto
qed

lemma discard_appended:
  assumes "uncommitted_ok H S L cs" and "tree_shape H (l_tree L) (txn_hashes H S cs)"
    and "count \<le> length (uncommittedTxns L)"
  shows "\<exists>L'. discardTxns H S L count = Inr L' \<and> uncommitted_ok H S L' cs \<and>
    uncommittedTxns L' = take (length (uncommittedTxns L) - count) (uncommittedTxns L) \<and>
    l_tree L' = l_tree L \<and> transactionLog L' = transactionLog L \<and> l_seqNo L' = l_seqNo L"
proof -
  let ?us = "take (length (uncommittedTxns L) - count) (uncommittedTxns L)"
  let ?L1 = "L\<lparr>uncommittedTxns := ?us\<rparr>"
  have sn: "\<forall>txn \<in> set ?us. txn_seqNo txn \<noteq> None"
    using assms(1) by (auto simp: uncommitted_ok_def dest: in_set_takeD)
  consider "count = 0" | "count \<noteq> 0" "?us = []" | "count \<noteq> 0" "?us \<noteq> []" by blast
  then show ?thesis
  proof cases
    case 1
    then show ?thesis using assms(1) by (simp add: discardTxns_def)
  next
    case 2
    then show ?thesis using assms(3) sn by (simp add: discardTxns_def uncommitted_ok_def)
  next
    case 3
    have "tree_shape H (l_tree ?L1) (txn_hashes H S cs)" using assms(2) by simp
    from treeWithAppliedTxns_ok [OF this, where ?cur = None and ?us = "[]" and ?txns = ?us] obtain t where
      t: "treeWithAppliedTxns H S ?L1 ?us None = Inr t" "tree_shape H t (txn_hashes H S (cs @ ?us))" by auto
    show ?thesis
      using 3 t root_hash_shape [OF t(2)] sn assms(3)
      by (simp add: discardTxns_def uncommitted_ok_def Let_def)
  qed
qed

locale plenum_stores =
  ledger_stores ops dlen leafs nodes hs_ok kv kv_map kv_inv H S
  for ops :: "'hs HashStore" and dlen leafs nodes hs_ok and kv :: "'kv KeyValueStorage" and kv_map kv_inv
    and H and S :: "'b Txn Serializers" +
  assumes digest_pos: "0 < dlen"
begin

lemma ledger_ok_shape:
  "ledger_ok hs_ok leafs nodes kv kv_inv H S L cs \<Longrightarrow> tree_shape H (l_tree L) (txn_hashes H S cs)"
  by (simp add: ledger_ok_def tree_ok_def txn_hashes_def comp_def)

lemma ledger_root_ok: "ledger_ok hs_ok leafs nodes kv kv_inv H S L cs \<Longrightarrow> root_hash H (l_tree L) = Inr (mth H (txn_hashes H S cs))"
  by (rule root_hash_shape [OF ledger_ok_shape])

lemma uncommitted_root_hash_ok:
  assumes "ledger_ok hs_ok leafs nodes kv kv_inv H S L cs" and "uncommitted_ok H S L cs"
  shows "uncommitted_root_hash H L = Inr (mth H (txn_hashes H S (cs @ uncommittedTxns L)))"
proof (cases "uncommittedTree L")
  case None
  then show ?thesis using assms(2) ledger_root_ok [OF assms(1)] by (simp add: uncommitted_ok_def uncommitted_root_hash_def)
next
  case (Some t)
  have "mth H (txn_hashes H S (cs @ uncommittedTxns L)) \<noteq> []"
    using digest by (intro mth_nonempty [OF _ digest_pos]) (auto simp: txn_hashes_def hash_leaf_def)
  then show ?thesis using assms(2) Some
    by (simp add: uncommitted_ok_def uncommitted_root_hash_def split: list.split)
qed

lemma appendTxns_ok:
  assumes L: "ledger_ok hs_ok leafs nodes kv kv_inv H S L cs" and u: "uncommitted_ok H S L cs"
    and sn: "\<forall>txn \<in> set txns. txn_seqNo txn \<noteq> None"
  shows "\<exists>L'. appendTxns H S L txns =
      Inr (L', (if txns \<noteq> [] then (uncommitted_size L + 1, uncommitted_size L + length txns)
                else (uncommitted_size L, uncommitted_size L)), txns) \<and>
    ledger_ok hs_ok leafs nodes kv kv_inv H S L' cs \<and> uncommitted_ok H S L' cs \<and>
    uncommittedTxns L' = uncommittedTxns L @ txns"
proof -
  have "case uncommittedTree L of None \<Rightarrow> uncommittedTxns L = []
      | Some t \<Rightarrow> tree_shape H t (txn_hashes H S (cs @ uncommittedTxns L))"
    using u by (simp add: uncommitted_ok_def split: option.splits)
  from treeWithAppliedTxns_ok [OF ledger_ok_shape [OF L] this, where ?txns = txns] obtain t where
    t: "treeWithAppliedTxns H S L txns (uncommittedTree L) = Inr t"
      "tree_shape H t (txn_hashes H S (cs @ uncommittedTxns L @ txns))" by blast
  show ?thesis
    using t root_hash_shape [OF t(2)] sn u L
    by (auto simp: appendTxns_def uncommitted_ok_def uncommitted_size_def Let_def filter_empty_conv ledger_ok_def)
qed

lemma commit_loop:
  assumes "ledger_ok hs_ok leafs nodes kv kv_inv H S L cs" and "\<forall>txn \<in> set ts. txn_seqNo txn \<noteq> None"
  shows "\<exists>L' ds. foldE (\<lambda>(L, committed) txn.
        bindE (pl_add ops kv H S L txn) (\<lambda>(L', txn', info). Inr (L', committed @ [update_txn txn' info]))) (L, acc) ts =
      Inr (L', acc @ ds) \<and> ledger_ok hs_ok leafs nodes kv kv_inv H S L' (cs @ ts) \<and> length ds = length ts \<and>
    map txn_seqNo ds = map txn_seqNo ts \<and> map txn_body ds = map txn_body ts \<and> Ledger.more L' = Ledger.more L"
  using assms
proof (induction ts arbitrary: L cs acc)
  case (Cons txn ts)
  obtain L1 i where L1: "ledger_add ops kv H S L txn = Inr (L1, i)"
    "ledger_ok hs_ok leafs nodes kv kv_inv H S L1 (cs @ [txn])" "Ledger.more L1 = Ledger.more L"
    using ledger_add_ok [OF Cons.prems(1), of txn] by blast
  have pl: "pl_add ops kv H S L txn = Inr (L1, txn, i\<lparr>mi_seqNo := None\<rparr>)"
    using L1(1) Cons.prems(2) by (auto simp: pl_add_def)
  let ?d = "update_txn txn (i\<lparr>mi_seqNo := None\<rparr>)"
  obtain L' ds where L': "foldE (\<lambda>(L, committed) txn.
        bindE (pl_add ops kv H S L txn) (\<lambda>(L', txn', info). Inr (L', committed @ [update_txn txn' info]))) (L1, acc @ [?d]) ts =
      Inr (L', (acc @ [?d]) @ ds)" "ledger_ok hs_ok leafs nodes kv kv_inv H S L' ((cs @ [txn]) @ ts)" "length ds = length ts"
    "map txn_seqNo ds = map txn_seqNo ts" "map txn_body ds = map txn_body ts" "Ledger.more L' = Ledger.more L1"
    using Cons.IH [OF L1(2), of "acc @ [?d]"] Cons.prems(2) by auto
  show ?case
    using L1(3) L' pl by (intro exI [of _ L'] exI [of _ "?d # ds"]) (simp add: update_txn_def)
qed simp

lemma commitTxns_ok:
  assumes L: "ledger_ok hs_ok leafs nodes kv kv_inv H S L cs" and u: "uncommitted_ok H S L cs"
  shows "\<exists>L' ds. commitTxns ops kv H S L count =
      Inr (L', (if ds \<noteq> [] then (ledger_size L + 1, ledger_size L + count) else (ledger_size L, ledger_size L)), ds) \<and>
    map txn_body ds = map txn_body (take count (uncommittedTxns L)) \<and>
    ledger_ok hs_ok leafs nodes kv kv_inv H S L' (cs @ take count (uncommittedTxns L)) \<and>
    uncommitted_ok H S L' (cs @ take count (uncommittedTxns L)) \<and> uncommittedTxns L' = drop count (uncommittedTxns L)"
proof -
  let ?ts = "take count (uncommittedTxns L)"
  have "\<forall>txn \<in> set ?ts. txn_seqNo txn \<noteq> None" using u by (auto simp: uncommitted_ok_def dest: in_set_takeD)
  from commit_loop [OF L this, of "[]"] obtain L1 ds where
    L1: "foldE (\<lambda>(L, committed) txn.
        bindE (pl_add ops kv H S L txn) (\<lambda>(L', txn', info). Inr (L', committed @ [update_txn txn' info]))) (L, []) ?ts =
      Inr (L1, ds)" "ledger_ok hs_ok leafs nodes kv kv_inv H S L1 (cs @ ?ts)" "map txn_body ds = map txn_body ?ts"
      "Ledger.more L1 = Ledger.more L" by auto
  then have m: "uncommittedTxns L1 = uncommittedTxns L" "uncommittedTree L1 = uncommittedTree L"
    "uncommittedRootHash L1 = uncommittedRootHash L" by (cases L; cases L1; simp)+
  have sn: "\<forall>txn \<in> set (drop count (uncommittedTxns L)). txn_seqNo txn \<noteq> None"
    using u by (auto simp: uncommitted_ok_def dest: in_set_dropD)
  let ?L2 = "L1\<lparr>uncommittedTxns := drop count (uncommittedTxns L1)\<rparr>"
  let ?L3 = "if uncommittedTxns ?L2 = [] then ?L2\<lparr>uncommittedTree := None, uncommittedRootHash := None\<rparr> else ?L2"
  have "commitTxns ops kv H S L count =
      Inr (?L3, (if ds \<noteq> [] then (ledger_size L + 1, ledger_size L + count) else (ledger_size L, ledger_size L)), ds)"
    unfolding commitTxns_def Let_def L1(1) by simp
  moreover have "ledger_ok hs_ok leafs nodes kv kv_inv H S ?L3 (cs @ ?ts)" using L1(2) by (simp add: ledger_ok_def)
  moreover have "uncommitted_ok H S ?L3 (cs @ ?ts)"
    using u sn by (auto simp: uncommitted_ok_def m txn_hashes_append [symmetric] simp del: txn_hashes_append split: option.splits)
  moreover have "uncommittedTxns ?L3 = drop count (uncommittedTxns L)" by (simp add: m)
  ultimately show ?thesis using L1(3) by blast
qed

end

lemma db_plenum_stores:
  assumes "txn_log ops kv_map kv_inv" and "\<And>x. length (H x) = 32"
  shows "plenum_stores (dhs_ops ops) 32 (dhs_leafs kv_map) (dhs_nodes kv_map) (dhs_ok kv_map kv_inv) ops kv_map kv_inv H"
  using db_ledger_stores [where ?H = H, OF assms] by (simp add: plenum_stores_def plenum_stores_axioms_def)

definition db_pledger_ok ::
  "'kv KeyValueStorage \<Rightarrow> ('kv \<Rightarrow> bytes \<rightharpoonup> bytes) \<Rightarrow> ('kv \<Rightarrow> bool) \<Rightarrow> (bytes \<Rightarrow> bytes) \<Rightarrow> 'b Txn Serializers \<Rightarrow>
   ('kv DbHashStore, 'kv, 'b) PLedger \<Rightarrow> 'b Txn list \<Rightarrow> bool" where
  "db_pledger_ok ops kv_map kv_inv H S L cs \<longleftrightarrow> db_ledger_ok ops kv_map kv_inv H S L cs \<and> uncommitted_ok H S L cs"

text \<open>Serialisers for the examples: a transaction is the bytes of its content.\<close>

definition body_ser :: "bytes Txn Serializers" where
  "body_ser = \<lparr>txn_ser = txn_body, txn_deser = (\<lambda>b. \<lparr>txn_body = b, txn_seqNo = None, txn_time = None, txn_id = None,
     txn_rootHash = None, txn_auditPath = None\<rparr>), hash_ser = txn_body, same_ser = False, root_ser = map (\<lambda>b. char_of (unat b))\<rparr>"

definition mk_txn :: "bytes \<Rightarrow> nat \<Rightarrow> bytes Txn" where
  "mk_txn b n = \<lparr>txn_body = b, txn_seqNo = Some n, txn_time = None, txn_id = None, txn_rootHash = None, txn_auditPath = None\<rparr>"

interpretation pad_pledger: plenum_stores "dhs_ops kvm_ops" 32 "dhs_leafs map_of" "dhs_nodes map_of"
  "dhs_ok map_of (\<lambda>d. distinct (map fst d))" kvm_ops map_of "\<lambda>d. distinct (map fst d)" pad_hash body_ser
  by (rule db_plenum_stores [OF kvm_log.txn_log_axioms]) simp

definition empty_pledger :: "(kvm DbHashStore, kvm, bytes) PLedger" where
  "empty_pledger = \<lparr>l_tree = mk_CompactMerkleTree (dhs_open kvm_ops [] []), transactionLog = [], l_seqNo = 0,
     l_read_only = False, uncommittedTxns = [], uncommittedRootHash = None, uncommittedTree = None\<rparr>"

lemma empty_pledger_ok: "db_pledger_ok kvm_ops map_of (\<lambda>d. distinct (map fst d)) pad_hash body_ser empty_pledger []"
proof -
  have "tree_ok (dhs_ok map_of (\<lambda>d. distinct (map fst d))) (dhs_leafs map_of) (dhs_nodes map_of) pad_hash
      (mk_CompactMerkleTree (dhs_open kvm_ops [] [])) []" by (rule kvm.dhs_open_empty) simp_all
  then show ?thesis
    by (simp add: db_pledger_ok_def ledger_ok_def uncommitted_ok_def empty_pledger_def kvm_ops_def)
qed

section \<open>Properties\<close>

lemma append_seq_no_consecutive: "map txn_seqNo (append_seq_no txns n) = map Some [n + 1..<n + 1 + length txns]"
  by (induction txns arbitrary: n) (simp_all add: append_txn_metadata_def upt_conv_Cons del: upt_Suc)

text \<open>
  C8: the root hash that a batch of transactions is agreed on, the uncommitted root hash after
  \<^verbatim>\<open>appendTxns\<close>, is the root hash of the ledger once all the uncommitted transactions are
  committed, and the size becomes the uncommitted size.
\<close>

theorem append_then_commit:
  assumes "txn_log ops kv_map kv_inv" and "\<And>x. length (H x) = 32" and "db_pledger_ok ops kv_map kv_inv H S L cs"
    and "\<forall>txn \<in> set txns. txn_seqNo txn \<noteq> None"
  shows "\<exists>L1 rng r L2 rng2 ds. appendTxns H S L txns = Inr (L1, rng, txns) \<and> uncommitted_root_hash H L1 = Inr r \<and>
    commitTxns (dhs_ops ops) ops H S L1 (length (uncommittedTxns L1)) = Inr (L2, rng2, ds) \<and>
    root_hash H (l_tree L2) = Inr r \<and> uncommitted_root_hash H L2 = Inr r \<and>
    ledger_size L2 = uncommitted_size L1 \<and> uncommittedTxns L2 = [] \<and>
    db_pledger_ok ops kv_map kv_inv H S L2 (cs @ uncommittedTxns L @ txns)"
proof -
  note pl = db_plenum_stores [where ?H = H, OF assms(1,2)]
  note ls = db_ledger_stores [where ?H = H, OF assms(1,2)]
  have L: "db_ledger_ok ops kv_map kv_inv H S L cs" "uncommitted_ok H S L cs"
    using assms(3) by (simp_all add: db_pledger_ok_def)
  obtain L1 rng where L1: "appendTxns H S L txns = Inr (L1, rng, txns)" "db_ledger_ok ops kv_map kv_inv H S L1 cs"
    "uncommitted_ok H S L1 cs" "uncommittedTxns L1 = uncommittedTxns L @ txns"
    using plenum_stores.appendTxns_ok [OF pl L assms(4)] by blast
  obtain L2 rng2 ds where L2: "commitTxns (dhs_ops ops) ops H S L1 (length (uncommittedTxns L1)) = Inr (L2, rng2, ds)"
    "db_ledger_ok ops kv_map kv_inv H S L2 (cs @ uncommittedTxns L1)" "uncommitted_ok H S L2 (cs @ uncommittedTxns L1)"
    "uncommittedTxns L2 = []"
    using plenum_stores.commitTxns_ok [OF pl L1(2,3), of "length (uncommittedTxns L1)"]
    by (simp del: Product_Type.split_paired_Ex) blast
  have sz: "ledger_size L2 = uncommitted_size L1"
    using ledger_stores.ledger_size_ok [OF ls L2(2)] ledger_stores.ledger_size_ok [OF ls L1(2)]
    by (simp add: uncommitted_size_def)
  show ?thesis
    using L1 L2 sz plenum_stores.uncommitted_root_hash_ok [OF pl L1(2,3)] plenum_stores.ledger_root_ok [OF pl L2(2)]
      plenum_stores.uncommitted_root_hash_ok [OF pl L2(2,3)]
    by (auto simp: db_pledger_ok_def)
qed

theorem append_then_commit_witness:
  "\<exists>L1 rng r L2 rng2 ds. appendTxns pad_hash body_ser empty_pledger [mk_txn [1] 1, mk_txn [2] 2] =
      Inr (L1, rng, [mk_txn [1] 1, mk_txn [2] 2]) \<and> uncommitted_root_hash pad_hash L1 = Inr r \<and>
    commitTxns (dhs_ops kvm_ops) kvm_ops pad_hash body_ser L1 (length (uncommittedTxns L1)) = Inr (L2, rng2, ds) \<and>
    root_hash pad_hash (l_tree L2) = Inr r"
  using append_then_commit [OF kvm_log.txn_log_axioms length_pad_hash empty_pledger_ok, of "[mk_txn [1] 1, mk_txn [2] 2]"]
  by (auto simp: mk_txn_def)

text \<open>
  C33: committing the first transactions of the uncommitted ones moves exactly those to the
  ledger; the uncommitted size and root hash, and the order of the rest, do not change.
\<close>

theorem commit_keeps_uncommitted_root:
  assumes "txn_log ops kv_map kv_inv" and "\<And>x. length (H x) = 32" and "db_pledger_ok ops kv_map kv_inv H S L cs"
    and "count \<le> length (uncommittedTxns L)"
  shows "\<exists>L' rng ds. commitTxns (dhs_ops ops) ops H S L count = Inr (L', rng, ds) \<and>
    db_pledger_ok ops kv_map kv_inv H S L' (cs @ take count (uncommittedTxns L)) \<and>
    map txn_body ds = map txn_body (take count (uncommittedTxns L)) \<and>
    uncommittedTxns L' = drop count (uncommittedTxns L) \<and>
    uncommitted_root_hash H L' = uncommitted_root_hash H L \<and> uncommitted_size L' = uncommitted_size L \<and>
    (0 < count \<longrightarrow> rng = (ledger_size L + 1, ledger_size L'))"
proof -
  note pl = db_plenum_stores [where ?H = H, OF assms(1,2)]
  note ls = db_ledger_stores [where ?H = H, OF assms(1,2)]
  have L: "db_ledger_ok ops kv_map kv_inv H S L cs" "uncommitted_ok H S L cs"
    using assms(3) by (simp_all add: db_pledger_ok_def)
  let ?cs = "cs @ take count (uncommittedTxns L)"
  obtain L' ds where L': "commitTxns (dhs_ops ops) ops H S L count =
      Inr (L', (if ds \<noteq> [] then (ledger_size L + 1, ledger_size L + count) else (ledger_size L, ledger_size L)), ds)"
    "map txn_body ds = map txn_body (take count (uncommittedTxns L))"
    "db_ledger_ok ops kv_map kv_inv H S L' ?cs" "uncommitted_ok H S L' ?cs" "uncommittedTxns L' = drop count (uncommittedTxns L)"
    using plenum_stores.commitTxns_ok [OF pl L] by blast
  have ds: "ds \<noteq> []" if "0 < count" using L'(2) assms(4) that by (cases "uncommittedTxns L") auto
  show ?thesis
    using L' ds plenum_stores.uncommitted_root_hash_ok [OF pl L] plenum_stores.uncommitted_root_hash_ok [OF pl L'(3,4)]
      ledger_stores.ledger_size_ok [OF ls L(1)] ledger_stores.ledger_size_ok [OF ls L'(3)] assms(4)
    by (auto simp: db_pledger_ok_def uncommitted_size_def simp del: txn_hashes_append)
qed

lemma pad_pledger_filled:
  "\<exists>L. appendTxns pad_hash body_ser empty_pledger [mk_txn [1] 1, mk_txn [2] 2] = Inr (L, (1, 2), [mk_txn [1] 1, mk_txn [2] 2]) \<and>
     db_pledger_ok kvm_ops map_of (\<lambda>d. distinct (map fst d)) pad_hash body_ser L [] \<and>
     uncommittedTxns L = [mk_txn [1] 1, mk_txn [2] 2]"
proof -
  have "db_ledger_ok kvm_ops map_of (\<lambda>d. distinct (map fst d)) pad_hash body_ser empty_pledger []"
    and "uncommitted_ok pad_hash body_ser empty_pledger []"
    using empty_pledger_ok by (simp_all add: db_pledger_ok_def)
  from pad_pledger.appendTxns_ok [OF this, of "[mk_txn [1] 1, mk_txn [2] 2]"] show ?thesis
    by (auto simp: mk_txn_def db_pledger_ok_def uncommitted_size_def ledger_size_def empty_pledger_def mk_CompactMerkleTree_def)
qed

theorem commit_keeps_uncommitted_root_witness:
  "\<exists>L L' rng ds. commitTxns (dhs_ops kvm_ops) kvm_ops pad_hash body_ser L 1 = Inr (L', rng, ds) \<and>
    uncommittedTxns L = [mk_txn [1] 1, mk_txn [2] 2] \<and> uncommittedTxns L' = [mk_txn [2] 2] \<and>
    uncommitted_root_hash pad_hash L' = uncommitted_root_hash pad_hash L \<and> rng = (ledger_size L + 1, ledger_size L')"
proof -
  obtain L where L: "db_pledger_ok kvm_ops map_of (\<lambda>d. distinct (map fst d)) pad_hash body_ser L []"
    "uncommittedTxns L = [mk_txn [1] 1, mk_txn [2] 2]" using pad_pledger_filled by blast
  show ?thesis
    using commit_keeps_uncommitted_root [OF kvm_log.txn_log_axioms length_pad_hash L(1), of 1] L(2) by auto
qed

text \<open>
  C34: discarding the transactions of the last \<^verbatim>\<open>appendTxns\<close> undoes it: the uncommitted
  transactions, size and root hash are those from before. (The source recomputes the tree.)
\<close>

theorem append_then_discard:
  assumes "txn_log ops kv_map kv_inv" and "\<And>x. length (H x) = 32" and "db_pledger_ok ops kv_map kv_inv H S L cs"
    and "\<forall>txn \<in> set txns. txn_seqNo txn \<noteq> None"
  shows "\<exists>L1 rng L2. appendTxns H S L txns = Inr (L1, rng, txns) \<and> discardTxns H S L1 (length txns) = Inr L2 \<and>
    db_pledger_ok ops kv_map kv_inv H S L2 cs \<and> uncommittedTxns L2 = uncommittedTxns L \<and>
    uncommitted_root_hash H L2 = uncommitted_root_hash H L \<and> uncommitted_size L2 = uncommitted_size L"
proof -
  note pl = db_plenum_stores [where ?H = H, OF assms(1,2)]
  have L: "db_ledger_ok ops kv_map kv_inv H S L cs" "uncommitted_ok H S L cs"
    using assms(3) by (simp_all add: db_pledger_ok_def)
  obtain L1 rng where L1: "appendTxns H S L txns = Inr (L1, rng, txns)" "db_ledger_ok ops kv_map kv_inv H S L1 cs"
    "uncommitted_ok H S L1 cs" "uncommittedTxns L1 = uncommittedTxns L @ txns"
    using plenum_stores.appendTxns_ok [OF pl L assms(4)] by blast
  obtain L2 where L2: "discardTxns H S L1 (length txns) = Inr L2" "uncommitted_ok H S L2 cs"
    "uncommittedTxns L2 = uncommittedTxns L" "l_tree L2 = l_tree L1" "transactionLog L2 = transactionLog L1" "l_seqNo L2 = l_seqNo L1"
    using discard_appended [OF L1(3) plenum_stores.ledger_ok_shape [OF pl L1(2)], of "length txns"] L1(4) by auto
  have ok: "db_ledger_ok ops kv_map kv_inv H S L2 cs" using L1(2) L2 by (simp add: ledger_ok_def)
  note ls = db_ledger_stores [where ?H = H, OF assms(1,2)]
  show ?thesis
    using L1(1) L2(1-3) ok plenum_stores.uncommitted_root_hash_ok [OF pl L] plenum_stores.uncommitted_root_hash_ok [OF pl ok L2(2)]
      ledger_stores.ledger_size_ok [OF ls L(1)] ledger_stores.ledger_size_ok [OF ls ok]
    by (auto simp: db_pledger_ok_def uncommitted_size_def simp del: txn_hashes_append)
qed

theorem append_then_discard_witness:
  "\<exists>(L :: (kvm DbHashStore, kvm, bytes) PLedger) L1 rng L2. uncommittedTxns L = [mk_txn [1] 1, mk_txn [2] 2] \<and>
    appendTxns pad_hash body_ser L [mk_txn [3] 3] = Inr (L1, rng, [mk_txn [3] 3]) \<and> discardTxns pad_hash body_ser L1 1 = Inr L2 \<and>
    uncommittedTxns L2 = uncommittedTxns L \<and> uncommitted_root_hash pad_hash L2 = uncommitted_root_hash pad_hash L"
proof -
  obtain L where L: "db_pledger_ok kvm_ops map_of (\<lambda>d. distinct (map fst d)) pad_hash body_ser L []"
    "uncommittedTxns L = [mk_txn [1] 1, mk_txn [2] 2]" using pad_pledger_filled by blast
  have "\<forall>txn \<in> set [mk_txn [3] 3]. txn_seqNo txn \<noteq> None" by (simp add: mk_txn_def)
  from append_then_discard [OF kvm_log.txn_log_axioms length_pad_hash L(1) this] show ?thesis
    using L(2) by fastforce
qed

end
