(* ===== verification/Quorums.thy ===== *)
theory Quorums
  imports Prelude
begin

text \<open>
  \<^verbatim>\<open>plenum/server/quorums.py\<close> and the pool-size arithmetic of
  \<^verbatim>\<open>plenum/common/util.py\<close>: the number of tolerated failures and the thresholds of every
  quorum the protocol waits for, with the intersection facts the protocol's safety rests on.
\<close>

section \<open>Definitions\<close>

text \<open>
  \<^verbatim>\<open>getMaxFailures\<close>: the source divides as floats and takes the floor; for the pool sizes
  a float represents exactly this is integer division.
\<close>

definition getMaxFailures :: "int \<Rightarrow> int" where
  "getMaxFailures nodeCount = (if nodeCount \<ge> 4 then (nodeCount - 1) div 3 else 0)"

definition getNoInstances :: "int \<Rightarrow> int" where
  "getNoInstances nodeCount = getMaxFailures nodeCount + 1"

record Quorum = q_value :: int

definition mk_Quorum :: "int \<Rightarrow> Quorum" where
  "mk_Quorum v = \<lparr>q_value = v\<rparr>"

definition is_reached :: "Quorum \<Rightarrow> int \<Rightarrow> bool" where
  "is_reached q msg_count \<longleftrightarrow> msg_count \<ge> q_value q"

record Quorums =
  q_n :: int
  q_f :: int
  weak :: Quorum
  strong :: Quorum
  propagate :: Quorum
  prepare :: Quorum
  commit :: Quorum
  reply :: Quorum
  view_change :: Quorum
  election :: Quorum
  view_change_ack :: Quorum
  view_change_done :: Quorum
  same_consistency_proof :: Quorum
  consistency_proof :: Quorum
  ledger_status :: Quorum
  ledger_status_last_3PC :: Quorum
  checkpoint :: Quorum
  timestamp :: Quorum
  bls_signatures :: Quorum
  observer_data :: Quorum
  backup_instance_faulty :: Quorum

definition mk_Quorums :: "int \<Rightarrow> Quorums" where
  "mk_Quorums n =
     (let f = getMaxFailures n in
      \<lparr>q_n = n,
       q_f = f,
       weak = mk_Quorum (f + 1),
       strong = mk_Quorum (n - f),
       propagate = mk_Quorum (f + 1),
       prepare = mk_Quorum (n - f - 1),
       commit = mk_Quorum (n - f),
       reply = mk_Quorum (f + 1),
       view_change = mk_Quorum (n - f),
       election = mk_Quorum (n - f),
       view_change_ack = mk_Quorum (n - f - 1),
       view_change_done = mk_Quorum (n - f),
       same_consistency_proof = mk_Quorum (f + 1),
       consistency_proof = mk_Quorum (f + 1),
       ledger_status = mk_Quorum (n - f - 1),
       ledger_status_last_3PC = mk_Quorum (f + 1),
       checkpoint = mk_Quorum (n - f - 1),
       timestamp = mk_Quorum (f + 1),
       bls_signatures = mk_Quorum (n - f),
       observer_data = mk_Quorum (f + 1),
       backup_instance_faulty = mk_Quorum (f + 1)\<rparr>)"

section \<open>Arithmetic of the thresholds\<close>

lemma is_reached_mk [simp]: "is_reached (mk_Quorum v) c \<longleftrightarrow> v \<le> c"
  by (simp add: is_reached_def mk_Quorum_def)

lemma getMaxFailures_bounds:
  assumes "1 \<le> n"
  shows "0 \<le> getMaxFailures n" and "3 * getMaxFailures n < n"
  using assms by (auto simp: getMaxFailures_def)

lemma getMaxFailures_div: "1 \<le> n \<Longrightarrow> getMaxFailures n = (n - 1) div 3"
  by (auto simp: getMaxFailures_def)

lemma mk_Quorums_sel [simp]:
  "q_n (mk_Quorums n) = n"
  "q_f (mk_Quorums n) = getMaxFailures n"
  "weak (mk_Quorums n) = mk_Quorum (getMaxFailures n + 1)"
  "strong (mk_Quorums n) = mk_Quorum (n - getMaxFailures n)"
  "propagate (mk_Quorums n) = mk_Quorum (getMaxFailures n + 1)"
  "prepare (mk_Quorums n) = mk_Quorum (n - getMaxFailures n - 1)"
  "commit (mk_Quorums n) = mk_Quorum (n - getMaxFailures n)"
  "view_change (mk_Quorums n) = mk_Quorum (n - getMaxFailures n)"
  "view_change_ack (mk_Quorums n) = mk_Quorum (n - getMaxFailures n - 1)"
  "reply (mk_Quorums n) = mk_Quorum (getMaxFailures n + 1)"
  "election (mk_Quorums n) = mk_Quorum (n - getMaxFailures n)"
  "view_change_done (mk_Quorums n) = mk_Quorum (n - getMaxFailures n)"
  "same_consistency_proof (mk_Quorums n) = mk_Quorum (getMaxFailures n + 1)"
  "consistency_proof (mk_Quorums n) = mk_Quorum (getMaxFailures n + 1)"
  "ledger_status (mk_Quorums n) = mk_Quorum (n - getMaxFailures n - 1)"
  "ledger_status_last_3PC (mk_Quorums n) = mk_Quorum (getMaxFailures n + 1)"
  "timestamp (mk_Quorums n) = mk_Quorum (getMaxFailures n + 1)"
  "bls_signatures (mk_Quorums n) = mk_Quorum (n - getMaxFailures n)"
  "observer_data (mk_Quorums n) = mk_Quorum (getMaxFailures n + 1)"
  "backup_instance_faulty (mk_Quorums n) = mk_Quorum (getMaxFailures n + 1)"
  "checkpoint (mk_Quorums n) = mk_Quorum (n - getMaxFailures n - 1)"
  by (simp_all add: mk_Quorums_def Let_def)

section \<open>Quorum systems\<close>

text \<open>
  The contract between the thresholds and the protocol that counts votes against them: the
  strong threshold leaves room for the tolerated failures, two strong sets overlap in a weak
  set, and a weak set is larger than the set of failures.
\<close>

locale quorum_thresholds =
  fixes fl :: "int \<Rightarrow> int" and wk :: "int \<Rightarrow> int" and st :: "int \<Rightarrow> int"
  assumes fl_nonneg: "1 \<le> n \<Longrightarrow> 0 \<le> fl n"
    and wk_above: "1 \<le> n \<Longrightarrow> fl n < wk n"
    and st_overlap: "1 \<le> n \<Longrightarrow> n + wk n \<le> st n + st n"
    and st_available: "1 \<le> n \<Longrightarrow> st n \<le> n - fl n"
begin

lemma weak_has_correct:
  assumes "finite A" and "1 \<le> n" and "wk n \<le> int (card A)" and "int (card B) \<le> fl n" and "finite B"
  shows "\<exists>a \<in> A. a \<notin> B"
proof (rule ccontr)
  assume "\<not> ?thesis"
  then have "card A \<le> card B" using \<open>finite B\<close> by (intro card_mono) auto
  then show False using assms wk_above [of n] by linarith
qed

lemma strong_overlap_weak:
  assumes "finite V" and "A \<subseteq> V" and "B \<subseteq> V" and "V \<noteq> {}"
    and "st (int (card V)) \<le> int (card A)" and "st (int (card V)) \<le> int (card B)"
  shows "wk (int (card V)) \<le> int (card (A \<inter> B))"
proof -
  have fin: "finite A" "finite B" using assms by (auto intro: finite_subset)
  have "card (A \<union> B) \<le> card V" using assms by (intro card_mono) auto
  moreover have "card A + card B = card (A \<union> B) + card (A \<inter> B)"
    using fin by (rule card_Un_Int)
  moreover have "1 \<le> int (card V)" using assms by (simp add: Suc_leI card_gt_0_iff)
  ultimately show ?thesis using assms(5,6) st_overlap [of "int (card V)"] by linarith
qed

lemma strong_share_correct:
  assumes "finite V" and "A \<subseteq> V" and "B \<subseteq> V" and "V \<noteq> {}"
    and "st (int (card V)) \<le> int (card A)" and "st (int (card V)) \<le> int (card B)"
    and "finite F" and "int (card F) \<le> fl (int (card V))"
  shows "\<exists>a \<in> A \<inter> B. a \<notin> F"
proof (rule weak_has_correct)
  show "finite (A \<inter> B)" using assms by (auto intro: finite_subset)
  show "1 \<le> int (card V)" using assms by (simp add: Suc_leI card_gt_0_iff)
  show "wk (int (card V)) \<le> int (card (A \<inter> B))" using assms by (intro strong_overlap_weak) auto
qed (use assms in auto)

lemma correct_are_strong:
  assumes "finite V" and "F \<subseteq> V" and "V \<noteq> {}" and "int (card F) \<le> fl (int (card V))"
  shows "st (int (card V)) \<le> int (card (V - F))"
proof -
  have "finite F" using assms by (auto intro: finite_subset)
  then have "int (card (V - F)) = int (card V) - int (card F)"
    using assms by (simp add: card_Diff_subset card_mono of_nat_diff)
  moreover have "1 \<le> int (card V)" using assms by (simp add: Suc_leI card_gt_0_iff)
  ultimately show ?thesis using st_available [of "int (card V)"] assms(4) by linarith
qed

end

interpretation pool: quorum_thresholds
  "\<lambda>n. q_f (mk_Quorums n)"
  "\<lambda>n. q_value (weak (mk_Quorums n))"
  "\<lambda>n. q_value (strong (mk_Quorums n))"
proof
  fix n :: int
  assume n: "1 \<le> n"
  note b = getMaxFailures_bounds [OF n]
  show "0 \<le> q_f (mk_Quorums n)" using b by simp
  show "q_f (mk_Quorums n) < q_value (weak (mk_Quorums n))" by (simp add: mk_Quorum_def)
  show "n + q_value (weak (mk_Quorums n)) \<le> q_value (strong (mk_Quorums n)) + q_value (strong (mk_Quorums n))"
    using b by (simp add: mk_Quorum_def)
  show "q_value (strong (mk_Quorums n)) \<le> n - q_f (mk_Quorums n)" by (simp add: mk_Quorum_def)
qed

lemma q_value_le_iff: "q_value q \<le> c \<longleftrightarrow> is_reached q c"
  by (simp add: is_reached_def)

text \<open>A prepare quorum is short of a strong one by the primary, whose PRE-PREPARE is its vote.\<close>

lemma prepare_with_primary_strong:
  assumes "finite A" and "p \<notin> A" and "is_reached (prepare (mk_Quorums n)) (int (card A))"
  shows "is_reached (strong (mk_Quorums n)) (int (card (insert p A)))"
  using assms by simp

section \<open>Quorum safety and availability\<close>

text \<open>
  C1: for every pool and every set of at most \<open>f\<close> faulty nodes, every threshold of the pool does its
  work. Two sets of nodes that each reach one of the quorums of \<open>n - f\<close> nodes (strong, commit, view
  change, election, view change done, BLS signatures) have a correct node in common. So have two
  sets that each reach one of the quorums that count the votes of others only (prepare, view change
  ack, ledger status, checkpoint), each taken together with one more node. A set that reaches one
  of the quorums of \<open>f + 1\<close> nodes (weak and the eight like it) has a correct node. And none of them
  waits for a faulty node: the correct nodes reach the first and the third kind, the correct nodes
  other than any one node the second kind.
\<close>

theorem quorums_safe_and_available:
  assumes V: "finite V" "V \<noteq> {}" and F: "F \<subseteq> V" "int (card F) \<le> q_f Q" and A: "A \<subseteq> V" and B: "B \<subseteq> V"
    and Q: "Q = mk_Quorums (int (card V))"
  shows
    "(\<forall>q \<in> {strong Q, commit Q, view_change Q, election Q, view_change_done Q, bls_signatures Q}.
        (is_reached q (int (card A)) \<and> is_reached q (int (card B)) \<longrightarrow> (\<exists>a \<in> A \<inter> B. a \<notin> F)) \<and>
        is_reached q (int (card (V - F)))) \<and>
     (\<forall>q \<in> {prepare Q, view_change_ack Q, ledger_status Q, checkpoint Q}.
        (is_reached q (int (card A)) \<and> is_reached q (int (card B)) \<and> p \<in> V - A \<and> p' \<in> V - B \<longrightarrow>
          (\<exists>a \<in> insert p A \<inter> insert p' B. a \<notin> F)) \<and>
        is_reached q (int (card (V - F - {p})))) \<and>
     (\<forall>q \<in> {weak Q, propagate Q, reply Q, same_consistency_proof Q, consistency_proof Q, ledger_status_last_3PC Q,
          timestamp Q, observer_data Q, backup_instance_faulty Q}.
        (is_reached q (int (card A)) \<longrightarrow> (\<exists>a \<in> A. a \<notin> F)) \<and> is_reached q (int (card (V - F))))"
    (is "?strong \<and> ?others \<and> ?weak")
proof -
  let ?n = "int (card V)"
  have fin: "finite A" "finite B" "finite F" using V A B F by (auto intro: finite_subset)
  have n: "1 \<le> ?n" using V by (simp add: Suc_leI card_gt_0_iff)
  note F' = F(2) [unfolded Q]
  have share: "\<exists>a \<in> S \<inter> T. a \<notin> F"
    if "S \<subseteq> V" "T \<subseteq> V" "?n - getMaxFailures ?n \<le> int (card S)" "?n - getMaxFailures ?n \<le> int (card T)" for S T
    using pool.strong_share_correct [OF V(1) that(1,2) V(2) _ _ fin(3) F'] that(3,4) by (simp add: mk_Quorum_def)
  have avail: "?n - getMaxFailures ?n \<le> int (card (V - F))"
    using pool.correct_are_strong [OF V(1) F(1) V(2) F'] by (simp add: mk_Quorum_def)
  have ?strong unfolding Q using share [OF A B] avail by simp
  moreover have ?others
  proof -
    have "\<exists>a \<in> insert p A \<inter> insert p' B. a \<notin> F"
      if "?n - getMaxFailures ?n - 1 \<le> int (card A)" "?n - getMaxFailures ?n - 1 \<le> int (card B)" "p \<in> V - A" "p' \<in> V - B"
      using that A B fin by (intro share) auto
    moreover have "?n - getMaxFailures ?n - 1 \<le> int (card (V - F - {p}))"
      using avail V(1) by (cases "p \<in> V - F") (simp_all add: card_Diff_singleton_if)
    ultimately show ?thesis unfolding Q by simp
  qed
  moreover have ?weak
  proof -
    have "getMaxFailures ?n + 1 \<le> int (card A) \<longrightarrow> (\<exists>a \<in> A. a \<notin> F)"
      using pool.weak_has_correct [OF fin(1) n _ F' fin(3)] by (simp add: mk_Quorum_def)
    moreover have "getMaxFailures ?n + 1 \<le> int (card (V - F))" using avail getMaxFailures_bounds [OF n] by linarith
    ultimately show ?thesis unfolding Q by simp
  qed
  ultimately show ?thesis by blast
qed

theorem quorums_safe_and_available_witness:
  "(\<exists>a \<in> {0::nat, 1, 2} \<inter> {1, 2, 3}. a \<notin> {1}) \<and>
   (\<exists>a \<in> insert 3 {0::nat, 1, 2} \<inter> insert 0 {1, 2, 3}. a \<notin> {1}) \<and>
   is_reached (strong (mk_Quorums 4)) 3 \<and> is_reached (checkpoint (mk_Quorums 4)) 2 \<and> is_reached (weak (mk_Quorums 4)) 3"
proof -
  let ?Q = "mk_Quorums 4" and ?V = "{0::nat, 1, 2, 3}" and ?F = "{1::nat}" and ?A = "{0::nat, 1, 2}" and ?B = "{1::nat, 2, 3}"
  have f: "int (card ?F) \<le> q_f ?Q" "?Q = mk_Quorums (int (card ?V))" by (simp_all add: getMaxFailures_def)
  have r: "is_reached (strong ?Q) (int (card ?A))" "is_reached (strong ?Q) (int (card ?B))"
    "is_reached (prepare ?Q) (int (card ?A))" "is_reached (prepare ?Q) (int (card ?B))" by (simp_all add: getMaxFailures_def)
  have c: "int (card (?V - ?F)) = 3" "int (card (?V - ?F - {3})) = 2" by (simp_all add: insert_Diff_if)
  note q = quorums_safe_and_available [OF _ _ _ f(1) _ _ f(2), of ?A ?B 3 0, unfolded c]
  show ?thesis using q r by (simp del: mk_Quorums_sel Int_insert_left Int_insert_right)
qed

end
