(* ===== verification/Node_Messages.thy ===== *)
theory Node_Messages
  imports Quorums "HOL-Library.FSet" "HOL-Library.Product_Lexorder" "HOL-Library.List_Lexorder" "HOL-Library.Char_ord"
begin

text \<open>
  The messages that the consensus services exchange
  (\<^verbatim>\<open>plenum/common/messages/node_messages.py\<close>, \<^verbatim>\<open>internal_messages.py\<close>,
  \<^verbatim>\<open>plenum/server/consensus/batch_id.py\<close>) with the fields the services read. The message
  schemas only let non-negative numbers through, so views and sequence numbers are natural
  numbers. What a service sends, on the internal bus, to the network, to its stash or to its
  timer, is an \<open>effect\<close>; a handler returns its effects in the order in which it causes them.
\<close>

section \<open>Messages\<close>

type_synonym key3pc = "nat \<times> nat"

record BatchID =
  b_view_no :: nat
  b_pp_view_no :: nat
  b_pp_seq_no :: nat
  b_pp_digest :: string

record Checkpoint =
  cp_instId :: nat
  cp_viewNo :: nat
  cp_seqNoStart :: nat
  cp_seqNoEnd :: nat
  cp_digest :: "string option"

record ViewChange =
  vc_viewNo :: nat
  vc_stableCheckpoint :: nat
  vc_prepared :: "BatchID list"
  vc_preprepared :: "BatchID list"
  vc_checkpoints :: "Checkpoint list"

record ViewChangeAck =
  vca_viewNo :: nat
  vca_name :: string
  vca_digest :: string

record NewView =
  nv_viewNo :: nat
  nv_viewChanges :: "(string \<times> string) list"
  nv_checkpoint :: Checkpoint
  nv_batches :: "BatchID list"
  nv_primary :: "string option"

record PrePrepare =
  pp_instId :: nat
  pp_viewNo :: nat
  pp_ppSeqNo :: nat
  pp_digest :: string
  pp_originalViewNo :: "nat option"

record Prepare =
  pr_instId :: nat
  pr_viewNo :: nat
  pr_ppSeqNo :: nat
  pr_digest :: string

record Commit =
  cm_instId :: nat
  cm_viewNo :: nat
  cm_ppSeqNo :: nat

text \<open>\<^verbatim>\<open>plenum/common/util.py\<close>: the keys are compared by their second element only.\<close>

definition compare_3PC_keys :: "key3pc \<Rightarrow> key3pc \<Rightarrow> int" where
  "compare_3PC_keys key1 key2 = int (snd key2) - int (snd key1)"

section \<open>Names\<close>

text \<open>
  \<^verbatim>\<open>name.rsplit(':', maxsplit=1)[0]\<close>. For \<^verbatim>\<open>None\<close> the source returns \<^verbatim>\<open>None\<close>: where a name may be
  missing, the function is mapped over the option.
\<close>

definition replica_name_to_node_name :: "string \<Rightarrow> string" where
  "replica_name_to_node_name name =
     (case dropWhile (\<lambda>c. c \<noteq> CHR '':'') (rev name) of
        [] \<Rightarrow> name
      | _ # before \<Rightarrow> rev before)"

definition generateName :: "string \<Rightarrow> nat \<Rightarrow> string" where
  "generateName nodeName instId =
     (if CHR '':'' \<in> set nodeName then nodeName else nodeName @ '':'' @ py_str (int instId))"

section \<open>Batches\<close>

definition get_original_viewno :: "PrePrepare \<Rightarrow> nat" where
  "get_original_viewno pp = (case pp_originalViewNo pp of Some v \<Rightarrow> v | None \<Rightarrow> pp_viewNo pp)"

definition preprepare_to_batch_id :: "PrePrepare \<Rightarrow> BatchID" where
  "preprepare_to_batch_id pp =
     \<lparr>b_view_no = pp_viewNo pp, b_pp_view_no = get_original_viewno pp, b_pp_seq_no = pp_ppSeqNo pp,
      b_pp_digest = pp_digest pp\<rparr>"

text \<open>A batch id is a named tuple: \<^verbatim>\<open>sorted\<close> compares the fields in their order.\<close>

definition bid_key :: "BatchID \<Rightarrow> nat \<times> nat \<times> nat \<times> string" where
  "bid_key b = (b_view_no b, b_pp_view_no b, b_pp_seq_no b, b_pp_digest b)"

definition sorted_bids :: "BatchID list \<Rightarrow> BatchID list" where
  "sorted_bids bs = sort_key bid_key bs"

section \<open>Effects\<close>

datatype suspicion =
    INCORRECT_NEW_PRIMARY
  | NEW_VIEW_INVALID_CHECKPOINTS
  | NEW_VIEW_INVALID_BATCHES
  | INSTANCE_CHANGE_TIMEOUT
  | PRIMARY_DEGRADED
  | STATE_SIGS_ARE_NOT_UPDATED
  | OtherSuspicion nat

fun suspicion_code :: "suspicion \<Rightarrow> nat" where
  "suspicion_code INCORRECT_NEW_PRIMARY = 49"
| "suspicion_code NEW_VIEW_INVALID_CHECKPOINTS = 47"
| "suspicion_code NEW_VIEW_INVALID_BATCHES = 48"
| "suspicion_code INSTANCE_CHANGE_TIMEOUT = 28"
| "suspicion_code PRIMARY_DEGRADED = 25"
| "suspicion_code STATE_SIGS_ARE_NOT_UPDATED = 43"
| "suspicion_code (OtherSuspicion c) = c"

datatype effect =
    NeedMasterCatchup
  | NeedBackupCatchup nat key3pc
  | CheckpointStabilized key3pc
  | NewViewAccepted nat "(string \<times> string) list" Checkpoint "BatchID list"
  | NewViewCheckpointsApplied nat "(string \<times> string) list" Checkpoint "BatchID list"
  | CatchupCheckpointsApplied key3pc key3pc
  | ViewChangeStarted nat
  | NodeNeedViewChange nat
  | VoteForViewChange suspicion
  | MissingNewView nat
  | MissingViewChange "string \<times> string"
  | SendCheckpoint Checkpoint
  | SendViewChange ViewChange
  | SendViewChangeAck ViewChangeAck "string option"
  | SendNewView NewView
  | SendInstanceChange nat nat
  | ProcessAllStashed nat
  | StartNewViewTimer
  | StopNewViewTimer

section \<open>Facts\<close>

lemma compare_3PC_keys_ge [simp]: "0 \<le> compare_3PC_keys k1 k2 \<longleftrightarrow> snd k1 \<le> snd k2"
  and compare_3PC_keys_gt [simp]: "0 < compare_3PC_keys k1 k2 \<longleftrightarrow> snd k1 < snd k2"
  by (simp_all add: compare_3PC_keys_def)

lemma bid_key_inj: "bid_key a = bid_key b \<longleftrightarrow> a = b"
  by (cases a; cases b) (simp add: bid_key_def)

lemma inj_bid_key: "inj bid_key"
  by (simp add: inj_def bid_key_inj)

lemma set_sorted_bids [simp]: "set (sorted_bids bs) = set bs"
  and length_sorted_bids [simp]: "length (sorted_bids bs) = length bs"
  and distinct_sorted_bids [simp]: "distinct (sorted_bids bs) \<longleftrightarrow> distinct bs"
  by (simp_all add: sorted_bids_def)

text \<open>The name of a replica leads back to the name of its node.\<close>

lemma py_str_no_colon: "CHR '':'' \<notin> set (py_str (int n))"
proof
  assume "CHR '':'' \<in> set (py_str (int n))"
  then obtain d :: nat where d: "d < 10" "CHR '':'' = char_of (48 + d)" by (auto simp: py_str_def dest: dec_digits_lt)
  then have "of_char (CHR '':'') = (48 + d) mod 256" by simp
  then show False using d(1) by simp
qed

lemma replica_name_generateName:
  "CHR '':'' \<notin> set name \<Longrightarrow> replica_name_to_node_name (generateName name i) = name"
proof -
  assume "CHR '':'' \<notin> set name"
  moreover have "dropWhile (\<lambda>c. c \<noteq> CHR '':'') (rev (py_str (int i)) @ CHR '':'' # rev name) = CHR '':'' # rev name"
    using py_str_no_colon [of i] by (subst dropWhile_append2) auto
  ultimately show ?thesis by (simp add: generateName_def replica_name_to_node_name_def)
qed

end
