(* ===== verification/Vote_Tracking.thy ===== *)
theory Vote_Tracking
  imports Node_Messages
begin

text \<open>
  \<^verbatim>\<open>plenum/server/models.py\<close>: the votes that a replica counts per view and sequence number,
  \<open>Prepares\<close> and \<open>Commits\<close>. A dictionary is an association list in insertion order; the
  names that voted are a finite set.
\<close>

section \<open>Definitions\<close>

record 'm ThreePhaseVotes =
  voters :: "string fset"
  vote_msg :: 'm

type_synonym 'm TrackedMsgs = "(key3pc \<times> 'm ThreePhaseVotes) list"

definition new_vote_msg :: "'m \<Rightarrow> 'm ThreePhaseVotes" where
  "new_vote_msg msg = \<lparr>voters = {||}, vote_msg = msg\<rparr>"

definition add_msg :: "('m \<Rightarrow> key3pc) \<Rightarrow> 'm TrackedMsgs \<Rightarrow> 'm \<Rightarrow> string \<Rightarrow> 'm TrackedMsgs" where
  "add_msg get_key d msg voter =
     (let key = get_key msg;
          v = (case map_of d key of None \<Rightarrow> new_vote_msg msg | Some v \<Rightarrow> v) in
      AList.update key (v\<lparr>voters := finsert voter (voters v)\<rparr>) d)"

definition has_msg :: "('m \<Rightarrow> key3pc) \<Rightarrow> 'm TrackedMsgs \<Rightarrow> 'm \<Rightarrow> bool" where
  "has_msg get_key d msg = (map_of d (get_key msg) \<noteq> None)"

definition has_vote :: "('m \<Rightarrow> key3pc) \<Rightarrow> 'm TrackedMsgs \<Rightarrow> 'm \<Rightarrow> string \<Rightarrow> bool" where
  "has_vote get_key d msg voter =
     (case map_of d (get_key msg) of None \<Rightarrow> False | Some v \<Rightarrow> voter |\<in>| voters v)"

definition votes_count :: "('m \<Rightarrow> key3pc) \<Rightarrow> 'm TrackedMsgs \<Rightarrow> 'm \<Rightarrow> nat" where
  "votes_count get_key d msg = (case map_of d (get_key msg) of None \<Rightarrow> 0 | Some v \<Rightarrow> fcard (voters v))"

definition has_enough_votes :: "('m \<Rightarrow> key3pc) \<Rightarrow> 'm TrackedMsgs \<Rightarrow> 'm \<Rightarrow> int \<Rightarrow> bool" where
  "has_enough_votes get_key d msg count = (int (votes_count get_key d msg) \<ge> count)"

type_synonym Prepares = "Prepare TrackedMsgs"
type_synonym Commits = "Commit TrackedMsgs"

definition prepare_key :: "Prepare \<Rightarrow> key3pc" where
  "prepare_key p = (pr_viewNo p, pr_ppSeqNo p)"

definition commit_key :: "Commit \<Rightarrow> key3pc" where
  "commit_key c = (cm_viewNo c, cm_ppSeqNo c)"

definition Prepares_addVote :: "Prepares \<Rightarrow> Prepare \<Rightarrow> string \<Rightarrow> Prepares" where
  "Prepares_addVote = add_msg prepare_key"

definition hasPrepare :: "Prepares \<Rightarrow> Prepare \<Rightarrow> bool" where
  "hasPrepare = has_msg prepare_key"

definition hasPrepareFrom :: "Prepares \<Rightarrow> Prepare \<Rightarrow> string \<Rightarrow> bool" where
  "hasPrepareFrom = has_vote prepare_key"

definition Prepares_hasQuorum :: "Prepares \<Rightarrow> Prepare \<Rightarrow> int \<Rightarrow> bool" where
  "Prepares_hasQuorum = has_enough_votes prepare_key"

definition Commits_addVote :: "Commits \<Rightarrow> Commit \<Rightarrow> string \<Rightarrow> Commits" where
  "Commits_addVote = add_msg commit_key"

definition hasCommit :: "Commits \<Rightarrow> Commit \<Rightarrow> bool" where
  "hasCommit = has_msg commit_key"

definition hasCommitFrom :: "Commits \<Rightarrow> Commit \<Rightarrow> string \<Rightarrow> bool" where
  "hasCommitFrom = has_vote commit_key"

definition Commits_hasQuorum :: "Commits \<Rightarrow> Commit \<Rightarrow> int \<Rightarrow> bool" where
  "Commits_hasQuorum = has_enough_votes commit_key"

section \<open>Counting\<close>

text \<open>The voters for a key, and a table filled by a sequence of received votes.\<close>

definition voters_of :: "'m TrackedMsgs \<Rightarrow> key3pc \<Rightarrow> string fset" where
  "voters_of d key = (case map_of d key of None \<Rightarrow> {||} | Some v \<Rightarrow> voters v)"

definition add_all_votes :: "('m \<Rightarrow> key3pc) \<Rightarrow> 'm TrackedMsgs \<Rightarrow> ('m \<times> string) list \<Rightarrow> 'm TrackedMsgs" where
  "add_all_votes get_key d votes = foldl (\<lambda>d (msg, voter). add_msg get_key d msg voter) d votes"

lemma voters_of_add_msg:
  "voters_of (add_msg get_key d msg voter) key =
     (if key = get_key msg then finsert voter (voters_of d key) else voters_of d key)"
  by (auto simp: voters_of_def add_msg_def Let_def update_conv' new_vote_msg_def split: option.splits)

lemma voters_of_add_all:
  "fset (voters_of (add_all_votes get_key d votes) key) =
     fset (voters_of d key) \<union> {voter. \<exists>msg. (msg, voter) \<in> set votes \<and> get_key msg = key}"
proof (induction votes arbitrary: d)
  case Nil
  then show ?case by (simp add: add_all_votes_def)
next
  case (Cons v votes)
  obtain m w where v: "v = (m, w)" by (cases v)
  have "add_all_votes get_key d (v # votes) = add_all_votes get_key (add_msg get_key d m w) votes"
    by (simp add: add_all_votes_def v)
  with Cons show ?case by (auto simp: v voters_of_add_msg split: if_splits)
qed

lemma votes_count_voters: "votes_count get_key d msg = fcard (voters_of d (get_key msg))"
  by (simp add: votes_count_def voters_of_def split: option.splits)

lemma has_vote_voters: "has_vote get_key d msg voter \<longleftrightarrow> voter |\<in>| voters_of d (get_key msg)"
  by (simp add: has_vote_def voters_of_def split: option.splits)

lemma has_enough_votes_received:
  "has_enough_votes get_key (add_all_votes get_key [] votes) msg count \<longleftrightarrow>
     count \<le> int (card {voter. \<exists>m. (m, voter) \<in> set votes \<and> get_key m = get_key msg})"
  by (simp add: has_enough_votes_def votes_count_voters fcard.rep_eq voters_of_add_all) (simp add: voters_of_def)

section \<open>Properties\<close>

text \<open>
  C24: two replicas that both see a commit quorum for the same view and sequence number, having
  counted whatever votes they received from the nodes of a pool with at most \<open>f\<close> faulty ones,
  have a correct node among the voters of both.
\<close>

theorem commit_quorums_share_correct:
  assumes V: "finite V" "V \<noteq> {}" and F: "F \<subseteq> V" "int (card F) \<le> getMaxFailures (int (card V))"
    and "snd ` set votes1 \<subseteq> V" and "snd ` set votes2 \<subseteq> V"
    and q1: "Commits_hasQuorum (add_all_votes commit_key [] votes1) c (q_value (commit (mk_Quorums (int (card V)))))"
    and q2: "Commits_hasQuorum (add_all_votes commit_key [] votes2) c (q_value (commit (mk_Quorums (int (card V)))))"
  shows "\<exists>p. p \<notin> F \<and> hasCommitFrom (add_all_votes commit_key [] votes1) c p \<and>
    hasCommitFrom (add_all_votes commit_key [] votes2) c p"
proof -
  let ?A = "{voter. \<exists>m. (m, voter) \<in> set votes1 \<and> commit_key m = commit_key c}"
  let ?B = "{voter. \<exists>m. (m, voter) \<in> set votes2 \<and> commit_key m = commit_key c}"
  have A: "?A \<subseteq> V" and B: "?B \<subseteq> V" using assms(5,6) by force+
  have fin: "finite F" using V F by (auto intro: finite_subset)
  have "\<exists>p \<in> ?A \<inter> ?B. p \<notin> F"
    using pool.strong_share_correct [OF V(1) A B V(2) _ _ fin] F(2) q1 q2
    by (simp add: Commits_hasQuorum_def has_enough_votes_received mk_Quorum_def)
  then show ?thesis
    by (auto simp: hasCommitFrom_def has_vote_voters voters_of_add_all)
qed

definition demo_commit :: Commit where
  "demo_commit = \<lparr>cm_instId = 0, cm_viewNo = 0, cm_ppSeqNo = 1\<rparr>"

theorem commit_quorums_share_correct_witness:
  "\<exists>p. p \<notin> {''D''} \<and>
    hasCommitFrom (add_all_votes commit_key [] [(demo_commit, ''A''), (demo_commit, ''B''), (demo_commit, ''C'')]) demo_commit p \<and>
    hasCommitFrom (add_all_votes commit_key [] [(demo_commit, ''B''), (demo_commit, ''C''), (demo_commit, ''D'')]) demo_commit p"
proof -
  let ?V = "{''A'', ''B'', ''C'', ''D''}"
  have c: "card ?V = 4" by simp
  have q: "q_value (commit (mk_Quorums (int (card ?V)))) = 3"
    unfolding c by (simp add: mk_Quorum_def getMaxFailures_def)
  have f: "int (card {''D''}) \<le> getMaxFailures (int (card ?V))" unfolding c by (simp add: getMaxFailures_def)
  have "Commits_hasQuorum (add_all_votes commit_key [] [(demo_commit, ''A''), (demo_commit, ''B''), (demo_commit, ''C'')]) demo_commit 3"
    and "Commits_hasQuorum (add_all_votes commit_key [] [(demo_commit, ''B''), (demo_commit, ''C''), (demo_commit, ''D'')]) demo_commit 3"
    by code_simp+
  then show ?thesis
    using f by (intro commit_quorums_share_correct [of ?V "{''D''}"]) (simp_all only: q, simp_all)
qed

end
