(* ===== verification/View_Change_Storages.thy ===== *)
theory View_Change_Storages
  imports Node_Messages
begin

text \<open>
  \<^verbatim>\<open>plenum/server/consensus/view_change_storages.py\<close>: the votes of a view change. The digests
  of messages are SHA-256 over JSON; the digest functions are parameters. Reading a key of a
  \<^verbatim>\<open>defaultdict\<close> leaves an empty set of acks behind; no operation distinguishes it from a
  missing key, and the model does not keep it.
\<close>

section \<open>Votes of one node\<close>

record ViewChangeVotesForNode =
  vn_view_change :: "ViewChange option"
  vn_digest :: "string option"
  vn_quorums :: Quorums
  vn_acks :: "(string \<times> string fset) list"

definition mk_ViewChangeVotesForNode :: "Quorums \<Rightarrow> ViewChangeVotesForNode" where
  "mk_ViewChangeVotesForNode quorums =
     \<lparr>vn_view_change = None, vn_digest = None, vn_quorums = quorums, vn_acks = []\<rparr>"

definition acks_of :: "ViewChangeVotesForNode \<Rightarrow> string \<Rightarrow> string fset" where
  "acks_of v digest = (case map_of (vn_acks v) digest of None \<Rightarrow> {||} | Some a \<Rightarrow> a)"

definition is_confirmed :: "ViewChangeVotesForNode \<Rightarrow> bool" where
  "is_confirmed v =
     (case vn_digest v of
        None \<Rightarrow> False
      | Some d \<Rightarrow> is_reached (view_change_ack (vn_quorums v)) (int (fcard (acks_of v d))))"

definition validate_acks :: "ViewChangeVotesForNode \<Rightarrow> bool" where
  "validate_acks v =
     (let digests = map fst (filter (\<lambda>(digest, acks). is_reached (weak (vn_quorums v)) (int (fcard acks))) (vn_acks v)) in
      if length digests > 1 then False
      else if length digests < 1 \<or> vn_digest v = None then True
      else vn_digest v = Some (hd digests))"

definition vn_add_view_change ::
  "(ViewChange \<Rightarrow> string) \<Rightarrow> ViewChangeVotesForNode \<Rightarrow> ViewChange \<Rightarrow> ViewChangeVotesForNode \<times> bool" where
  "vn_add_view_change view_change_digest v msg =
     (if vn_view_change v = None then
        let v' = v\<lparr>vn_view_change := Some msg, vn_digest := Some (view_change_digest msg)\<rparr> in (v', validate_acks v')
      else (v, vn_digest v = Some (view_change_digest msg)))"

definition vn_add_view_change_ack ::
  "ViewChangeVotesForNode \<Rightarrow> ViewChangeAck \<Rightarrow> string \<Rightarrow> ViewChangeVotesForNode \<times> bool" where
  "vn_add_view_change_ack v msg frm =
     (let v' = v\<lparr>vn_acks := AList.update (vca_digest msg) (finsert frm (acks_of v (vca_digest msg))) (vn_acks v)\<rparr> in
      (v', validate_acks v'))"

definition vn_update_quorums :: "ViewChangeVotesForNode \<Rightarrow> Quorums \<Rightarrow> ViewChangeVotesForNode" where
  "vn_update_quorums v quorums = v\<lparr>vn_quorums := quorums\<rparr>"

section \<open>Votes of a view\<close>

record ViewChangeVotesForView =
  vv_votes :: "(string \<times> ViewChangeVotesForNode) list"
  vv_quorums :: Quorums

definition mk_ViewChangeVotesForView :: "Quorums \<Rightarrow> ViewChangeVotesForView" where
  "mk_ViewChangeVotesForView quorums = \<lparr>vv_votes = [], vv_quorums = quorums\<rparr>"

definition confirmed_votes :: "ViewChangeVotesForView \<Rightarrow> (string \<times> string) list" where
  "confirmed_votes vv =
     map (\<lambda>(frm, v). (frm, the (vn_digest v))) (filter (\<lambda>(frm, v). is_confirmed v) (vv_votes vv))"

text \<open>\<^verbatim>\<open>_get_vote\<close> creates the entry; the lookup and the new table.\<close>

definition get_vote :: "ViewChangeVotesForView \<Rightarrow> string \<Rightarrow> ViewChangeVotesForView \<times> ViewChangeVotesForNode" where
  "get_vote vv frm =
     (case map_of (vv_votes vv) frm of
        Some v \<Rightarrow> (vv, v)
      | None \<Rightarrow> let v = mk_ViewChangeVotesForNode (vv_quorums vv) in
                (vv\<lparr>vv_votes := AList.update frm v (vv_votes vv)\<rparr>, v))"

definition put_vote :: "ViewChangeVotesForView \<Rightarrow> string \<Rightarrow> ViewChangeVotesForNode \<Rightarrow> ViewChangeVotesForView" where
  "put_vote vv frm v = vv\<lparr>vv_votes := AList.update frm v (vv_votes vv)\<rparr>"

definition get_view_change ::
  "(ViewChange \<Rightarrow> string) \<Rightarrow> ViewChangeVotesForView \<Rightarrow> string \<Rightarrow> string \<Rightarrow> ViewChangeVotesForView \<times> ViewChange option" where
  "get_view_change view_change_digest vv frm digest =
     (case get_vote vv frm of (vv', v) \<Rightarrow>
        (vv', case vn_view_change v of
                Some vc \<Rightarrow> if view_change_digest vc = digest then Some vc else None
              | None \<Rightarrow> None))"

definition vv_add_view_change ::
  "(ViewChange \<Rightarrow> string) \<Rightarrow> ViewChangeVotesForView \<Rightarrow> ViewChange \<Rightarrow> string \<Rightarrow> ViewChangeVotesForView \<times> bool" where
  "vv_add_view_change view_change_digest vv msg frm =
     (let frm' = replica_name_to_node_name frm in
      case get_vote vv frm' of (vv', v) \<Rightarrow>
      case vn_add_view_change view_change_digest v msg of (v', b) \<Rightarrow> (put_vote vv' frm' v', b))"

definition vv_add_view_change_ack ::
  "ViewChangeVotesForView \<Rightarrow> ViewChangeAck \<Rightarrow> string \<Rightarrow> ViewChangeVotesForView \<times> bool" where
  "vv_add_view_change_ack vv msg frm =
     (let frm' = replica_name_to_node_name frm in
      case get_vote vv (vca_name msg) of (vv', v) \<Rightarrow>
      case vn_add_view_change_ack v msg frm' of (v', b) \<Rightarrow> (put_vote vv' (vca_name msg) v', b))"

definition vv_clear :: "ViewChangeVotesForView \<Rightarrow> ViewChangeVotesForView" where
  "vv_clear vv = vv\<lparr>vv_votes := []\<rparr>"

definition vv_update_quorums :: "ViewChangeVotesForView \<Rightarrow> Quorums \<Rightarrow> ViewChangeVotesForView" where
  "vv_update_quorums vv quorums =
     vv\<lparr>vv_votes := map (\<lambda>(frm, v). (frm, vn_update_quorums v quorums)) (vv_votes vv), vv_quorums := quorums\<rparr>"

section \<open>Votes for a new view\<close>

record NewViewVotes =
  nvv_view_no :: nat
  nvv_msg :: NewView
  nvv_voted_nodes :: "string list"

definition mk_NewViewVotes :: "NewView \<Rightarrow> NewViewVotes" where
  "mk_NewViewVotes msg = \<lparr>nvv_view_no = nv_viewNo msg, nvv_msg = msg, nvv_voted_nodes = []\<rparr>"

definition add_vote :: "NewViewVotes \<Rightarrow> string \<Rightarrow> NewViewVotes" where
  "add_vote v frm = (if frm \<notin> set (nvv_voted_nodes v) then v\<lparr>nvv_voted_nodes := nvv_voted_nodes v @ [frm]\<rparr> else v)"

record NewViewVotesForView =
  nv_votes :: "(string \<times> NewViewVotes) list"
  nv_quorums :: Quorums
  nv_new_view :: "NewView option"

definition mk_NewViewVotesForView :: "Quorums \<Rightarrow> NewViewVotesForView" where
  "mk_NewViewVotesForView quorums = \<lparr>nv_votes = [], nv_quorums = quorums, nv_new_view = None\<rparr>"

text \<open>A message object is true in Python, also when it has no fields set.\<close>

definition get_new_view :: "NewViewVotesForView \<Rightarrow> string option \<Rightarrow> NewView option" where
  "get_new_view nv primary_name =
     (case nv_new_view nv of
        Some m \<Rightarrow> Some m
      | None \<Rightarrow>
          (let primary = map_option replica_name_to_node_name primary_name in
           map_option (\<lambda>(_, v). nvv_msg v)
             (List.find (\<lambda>(_, v). length (nvv_voted_nodes v) = 1 \<and>
                 (case primary of None \<Rightarrow> False | Some p \<Rightarrow> p \<in> set (nvv_voted_nodes v)) \<and>
                 nv_primary (nvv_msg v) = None) (nv_votes nv))))"

definition nv_clear :: "NewViewVotesForView \<Rightarrow> NewViewVotesForView" where
  "nv_clear nv = nv\<lparr>nv_votes := [], nv_new_view := None\<rparr>"

definition nv_update_quorums :: "NewViewVotesForView \<Rightarrow> Quorums \<Rightarrow> NewViewVotesForView" where
  "nv_update_quorums nv quorums = nv\<lparr>nv_quorums := quorums\<rparr>"

definition add_new_view ::
  "(NewView \<Rightarrow> string) \<Rightarrow> NewViewVotesForView \<Rightarrow> NewView \<Rightarrow> string \<Rightarrow> NewViewVotesForView" where
  "add_new_view get_msg_digest nv msg frm =
     (let frm' = replica_name_to_node_name frm;
          digest = get_msg_digest msg;
          v = add_vote (case map_of (nv_votes nv) digest of Some v \<Rightarrow> v | None \<Rightarrow> mk_NewViewVotes msg) frm';
          nv' = nv\<lparr>nv_votes := AList.update digest v (nv_votes nv)\<rparr> in
      if is_reached (strong (nv_quorums nv')) (int (length (nvv_voted_nodes v))) then nv'\<lparr>nv_new_view := Some msg\<rparr>
      else nv')"

section \<open>Invariants\<close>

text \<open>The messages a node receives during a view change, handled one after the other.\<close>

datatype vc_input = VC_Msg ViewChange string | VC_Ack ViewChangeAck string | VC_Quorums Quorums | VC_Clear

fun vv_receive :: "(ViewChange \<Rightarrow> string) \<Rightarrow> ViewChangeVotesForView \<Rightarrow> vc_input list \<Rightarrow> ViewChangeVotesForView" where
  "vv_receive D vv [] = vv"
| "vv_receive D vv (VC_Msg msg frm # ms) = vv_receive D (fst (vv_add_view_change D vv msg frm)) ms"
| "vv_receive D vv (VC_Ack msg frm # ms) = vv_receive D (fst (vv_add_view_change_ack vv msg frm)) ms"
| "vv_receive D vv (VC_Quorums q # ms) = vv_receive D (vv_update_quorums vv q) ms"
| "vv_receive D vv (VC_Clear # ms) = vv_receive D (vv_clear vv) ms"

fun nv_receive :: "(NewView \<Rightarrow> string) \<Rightarrow> NewViewVotesForView \<Rightarrow> (NewView \<times> string) list \<Rightarrow> NewViewVotesForView" where
  "nv_receive D nv [] = nv"
| "nv_receive D nv ((msg, frm) # ms) = nv_receive D (add_new_view D nv msg frm) ms"

text \<open>
  One entry per node; the digest of a vote is the digest of the message it holds. One entry per
  digest of new-view messages, its voters without repetition.
\<close>

definition vn_ok :: "(ViewChange \<Rightarrow> string) \<Rightarrow> ViewChangeVotesForNode \<Rightarrow> bool" where
  "vn_ok D v \<longleftrightarrow> vn_digest v = map_option D (vn_view_change v) \<and> distinct (map fst (vn_acks v))"

definition vv_ok :: "(ViewChange \<Rightarrow> string) \<Rightarrow> ViewChangeVotesForView \<Rightarrow> bool" where
  "vv_ok D vv \<longleftrightarrow> distinct (map fst (vv_votes vv)) \<and> (\<forall>(frm, v) \<in> set (vv_votes vv). vn_ok D v)"

definition nv_ok :: "(NewView \<Rightarrow> string) \<Rightarrow> NewViewVotesForView \<Rightarrow> bool" where
  "nv_ok D nv \<longleftrightarrow>
     distinct (map fst (nv_votes nv)) \<and>
     (\<forall>(d, v) \<in> set (nv_votes nv). D (nvv_msg v) = d \<and> distinct (nvv_voted_nodes v))"

lemma vn_ok_new [simp]: "vn_ok D (mk_ViewChangeVotesForNode q)"
  by (simp add: vn_ok_def mk_ViewChangeVotesForNode_def)

lemma vn_add_view_change_ok: "vn_ok D v \<Longrightarrow> vn_ok D (fst (vn_add_view_change D v msg))"
  by (auto simp: vn_ok_def vn_add_view_change_def Let_def)

lemma vn_add_view_change_ack_ok: "vn_ok D v \<Longrightarrow> vn_ok D (fst (vn_add_view_change_ack v msg frm))"
  by (auto simp: vn_ok_def vn_add_view_change_ack_def Let_def distinct_update)

lemma put_vote_ok: "vv_ok D vv \<Longrightarrow> vn_ok D v \<Longrightarrow> vv_ok D (put_vote vv frm v)"
  by (auto simp: vv_ok_def put_vote_def distinct_update dest!: set_update_cases)

lemma get_vote_ok: "vv_ok D vv \<Longrightarrow> vv_ok D (fst (get_vote vv frm)) \<and> vn_ok D (snd (get_vote vv frm))"
  by (auto simp: get_vote_def vv_ok_def Let_def distinct_update split: option.splits dest!: map_of_SomeD set_update_cases)

lemma get_vote_lookup:
  "map_of (vv_votes (fst (get_vote vv frm))) = (map_of (vv_votes vv))(frm \<mapsto> snd (get_vote vv frm))"
  by (auto simp: get_vote_def Let_def update_conv' split: option.splits)

lemma vv_add_view_change_ok: "vv_ok D vv \<Longrightarrow> vv_ok D (fst (vv_add_view_change D vv msg frm))"
  using get_vote_ok [of D vv "replica_name_to_node_name frm"]
    vn_add_view_change_ok [of D "snd (get_vote vv (replica_name_to_node_name frm))" msg]
  by (auto simp: vv_add_view_change_def Let_def split: prod.splits intro!: put_vote_ok)

lemma vv_add_view_change_ack_ok: "vv_ok D vv \<Longrightarrow> vv_ok D (fst (vv_add_view_change_ack vv msg frm))"
  using get_vote_ok [of D vv "vca_name msg"]
    vn_add_view_change_ack_ok [of D "snd (get_vote vv (vca_name msg))" msg "replica_name_to_node_name frm"]
  by (auto simp: vv_add_view_change_ack_def Let_def split: prod.splits intro!: put_vote_ok)

lemma vv_clear_ok: "vv_ok D (vv_clear vv)"
  by (simp add: vv_ok_def vv_clear_def)

lemma vv_update_quorums_ok: "vv_ok D vv \<Longrightarrow> vv_ok D (vv_update_quorums vv q)"
  by (auto simp: vv_ok_def vv_update_quorums_def vn_ok_def vn_update_quorums_def comp_def split_beta)

text \<open>What is confirmed can be read back: every confirmed vote has its message.\<close>

lemma get_view_change_confirmed:
  assumes "vv_ok D vv" and "(frm, digest) \<in> set (confirmed_votes vv)"
  shows "\<exists>vc. get_view_change D vv frm digest = (vv, Some vc) \<and> D vc = digest"
proof -
  obtain v where v: "(frm, v) \<in> set (vv_votes vv)" "is_confirmed v" "digest = the (vn_digest v)"
    using assms(2) by (auto simp: confirmed_votes_def)
  have "map_of (vv_votes vv) frm = Some v" using assms(1) v(1) by (simp add: vv_ok_def)
  moreover have "vn_ok D v" using assms(1) v(1) by (auto simp: vv_ok_def)
  ultimately show ?thesis
    using v(2,3) by (auto simp: get_view_change_def get_vote_def vn_ok_def is_confirmed_def split: option.splits)
qed

lemma confirmed_votes_distinct: "vv_ok D vv \<Longrightarrow> distinct (map fst (confirmed_votes vv))"
proof -
  assume "vv_ok D vv"
  then have "distinct (map fst (filter (\<lambda>(frm, v). is_confirmed v) (vv_votes vv)))"
    by (simp add: vv_ok_def distinct_map_filter)
  then show ?thesis by (simp add: confirmed_votes_def comp_def split_beta)
qed

lemma add_new_view_ok: "nv_ok D nv \<Longrightarrow> nv_ok D (add_new_view D nv msg frm)"
  by (auto simp: nv_ok_def add_new_view_def Let_def distinct_update add_vote_def mk_NewViewVotes_def
      split: option.splits if_splits dest!: set_update_cases map_of_SomeD)

lemma vv_receive_ok: "vv_ok D vv \<Longrightarrow> vv_ok D (vv_receive D vv ms)"
  by (induction D vv ms rule: vv_receive.induct)
    (simp_all add: vv_add_view_change_ok vv_add_view_change_ack_ok vv_update_quorums_ok vv_clear_ok)

text \<open>
  Who voted for a digest. The table keeps the voters of every digest apart, without repetition,
  and a message is accepted by its votes only with a strong quorum of them.
\<close>

definition nv_senders :: "(NewView \<Rightarrow> string) \<Rightarrow> (NewView \<times> string) list \<Rightarrow> string \<Rightarrow> string set" where
  "nv_senders D ms d = {replica_name_to_node_name frm | msg frm. (msg, frm) \<in> set ms \<and> D msg = d}"

lemma nv_senders_list: "nv_senders D ms d = set (map (\<lambda>(msg, frm). replica_name_to_node_name frm) (filter (\<lambda>(msg, frm). D msg = d) ms))"
  by (auto simp: nv_senders_def)

definition nv_voters :: "NewViewVotesForView \<Rightarrow> string \<Rightarrow> string set" where
  "nv_voters nv d = (case map_of (nv_votes nv) d of None \<Rightarrow> {} | Some v \<Rightarrow> set (nvv_voted_nodes v))"

definition nv_from :: "(NewView \<Rightarrow> string) \<Rightarrow> NewView set \<Rightarrow> NewViewVotesForView \<Rightarrow> bool" where
  "nv_from D M nv \<longleftrightarrow> nv_ok D nv \<and> (\<forall>(d, v) \<in> set (nv_votes nv). nvv_msg v \<in> M) \<and>
     (\<forall>msg. nv_new_view nv = Some msg \<longrightarrow> msg \<in> M \<and> is_reached (strong (nv_quorums nv)) (int (card (nv_voters nv (D msg)))))"

lemma add_new_view_voters:
  "nv_voters (add_new_view D nv msg frm) = (nv_voters nv)(D msg := insert (replica_name_to_node_name frm) (nv_voters nv (D msg)))"
  by (auto simp: nv_voters_def add_new_view_def add_vote_def mk_NewViewVotes_def Let_def update_conv' fun_eq_iff split: option.splits)

lemma nv_receive_voters: "nv_voters (nv_receive D nv ms) d = nv_voters nv d \<union> nv_senders D ms d"
  by (induction D nv ms rule: nv_receive.induct) (auto simp: add_new_view_voters nv_senders_def)

lemma add_new_view_from:
  assumes "nv_from D M nv" and "msg \<in> M"
  shows "nv_from D M (add_new_view D nv msg frm)"
proof -
  let ?v = "add_vote (case map_of (nv_votes nv) (D msg) of Some v \<Rightarrow> v | None \<Rightarrow> mk_NewViewVotes msg) (replica_name_to_node_name frm)"
  let ?nv = "add_new_view D nv msg frm"
  have ok: "nv_ok D ?nv" using assms(1) by (simp add: nv_from_def add_new_view_ok)
  have lookup: "map_of (nv_votes ?nv) (D msg) = Some ?v" and quorums: "nv_quorums ?nv = nv_quorums nv"
    and new: "nv_new_view ?nv = (if is_reached (strong (nv_quorums nv)) (int (length (nvv_voted_nodes ?v))) then Some msg else nv_new_view nv)"
    by (simp_all add: add_new_view_def Let_def update_conv')
  then have "distinct (nvv_voted_nodes ?v)" using ok by (auto simp: nv_ok_def dest!: map_of_SomeD)
  then have card: "card (nv_voters ?nv (D msg)) = length (nvv_voted_nodes ?v)" by (simp add: nv_voters_def lookup distinct_card)
  have "nvv_msg ?v \<in> M" using assms by (auto simp: nv_from_def add_vote_def mk_NewViewVotes_def split: option.splits dest!: map_of_SomeD)
  then have msgs: "\<forall>(d, v) \<in> set (nv_votes ?nv). nvv_msg v \<in> M"
    using assms(1) by (auto simp: add_new_view_def Let_def nv_from_def dest!: set_update_cases)
  have "finite (nv_voters ?nv d)" for d by (auto simp: nv_voters_def split: option.splits)
  moreover have "nv_voters nv d \<subseteq> nv_voters ?nv d" for d by (auto simp: add_new_view_voters)
  ultimately have "card (nv_voters nv d) \<le> card (nv_voters ?nv d)" for d by (rule card_mono)
  then have grow: "is_reached q (int (card (nv_voters nv d))) \<Longrightarrow> is_reached q (int (card (nv_voters ?nv d)))" for q d
    by (auto simp: is_reached_def intro: order_trans)
  have "msg' \<in> M \<and> is_reached (strong (nv_quorums nv)) (int (card (nv_voters ?nv (D msg'))))" if "nv_new_view ?nv = Some msg'" for msg'
  proof (cases "is_reached (strong (nv_quorums nv)) (int (length (nvv_voted_nodes ?v)))")
    case True
    then show ?thesis using that new assms(2) card by simp
  next
    case False
    then have "nv_new_view nv = Some msg'" using that new by simp
    then show ?thesis using assms(1) grow by (simp add: nv_from_def)
  qed
  then show ?thesis using ok msgs by (simp add: nv_from_def quorums)
qed

lemma nv_receive_from:
  "nv_from D M nv \<Longrightarrow> fst ` set ms \<subseteq> M \<Longrightarrow>
    nv_from D M (nv_receive D nv ms) \<and> nv_quorums (nv_receive D nv ms) = nv_quorums nv"
proof (induction D nv ms rule: nv_receive.induct)
  case (2 D nv msg frm ms)
  moreover have "nv_quorums (add_new_view D nv msg frm) = nv_quorums nv" by (simp add: add_new_view_def Let_def)
  ultimately show ?case using add_new_view_from [of D M nv msg frm] by simp
qed simp

text \<open>The message that is read from the table: one of a strong quorum, or the primary's own.\<close>

lemma accepted_new_view:
  assumes "get_new_view (nv_receive D (mk_NewViewVotesForView q) ms) (Some primary) = Some msg"
  shows "msg \<in> fst ` set ms"
    "is_reached (strong q) (int (card (nv_senders D ms (D msg)))) \<or>
     nv_senders D ms (D msg) = {replica_name_to_node_name primary} \<and> nv_primary msg = None"
proof -
  let ?nv = "nv_receive D (mk_NewViewVotesForView q) ms"
  have "nv_from D (fst ` set ms) (mk_NewViewVotesForView q)" "nv_quorums (mk_NewViewVotesForView q) = q"
    by (simp_all add: nv_from_def nv_ok_def mk_NewViewVotesForView_def)
  then have nv: "nv_from D (fst ` set ms) ?nv" "nv_quorums ?nv = q" using nv_receive_from [of D "fst ` set ms" _ ms] by simp_all
  have voters: "nv_voters ?nv d = nv_senders D ms d" for d
    by (simp add: nv_receive_voters) (simp add: nv_voters_def mk_NewViewVotesForView_def)
  have "msg \<in> fst ` set ms \<and> (is_reached (strong q) (int (card (nv_senders D ms (D msg)))) \<or>
     nv_senders D ms (D msg) = {replica_name_to_node_name primary} \<and> nv_primary msg = None)"
  proof (cases "nv_new_view ?nv")
    case (Some m)
    then show ?thesis using assms nv voters by (auto simp: get_new_view_def nv_from_def)
  next
    case None
    let ?P = "\<lambda>(d :: string, v). length (nvv_voted_nodes v) = 1 \<and> replica_name_to_node_name primary \<in> set (nvv_voted_nodes v) \<and> nv_primary (nvv_msg v) = None"
    have "map_option (\<lambda>(_, v). nvv_msg v) (List.find ?P (nv_votes ?nv)) = Some msg" using assms None by (simp add: get_new_view_def)
    then obtain d v where v: "List.find ?P (nv_votes ?nv) = Some (d, v)" "msg = nvv_msg v" by auto
    then have P: "(d, v) \<in> set (nv_votes ?nv)" "?P (d, v)" by (auto simp: find_Some_iff in_set_conv_nth)
    then have "map_of (nv_votes ?nv) (D msg) = Some v" "msg \<in> fst ` set ms" using nv(1) v(2) by (auto simp: nv_from_def nv_ok_def)
    moreover have "set (nvv_voted_nodes v) = {replica_name_to_node_name primary}" using P(2) by (auto simp: length_Suc_conv)
    ultimately show ?thesis using P(2) v(2) voters [of "D msg"] by (simp add: nv_voters_def)
  qed
  then show "msg \<in> fst ` set ms"
    "is_reached (strong q) (int (card (nv_senders D ms (D msg)))) \<or>
     nv_senders D ms (D msg) = {replica_name_to_node_name primary} \<and> nv_primary msg = None" by simp_all
qed

section \<open>Properties\<close>

text \<open>
  After any sequence of view-change messages, acknowledgements, quorum updates and clears, the
  votes counted as confirmed come from distinct nodes, and for each of them the stored message
  can be read back and has the confirmed digest.
\<close>

theorem confirmed_votes_readable:
  "distinct (map fst (confirmed_votes (vv_receive D (mk_ViewChangeVotesForView q) ms))) \<and>
   (\<forall>(frm, digest) \<in> set (confirmed_votes (vv_receive D (mk_ViewChangeVotesForView q) ms)).
      \<exists>vc. snd (get_view_change D (vv_receive D (mk_ViewChangeVotesForView q) ms) frm digest) = Some vc \<and> D vc = digest)"
proof -
  have "vv_ok D (vv_receive D (mk_ViewChangeVotesForView q) ms)"
    by (rule vv_receive_ok) (simp add: vv_ok_def mk_ViewChangeVotesForView_def)
  then show ?thesis using confirmed_votes_distinct get_view_change_confirmed by fastforce
qed

definition demo_view_change :: ViewChange where
  "demo_view_change = \<lparr>vc_viewNo = 1, vc_stableCheckpoint = 0, vc_prepared = [], vc_preprepared = [], vc_checkpoints = []\<rparr>"

definition demo_ack :: ViewChangeAck where
  "demo_ack = \<lparr>vca_viewNo = 1, vca_name = ''A'', vca_digest = ''d''\<rparr>"

theorem confirmed_votes_readable_witness:
  "(''A'', ''d'') \<in> set (confirmed_votes (vv_receive (\<lambda>_. ''d'') (mk_ViewChangeVotesForView (mk_Quorums 4)) [VC_Msg demo_view_change ''A:0'', VC_Ack demo_ack ''B:0'', VC_Ack demo_ack ''C:0''])) \<and>
   (\<exists>vc. snd (get_view_change (\<lambda>_. ''d'') (vv_receive (\<lambda>_. ''d'') (mk_ViewChangeVotesForView (mk_Quorums 4)) [VC_Msg demo_view_change ''A:0'', VC_Ack demo_ack ''B:0'', VC_Ack demo_ack ''C:0'']) ''A'' ''d'') = Some vc)"
proof -
  have "(''A'', ''d'') \<in> set (confirmed_votes (vv_receive (\<lambda>_. ''d'') (mk_ViewChangeVotesForView (mk_Quorums 4)) [VC_Msg demo_view_change ''A:0'', VC_Ack demo_ack ''B:0'', VC_Ack demo_ack ''C:0'']))"
    by code_simp
  then show ?thesis
    using confirmed_votes_readable [of "\<lambda>_. ''d''" "mk_Quorums 4" "[VC_Msg demo_view_change ''A:0'', VC_Ack demo_ack ''B:0'', VC_Ack demo_ack ''C:0'']"]
    by fast
qed

text \<open>
  C25: two nodes of a pool with at most \<open>f\<close> faulty ones each look up the new-view message to
  accept. What each of them finds was sent by a strong quorum of nodes, or by the primary alone and
  not as a reply to a request. If both have a quorum, or both come from the primary alone and it is
  correct, the two messages are the same up to the field that marks a reply. Nothing is claimed
  when one has a quorum and the other comes from the primary alone. The hypotheses are that a
  correct node sends one new-view message for the view, up to that field, and that the digests of
  the received messages do not collide.
\<close>

theorem accepted_new_views_agree:
  assumes "finite V" and "V \<noteq> {}" and "F \<subseteq> V" and "int (card F) \<le> getMaxFailures (int (card V))"
    and "\<forall>(msg, frm) \<in> set ms1 \<union> set ms2. replica_name_to_node_name frm \<in> V"
    and "\<forall>(msg, frm) \<in> set ms1 \<union> set ms2. replica_name_to_node_name frm \<notin> F \<longrightarrow> msg\<lparr>nv_primary := None\<rparr> = sent (replica_name_to_node_name frm)"
    and "inj_on D (fst ` (set ms1 \<union> set ms2))"
    and "get_new_view (nv_receive D (mk_NewViewVotesForView (mk_Quorums (int (card V)))) ms1) (Some primary) = Some msg1"
    and "get_new_view (nv_receive D (mk_NewViewVotesForView (mk_Quorums (int (card V)))) ms2) (Some primary) = Some msg2"
    and "S1 = nv_senders D ms1 (D msg1)" and "S2 = nv_senders D ms2 (D msg2)"
    and "backed = (\<lambda>S. is_reached (strong (mk_Quorums (int (card V)))) (int (card S)))"
  shows "(backed S1 \<or> S1 = {replica_name_to_node_name primary} \<and> nv_primary msg1 = None) \<and>
    (backed S2 \<or> S2 = {replica_name_to_node_name primary} \<and> nv_primary msg2 = None) \<and>
    (backed S1 \<and> backed S2 \<or> S1 = {replica_name_to_node_name primary} \<and> S2 = S1 \<and> replica_name_to_node_name primary \<notin> F
      \<longrightarrow> msg1\<lparr>nv_primary := None\<rparr> = msg2\<lparr>nv_primary := None\<rparr>)"
proof -
  have mem: "msg1 \<in> fst ` set ms1" "msg2 \<in> fst ` set ms2" using accepted_new_view(1) [OF assms(8)] accepted_new_view(1) [OF assms(9)] .
  have common: "msg1\<lparr>nv_primary := None\<rparr> = msg2\<lparr>nv_primary := None\<rparr>" if p: "p \<in> S1" "p \<in> S2" "p \<notin> F" for p
  proof -
    obtain m1 f1 m2 f2 where m: "(m1, f1) \<in> set ms1" "(m2, f2) \<in> set ms2" "D m1 = D msg1" "D m2 = D msg2"
      "p = replica_name_to_node_name f1" "p = replica_name_to_node_name f2" using p(1,2) assms(10,11) by (auto simp: nv_senders_def)
    then have "m1 = msg1" "m2 = msg2" using mem by (auto intro!: inj_onD [OF assms(7)]) (force, force)
    then show ?thesis using m(1,2,5,6) bspec [OF assms(6), of "(m1, f1)"] bspec [OF assms(6), of "(m2, f2)"] p(3) by simp
  qed
  have "S1 \<subseteq> V" "S2 \<subseteq> V" using assms(5,10,11) by (auto simp: nv_senders_def)
  moreover have "finite F" using assms(1,3) by (auto intro: finite_subset)
  ultimately have "\<exists>p. p \<in> S1 \<and> p \<in> S2 \<and> p \<notin> F" if "backed S1" "backed S2"
    using pool.strong_share_correct [OF assms(1) _ _ assms(2), of S1 S2 F] that assms(4,12) by (auto simp: q_value_le_iff)
  then show ?thesis
    using accepted_new_view(2) [OF assms(8)] accepted_new_view(2) [OF assms(9)] common unfolding assms(10-12) by blast
qed

definition demo_new_view :: NewView where
  "demo_new_view = \<lparr>nv_viewNo = 1, nv_viewChanges = [], nv_checkpoint = \<lparr>cp_instId = 0, cp_viewNo = 0, cp_seqNoStart = 0, cp_seqNoEnd = 0, cp_digest = None\<rparr>, nv_batches = [], nv_primary = Some ''A''\<rparr>"

text \<open>One node has the replies of A, B and C, the other their messages without the marker; D is faulty.\<close>

theorem accepted_new_views_agree_witness:
  "let ms1 = [(demo_new_view, ''A:0''), (demo_new_view, ''B:0''), (demo_new_view, ''C:0'')];
       m = demo_new_view\<lparr>nv_primary := None\<rparr>;
       ms2 = [(demo_new_view\<lparr>nv_viewNo := 2\<rparr>, ''D:0''), (m, ''B:0''), (m, ''A:0''), (m, ''C:0'')];
       D = (\<lambda>m. if nv_viewNo m = 2 then ''x'' else if nv_primary m = None then ''y'' else ''z'')
   in \<exists>msg1 msg2. get_new_view (nv_receive D (mk_NewViewVotesForView (mk_Quorums 4)) ms1) (Some ''A:0'') = Some msg1 \<and>
        get_new_view (nv_receive D (mk_NewViewVotesForView (mk_Quorums 4)) ms2) (Some ''A:0'') = Some msg2 \<and>
        D msg1 \<noteq> D msg2 \<and> msg1\<lparr>nv_primary := None\<rparr> = msg2\<lparr>nv_primary := None\<rparr>"
proof -
  let ?m = "demo_new_view\<lparr>nv_primary := None\<rparr>"
  let ?ms1 = "[(demo_new_view, ''A:0''), (demo_new_view, ''B:0''), (demo_new_view, ''C:0'')]"
  let ?ms2 = "[(demo_new_view\<lparr>nv_viewNo := 2\<rparr>, ''D:0''), (?m, ''B:0''), (?m, ''A:0''), (?m, ''C:0'')]"
  let ?D = "\<lambda>m. if nv_viewNo m = 2 then ''x'' else if nv_primary m = None then ''y'' else ''z''"
  let ?V = "{''A'', ''B'', ''C'', ''D''}"
  have c: "card ?V = 4" by simp
  have n: "replica_name_to_node_name ''A:0'' = ''A''" "replica_name_to_node_name ''B:0'' = ''B''"
    "replica_name_to_node_name ''C:0'' = ''C''" "replica_name_to_node_name ''D:0'' = ''D''" by code_simp+
  have 1: "get_new_view (nv_receive ?D (mk_NewViewVotesForView (mk_Quorums (int (card ?V)))) ?ms1) (Some ''A:0'') = Some demo_new_view"
    unfolding c by code_simp
  have 2: "get_new_view (nv_receive ?D (mk_NewViewVotesForView (mk_Quorums (int (card ?V)))) ?ms2) (Some ''A:0'') = Some ?m"
    unfolding c by code_simp
  have f: "int (card {''D''}) \<le> getMaxFailures (int (card ?V))" unfolding c by (simp add: getMaxFailures_def)
  have s: "nv_senders ?D ?ms1 (?D demo_new_view) = {''A'', ''B'', ''C''}" "nv_senders ?D ?ms2 (?D ?m) = {''A'', ''B'', ''C''}"
    by (auto simp: nv_senders_list n demo_new_view_def)
  have "demo_new_view\<lparr>nv_primary := None\<rparr> = ?m\<lparr>nv_primary := None\<rparr>"
    using accepted_new_views_agree [OF _ _ _ f _ _ _ 1 2 s [symmetric] refl, where ?sent = "\<lambda>_. ?m"]
    by (simp add: n demo_new_view_def is_reached_def mk_Quorums_def getMaxFailures_def)
  then show ?thesis using 1 2 unfolding c by (simp add: Let_def demo_new_view_def)
qed

end
