(* ===== verification/Sorted_Containers.thy ===== *)
theory Sorted_Containers
  imports Prelude "HOL-Library.Multiset"
begin

text \<open>
  The sorted containers that the code uses (\<^verbatim>\<open>SortedListWithKey\<close>, \<^verbatim>\<open>SortedDict\<close>) come from a
  package. The value of such a container is the list of its elements in iteration order; the
  operation that inserts an element is a parameter of the definitions that use it, and the
  locale states what its documentation promises: the new element is added, and the list stays
  sorted by the key.
\<close>

locale sorted_adder =
  fixes sl_add :: "('a \<Rightarrow> 'k::linorder) \<Rightarrow> 'a list \<Rightarrow> 'a \<Rightarrow> 'a list"
  assumes mset_sl_add: "mset (sl_add key xs x) = add_mset x (mset xs)"
    and sorted_sl_add: "sorted (map key xs) \<Longrightarrow> sorted (map key (sl_add key xs x))"
begin

lemma set_sl_add: "set (sl_add key xs x) = insert x (set xs)"
  by (metis mset_sl_add set_mset_add_mset_insert set_mset_mset)

lemma length_sl_add: "length (sl_add key xs x) = Suc (length xs)"
  by (metis mset_sl_add size_add_mset size_mset)

end

text \<open>An instance: insertion behind the elements with the same key.\<close>

fun insort_right :: "('a \<Rightarrow> 'k::linorder) \<Rightarrow> 'a list \<Rightarrow> 'a \<Rightarrow> 'a list" where
  "insort_right key [] x = [x]"
| "insort_right key (y # ys) x = (if key y \<le> key x then y # insort_right key ys x else x # y # ys)"

lemma mset_insort_right: "mset (insort_right key xs x) = add_mset x (mset xs)"
  by (induction xs) auto

lemma sorted_insort_right: "sorted (map key xs) \<Longrightarrow> sorted (map key (insort_right key xs x))"
proof (induction xs)
  case (Cons y ys)
  have "set (insort_right key ys x) = insert x (set ys)"
    by (metis mset_insort_right set_mset_add_mset_insert set_mset_mset)
  then show ?case using Cons by auto
qed simp

interpretation insort_r: sorted_adder insort_right
  by unfold_locales (simp_all add: mset_insort_right sorted_insort_right)

text \<open>Elements of a sorted list with the given key (\<^verbatim>\<open>irange_key\<close> with equal bounds).\<close>

definition irange_key :: "('a \<Rightarrow> 'k::linorder) \<Rightarrow> 'a list \<Rightarrow> 'k \<Rightarrow> 'a list" where
  "irange_key key xs k = filter (\<lambda>x. k \<le> key x \<and> key x \<le> k) xs"

lemma set_irange_key: "set (irange_key key xs k) = {x \<in> set xs. key x = k}"
  by (auto simp: irange_key_def)

end
