(* ===== verification/Shared_Data.thy ===== *)
theory Shared_Data
  imports Vote_Tracking View_Change_Storages Sorted_Containers
begin

text \<open>
  \<^verbatim>\<open>plenum/server/consensus/consensus_shared_data.py\<close>: the state that the ordering, checkpoint
  and view change services of a replica share, with the modes and statuses of a node
  (\<^verbatim>\<open>plenum/common/startable.py\<close>).
  Of the fields, those that no modelled service reads or writes are left out: the client requests, the
  requested pre-prepares, the time of the last batch and the two fields of the former view change protocol.
  The list of own checkpoints is a sorted container: its insertion is the parameter \<open>sl_add\<close>.
\<close>

section \<open>Modes and statuses of a node\<close>

datatype Status = Status_stopped | Status_starting | Status_started_hungry | Status_started | Status_stopping

definition Status_going :: "Status list" where
  "Status_going = [Status_starting, Status_started_hungry, Status_started]"

definition Status_ready :: "Status list" where
  "Status_ready = [Status_started_hungry, Status_started]"

datatype Mode = Mode_starting | Mode_discovering | Mode_discovered | Mode_syncing | Mode_synced | Mode_participating

fun Mode_value :: "Mode \<Rightarrow> nat" where
  "Mode_value Mode_starting = 100"
| "Mode_value Mode_discovering = 200"
| "Mode_value Mode_discovered = 300"
| "Mode_value Mode_syncing = 400"
| "Mode_value Mode_synced = 410"
| "Mode_value Mode_participating = 500"

definition is_done_syncing :: "Mode option \<Rightarrow> bool" where
  "is_done_syncing mode = (case mode of None \<Rightarrow> False | Some m \<Rightarrow> Mode_value Mode_synced \<le> Mode_value m)"

section \<open>The shared state\<close>

type_synonym checkpoint_adder = "(Checkpoint \<Rightarrow> nat) \<Rightarrow> Checkpoint list \<Rightarrow> Checkpoint \<Rightarrow> Checkpoint list"

record ConsensusSharedData =
  d_name :: string
  d_inst_id :: nat
  d_view_no :: nat
  d_waiting_for_new_view :: bool
  d_is_master :: bool
  d_last_ordered_3pc :: key3pc
  d_primary_name :: "string option"
  d_stable_checkpoint :: nat
  d_checkpoints :: "Checkpoint list"
  d_preprepared :: "BatchID list"
  d_prepared :: "BatchID list"
  d_validators :: "string list"
  d_quorums :: "Quorums option"
  d_new_view_votes :: NewViewVotesForView
  d_view_change_votes :: ViewChangeVotesForView
  d_low_watermark :: nat
  d_log_size :: nat
  d_high_watermark :: nat
  d_pp_seq_no :: nat
  d_node_mode :: "Mode option"
  d_node_status :: Status
  d_prev_view_prepare_cert :: nat
  d_sent_preprepares :: "(key3pc \<times> PrePrepare) list"
  d_prepares :: Prepares
  d_commits :: Commits
  d_master_reordered_after_vc :: bool

definition initial_checkpoint_of :: "nat \<Rightarrow> Checkpoint" where
  "initial_checkpoint_of inst_id =
     \<lparr>cp_instId = inst_id, cp_viewNo = 0, cp_seqNoStart = 0, cp_seqNoEnd = 0, cp_digest = None\<rparr>"

definition initial_checkpoint :: "ConsensusSharedData \<Rightarrow> Checkpoint" where
  "initial_checkpoint d = initial_checkpoint_of (d_inst_id d)"

definition set_validators :: "ConsensusSharedData \<Rightarrow> string list \<Rightarrow> ConsensusSharedData" where
  "set_validators d validators =
     (let q = (case d_quorums d of
                 None \<Rightarrow> mk_Quorums (int (length validators))
               | Some q \<Rightarrow> if q_n q \<noteq> int (length validators) then mk_Quorums (int (length validators)) else q) in
      d\<lparr>d_validators := validators, d_quorums := Some q,
        d_view_change_votes := vv_update_quorums (d_view_change_votes d) q,
        d_new_view_votes := nv_update_quorums (d_new_view_votes d) q\<rparr>)"

definition mk_ConsensusSharedData ::
  "checkpoint_adder \<Rightarrow> nat \<Rightarrow> string \<Rightarrow> string list \<Rightarrow> nat \<Rightarrow> bool \<Rightarrow> ConsensusSharedData" where
  "mk_ConsensusSharedData sl_add LOG_SIZE name validators inst_id is_master =
     set_validators
       \<lparr>d_name = name, d_inst_id = inst_id, d_view_no = 0, d_waiting_for_new_view = False, d_is_master = is_master,
        d_last_ordered_3pc = (0, 0), d_primary_name = None, d_stable_checkpoint = 0,
        d_checkpoints = sl_add cp_seqNoEnd [] (initial_checkpoint_of inst_id),
        d_preprepared = [], d_prepared = [], d_validators = [], d_quorums = None,
        d_new_view_votes = mk_NewViewVotesForView (mk_Quorums (int (length validators))),
        d_view_change_votes = mk_ViewChangeVotesForView (mk_Quorums (int (length validators))),
        d_low_watermark = 0, d_log_size = LOG_SIZE, d_high_watermark = 0 + LOG_SIZE, d_pp_seq_no = 0,
        d_node_mode = Some Mode_starting, d_node_status = Status_starting, d_prev_view_prepare_cert = 0,
        d_sent_preprepares = [], d_prepares = [], d_commits = [], d_master_reordered_after_vc = True\<rparr>
       validators"

definition is_primary :: "ConsensusSharedData \<Rightarrow> bool option" where
  "is_primary d = (case d_primary_name d of None \<Rightarrow> None | Some p \<Rightarrow> Some (p = d_name d))"

definition is_participating :: "ConsensusSharedData \<Rightarrow> bool" where
  "is_participating d = (d_node_mode d = Some Mode_participating)"

definition is_synced :: "ConsensusSharedData \<Rightarrow> bool" where
  "is_synced d = is_done_syncing (d_node_mode d)"

definition is_ready :: "ConsensusSharedData \<Rightarrow> bool" where
  "is_ready d = (d_node_status d \<in> set Status_ready)"

definition total_nodes :: "ConsensusSharedData \<Rightarrow> nat" where
  "total_nodes d = length (d_validators d)"

definition last_checkpoint :: "ConsensusSharedData \<Rightarrow> Checkpoint result" where
  "last_checkpoint d = (if d_checkpoints d = [] then Inl IndexError else Inr (last (d_checkpoints d)))"

definition new_view :: "ConsensusSharedData \<Rightarrow> NewView option" where
  "new_view d = get_new_view (d_new_view_votes d) (d_primary_name d)"

text \<open>
  The quorums are never \<^verbatim>\<open>None\<close> after the constructor; \<^verbatim>\<open>self._data.quorums\<close> is read with this.
\<close>

definition quorums :: "ConsensusSharedData \<Rightarrow> Quorums" where
  "quorums d = the (d_quorums d)"

section \<open>Facts\<close>

definition quorums_ok :: "ConsensusSharedData \<Rightarrow> bool" where
  "quorums_ok d \<longleftrightarrow> d_quorums d = Some (mk_Quorums (int (length (d_validators d)))) \<and>
     vv_quorums (d_view_change_votes d) = quorums d \<and> nv_quorums (d_new_view_votes d) = quorums d"

text \<open>Setting the validators makes all quorums those of the number of validators.\<close>

lemma set_validators_quorums:
  assumes "\<And>q. d_quorums d = Some q \<Longrightarrow> \<exists>n. q = mk_Quorums n"
  shows "quorums_ok (set_validators d vs)" and "d_validators (set_validators d vs) = vs"
proof -
  show "d_validators (set_validators d vs) = vs" by (simp add: set_validators_def Let_def)
  show "quorums_ok (set_validators d vs)"
    using assms by (fastforce simp: quorums_ok_def quorums_def set_validators_def Let_def vv_update_quorums_def nv_update_quorums_def split: option.splits if_splits)
qed

lemma mk_ConsensusSharedData_quorums: "quorums_ok (mk_ConsensusSharedData sl_add L name vs i m)"
  unfolding mk_ConsensusSharedData_def by (rule set_validators_quorums) simp

lemma participating_synced: "is_participating d \<Longrightarrow> is_synced d"
  by (simp add: is_participating_def is_synced_def is_done_syncing_def)

end
