(* ===== verification/Msg_Validator.thy ===== *)
theory Msg_Validator
  imports Shared_Data
begin

text \<open>
  The validators that decide whether a message is processed, discarded or stashed
  (\<^verbatim>\<open>plenum/server/consensus/ordering_service_msg_validator.py\<close>,
  \<^verbatim>\<open>checkpoint_service_msg_validator.py\<close>, with the codes of
  \<^verbatim>\<open>plenum/server/replica_validator_enums.py\<close> and \<^verbatim>\<open>plenum/common/stashing_router.py\<close>). The schema of the messages makes
  the instance, view and sequence number present.
\<close>

section \<open>Codes and reasons\<close>

definition V_DISCARD :: int where "V_DISCARD = -1"
definition V_PROCESS :: int where "V_PROCESS = 0"
definition STASH_VIEW_3PC :: int where "STASH_VIEW_3PC = 2"
definition STASH_WATERMARKS :: int where "STASH_WATERMARKS = 3"
definition STASH_CATCH_UP :: int where "STASH_CATCH_UP = 4"
definition STASH_WAITING_VIEW_CHANGE :: int where "STASH_WAITING_VIEW_CHANGE = 5"
definition STASH_WAITING_FIRST_BATCH_IN_VIEW :: int where "STASH_WAITING_FIRST_BATCH_IN_VIEW = 6"

lemmas code_defs = V_DISCARD_def V_PROCESS_def STASH_VIEW_3PC_def STASH_WATERMARKS_def STASH_CATCH_UP_def
  STASH_WAITING_VIEW_CHANGE_def STASH_WAITING_FIRST_BATCH_IN_VIEW_def

datatype reason =
    INCORRECT_INSTANCE | INCORRECT_PP_SEQ_NO | OUTSIDE_WATERMARKS | FUTURE_VIEW | OLD_VIEW | CATCHING_UP
  | GREATER_PREP_CERT | ALREADY_ORDERED | ALREADY_STABLE | WAITING_FOR_NEW_VIEW | WAITING_FIRST_BATCH_IN_VIEW | NON_MASTER

type_synonym verdict = "int \<times> reason option"

section \<open>Three-phase messages\<close>

definition has_already_ordered :: "ConsensusSharedData \<Rightarrow> nat \<Rightarrow> nat \<Rightarrow> bool" where
  "has_already_ordered d view_no pp_seq_no = (compare_3PC_keys (view_no, pp_seq_no) (d_last_ordered_3pc d) \<ge> 0)"

definition validate_base :: "ConsensusSharedData \<Rightarrow> nat \<Rightarrow> verdict" where
  "validate_base d view_no =
     (if view_no < d_view_no d then (V_DISCARD, Some OLD_VIEW)
      else if view_no > d_view_no d then (STASH_VIEW_3PC, Some FUTURE_VIEW)
      else if \<not> is_participating d then (STASH_CATCH_UP, Some CATCHING_UP)
      else (V_PROCESS, None))"

definition validate_3pc :: "ConsensusSharedData \<Rightarrow> nat \<Rightarrow> nat \<Rightarrow> nat \<Rightarrow> verdict" where
  "validate_3pc d inst_id view_no pp_seq_no =
     (if inst_id \<noteq> d_inst_id d then (V_DISCARD, Some INCORRECT_INSTANCE)
      else if pp_seq_no = 0 then (V_DISCARD, Some INCORRECT_PP_SEQ_NO)
      else if pp_seq_no \<le> d_low_watermark d then (V_DISCARD, Some ALREADY_ORDERED)
      else
        case validate_base d view_no of (res, reason) \<Rightarrow>
          if res \<noteq> V_PROCESS then (res, reason)
          else if d_waiting_for_new_view d then (STASH_VIEW_3PC, Some WAITING_FOR_NEW_VIEW)
          else if pp_seq_no > d_high_watermark d then (STASH_WATERMARKS, Some OUTSIDE_WATERMARKS)
          else if has_already_ordered d view_no pp_seq_no \<and> pp_seq_no > d_prev_view_prepare_cert d
          then (V_DISCARD, Some ALREADY_ORDERED)
          else if view_no > 0 \<and> pp_seq_no > d_prev_view_prepare_cert d + 1 \<and>
                  snd (d_last_ordered_3pc d) < d_prev_view_prepare_cert d + 1
          then (STASH_WAITING_FIRST_BATCH_IN_VIEW, Some WAITING_FIRST_BATCH_IN_VIEW)
          else (V_PROCESS, None))"

definition validate_pre_prepare :: "ConsensusSharedData \<Rightarrow> PrePrepare \<Rightarrow> verdict" where
  "validate_pre_prepare d msg = validate_3pc d (pp_instId msg) (pp_viewNo msg) (pp_ppSeqNo msg)"

definition validate_prepare :: "ConsensusSharedData \<Rightarrow> Prepare \<Rightarrow> verdict" where
  "validate_prepare d msg = validate_3pc d (pr_instId msg) (pr_viewNo msg) (pr_ppSeqNo msg)"

definition validate_commit :: "ConsensusSharedData \<Rightarrow> Commit \<Rightarrow> verdict" where
  "validate_commit d msg = validate_3pc d (cm_instId msg) (cm_viewNo msg) (cm_ppSeqNo msg)"

definition validate_new_view :: "ConsensusSharedData \<Rightarrow> nat \<Rightarrow> verdict" where
  "validate_new_view d view_no = validate_base d view_no"

definition validate_old_view_prep_prepare_req :: "ConsensusSharedData \<Rightarrow> nat \<Rightarrow> verdict" where
  "validate_old_view_prep_prepare_req d inst_id =
     (if inst_id \<noteq> d_inst_id d then (V_DISCARD, Some INCORRECT_INSTANCE)
      else if \<not> d_is_master d then (V_DISCARD, Some NON_MASTER)
      else if \<not> is_participating d then (STASH_CATCH_UP, Some CATCHING_UP)
      else (V_PROCESS, None))"

definition validate_old_view_prep_prepare_rep :: "ConsensusSharedData \<Rightarrow> nat \<Rightarrow> verdict" where
  "validate_old_view_prep_prepare_rep d inst_id =
     (if inst_id \<noteq> d_inst_id d then (V_DISCARD, Some INCORRECT_INSTANCE)
      else if \<not> d_is_master d then (V_DISCARD, Some NON_MASTER)
      else if d_waiting_for_new_view d then (STASH_VIEW_3PC, Some WAITING_FOR_NEW_VIEW)
      else if \<not> is_participating d then (STASH_CATCH_UP, Some CATCHING_UP)
      else (V_PROCESS, None))"

datatype ordering_msg =
    PrePrepareMsg PrePrepare
  | PrepareMsg Prepare
  | CommitMsg Commit
  | NewViewCheckpointsAppliedMsg nat
  | OldViewPrePrepareRequestMsg nat
  | OldViewPrePrepareReplyMsg nat
  | UnknownMsg

fun validate_ordering :: "ConsensusSharedData \<Rightarrow> ordering_msg \<Rightarrow> verdict result" where
  "validate_ordering d (PrePrepareMsg msg) = Inr (validate_pre_prepare d msg)"
| "validate_ordering d (PrepareMsg msg) = Inr (validate_prepare d msg)"
| "validate_ordering d (CommitMsg msg) = Inr (validate_commit d msg)"
| "validate_ordering d (NewViewCheckpointsAppliedMsg view_no) = Inr (validate_new_view d view_no)"
| "validate_ordering d (OldViewPrePrepareRequestMsg inst_id) = Inr (validate_old_view_prep_prepare_req d inst_id)"
| "validate_ordering d (OldViewPrePrepareReplyMsg inst_id) = Inr (validate_old_view_prep_prepare_rep d inst_id)"
| "validate_ordering d UnknownMsg = Inl LogicError"

section \<open>Checkpoints\<close>

definition is_pp_seq_no_stable :: "ConsensusSharedData \<Rightarrow> Checkpoint \<Rightarrow> bool" where
  "is_pp_seq_no_stable d msg = (cp_seqNoEnd msg \<le> d_stable_checkpoint d)"

definition validate_checkpoint :: "ConsensusSharedData \<Rightarrow> Checkpoint \<Rightarrow> verdict" where
  "validate_checkpoint d msg =
     (if cp_instId msg \<noteq> d_inst_id d then (V_DISCARD, Some INCORRECT_INSTANCE)
      else if is_pp_seq_no_stable d msg then (V_DISCARD, Some ALREADY_STABLE)
      else if cp_viewNo msg < d_view_no d then (V_DISCARD, Some OLD_VIEW)
      else if d_waiting_for_new_view d then (STASH_VIEW_3PC, Some WAITING_FOR_NEW_VIEW)
      else if \<not> is_participating d then (STASH_CATCH_UP, Some CATCHING_UP)
      else (V_PROCESS, None))"

section \<open>What the verdicts mean\<close>

lemma validate_checkpoint_process_iff:
  "validate_checkpoint d msg = (V_PROCESS, None) \<longleftrightarrow>
     cp_instId msg = d_inst_id d \<and> d_stable_checkpoint d < cp_seqNoEnd msg \<and> d_view_no d \<le> cp_viewNo msg \<and>
     \<not> d_waiting_for_new_view d \<and> is_participating d"
  by (auto simp: validate_checkpoint_def is_pp_seq_no_stable_def)

lemma validate_checkpoint_cases:
  "fst (validate_checkpoint d msg) \<in> {V_DISCARD, V_PROCESS, STASH_VIEW_3PC, STASH_CATCH_UP}"
  "fst (validate_checkpoint d msg) = V_PROCESS \<longleftrightarrow> validate_checkpoint d msg = (V_PROCESS, None)"
  by (auto simp: validate_checkpoint_def code_defs)

text \<open>
  A three-phase message is never lost by mistake: it is discarded only if its instance is a
  different one, its view is over, or its number is 0, at or below the low watermark, or already
  ordered and not to be ordered again; every other message that cannot be processed is stashed.
\<close>

lemma validate_3pc_discard_iff:
  "fst (validate_3pc d inst_id view_no n) = V_DISCARD \<longleftrightarrow>
     inst_id \<noteq> d_inst_id d \<or> n = 0 \<or> n \<le> d_low_watermark d \<or> view_no < d_view_no d \<or>
     (view_no = d_view_no d \<and> is_participating d \<and> \<not> d_waiting_for_new_view d \<and> n \<le> d_high_watermark d \<and>
        n \<le> snd (d_last_ordered_3pc d) \<and> d_prev_view_prepare_cert d < n)"
  by (auto simp: validate_3pc_def validate_base_def has_already_ordered_def code_defs)

end
