(* ===== verification/Checkpoint_Service.thy ===== *)
theory Checkpoint_Service
  imports Msg_Validator
begin

text \<open>
  \<^verbatim>\<open>plenum/server/consensus/checkpoint_service.py\<close>: sending, collecting and stabilizing
  checkpoints. The state of the service is the shared state and the checkpoints received from
  other nodes; a handler returns the new state and its effects in order. The configuration,
  the insertion of the sorted container and what the service reads from the audit ledger are
  the fields of \<open>cs_env\<close>. Messages for other services are effects: what those services do on
  receiving them is not part of a step of this one.
\<close>

section \<open>State\<close>

record CheckpointKey =
  ck_view_no :: nat
  ck_pp_seq_no :: nat
  ck_digest :: "string option"

record audit_data =
  au_viewNo :: nat
  au_ppSeqNo :: nat

record cs_env =
  CHK_FREQ :: nat
  LOG_SIZE :: nat
  maxsize :: nat
  cs_add :: checkpoint_adder
  audit_size :: nat
  audit_getBySeqNo :: "nat \<Rightarrow> audit_data"
  audit_root :: "nat \<Rightarrow> string"

record CheckpointService =
  cs_data :: ConsensusSharedData
  received_checkpoints :: "(CheckpointKey \<times> string fset) list"

type_synonym cs_step = "CheckpointService \<times> effect list"

definition STASHED_CHECKPOINTS_BEFORE_CATCHUP :: nat where "STASHED_CHECKPOINTS_BEFORE_CATCHUP = 1"

definition checkpoint_key :: "Checkpoint \<Rightarrow> CheckpointKey" where
  "checkpoint_key cp = \<lparr>ck_view_no = cp_viewNo cp, ck_pp_seq_no = cp_seqNoEnd cp, ck_digest = cp_digest cp\<rparr>"

definition is_below_3pc_key :: "CheckpointKey \<Rightarrow> key3pc \<Rightarrow> bool" where
  "is_below_3pc_key cp key = (compare_3PC_keys (ck_view_no cp, ck_pp_seq_no cp) key \<ge> 0)"

definition have_own_checkpoint :: "CheckpointService \<Rightarrow> CheckpointKey \<Rightarrow> bool" where
  "have_own_checkpoint s key =
     list_ex (\<lambda>cp. cp_viewNo cp = ck_view_no key \<and> cp_digest cp = ck_digest key)
       (irange_key cp_seqNoEnd (d_checkpoints (cs_data s)) (ck_pp_seq_no key))"

text \<open>Reading a key of the \<^verbatim>\<open>defaultdict\<close> of received checkpoints creates it.\<close>

definition received_votes :: "CheckpointService \<Rightarrow> CheckpointKey \<Rightarrow> CheckpointService \<times> string fset" where
  "received_votes s key =
     (case map_of (received_checkpoints s) key of
        Some votes \<Rightarrow> (s, votes)
      | None \<Rightarrow> (s\<lparr>received_checkpoints := AList.update key {||} (received_checkpoints s)\<rparr>, {||}))"

definition have_quorum_on_received_checkpoint :: "CheckpointService \<Rightarrow> CheckpointKey \<Rightarrow> CheckpointService \<times> bool" where
  "have_quorum_on_received_checkpoint s key =
     (case received_votes s key of (s', votes) \<Rightarrow> (s', is_reached (checkpoint (quorums (cs_data s'))) (int (fcard votes))))"

definition unknown_stabilized_checkpoints :: "CheckpointService \<Rightarrow> CheckpointKey list" where
  "unknown_stabilized_checkpoints s =
     filter (\<lambda>key. snd (have_quorum_on_received_checkpoint s key) \<and> \<not> have_own_checkpoint s key \<and>
                   \<not> is_below_3pc_key key (d_last_ordered_3pc (cs_data s)))
       (map fst (received_checkpoints s))"

section \<open>Watermarks and stable checkpoints\<close>

definition set_watermarks :: "cs_env \<Rightarrow> CheckpointService \<Rightarrow> nat \<Rightarrow> nat option \<Rightarrow> cs_step" where
  "set_watermarks env s low high =
     (s\<lparr>cs_data := (cs_data s)\<lparr>d_low_watermark := low,
          d_high_watermark := (case high of None \<Rightarrow> low + LOG_SIZE env | Some h \<Rightarrow> h)\<rparr>\<rparr>,
      [ProcessAllStashed 3])"

definition update_watermark_from_3pc :: "cs_env \<Rightarrow> CheckpointService \<Rightarrow> cs_step" where
  "update_watermark_from_3pc env s =
     (if fst (d_last_ordered_3pc (cs_data s)) = d_view_no (cs_data s)
      then set_watermarks env s (snd (d_last_ordered_3pc (cs_data s))) None else (s, []))"

definition remove_received_checkpoints :: "CheckpointService \<Rightarrow> key3pc option \<Rightarrow> CheckpointService" where
  "remove_received_checkpoints s till =
     (case till of
        None \<Rightarrow> s\<lparr>received_checkpoints := []\<rparr>
      | Some key \<Rightarrow>
          s\<lparr>received_checkpoints :=
              fold (\<lambda>cp d. if is_below_3pc_key cp key then AList.delete cp d else d)
                (map fst (received_checkpoints s)) (received_checkpoints s)\<rparr>)"

text \<open>
  The search from the end of the audit ledger. If no transaction has the number, it ends with
  the first transaction of the ledger and the number 0.
\<close>

fun audit_txn_loop :: "cs_env \<Rightarrow> nat \<Rightarrow> nat \<Rightarrow> audit_data option \<Rightarrow> audit_data option \<times> nat" where
  "audit_txn_loop env pp_seq_no 0 txn = (txn, 0)"
| "audit_txn_loop env pp_seq_no (Suc n) txn =
     (let txn' = audit_getBySeqNo env (Suc n) in
      if au_ppSeqNo txn' = pp_seq_no then (Some txn', Suc n)
      else audit_txn_loop env pp_seq_no n (Some txn'))"

definition audit_txn_by_pp_seq_no :: "cs_env \<Rightarrow> nat \<Rightarrow> audit_data option \<times> nat" where
  "audit_txn_by_pp_seq_no env pp_seq_no = audit_txn_loop env pp_seq_no (audit_size env) None"

definition get_view_no_from_audit :: "CheckpointService \<Rightarrow> audit_data option \<Rightarrow> nat" where
  "get_view_no_from_audit s audit_txn = (case audit_txn of None \<Rightarrow> d_view_no (cs_data s) | Some t \<Rightarrow> au_viewNo t)"

definition get_digest_from_audit :: "cs_env \<Rightarrow> nat \<Rightarrow> string option" where
  "get_digest_from_audit env audit_txn_seq_no = (if audit_txn_seq_no = 0 then None else Some (audit_root env audit_txn_seq_no))"

definition create_checkpoint_from_audit_ledger :: "cs_env \<Rightarrow> CheckpointService \<Rightarrow> nat \<Rightarrow> Checkpoint" where
  "create_checkpoint_from_audit_ledger env s pp_seq_no =
     (case audit_txn_by_pp_seq_no env pp_seq_no of (audit_txn, audit_txn_seq_no) \<Rightarrow>
        \<lparr>cp_instId = d_inst_id (cs_data s), cp_viewNo = get_view_no_from_audit s audit_txn, cp_seqNoStart = 0,
         cp_seqNoEnd = pp_seq_no, cp_digest = get_digest_from_audit env audit_txn_seq_no\<rparr>)"

definition remove_previous_checkpoints :: "Checkpoint list \<Rightarrow> nat \<Rightarrow> Checkpoint list" where
  "remove_previous_checkpoints cps pp_seq_no =
     fold (\<lambda>cp l. if cp_seqNoEnd cp < pp_seq_no then remove1 cp l else l) cps cps"

definition mark_checkpoint_stable :: "cs_env \<Rightarrow> CheckpointService \<Rightarrow> nat \<Rightarrow> cs_step" where
  "mark_checkpoint_stable env s pp_seq_no =
     (let s1 = s\<lparr>cs_data := (cs_data s)\<lparr>d_stable_checkpoint := pp_seq_no\<rparr>\<rparr>;
          cps = d_checkpoints (cs_data s1);
          cps1 = (if length (irange_key cp_seqNoEnd cps pp_seq_no) = 0
                  then cs_add env cp_seqNoEnd cps (create_checkpoint_from_audit_ledger env s1 pp_seq_no) else cps);
          s2 = s1\<lparr>cs_data := (cs_data s1)\<lparr>d_checkpoints := remove_previous_checkpoints cps1 pp_seq_no\<rparr>\<rparr>;
          (s3, eff) = set_watermarks env s2 pp_seq_no None;
          s4 = remove_received_checkpoints s3 (Some (d_view_no (cs_data s3), pp_seq_no)) in
      (s4, eff @ [CheckpointStabilized (d_view_no (cs_data s4), pp_seq_no)]))"

definition try_to_stabilize_checkpoint :: "cs_env \<Rightarrow> CheckpointService \<Rightarrow> CheckpointKey \<Rightarrow> cs_step" where
  "try_to_stabilize_checkpoint env s key =
     (case have_quorum_on_received_checkpoint s key of (s', q) \<Rightarrow>
        if \<not> q then (s', [])
        else if \<not> have_own_checkpoint s' key then (s', [])
        else mark_checkpoint_stable env s' (ck_pp_seq_no key))"

definition caught_up_till_3pc :: "cs_env \<Rightarrow> CheckpointService \<Rightarrow> key3pc \<Rightarrow> cs_step" where
  "caught_up_till_3pc env s till = mark_checkpoint_stable env s (snd till div CHK_FREQ env * CHK_FREQ env)"

definition reset_checkpoints :: "CheckpointService \<Rightarrow> CheckpointService" where
  "reset_checkpoints s = s\<lparr>cs_data := (cs_data s)\<lparr>d_checkpoints := [initial_checkpoint (cs_data s)]\<rparr>\<rparr>"

definition catchup_clear_for_backup :: "cs_env \<Rightarrow> CheckpointService \<Rightarrow> cs_step" where
  "catchup_clear_for_backup env s =
     set_watermarks env (remove_received_checkpoints (reset_checkpoints s) None) 0 (Some (maxsize env))"

section \<open>Handlers\<close>

text \<open>The greatest key by view and number; among equal ones the last, as \<^verbatim>\<open>sorted\<close> is stable.\<close>

definition last_unknown :: "CheckpointKey list \<Rightarrow> CheckpointKey" where
  "last_unknown keys = last (sort_key (\<lambda>v. (ck_view_no v, ck_pp_seq_no v)) keys)"

definition start_catchup_if_needed :: "cs_env \<Rightarrow> CheckpointService \<Rightarrow> CheckpointKey \<Rightarrow> cs_step" where
  "start_catchup_if_needed env s key =
     (if have_own_checkpoint s key then (s, [])
      else
        (let unknown_stabilized = unknown_stabilized_checkpoints s in
         if length unknown_stabilized \<le> STASHED_CHECKPOINTS_BEFORE_CATCHUP then (s, [])
         else if d_is_master (cs_data s) then
           (if is_primary (cs_data s) \<noteq> Some True then (s, [NeedMasterCatchup]) else (s, []))
         else
           (let key_3pc = (d_view_no (cs_data s), ck_pp_seq_no (last_unknown unknown_stabilized));
                (s', eff) = caught_up_till_3pc env s key_3pc in
            (s', NeedBackupCatchup (d_inst_id (cs_data s)) key_3pc # eff))))"

definition process_checkpoint :: "cs_env \<Rightarrow> CheckpointService \<Rightarrow> Checkpoint \<Rightarrow> string \<Rightarrow> cs_step \<times> verdict option" where
  "process_checkpoint env s msg sender =
     (case validate_checkpoint (cs_data s) msg of (res, reason) \<Rightarrow>
        if res \<noteq> V_PROCESS then ((s, []), Some (res, reason))
        else
          (let key = checkpoint_key msg;
               (s1, votes) = received_votes s key;
               s2 = s1\<lparr>received_checkpoints := AList.update key (finsert sender votes) (received_checkpoints s1)\<rparr>;
               (s3, eff3) = try_to_stabilize_checkpoint env s2 key;
               (s4, eff4) = start_catchup_if_needed env s3 key in
           ((s4, eff3 @ eff4), None)))"

definition process_backup_setup_last_ordered :: "cs_env \<Rightarrow> CheckpointService \<Rightarrow> nat \<Rightarrow> cs_step" where
  "process_backup_setup_last_ordered env s inst_id =
     (if inst_id \<noteq> d_inst_id (cs_data s) then (s, []) else update_watermark_from_3pc env s)"

definition do_checkpoint :: "cs_env \<Rightarrow> CheckpointService \<Rightarrow> nat \<Rightarrow> nat \<Rightarrow> string option \<Rightarrow> cs_step" where
  "do_checkpoint env s pp_seq_no view_no audit_txn_root_hash =
     (let cp = \<lparr>cp_instId = d_inst_id (cs_data s), cp_viewNo = view_no, cp_seqNoStart = 0, cp_seqNoEnd = pp_seq_no,
                cp_digest = audit_txn_root_hash\<rparr> in
      (s\<lparr>cs_data := (cs_data s)\<lparr>d_checkpoints := cs_add env cp_seqNoEnd (d_checkpoints (cs_data s)) cp\<rparr>\<rparr>, [SendCheckpoint cp]))"

definition add_to_checkpoint :: "cs_env \<Rightarrow> CheckpointService \<Rightarrow> nat \<Rightarrow> nat \<Rightarrow> string option \<Rightarrow> cs_step" where
  "add_to_checkpoint env s ppSeqNo view_no audit_txn_root_hash =
     (if ppSeqNo mod CHK_FREQ env \<noteq> 0 then (s, [])
      else
        (let key = \<lparr>ck_view_no = view_no, ck_pp_seq_no = ppSeqNo, ck_digest = audit_txn_root_hash\<rparr>;
             (s1, eff1) = do_checkpoint env s ppSeqNo view_no audit_txn_root_hash;
             (s2, eff2) = try_to_stabilize_checkpoint env s1 key in
         (s2, eff1 @ eff2)))"

definition process_ordered :: "cs_env \<Rightarrow> CheckpointService \<Rightarrow> nat \<Rightarrow> string option \<Rightarrow> cs_step result" where
  "process_ordered env s ppSeqNo auditTxnRootHash =
     (case List.find (\<lambda>b. b_pp_seq_no b = ppSeqNo) (rev (d_preprepared (cs_data s))) of
        None \<Rightarrow> Inl LogicError
      | Some batch_id \<Rightarrow> Inr (add_to_checkpoint env s (b_pp_seq_no batch_id) (b_view_no batch_id) auditTxnRootHash))"

definition process_new_view_accepted ::
  "cs_env \<Rightarrow> CheckpointService \<Rightarrow> nat \<Rightarrow> (string \<times> string) list \<Rightarrow> Checkpoint \<Rightarrow> BatchID list \<Rightarrow> cs_step" where
  "process_new_view_accepted env s view_no view_changes cp batches =
     (if d_is_master (cs_data s) then
        (if cp \<notin> set (d_checkpoints (cs_data s)) then (s, [])
         else
           (let (s1, eff1) = mark_checkpoint_stable env s (cp_seqNoEnd cp);
                (s2, eff2) = set_watermarks env s1 (cp_seqNoEnd cp) None in
            (s2, eff1 @ eff2 @ [NewViewCheckpointsApplied view_no view_changes cp batches])))
      else
        (let s1 = s\<lparr>cs_data := (cs_data s)\<lparr>d_waiting_for_new_view := False, d_pp_seq_no := 0\<rparr>\<rparr>;
             (s2, eff2) = set_watermarks env s1 0 None;
             s3 = reset_checkpoints s2;
             s4 = s3\<lparr>cs_data := (cs_data s3)\<lparr>d_stable_checkpoint := 0\<rparr>\<rparr>;
             s5 = remove_received_checkpoints s4 None in
         (s5, eff2 @ [NewViewCheckpointsApplied view_no view_changes cp batches])))"

definition process_catchup_finished :: "cs_env \<Rightarrow> CheckpointService \<Rightarrow> key3pc \<Rightarrow> key3pc \<Rightarrow> cs_step" where
  "process_catchup_finished env s last_caught_up_3PC master_last_ordered =
     (let (s1, eff1) =
            (if compare_3PC_keys master_last_ordered last_caught_up_3PC > 0 then
               (if d_is_master (cs_data s) then caught_up_till_3pc env s last_caught_up_3PC
                else if is_primary (cs_data s) \<noteq> Some True then catchup_clear_for_backup env s else (s, []))
             else (s, [])) in
      (s1, eff1 @ [CatchupCheckpointsApplied last_caught_up_3PC master_last_ordered]))"

text \<open>\<^verbatim>\<open>Replica.on_propagate_primary_done\<close> (\<^verbatim>\<open>plenum/server/replica.py\<close>), the one caller outside the service that moves the watermarks\<close>

definition on_propagate_primary_done :: "cs_env \<Rightarrow> CheckpointService \<Rightarrow> cs_step" where
  "on_propagate_primary_done env s =
     (if d_is_master (cs_data s) then update_watermark_from_3pc env s
      else if is_primary (cs_data s) \<noteq> Some True then set_watermarks env s 0 (Some (maxsize env)) else (s, []))"

section \<open>Facts about the operations\<close>

lemma remove_all_that:
  "\<forall>y \<in> set ys. \<not> P y \<Longrightarrow> fold (\<lambda>x l. if P x then remove1 x l else l) xs (ys @ xs) = ys @ filter (\<lambda>x. \<not> P x) xs"
proof (induction xs arbitrary: ys)
  case (Cons x xs)
  then show ?case
    using Cons.IH [of ys] Cons.IH [of "ys @ [x]"] by (cases "P x") (auto simp: remove1_append)
qed simp

lemma remove_previous_checkpoints_filter:
  "remove_previous_checkpoints cps n = filter (\<lambda>cp. n \<le> cp_seqNoEnd cp) cps"
  using remove_all_that [of "[]" "\<lambda>cp. cp_seqNoEnd cp < n" cps] by (simp add: remove_previous_checkpoints_def not_less)

lemma map_of_delete_all:
  "map_of (fold (\<lambda>k d. if P k then AList.delete k d else d) ks d) x = (if x \<in> set ks \<and> P x then None else map_of d x)"
  by (induction ks arbitrary: d) (auto simp: delete_conv')

lemma distinct_delete_all:
  "distinct (map fst d) \<Longrightarrow> distinct (map fst (fold (\<lambda>k d. if P k then AList.delete k d else d) ks d))"
  by (induction ks arbitrary: d) (auto simp: distinct_delete)

lemma remove_received_checkpoints_lookup:
  "map_of (received_checkpoints (remove_received_checkpoints s (Some (v, n)))) key =
     (if ck_pp_seq_no key \<le> n then None else map_of (received_checkpoints s) key)"
  by (auto simp: remove_received_checkpoints_def map_of_delete_all is_below_3pc_key_def map_of_eq_None_iff)

lemma have_own_checkpoint_iff:
  "have_own_checkpoint s key \<longleftrightarrow> (\<exists>cp \<in> set (d_checkpoints (cs_data s)). checkpoint_key cp = key)"
  by (cases key) (auto simp: have_own_checkpoint_def list_ex_iff set_irange_key checkpoint_key_def)

lemma received_votes_data [simp]: "cs_data (fst (received_votes s key)) = cs_data s"
  by (simp add: received_votes_def split: option.splits)

lemma have_quorum_iff:
  "snd (have_quorum_on_received_checkpoint s key) \<longleftrightarrow>
     is_reached (checkpoint (quorums (cs_data s))) (int (fcard (case map_of (received_checkpoints s) key of None \<Rightarrow> {||} | Some v \<Rightarrow> v)))"
  "cs_data (fst (have_quorum_on_received_checkpoint s key)) = cs_data s"
  by (auto simp: have_quorum_on_received_checkpoint_def received_votes_def split: option.splits)

text \<open>Everything that a stabilization sets.\<close>

lemma mark_checkpoint_stable_data:
  "cs_data (fst (mark_checkpoint_stable env s n)) =
     (cs_data s)\<lparr>d_stable_checkpoint := n,
       d_checkpoints := filter (\<lambda>cp. n \<le> cp_seqNoEnd cp)
         (if irange_key cp_seqNoEnd (d_checkpoints (cs_data s)) n = []
          then cs_add env cp_seqNoEnd (d_checkpoints (cs_data s)) (create_checkpoint_from_audit_ledger env s n)
          else d_checkpoints (cs_data s)),
       d_low_watermark := n, d_high_watermark := n + LOG_SIZE env\<rparr>"
  by (simp add: mark_checkpoint_stable_def set_watermarks_def remove_received_checkpoints_def
      remove_previous_checkpoints_filter create_checkpoint_from_audit_ledger_def get_view_no_from_audit_def Let_def
      split: prod.splits option.splits)

lemma mark_checkpoint_stable_received:
  "map_of (received_checkpoints (fst (mark_checkpoint_stable env s n))) key =
     (if ck_pp_seq_no key \<le> n then None else map_of (received_checkpoints s) key)"
  by (simp add: mark_checkpoint_stable_def set_watermarks_def Let_def remove_received_checkpoints_lookup)

lemma audit_txn_loop_missing:
  "\<forall>i. 0 < i \<and> i \<le> n \<longrightarrow> au_ppSeqNo (audit_getBySeqNo env i) \<noteq> pp_seq_no \<Longrightarrow>
     audit_txn_loop env pp_seq_no n txn = ((if n = 0 then txn else Some (audit_getBySeqNo env 1)), 0)"
  by (induction n arbitrary: txn) (auto simp: Let_def)

lemma audit_txn_loop_found:
  "\<lbrakk>0 < i; i \<le> n; au_ppSeqNo (audit_getBySeqNo env i) = pp_seq_no; \<forall>j. i < j \<and> j \<le> n \<longrightarrow> au_ppSeqNo (audit_getBySeqNo env j) \<noteq> pp_seq_no\<rbrakk> \<Longrightarrow>
     audit_txn_loop env pp_seq_no n txn = (Some (audit_getBySeqNo env i), i)"
  by (induction n arbitrary: txn) (auto simp: Let_def le_Suc_eq)

section \<open>Invariant\<close>

text \<open>
  The own checkpoints are sorted and never run out, and every received one is recorded once. The
  watermarks are the log size apart; only a backup instance may have the window without an end that
  is set after a catchup. The master instance has the checkpoint it calls stable.
\<close>

definition checkpoints_ok :: "CheckpointService \<Rightarrow> bool" where
  "checkpoints_ok s \<longleftrightarrow> sorted (map cp_seqNoEnd (d_checkpoints (cs_data s))) \<and> d_checkpoints (cs_data s) \<noteq> [] \<and>
     distinct (map fst (received_checkpoints s))"

definition watermarks_ok :: "cs_env \<Rightarrow> CheckpointService \<Rightarrow> bool" where
  "watermarks_ok env s \<longleftrightarrow> d_high_watermark (cs_data s) = d_low_watermark (cs_data s) + LOG_SIZE env \<or>
     \<not> d_is_master (cs_data s) \<and> d_low_watermark (cs_data s) = 0 \<and> d_high_watermark (cs_data s) = maxsize env"

definition stable_ok :: "CheckpointService \<Rightarrow> bool" where
  "stable_ok s \<longleftrightarrow> d_is_master (cs_data s) \<longrightarrow> (\<exists>cp \<in> set (d_checkpoints (cs_data s)). cp_seqNoEnd cp = d_stable_checkpoint (cs_data s))"

definition cs_ok :: "cs_env \<Rightarrow> CheckpointService \<Rightarrow> bool" where
  "cs_ok env s \<longleftrightarrow> checkpoints_ok s \<and> watermarks_ok env s \<and> stable_ok s"

lemmas cs_ok_defs = cs_ok_def checkpoints_ok_def watermarks_ok_def stable_ok_def

lemma cs_ok_votes [simp]: "cs_ok env s \<Longrightarrow> cs_ok env (s\<lparr>received_checkpoints := AList.update key v (received_checkpoints s)\<rparr>)"
  by (simp add: cs_ok_defs distinct_update)

lemma cs_ok_received [simp]: "cs_ok env s \<Longrightarrow> cs_ok env (fst (received_votes s key))"
  by (simp add: received_votes_def split: option.splits)

lemma cs_ok_quorum [simp]: "cs_ok env s \<Longrightarrow> cs_ok env (fst (have_quorum_on_received_checkpoint s key))"
  by (simp add: have_quorum_on_received_checkpoint_def split_beta)

lemma cs_ok_watermarks:
  "cs_ok env s \<Longrightarrow> high = None \<or> \<not> d_is_master (cs_data s) \<and> low = 0 \<and> high = Some (maxsize env) \<Longrightarrow>
   cs_ok env (fst (set_watermarks env s low high))"
  by (auto simp: cs_ok_defs set_watermarks_def)

lemma cs_ok_from_3pc: "cs_ok env s \<Longrightarrow> cs_ok env (fst (update_watermark_from_3pc env s))"
  by (simp add: update_watermark_from_3pc_def cs_ok_watermarks)

text \<open>A backup instance that starts over.\<close>

lemma cs_ok_backup_reset:
  assumes "\<not> d_is_master d" "d_checkpoints d = [c]"
    and "d_high_watermark d = d_low_watermark d + LOG_SIZE env \<or> d_low_watermark d = 0 \<and> d_high_watermark d = maxsize env"
  shows "cs_ok env \<lparr>cs_data = d, received_checkpoints = []\<rparr>"
  using assms by (auto simp: cs_ok_defs)

locale checkpoint_env = sorted_adder "cs_add env" for env :: cs_env
begin

lemma cs_ok_mark: "cs_ok env s \<Longrightarrow> cs_ok env (fst (mark_checkpoint_stable env s n))"
proof -
  assume "cs_ok env s"
  then have ok: "checkpoints_ok s" by (simp add: cs_ok_def)
  let ?cps = "d_checkpoints (cs_data s)" and ?new = "create_checkpoint_from_audit_ledger env s n"
  let ?cps1 = "if irange_key cp_seqNoEnd ?cps n = [] then cs_add env cp_seqNoEnd ?cps ?new else ?cps"
  have "sorted (map cp_seqNoEnd ?cps1)" using ok sorted_sl_add by (simp add: checkpoints_ok_def)
  then have "sorted (map cp_seqNoEnd (filter (\<lambda>cp. n \<le> cp_seqNoEnd cp) ?cps1))" by (rule sorted_filter)
  moreover have "\<exists>cp \<in> set ?cps1. cp_seqNoEnd cp = n"
  proof (cases "irange_key cp_seqNoEnd ?cps n = []")
    case True
    moreover have "cp_seqNoEnd ?new = n" by (simp add: create_checkpoint_from_audit_ledger_def split: prod.splits)
    ultimately show ?thesis by (simp add: set_sl_add)
  next
    case False
    then obtain cp where "cp \<in> set (irange_key cp_seqNoEnd ?cps n)" by (meson list.set_sel(1))
    then show ?thesis using False by (auto simp: set_irange_key)
  qed
  then have "\<exists>cp \<in> set (filter (\<lambda>cp. n \<le> cp_seqNoEnd cp) ?cps1). cp_seqNoEnd cp = n" by auto
  moreover from this have "filter (\<lambda>cp. n \<le> cp_seqNoEnd cp) ?cps1 \<noteq> []" by (metis empty_iff list.set(1))
  moreover have "distinct (map fst (received_checkpoints (fst (mark_checkpoint_stable env s n))))"
    using ok by (simp add: mark_checkpoint_stable_def set_watermarks_def Let_def checkpoints_ok_def remove_received_checkpoints_def distinct_delete_all)
  ultimately show ?thesis by (simp add: cs_ok_defs mark_checkpoint_stable_data)
qed

lemma cs_ok_try: "cs_ok env s \<Longrightarrow> cs_ok env (fst (try_to_stabilize_checkpoint env s key))"
  by (simp add: try_to_stabilize_checkpoint_def cs_ok_mark split_beta)

lemma cs_ok_catchup: "cs_ok env s \<Longrightarrow> cs_ok env (fst (start_catchup_if_needed env s key))"
  by (simp add: start_catchup_if_needed_def caught_up_till_3pc_def Let_def cs_ok_mark split_beta)

lemma cs_ok_add_to_checkpoint: "cs_ok env s \<Longrightarrow> cs_ok env (fst (add_to_checkpoint env s n v root))"
proof -
  assume ok: "cs_ok env s"
  let ?s = "fst (do_checkpoint env s n v root)"
  obtain c where c: "cs_data ?s = (cs_data s)\<lparr>d_checkpoints := cs_add env cp_seqNoEnd (d_checkpoints (cs_data s)) c\<rparr>"
    "received_checkpoints ?s = received_checkpoints s" by (simp add: do_checkpoint_def Let_def)
  have "cs_add env cp_seqNoEnd (d_checkpoints (cs_data s)) c \<noteq> []" using set_sl_add [of cp_seqNoEnd "d_checkpoints (cs_data s)" c] by auto
  then have "cs_ok env ?s" using ok sorted_sl_add by (auto simp: cs_ok_defs c set_sl_add)
  then show ?thesis using ok by (simp add: add_to_checkpoint_def Let_def cs_ok_try split_beta)
qed

end

interpretation insort_cs: checkpoint_env "\<lparr>CHK_FREQ = f, LOG_SIZE = l, maxsize = m, cs_add = insort_right, audit_size = a, audit_getBySeqNo = g, audit_root = r\<rparr>" for f l m a g r
  by unfold_locales (simp_all add: mset_insort_right sorted_insort_right)

section \<open>Steps of the service\<close>

text \<open>
  One step is the handling of a message, the call of the replica, or a change that another service
  makes to the shared state outside the instance, the checkpoints and the watermarks.
\<close>

inductive cs_trans :: "cs_env \<Rightarrow> CheckpointService \<Rightarrow> CheckpointService \<Rightarrow> bool" for env where
  checkpoint: "cs_trans env s (fst (fst (process_checkpoint env s msg sender)))"
| ordered: "process_ordered env s n root = Inr (s', eff) \<Longrightarrow> cs_trans env s s'"
| backup_setup: "cs_trans env s (fst (process_backup_setup_last_ordered env s inst_id))"
| new_view: "cs_trans env s (fst (process_new_view_accepted env s view_no vcs cp batches))"
| catchup: "cs_trans env s (fst (process_catchup_finished env s last_caught_up master_last_ordered))"
| primary_done: "cs_trans env s (fst (on_propagate_primary_done env s))"
| other: "d_is_master d = d_is_master (cs_data s) \<Longrightarrow> d_checkpoints d = d_checkpoints (cs_data s) \<Longrightarrow>
    d_stable_checkpoint d = d_stable_checkpoint (cs_data s) \<Longrightarrow> d_low_watermark d = d_low_watermark (cs_data s) \<Longrightarrow>
    d_high_watermark d = d_high_watermark (cs_data s) \<Longrightarrow> cs_trans env s (s\<lparr>cs_data := d\<rparr>)"

inductive cs_reachable :: "cs_env \<Rightarrow> CheckpointService \<Rightarrow> CheckpointService \<Rightarrow> bool" for env s0 where
  start: "cs_reachable env s0 s0"
| step: "cs_reachable env s0 s \<Longrightarrow> cs_trans env s s' \<Longrightarrow> cs_reachable env s0 s'"

inductive_cases cs_transE: "cs_trans env s s'"

context checkpoint_env
begin

lemma cs_ok_process_checkpoint: "cs_ok env s \<Longrightarrow> cs_ok env (fst (fst (process_checkpoint env s msg sender)))"
  by (simp add: process_checkpoint_def Let_def cs_ok_try cs_ok_catchup split_beta)

lemma cs_ok_new_view: "cs_ok env s \<Longrightarrow> cs_ok env (fst (process_new_view_accepted env s v vcs cp bs))"
proof (cases "d_is_master (cs_data s)")
  case True
  assume "cs_ok env s"
  then show ?thesis using True
    by (simp add: process_new_view_accepted_def Let_def cs_ok_watermarks cs_ok_mark split_beta)
next
  case False
  then show ?thesis
    by (auto simp: process_new_view_accepted_def set_watermarks_def reset_checkpoints_def remove_received_checkpoints_def Let_def cs_ok_defs)
qed

lemma cs_ok_catchup_finished: "cs_ok env s \<Longrightarrow> cs_ok env (fst (process_catchup_finished env s lc ml))"
proof -
  assume ok: "cs_ok env s"
  have "cs_ok env (fst (catchup_clear_for_backup env s))" if "\<not> d_is_master (cs_data s)"
    using that by (auto simp: catchup_clear_for_backup_def set_watermarks_def reset_checkpoints_def remove_received_checkpoints_def cs_ok_defs)
  then show ?thesis using ok
    by (simp add: process_catchup_finished_def caught_up_till_3pc_def cs_ok_mark Let_def split_beta)
qed

lemma cs_ok_trans: "cs_trans env s s' \<Longrightarrow> cs_ok env s \<Longrightarrow> cs_ok env s'"
proof (induction rule: cs_trans.induct)
  case (ordered s n root s' eff)
  then show ?case using cs_ok_add_to_checkpoint by (auto simp: process_ordered_def split: option.splits) (metis fst_conv)
next
  case (other d s)
  then show ?case by (simp add: cs_ok_defs)
qed (simp_all add: cs_ok_process_checkpoint cs_ok_new_view cs_ok_catchup_finished process_backup_setup_last_ordered_def
    on_propagate_primary_done_def cs_ok_from_3pc cs_ok_watermarks)

lemma cs_ok_reachable: "cs_reachable env s0 s \<Longrightarrow> cs_ok env s0 \<Longrightarrow> cs_ok env s"
  by (induction rule: cs_reachable.induct) (auto intro: cs_ok_trans)

end

section \<open>Properties\<close>

text \<open>
  C26: whatever messages a checkpoint service handles after its start, in whatever order and with
  whatever else of the shared data other services change in between, its own checkpoints stay sorted by their sequence
  number, there is always at least one, and each received checkpoint is recorded once; the
  watermarks stay the log size apart, except on a backup instance, which may have the window from 0
  to the largest integer; and the master instance has an own checkpoint with the number that
  it calls stable.
\<close>

theorem checkpoint_service_invariant:
  assumes "checkpoint_env env"
    and "cs_reachable env \<lparr>cs_data = mk_ConsensusSharedData (cs_add env) (LOG_SIZE env) name vs i m, received_checkpoints = []\<rparr> s"
  shows "sorted (map cp_seqNoEnd (d_checkpoints (cs_data s))) \<and> d_checkpoints (cs_data s) \<noteq> [] \<and>
    distinct (map fst (received_checkpoints s)) \<and>
    (d_high_watermark (cs_data s) = d_low_watermark (cs_data s) + LOG_SIZE env \<or>
      \<not> d_is_master (cs_data s) \<and> d_low_watermark (cs_data s) = 0 \<and> d_high_watermark (cs_data s) = maxsize env) \<and>
    (d_is_master (cs_data s) \<longrightarrow> (\<exists>cp \<in> set (d_checkpoints (cs_data s)). cp_seqNoEnd cp = d_stable_checkpoint (cs_data s)))"
proof -
  let ?start = "\<lparr>cs_data = mk_ConsensusSharedData (cs_add env) (LOG_SIZE env) name vs i m, received_checkpoints = []\<rparr>"
  have "cs_add env cp_seqNoEnd [] c = [c]" for c
    using sorted_adder.mset_sl_add [OF assms(1) [unfolded checkpoint_env_def], of cp_seqNoEnd "[]" c]
    by (simp add: mset_single_iff_right)
  then have "cs_ok env ?start" by (simp add: cs_ok_defs mk_ConsensusSharedData_def set_validators_def Let_def initial_checkpoint_of_def)
  then have "cs_ok env s" by (rule checkpoint_env.cs_ok_reachable [OF assms])
  then show ?thesis by (simp add: cs_ok_defs)
qed

text \<open>A service for the examples: four nodes, a checkpoint every second batch, an audit ledger of two batches.\<close>

definition demo_cs_env :: cs_env where
  "demo_cs_env = \<lparr>CHK_FREQ = 2, LOG_SIZE = 6, maxsize = 1000, cs_add = insort_right,
     audit_size = 2, audit_getBySeqNo = (\<lambda>n. \<lparr>au_viewNo = 0, au_ppSeqNo = n\<rparr>), audit_root = (\<lambda>n. ''r'')\<rparr>"

definition demo_checkpoint :: "nat \<Rightarrow> Checkpoint" where
  "demo_checkpoint n = \<lparr>cp_instId = 0, cp_viewNo = 0, cp_seqNoStart = 0, cp_seqNoEnd = n, cp_digest = Some ''r''\<rparr>"

definition demo_cs :: CheckpointService where
  "demo_cs = \<lparr>cs_data = (mk_ConsensusSharedData insort_right 6 ''A:0'' [''A'', ''B'', ''C'', ''D''] 0 True)
      \<lparr>d_node_mode := Some Mode_participating, d_checkpoints := [initial_checkpoint_of 0, demo_checkpoint 2]\<rparr>,
     received_checkpoints = [(checkpoint_key (demo_checkpoint 2), {|''B:0''|})]\<rparr>"

lemma demo_checkpoint_env: "checkpoint_env demo_cs_env"
  unfolding demo_cs_env_def by (rule insort_cs.checkpoint_env_axioms)

theorem checkpoint_service_invariant_witness:
  "let s0 = \<lparr>cs_data = mk_ConsensusSharedData (cs_add demo_cs_env) 6 ''A:0'' [''A'', ''B'', ''C'', ''D''] 0 True, received_checkpoints = []\<rparr>;
       s = fst (process_catchup_finished demo_cs_env s0 (0, 3) (0, 0))
   in d_stable_checkpoint (cs_data s) = 2 \<and> d_low_watermark (cs_data s) = 2 \<and> d_high_watermark (cs_data s) = d_low_watermark (cs_data s) + 6 \<and>
      (\<exists>cp \<in> set (d_checkpoints (cs_data s)). cp_seqNoEnd cp = d_stable_checkpoint (cs_data s))"
proof -
  let ?start = "\<lparr>cs_data = mk_ConsensusSharedData (cs_add demo_cs_env) (LOG_SIZE demo_cs_env) ''A:0'' [''A'', ''B'', ''C'', ''D''] 0 True, received_checkpoints = []\<rparr>"
  let ?s = "fst (process_catchup_finished demo_cs_env ?start (0, 3) (0, 0))"
  have l: "LOG_SIZE demo_cs_env = 6" by (simp add: demo_cs_env_def)
  have "cs_reachable demo_cs_env ?start ?s" by (rule cs_reachable.step [OF cs_reachable.start cs_trans.catchup])
  note inv = checkpoint_service_invariant [OF demo_checkpoint_env this]
  have "d_is_master (cs_data ?s)" "d_stable_checkpoint (cs_data ?s) = 2" "d_low_watermark (cs_data ?s) = 2" by code_simp+
  then show ?thesis using inv by (simp add: Let_def l)
qed

text \<open>
  Making a checkpoint stable moves the watermarks to the window that begins at it, keeps
  exactly the own checkpoints from it on, adds it from the audit ledger if it is not there, and
  forgets the received checkpoints up to it and no others.
\<close>

theorem mark_checkpoint_stable_correct:
  assumes "checkpoint_env env" and "mark_checkpoint_stable env s n = (s', eff)"
  shows "d_stable_checkpoint (cs_data s') = n \<and> d_low_watermark (cs_data s') = n \<and> d_high_watermark (cs_data s') = n + LOG_SIZE env \<and>
    set (d_checkpoints (cs_data s')) =
      {cp \<in> set (d_checkpoints (cs_data s)). n \<le> cp_seqNoEnd cp} \<union>
      (if \<exists>cp \<in> set (d_checkpoints (cs_data s)). cp_seqNoEnd cp = n then {} else {create_checkpoint_from_audit_ledger env s n}) \<and>
    (\<exists>cp \<in> set (d_checkpoints (cs_data s')). cp_seqNoEnd cp = n) \<and>
    (\<forall>key. map_of (received_checkpoints s') key = (if ck_pp_seq_no key \<le> n then None else map_of (received_checkpoints s) key)) \<and>
    eff = [ProcessAllStashed 3, CheckpointStabilized (d_view_no (cs_data s), n)]"
proof -
  let ?cps = "d_checkpoints (cs_data s)" and ?new = "create_checkpoint_from_audit_ledger env s n"
  have s': "s' = fst (mark_checkpoint_stable env s n)" using assms(2) by simp
  have new: "cp_seqNoEnd ?new = n" by (simp add: create_checkpoint_from_audit_ledger_def split: prod.splits)
  have none: "irange_key cp_seqNoEnd ?cps n = [] \<longleftrightarrow> \<not> (\<exists>cp \<in> set ?cps. cp_seqNoEnd cp = n)"
    using set_irange_key [of cp_seqNoEnd ?cps n] by (metis (mono_tags, lifting) empty_Collect_eq set_empty)
  have "set (d_checkpoints (cs_data s')) = {cp \<in> set ?cps. n \<le> cp_seqNoEnd cp} \<union>
      (if \<exists>cp \<in> set ?cps. cp_seqNoEnd cp = n then {} else {?new})"
    using sorted_adder.set_sl_add [OF assms(1) [unfolded checkpoint_env_def], of cp_seqNoEnd ?cps ?new] new
    by (auto simp: s' mark_checkpoint_stable_data none)
  moreover from this have "\<exists>cp \<in> set (d_checkpoints (cs_data s')). cp_seqNoEnd cp = n" using new by auto
  moreover have "eff = [ProcessAllStashed 3, CheckpointStabilized (d_view_no (cs_data s), n)]"
    using assms(2) by (auto simp: mark_checkpoint_stable_def set_watermarks_def remove_received_checkpoints_def Let_def)
  ultimately show ?thesis
    using mark_checkpoint_stable_received [of env s n] by (simp add: s' mark_checkpoint_stable_data)
qed

theorem mark_checkpoint_stable_correct_witness:
  "d_stable_checkpoint (cs_data (fst (mark_checkpoint_stable demo_cs_env demo_cs 2))) = 2 \<and>
   (\<exists>cp \<in> set (d_checkpoints (cs_data (fst (mark_checkpoint_stable demo_cs_env demo_cs 2)))). cp_seqNoEnd cp = 2)"
proof -
  have "mark_checkpoint_stable demo_cs_env demo_cs 2 =
      (fst (mark_checkpoint_stable demo_cs_env demo_cs 2), snd (mark_checkpoint_stable demo_cs_env demo_cs 2))" by simp
  from mark_checkpoint_stable_correct [OF demo_checkpoint_env this] show ?thesis by blast
qed

text \<open>The votes on a checkpoint once a message for it is recorded.\<close>

definition votes_on :: "CheckpointService \<Rightarrow> CheckpointKey \<Rightarrow> string fset" where
  "votes_on s key = (case map_of (received_checkpoints s) key of None \<Rightarrow> {||} | Some v \<Rightarrow> v)"

definition votes_with :: "CheckpointService \<Rightarrow> Checkpoint \<Rightarrow> string \<Rightarrow> CheckpointKey \<Rightarrow> string fset" where
  "votes_with s msg sender key = (if key = checkpoint_key msg then finsert sender (votes_on s key) else votes_on s key)"

definition quorum_on :: "CheckpointService \<Rightarrow> CheckpointKey \<Rightarrow> bool" where
  "quorum_on s key \<longleftrightarrow> is_reached (checkpoint (quorums (cs_data s))) (int (fcard (votes_on s key)))"

definition record_vote :: "CheckpointService \<Rightarrow> Checkpoint \<Rightarrow> string \<Rightarrow> CheckpointService" where
  "record_vote s msg sender =
     (case received_votes s (checkpoint_key msg) of (s1, votes) \<Rightarrow>
        s1\<lparr>received_checkpoints := AList.update (checkpoint_key msg) (finsert sender votes) (received_checkpoints s1)\<rparr>)"

lemma record_vote_facts:
  "cs_data (record_vote s msg sender) = cs_data s" "votes_on (record_vote s msg sender) = votes_with s msg sender"
  "distinct (map fst (received_checkpoints s)) \<Longrightarrow> distinct (map fst (received_checkpoints (record_vote s msg sender)))"
  by (auto simp: record_vote_def received_votes_def votes_with_def votes_on_def update_conv' distinct_update fun_eq_iff split: option.splits)

lemma have_quorum_facts:
  "snd (have_quorum_on_received_checkpoint s key) = quorum_on s key"
  "votes_on (fst (have_quorum_on_received_checkpoint s key)) = votes_on s"
  "distinct (map fst (received_checkpoints s)) \<Longrightarrow> distinct (map fst (received_checkpoints (fst (have_quorum_on_received_checkpoint s key))))"
  by (auto simp: have_quorum_on_received_checkpoint_def received_votes_def quorum_on_def votes_on_def update_conv' distinct_update fun_eq_iff
      split: option.splits)

lemma last_unknown_max:
  assumes "keys \<noteq> []"
  shows "last_unknown keys \<in> set keys"
    "k \<in> set keys \<Longrightarrow> (ck_view_no k, ck_pp_seq_no k) \<le> (ck_view_no (last_unknown keys), ck_pp_seq_no (last_unknown keys))"
proof -
  let ?f = "\<lambda>v. (ck_view_no v, ck_pp_seq_no v)"
  have last: "sorted (map g xs) \<Longrightarrow> x \<in> set xs \<Longrightarrow> g x \<le> g (last xs)" for g :: "CheckpointKey \<Rightarrow> nat \<times> nat" and xs x
    by (induction xs rule: rev_induct) (auto simp: sorted_append simp del: less_eq_prod_simp)
  have ne: "sort_key ?f keys \<noteq> []" using assms by (metis set_sort set_empty)
  then have "last (sort_key ?f keys) \<in> set (sort_key ?f keys)" by (rule last_in_set)
  then show "last_unknown keys \<in> set keys" by (simp add: last_unknown_def)
  show "?f k \<le> ?f (last_unknown keys)" if "k \<in> set keys"
    using last [of ?f "sort_key ?f keys" k] that unfolding last_unknown_def by (simp del: less_eq_prod_simp)
qed

lemma unknown_iff:
  "k \<in> set (unknown_stabilized_checkpoints s) \<longleftrightarrow> k \<in> fst ` set (received_checkpoints s) \<and> quorum_on s k \<and>
     \<not> have_own_checkpoint s k \<and> \<not> is_below_3pc_key k (d_last_ordered_3pc (cs_data s))"
  by (simp add: unknown_stabilized_checkpoints_def have_quorum_facts)

text \<open>Two different keys among those with a quorum, the greatest of them first.\<close>

lemma unknown_two:
  assumes "distinct (map fst (received_checkpoints s))" "\<not> length (unknown_stabilized_checkpoints s) \<le> 1"
  shows "\<exists>k2 \<in> set (unknown_stabilized_checkpoints s). k2 \<noteq> last_unknown (unknown_stabilized_checkpoints s)"
proof (rule ccontr)
  let ?u = "unknown_stabilized_checkpoints s"
  assume "\<not> ?thesis"
  then have "set ?u \<subseteq> {last_unknown ?u}" by blast
  then have "card (set ?u) \<le> 1" using card_mono [of "{last_unknown ?u}" "set ?u"] by simp
  moreover have "distinct ?u" using assms(1) by (simp add: unknown_stabilized_checkpoints_def)
  ultimately show False using assms(2) by (simp add: distinct_card)
qed

lemma stabilize_own:
  assumes "have_own_checkpoint t key" "s' = fst (start_catchup_if_needed env (fst (try_to_stabilize_checkpoint env t key)) key)"
    and "d_stable_checkpoint (cs_data s') \<noteq> d_stable_checkpoint (cs_data t)"
  shows "quorum_on t key \<and> d_stable_checkpoint (cs_data s') = ck_pp_seq_no key"
proof -
  let ?q = "fst (have_quorum_on_received_checkpoint t key)"
  have own: "have_own_checkpoint ?q key" using assms(1) by (simp add: have_own_checkpoint_iff have_quorum_iff(2))
  then have tr: "fst (try_to_stabilize_checkpoint env t key) = (if quorum_on t key then fst (mark_checkpoint_stable env ?q (ck_pp_seq_no key)) else ?q)"
    by (simp add: try_to_stabilize_checkpoint_def have_quorum_facts split_beta)
  obtain cp where cp: "cp \<in> set (d_checkpoints (cs_data t))" "checkpoint_key cp = key" using assms(1) by (auto simp: have_own_checkpoint_iff)
  then have "irange_key cp_seqNoEnd (d_checkpoints (cs_data t)) (ck_pp_seq_no key) \<noteq> []"
    using set_irange_key [of cp_seqNoEnd "d_checkpoints (cs_data t)" "ck_pp_seq_no key"] by (auto simp: checkpoint_key_def)
  then have "have_own_checkpoint (fst (mark_checkpoint_stable env ?q (ck_pp_seq_no key))) key"
    using cp by (auto simp: have_own_checkpoint_iff mark_checkpoint_stable_data have_quorum_iff(2) checkpoint_key_def)
  then show ?thesis
    using assms(2,3) own by (auto simp: tr start_catchup_if_needed_def mark_checkpoint_stable_data have_quorum_iff(2) split: if_splits)
qed

lemma stabilize_unknown:
  assumes "\<not> have_own_checkpoint t key" "s' = fst (start_catchup_if_needed env (fst (try_to_stabilize_checkpoint env t key)) key)"
    and "d_stable_checkpoint (cs_data s') \<noteq> d_stable_checkpoint (cs_data t)" "distinct (map fst (received_checkpoints t))"
  shows "\<not> d_is_master (cs_data t) \<and>
    (\<exists>k1 k2. k1 \<noteq> k2 \<and> (ck_view_no k2, ck_pp_seq_no k2) \<le> (ck_view_no k1, ck_pp_seq_no k1) \<and>
      (\<forall>k \<in> {k1, k2}. quorum_on t k \<and> \<not> have_own_checkpoint t k \<and> \<not> is_below_3pc_key k (d_last_ordered_3pc (cs_data t))) \<and>
      d_stable_checkpoint (cs_data s') = ck_pp_seq_no k1 div CHK_FREQ env * CHK_FREQ env)"
proof -
  let ?q = "fst (have_quorum_on_received_checkpoint t key)"
  let ?u = "unknown_stabilized_checkpoints ?q"
  have d: "cs_data ?q = cs_data t" by (rule have_quorum_iff(2))
  have own: "have_own_checkpoint ?q k = have_own_checkpoint t k" "quorum_on ?q k = quorum_on t k" for k
    by (simp_all add: have_own_checkpoint_iff quorum_on_def d have_quorum_facts(2))
  then have "fst (try_to_stabilize_checkpoint env t key) = ?q" using assms(1) by (simp add: try_to_stabilize_checkpoint_def split_beta)
  then have m: "\<not> d_is_master (cs_data t)" and len: "\<not> length ?u \<le> 1"
    and st: "d_stable_checkpoint (cs_data s') = ck_pp_seq_no (last_unknown ?u) div CHK_FREQ env * CHK_FREQ env"
    using assms(1-3) by (auto simp: start_catchup_if_needed_def own d Let_def split_beta caught_up_till_3pc_def mark_checkpoint_stable_data
        STASHED_CHECKPOINTS_BEFORE_CATCHUP_def split: if_splits)
  obtain k2 where k2: "k2 \<in> set ?u" "k2 \<noteq> last_unknown ?u" using unknown_two [OF have_quorum_facts(3) [OF assms(4)] len] by blast
  have k1: "last_unknown ?u \<in> set ?u" using len by (intro last_unknown_max(1)) auto
  have "(ck_view_no k2, ck_pp_seq_no k2) \<le> (ck_view_no (last_unknown ?u), ck_pp_seq_no (last_unknown ?u))"
    using len k2(1) by (intro last_unknown_max(2)) auto
  then show ?thesis using m st k1 k2 by (intro conjI exI [of _ "last_unknown ?u"] exI [of _ k2]) (auto simp: unknown_iff own d)
qed

text \<open>
  C9: the stable checkpoint changes by a checkpoint message only on a checkpoint quorum of different
  nodes, in one of two ways. Either the replica has made the checkpoint of the message itself, a
  quorum with the sender has sent it, and the stable checkpoint moves forward to it. Or, on a
  backup instance only, the replica does not have it, and quorums have sent two different
  checkpoints beyond what the replica has ordered and made; then the stable checkpoint becomes the
  last multiple of the checkpoint frequency up to the greatest of them. Received checkpoints are
  recorded once each, as they are in every reachable state.
\<close>

theorem stabilization_needs_quorum:
  assumes "distinct (map fst (received_checkpoints s))" and "process_checkpoint env s msg sender = ((s', eff), answer)"
    and "d_stable_checkpoint (cs_data s') \<noteq> d_stable_checkpoint (cs_data s)"
  shows "(\<exists>cp \<in> set (d_checkpoints (cs_data s)). checkpoint_key cp = checkpoint_key msg) \<and>
      is_reached (checkpoint (quorums (cs_data s))) (int (fcard (votes_with s msg sender (checkpoint_key msg)))) \<and>
      d_stable_checkpoint (cs_data s) < cp_seqNoEnd msg \<and> d_stable_checkpoint (cs_data s') = cp_seqNoEnd msg
    \<or> \<not> d_is_master (cs_data s) \<and> \<not> (\<exists>cp \<in> set (d_checkpoints (cs_data s)). checkpoint_key cp = checkpoint_key msg) \<and>
      (\<exists>k1 k2. k1 \<noteq> k2 \<and> (ck_view_no k2, ck_pp_seq_no k2) \<le> (ck_view_no k1, ck_pp_seq_no k1) \<and>
        (\<forall>k \<in> {k1, k2}. is_reached (checkpoint (quorums (cs_data s))) (int (fcard (votes_with s msg sender k))) \<and>
           \<not> (\<exists>cp \<in> set (d_checkpoints (cs_data s)). checkpoint_key cp = k) \<and> \<not> is_below_3pc_key k (d_last_ordered_3pc (cs_data s))) \<and>
        d_stable_checkpoint (cs_data s') = ck_pp_seq_no k1 div CHK_FREQ env * CHK_FREQ env)"
proof -
  let ?key = "checkpoint_key msg" and ?t = "record_vote s msg sender"
  note t = record_vote_facts(1,2) [of s msg sender] record_vote_facts(3) [OF assms(1), of msg sender]
  have own: "have_own_checkpoint ?t k = (\<exists>cp \<in> set (d_checkpoints (cs_data s)). checkpoint_key cp = k)"
    and q: "quorum_on ?t k = is_reached (checkpoint (quorums (cs_data s))) (int (fcard (votes_with s msg sender k)))" for k
    by (simp_all add: have_own_checkpoint_iff quorum_on_def t)
  have proc: "validate_checkpoint (cs_data s) msg = (V_PROCESS, None)"
    using assms(2,3) validate_checkpoint_cases(2) [of "cs_data s" msg] by (auto simp: process_checkpoint_def split: prod.splits if_splits)
  then have s': "s' = fst (start_catchup_if_needed env (fst (try_to_stabilize_checkpoint env ?t ?key)) ?key)"
    using assms(2) by (simp add: process_checkpoint_def record_vote_def Let_def split_beta)
  have st: "d_stable_checkpoint (cs_data s') \<noteq> d_stable_checkpoint (cs_data ?t)" using assms(3) by (simp add: t)
  show ?thesis
  proof (cases "have_own_checkpoint ?t ?key")
    case True
    then show ?thesis using stabilize_own [OF True s' st] proc unfolding own q
      by (simp add: checkpoint_key_def validate_checkpoint_process_iff)
  next
    case False
    then show ?thesis using stabilize_unknown [OF False s' st t(3)] unfolding own q t(1) by blast
  qed
qed

theorem stabilization_needs_quorum_witness:
  "d_stable_checkpoint (cs_data (fst (fst (process_checkpoint demo_cs_env demo_cs (demo_checkpoint 2) ''C:0'')))) = 2 \<and>
   is_reached (checkpoint (quorums (cs_data demo_cs))) (int (fcard {|''B:0'', ''C:0''|}))"
proof -
  let ?p = "process_checkpoint demo_cs_env demo_cs (demo_checkpoint 2) ''C:0''"
  have p: "?p = ((fst (fst ?p), snd (fst ?p)), snd ?p)" by simp
  have "d_stable_checkpoint (cs_data (fst (fst ?p))) \<noteq> d_stable_checkpoint (cs_data demo_cs)" "d_is_master (cs_data demo_cs)"
    "distinct (map fst (received_checkpoints demo_cs))" by code_simp+
  then have "d_stable_checkpoint (cs_data (fst (fst ?p))) = cp_seqNoEnd (demo_checkpoint 2)"
    "is_reached (checkpoint (quorums (cs_data demo_cs))) (int (fcard (votes_with demo_cs (demo_checkpoint 2) ''C:0'' (checkpoint_key (demo_checkpoint 2)))))"
    using stabilization_needs_quorum [OF _ p] by blast+
  then show ?thesis by (simp add: demo_checkpoint_def demo_cs_def votes_with_def votes_on_def finsert_commute)
qed

text \<open>
  A checkpoint that is made from an audit ledger without its sequence number gets the view of
  the first transaction of the ledger, not the current view, and no digest.
\<close>

theorem missing_audit_txn_view:
  assumes "0 < audit_size env" and "\<forall>i. 0 < i \<and> i \<le> audit_size env \<longrightarrow> au_ppSeqNo (audit_getBySeqNo env i) \<noteq> n"
  shows "cp_viewNo (create_checkpoint_from_audit_ledger env s n) = au_viewNo (audit_getBySeqNo env 1) \<and>
    cp_digest (create_checkpoint_from_audit_ledger env s n) = None"
  using assms audit_txn_loop_missing [of "audit_size env" env n None]
  by (simp add: create_checkpoint_from_audit_ledger_def audit_txn_by_pp_seq_no_def get_view_no_from_audit_def get_digest_from_audit_def)

theorem missing_audit_txn_view_witness:
  "d_view_no (cs_data (demo_cs\<lparr>cs_data := (cs_data demo_cs)\<lparr>d_view_no := 7\<rparr>\<rparr>)) = 7 \<and>
   cp_viewNo (create_checkpoint_from_audit_ledger demo_cs_env (demo_cs\<lparr>cs_data := (cs_data demo_cs)\<lparr>d_view_no := 7\<rparr>\<rparr>) 4) = 0"
  using missing_audit_txn_view [of demo_cs_env 4 "demo_cs\<lparr>cs_data := (cs_data demo_cs)\<lparr>d_view_no := 7\<rparr>\<rparr>"]
  by (simp add: demo_cs_env_def)

end
