(* ===== verification/New_View_Builder.thy ===== *)
theory New_View_Builder
  imports Node_Messages
begin

text \<open>
  The class \<^verbatim>\<open>NewViewBuilder\<close> of \<^verbatim>\<open>plenum/server/consensus/view_change_service.py\<close>: which
  checkpoint a new view starts from and which batches it re-orders, computed from the view
  change votes. What it reads of the shared data are the quorums and the log size.
\<close>

section \<open>Definitions\<close>

fun calc_checkpoint_candidates ::
  "Quorums \<Rightarrow> ViewChange list \<Rightarrow> Checkpoint list \<Rightarrow> Checkpoint list \<Rightarrow> Checkpoint list" where
  "calc_checkpoint_candidates q vcs checkpoints [] = checkpoints"
| "calc_checkpoint_candidates q vcs checkpoints (cur_cp # cps) =
     calc_checkpoint_candidates q vcs
       (if cur_cp \<in> set checkpoints then checkpoints
        else if \<not> is_reached (strong q) (int (length (filter (\<lambda>vc. cp_seqNoEnd cur_cp \<ge> vc_stableCheckpoint vc) vcs)))
          then checkpoints
        else if \<not> is_reached (strong q) (int (length (filter (\<lambda>vc. cur_cp \<in> set (vc_checkpoints vc)) vcs)))
          then checkpoints
        else checkpoints @ [cur_cp]) cps"

fun highest_checkpoint :: "Checkpoint option \<Rightarrow> Checkpoint list \<Rightarrow> Checkpoint option" where
  "highest_checkpoint highest_cp [] = highest_cp"
| "highest_checkpoint highest_cp (cp # cps) =
     highest_checkpoint
       (case highest_cp of
          None \<Rightarrow> Some cp
        | Some h \<Rightarrow> if cp_seqNoEnd cp > cp_seqNoEnd h then Some cp else Some h) cps"

definition calc_checkpoint :: "Quorums \<Rightarrow> ViewChange list \<Rightarrow> Checkpoint option" where
  "calc_checkpoint q vcs =
     highest_checkpoint None (calc_checkpoint_candidates q vcs [] (concat (map vc_checkpoints vcs)))"

text \<open>The inner \<^verbatim>\<open>check\<close> of \<^verbatim>\<open>_is_batch_prepared\<close>: a loop that returns early.\<close>

fun check_prepared_bids :: "BatchID \<Rightarrow> BatchID list \<Rightarrow> bool" where
  "check_prepared_bids bid [] = True"
| "check_prepared_bids bid (some_bid # bids) =
     (if b_pp_seq_no some_bid \<noteq> b_pp_seq_no bid then check_prepared_bids bid bids
      else if b_view_no some_bid > b_view_no bid then False
      else if b_view_no some_bid \<ge> b_view_no bid \<and> b_pp_digest some_bid \<noteq> b_pp_digest bid then False
      else if b_view_no some_bid \<ge> b_view_no bid \<and> b_pp_view_no some_bid \<noteq> b_pp_view_no bid then False
      else check_prepared_bids bid bids)"

definition check_prepared :: "BatchID \<Rightarrow> ViewChange \<Rightarrow> bool" where
  "check_prepared bid vc =
     (if b_pp_seq_no bid \<le> vc_stableCheckpoint vc then False else check_prepared_bids bid (vc_prepared vc))"

definition is_batch_prepared :: "Quorums \<Rightarrow> BatchID \<Rightarrow> ViewChange list \<Rightarrow> bool" where
  "is_batch_prepared q bid vcs = is_reached (strong q) (int (length (filter (check_prepared bid) vcs)))"

fun check_preprepared_bids :: "BatchID \<Rightarrow> BatchID list \<Rightarrow> bool" where
  "check_preprepared_bids bid [] = False"
| "check_preprepared_bids bid (some_bid # bids) =
     (if b_pp_seq_no some_bid \<noteq> b_pp_seq_no bid then check_preprepared_bids bid bids
      else if b_pp_view_no some_bid \<noteq> b_pp_view_no bid then check_preprepared_bids bid bids
      else if b_pp_digest some_bid \<noteq> b_pp_digest bid then check_preprepared_bids bid bids
      else if b_view_no some_bid \<ge> b_view_no bid then True
      else check_preprepared_bids bid bids)"

definition is_batch_preprepared :: "Quorums \<Rightarrow> BatchID \<Rightarrow> ViewChange list \<Rightarrow> bool" where
  "is_batch_preprepared q bid vcs =
     is_reached (weak q) (int (length (filter (\<lambda>vc. check_preprepared_bids bid (vc_preprepared vc)) vcs)))"

definition check_null :: "nat \<Rightarrow> ViewChange \<Rightarrow> bool" where
  "check_null pp_seq_no vc =
     (if pp_seq_no \<le> vc_stableCheckpoint vc then False
      else \<not> list_ex (\<lambda>some_bid. b_pp_seq_no some_bid = pp_seq_no) (vc_prepared vc))"

definition check_null_batch :: "Quorums \<Rightarrow> ViewChange list \<Rightarrow> nat \<Rightarrow> bool" where
  "check_null_batch q vcs pp_seq_no = is_reached (strong q) (int (length (filter (check_null pp_seq_no) vcs)))"

definition try_find_batch_for_pp_seq_no :: "Quorums \<Rightarrow> ViewChange list \<Rightarrow> nat \<Rightarrow> BatchID option" where
  "try_find_batch_for_pp_seq_no q vcs pp_seq_no =
     List.find (\<lambda>bid. b_pp_seq_no bid = pp_seq_no \<and> is_batch_prepared q bid vcs \<and> is_batch_preprepared q bid vcs)
       (concat (map vc_prepared vcs))"

text \<open>The \<^verbatim>\<open>while\<close> loop over the sequence numbers up to the end of the log.\<close>

function calc_batches_loop ::
  "Quorums \<Rightarrow> nat \<Rightarrow> ViewChange list \<Rightarrow> nat \<Rightarrow> BatchID list \<Rightarrow> BatchID list option" where
  "calc_batches_loop q last_seq_no vcs pp_seq_no batches =
     (if pp_seq_no \<le> last_seq_no then
        (case try_find_batch_for_pp_seq_no q vcs pp_seq_no of
           Some bid \<Rightarrow> calc_batches_loop q last_seq_no vcs (pp_seq_no + 1) (List.insert bid batches)
         | None \<Rightarrow> if check_null_batch q vcs pp_seq_no then Some batches else None)
      else Some batches)"
  by pat_completeness auto
termination by (relation "measure (\<lambda>(q, l, vcs, n, bs). Suc l - n)") auto

declare calc_batches_loop.simps [simp del]

definition calc_batches :: "Quorums \<Rightarrow> nat \<Rightarrow> Checkpoint \<Rightarrow> ViewChange list \<Rightarrow> BatchID list option" where
  "calc_batches q log_size cp vcs =
     map_option sorted_bids (calc_batches_loop q (cp_seqNoEnd cp + log_size) vcs (cp_seqNoEnd cp + 1) [])"

section \<open>The checkpoint\<close>

definition candidate_checkpoint :: "Quorums \<Rightarrow> ViewChange list \<Rightarrow> Checkpoint \<Rightarrow> bool" where
  "candidate_checkpoint q vcs cp \<longleftrightarrow>
     (\<exists>vc \<in> set vcs. cp \<in> set (vc_checkpoints vc)) \<and>
     is_reached (strong q) (int (length (filter (\<lambda>vc. cp_seqNoEnd cp \<ge> vc_stableCheckpoint vc) vcs))) \<and>
     is_reached (strong q) (int (length (filter (\<lambda>vc. cp \<in> set (vc_checkpoints vc)) vcs)))"

lemma set_calc_checkpoint_candidates:
  "set (calc_checkpoint_candidates q vcs acc cps) =
     set acc \<union> {cp \<in> set cps.
       is_reached (strong q) (int (length (filter (\<lambda>vc. cp_seqNoEnd cp \<ge> vc_stableCheckpoint vc) vcs))) \<and>
       is_reached (strong q) (int (length (filter (\<lambda>vc. cp \<in> set (vc_checkpoints vc)) vcs)))}"
  by (induction cps arbitrary: acc) auto

lemma candidates_iff:
  "cp \<in> set (calc_checkpoint_candidates q vcs [] (concat (map vc_checkpoints vcs))) \<longleftrightarrow> candidate_checkpoint q vcs cp"
  by (auto simp: set_calc_checkpoint_candidates candidate_checkpoint_def)

lemma highest_checkpoint_Some:
  "highest_checkpoint (Some h) cps = Some c \<Longrightarrow>
   c \<in> insert h (set cps) \<and> cp_seqNoEnd h \<le> cp_seqNoEnd c \<and> (\<forall>x \<in> set cps. cp_seqNoEnd x \<le> cp_seqNoEnd c)"
proof (induction cps arbitrary: h)
  case (Cons x cps)
  show ?case
  proof (cases "cp_seqNoEnd x > cp_seqNoEnd h")
    case True
    then show ?thesis using Cons.IH [of x] Cons.prems by auto
  next
    case False
    then show ?thesis using Cons.IH [of h] Cons.prems by auto
  qed
qed simp

lemma highest_checkpoint_total: "\<exists>c. highest_checkpoint (Some h) cps = Some c"
  by (induction cps arbitrary: h) auto

lemma highest_checkpoint_None_iff: "highest_checkpoint None cps = None \<longleftrightarrow> cps = []"
proof (cases cps)
  case (Cons x xs)
  then show ?thesis using highest_checkpoint_total [of x xs] by auto
qed simp

lemma highest_checkpoint_max:
  "highest_checkpoint None cps = Some c \<Longrightarrow> c \<in> set cps \<and> (\<forall>x \<in> set cps. cp_seqNoEnd x \<le> cp_seqNoEnd c)"
  by (cases cps) (auto dest!: highest_checkpoint_Some)

section \<open>The batches\<close>

lemma check_prepared_bids_iff:
  "check_prepared_bids bid bids \<longleftrightarrow>
     (\<forall>b \<in> set bids. b_pp_seq_no b = b_pp_seq_no bid \<longrightarrow>
        b_view_no b < b_view_no bid \<or>
        b_view_no b = b_view_no bid \<and> b_pp_digest b = b_pp_digest bid \<and> b_pp_view_no b = b_pp_view_no bid)"
  by (induction bids) auto

lemma check_preprepared_bids_iff:
  "check_preprepared_bids bid bids \<longleftrightarrow>
     (\<exists>b \<in> set bids. b_pp_seq_no b = b_pp_seq_no bid \<and> b_pp_view_no b = b_pp_view_no bid \<and>
        b_pp_digest b = b_pp_digest bid \<and> b_view_no bid \<le> b_view_no b)"
  by (induction bids) auto

lemma check_null_iff:
  "check_null n vc \<longleftrightarrow> vc_stableCheckpoint vc < n \<and> (\<forall>b \<in> set (vc_prepared vc). b_pp_seq_no b \<noteq> n)"
  by (auto simp: check_null_def list_ex_iff)

lemma find_SomeD: "List.find P xs = Some x \<Longrightarrow> P x \<and> x \<in> set xs"
  by (auto simp: find_Some_iff)

lemma try_find_Some:
  "try_find_batch_for_pp_seq_no q vcs n = Some bid \<Longrightarrow>
   b_pp_seq_no bid = n \<and> is_batch_prepared q bid vcs \<and> is_batch_preprepared q bid vcs \<and>
   (\<exists>vc \<in> set vcs. bid \<in> set (vc_prepared vc))"
  by (auto simp: try_find_batch_for_pp_seq_no_def dest!: find_SomeD)

text \<open>The loop collects one batch per sequence number, without a gap.\<close>

lemma calc_batches_loop_spec:
  assumes "calc_batches_loop q l vcs n bs = Some bs'" and "distinct bs" and "\<forall>b \<in> set bs. b_pp_seq_no b < n"
  shows "\<exists>k. distinct bs' \<and> length bs' = length bs + k \<and> n + k \<le> max n (Suc l) \<and>
    set bs' = set bs \<union> (\<lambda>i. the (try_find_batch_for_pp_seq_no q vcs i)) ` {n..<n + k} \<and>
    (\<forall>i \<in> {n..<n + k}. try_find_batch_for_pp_seq_no q vcs i \<noteq> None) \<and>
    (n + k \<le> l \<longrightarrow> try_find_batch_for_pp_seq_no q vcs (n + k) = None \<and> check_null_batch q vcs (n + k))"
  using assms
proof (induction q l vcs n bs arbitrary: bs' rule: calc_batches_loop.induct)
  case (1 q l vcs n bs)
  show ?case
  proof (cases "n \<le> l \<and> try_find_batch_for_pp_seq_no q vcs n \<noteq> None")
    case False
    then have "bs' = bs" "n \<le> l \<longrightarrow> try_find_batch_for_pp_seq_no q vcs n = None \<and> check_null_batch q vcs n"
      using 1(2) by (auto simp: calc_batches_loop.simps [of q l vcs n] split: if_splits option.splits)
    then show ?thesis using 1(3) by (intro exI [of _ 0]) auto
  next
    case True
    then obtain bid where bid: "try_find_batch_for_pp_seq_no q vcs n = Some bid" "n \<le> l" by auto
    have seq: "b_pp_seq_no bid = n" using try_find_Some [OF bid(1)] by simp
    then have notin: "bid \<notin> set bs" using 1(4) by auto
    have rec: "calc_batches_loop q l vcs (n + 1) (List.insert bid bs) = Some bs'"
      using 1(2) bid by (simp add: calc_batches_loop.simps [of q l vcs n])
    have "distinct (List.insert bid bs)" "\<forall>b \<in> set (List.insert bid bs). b_pp_seq_no b < n + 1"
      using 1(3,4) seq by (auto simp: distinct_insert less_Suc_eq)
    from "1.IH" [OF bid(2,1) rec this] obtain k where k: "distinct bs'" "length bs' = length (List.insert bid bs) + k"
      "n + 1 + k \<le> max (n + 1) (Suc l)"
      "set bs' = set (List.insert bid bs) \<union> (\<lambda>i. the (try_find_batch_for_pp_seq_no q vcs i)) ` {n + 1..<n + 1 + k}"
      "\<forall>i \<in> {n + 1..<n + 1 + k}. try_find_batch_for_pp_seq_no q vcs i \<noteq> None"
      "n + 1 + k \<le> l \<longrightarrow> try_find_batch_for_pp_seq_no q vcs (n + 1 + k) = None \<and> check_null_batch q vcs (n + 1 + k)"
      by blast
    have iv: "{n..<Suc (n + k)} = insert n {Suc n..<Suc (n + k)}" by auto
    show ?thesis
      using k bid notin by (intro exI [of _ "Suc k"]) (simp add: iv)
  qed
qed

lemma calc_batches_spec:
  assumes "calc_batches q log_size cp vcs = Some bs"
  shows "\<exists>k \<le> log_size. distinct bs \<and> length bs = k \<and>
    set bs = (\<lambda>i. the (try_find_batch_for_pp_seq_no q vcs i)) ` {cp_seqNoEnd cp + 1..<cp_seqNoEnd cp + 1 + k} \<and>
    (\<forall>i \<in> {cp_seqNoEnd cp + 1..<cp_seqNoEnd cp + 1 + k}. try_find_batch_for_pp_seq_no q vcs i \<noteq> None) \<and>
    (k < log_size \<longrightarrow> check_null_batch q vcs (cp_seqNoEnd cp + 1 + k))"
proof -
  obtain bs' where bs': "calc_batches_loop q (cp_seqNoEnd cp + log_size) vcs (cp_seqNoEnd cp + 1) [] = Some bs'" "bs = sorted_bids bs'"
    using assms by (auto simp: calc_batches_def)
  from calc_batches_loop_spec [OF bs'(1)] have "\<exists>k. distinct bs' \<and> length bs' = k \<and>
    cp_seqNoEnd cp + 1 + k \<le> max (cp_seqNoEnd cp + 1) (Suc (cp_seqNoEnd cp + log_size)) \<and>
    set bs' = (\<lambda>i. the (try_find_batch_for_pp_seq_no q vcs i)) ` {cp_seqNoEnd cp + 1..<cp_seqNoEnd cp + 1 + k} \<and>
    (\<forall>i \<in> {cp_seqNoEnd cp + 1..<cp_seqNoEnd cp + 1 + k}. try_find_batch_for_pp_seq_no q vcs i \<noteq> None) \<and>
    (cp_seqNoEnd cp + 1 + k \<le> cp_seqNoEnd cp + log_size \<longrightarrow> check_null_batch q vcs (cp_seqNoEnd cp + 1 + k))"
    by simp
  then obtain k where "distinct bs'" "length bs' = k"
    "cp_seqNoEnd cp + 1 + k \<le> max (cp_seqNoEnd cp + 1) (Suc (cp_seqNoEnd cp + log_size))"
    "set bs' = (\<lambda>i. the (try_find_batch_for_pp_seq_no q vcs i)) ` {cp_seqNoEnd cp + 1..<cp_seqNoEnd cp + 1 + k}"
    "\<forall>i \<in> {cp_seqNoEnd cp + 1..<cp_seqNoEnd cp + 1 + k}. try_find_batch_for_pp_seq_no q vcs i \<noteq> None"
    "cp_seqNoEnd cp + 1 + k \<le> cp_seqNoEnd cp + log_size \<longrightarrow> check_null_batch q vcs (cp_seqNoEnd cp + 1 + k)"
    by blast
  then show ?thesis using bs'(2) by (intro exI [of _ k]) simp
qed

section \<open>Committed batches survive a view change\<close>

text \<open>The nodes whose vote satisfies a predicate.\<close>

definition supporters :: "(string \<times> ViewChange) list \<Rightarrow> (ViewChange \<Rightarrow> bool) \<Rightarrow> string set" where
  "supporters votes P = {p. \<exists>vc. (p, vc) \<in> set votes \<and> P vc}"

lemma card_supporters:
  "distinct (map fst votes) \<Longrightarrow> length (filter P (map snd votes)) = card (supporters votes P)"
proof -
  assume d: "distinct (map fst votes)"
  have "supporters votes P = set (map fst (filter (P \<circ> snd) votes))"
    by (force simp: supporters_def)
  moreover have "distinct (map fst (filter (P \<circ> snd) votes))" using d by (rule distinct_map_filter)
  ultimately have "card (supporters votes P) = length (map fst (filter (P \<circ> snd) votes))"
    by (simp only: distinct_card)
  then show ?thesis by (simp add: filter_map)
qed

text \<open>
  A batch was committed by the quorum \<open>C\<close> in an earlier view, as the votes of the correct nodes
  tell: a node of the quorum that has not yet stabilised a checkpoint beyond the batch reports
  it as prepared, in the view of the commit or a later one, and reports no other batch under
  its number; and no correct node reports another batch under its number as pre-prepared in a
  later view.
\<close>

definition committed_batch ::
  "string set \<Rightarrow> string set \<Rightarrow> (string \<times> ViewChange) list \<Rightarrow> string set \<Rightarrow> BatchID \<Rightarrow> bool" where
  "committed_batch V F votes C bid \<longleftrightarrow>
     C \<subseteq> V \<and> is_reached (commit (mk_Quorums (int (card V)))) (int (card C)) \<and>
     (\<forall>p \<in> C - F. \<forall>vc. (p, vc) \<in> set votes \<and> vc_stableCheckpoint vc < b_pp_seq_no bid \<longrightarrow>
        (\<exists>b \<in> set (vc_prepared vc). b_pp_seq_no b = b_pp_seq_no bid) \<and>
        (\<forall>b \<in> set (vc_prepared vc). b_pp_seq_no b = b_pp_seq_no bid \<longrightarrow>
           b_view_no bid \<le> b_view_no b \<and> b_pp_digest b = b_pp_digest bid \<and> b_pp_view_no b = b_pp_view_no bid)) \<and>
     (\<forall>p \<in> V - F. \<forall>vc. (p, vc) \<in> set votes \<longrightarrow>
        (\<forall>b \<in> set (vc_preprepared vc). b_pp_seq_no b = b_pp_seq_no bid \<and> b_view_no bid < b_view_no b \<longrightarrow>
           b_pp_digest b = b_pp_digest bid \<and> b_pp_view_no b = b_pp_view_no bid))"

text \<open>A pool with its faulty nodes and the votes of a view change.\<close>

definition vote_setting :: "string set \<Rightarrow> string set \<Rightarrow> (string \<times> ViewChange) list \<Rightarrow> bool" where
  "vote_setting V F votes \<longleftrightarrow>
     finite V \<and> V \<noteq> {} \<and> F \<subseteq> V \<and> int (card F) \<le> getMaxFailures (int (card V)) \<and>
     distinct (map fst votes) \<and> fst ` set votes \<subseteq> V"

lemma strong_supporters_meet:
  assumes s: "vote_setting V F votes" and C: "C \<subseteq> V" "is_reached (strong (mk_Quorums (int (card V)))) (int (card C))"
    and P: "is_reached (strong (mk_Quorums (int (card V)))) (int (length (filter P (map snd votes))))"
  obtains p vc where "p \<in> C - F" "(p, vc) \<in> set votes" "P vc"
proof -
  have fin: "finite V" "V \<noteq> {}" "finite F" "supporters votes P \<subseteq> V"
    using s by (auto simp: vote_setting_def supporters_def intro: finite_subset)
  have "distinct (map fst votes)" using s by (simp add: vote_setting_def)
  note P = P [unfolded card_supporters [OF this]]
  have "\<exists>a \<in> supporters votes P \<inter> C. a \<notin> F"
    using pool.strong_share_correct [OF fin(1,4) C(1) fin(2) _ _ fin(3)] s C(2) P
    by (simp add: vote_setting_def q_value_le_iff)
  then show ?thesis using that by (auto simp: supporters_def)
qed

lemma weak_supporters_correct:
  assumes s: "vote_setting V F votes"
    and P: "is_reached (weak (mk_Quorums (int (card V)))) (int (length (filter P (map snd votes))))"
  obtains p vc where "p \<in> V - F" "(p, vc) \<in> set votes" "P vc"
proof -
  have fin: "finite V" "V \<noteq> {}" "finite F" "supporters votes P \<subseteq> V"
    using s by (auto simp: vote_setting_def supporters_def intro: finite_subset)
  have "distinct (map fst votes)" using s by (simp add: vote_setting_def)
  note P = P [unfolded card_supporters [OF this]]
  have n: "1 \<le> int (card V)" using fin by (simp add: Suc_leI card_gt_0_iff)
  have "\<exists>a \<in> supporters votes P. a \<notin> F"
    using pool.weak_has_correct [OF finite_subset [OF fin(4,1)] n _ _ fin(3)] s P
    by (simp add: vote_setting_def q_value_le_iff)
  then show ?thesis using that fin(4) by (auto simp: supporters_def)
qed

lemma committed_not_null:
  assumes s: "vote_setting V F votes" and c: "committed_batch V F votes C bid"
  shows "\<not> check_null_batch (mk_Quorums (int (card V))) (map snd votes) (b_pp_seq_no bid)"
proof
  assume n: "check_null_batch (mk_Quorums (int (card V))) (map snd votes) (b_pp_seq_no bid)"
  have C: "C \<subseteq> V" "is_reached (strong (mk_Quorums (int (card V)))) (int (card C))"
    using c by (simp_all add: committed_batch_def)
  from strong_supporters_meet [OF s C n [unfolded check_null_batch_def]] obtain p vc where
    "p \<in> C - F" "(p, vc) \<in> set votes" "check_null (b_pp_seq_no bid) vc" by blast
  then show False using c unfolding committed_batch_def check_null_iff by blast
qed

lemma committed_only_choice:
  assumes s: "vote_setting V F votes" and c: "committed_batch V F votes C bid"
    and f: "try_find_batch_for_pp_seq_no (mk_Quorums (int (card V))) (map snd votes) (b_pp_seq_no bid) = Some b"
  shows "b_pp_seq_no b = b_pp_seq_no bid \<and> b_pp_digest b = b_pp_digest bid \<and> b_pp_view_no b = b_pp_view_no bid"
proof -
  note b = try_find_Some [OF f]
  have C: "C \<subseteq> V" "is_reached (strong (mk_Quorums (int (card V)))) (int (card C))"
    using c by (simp_all add: committed_batch_def)
  obtain p vc where p: "p \<in> C - F" "(p, vc) \<in> set votes" "check_prepared b vc"
    using strong_supporters_meet [OF s C] b by (auto simp: is_batch_prepared_def)
  then have st: "vc_stableCheckpoint vc < b_pp_seq_no bid" and chk: "check_prepared_bids b (vc_prepared vc)"
    using b by (auto simp: check_prepared_def split: if_splits)
  then obtain b' where b': "b' \<in> set (vc_prepared vc)" "b_pp_seq_no b' = b_pp_seq_no bid" "b_view_no bid \<le> b_view_no b'"
    "b_pp_digest b' = b_pp_digest bid" "b_pp_view_no b' = b_pp_view_no bid"
    using c p(1,2) unfolding committed_batch_def by blast
  then consider "b_view_no bid < b_view_no b" | "b_pp_digest b = b_pp_digest bid" "b_pp_view_no b = b_pp_view_no bid"
    using chk b by (force simp: check_prepared_bids_iff)
  then show ?thesis
  proof cases
    case 1
    obtain p vc where p: "p \<in> V - F" "(p, vc) \<in> set votes" "check_preprepared_bids b (vc_preprepared vc)"
      using weak_supporters_correct [OF s] b by (auto simp: is_batch_preprepared_def)
    then obtain b'' where "b'' \<in> set (vc_preprepared vc)" "b_pp_seq_no b'' = b_pp_seq_no bid" "b_view_no bid < b_view_no b''"
      "b_pp_digest b'' = b_pp_digest b" "b_pp_view_no b'' = b_pp_view_no b"
      using 1 b by (auto simp: check_preprepared_bids_iff)
    then have "b_pp_digest b = b_pp_digest bid \<and> b_pp_view_no b = b_pp_view_no bid"
      using c p(1,2) unfolding committed_batch_def by metis
    then show ?thesis using b by simp
  next
    case 2
    then show ?thesis using b by simp
  qed
qed

text \<open>The committed numbers after the checkpoint are all covered.\<close>

lemma new_view_covers_committed:
  assumes "vote_setting V F votes"
    and "calc_batches (mk_Quorums (int (card V))) log_size cp (map snd votes) = Some bs"
    and "last_seq_no \<le> cp_seqNoEnd cp + log_size"
    and "\<And>n. cp_seqNoEnd cp < n \<Longrightarrow> n \<le> last_seq_no \<Longrightarrow> b_pp_seq_no (bid n) = n \<and> committed_batch V F votes (C n) (bid n)"
    and "cp_seqNoEnd cp < n" and "n \<le> last_seq_no"
  shows "\<exists>b \<in> set bs. b_pp_seq_no b = n \<and> b_pp_digest b = b_pp_digest (bid n) \<and> b_pp_view_no b = b_pp_view_no (bid n)"
proof -
  let ?q = "mk_Quorums (int (card V))" and ?vcs = "map snd votes" and ?s = "cp_seqNoEnd cp"
  obtain k where k: "k \<le> log_size" "set bs = (\<lambda>i. the (try_find_batch_for_pp_seq_no ?q ?vcs i)) ` {?s + 1..<?s + 1 + k}"
    "\<forall>i \<in> {?s + 1..<?s + 1 + k}. try_find_batch_for_pp_seq_no ?q ?vcs i \<noteq> None"
    "k < log_size \<longrightarrow> check_null_batch ?q ?vcs (?s + 1 + k)"
    using calc_batches_spec [OF assms(2)] by blast
  have "last_seq_no < ?s + 1 + k"
  proof (rule ccontr)
    assume "\<not> ?thesis"
    then have "k < log_size" "?s + 1 + k \<le> last_seq_no" using assms(3) by simp_all
    then show False using k(4) committed_not_null [OF assms(1), of "C (?s + 1 + k)" "bid (?s + 1 + k)"] assms(4) [of "?s + 1 + k"]
      by simp
  qed
  then have n: "n \<in> {?s + 1..<?s + 1 + k}" using assms(5,6) by simp
  then obtain b where b: "try_find_batch_for_pp_seq_no ?q ?vcs n = Some b" using k(3) by blast
  then have "b \<in> set bs" unfolding k(2) using n by force
  moreover have "b_pp_seq_no (bid n) = n" "committed_batch V F votes (C n) (bid n)" using assms(4) [OF assms(5,6)] by simp_all
  ultimately show ?thesis using committed_only_choice [OF assms(1), of "C n" "bid n" b] b by auto
qed

section \<open>Properties\<close>

text \<open>
  C32: the checkpoint that a new view starts from is one that a strong quorum of the votes has and
  that is not below the stable checkpoint of a strong quorum, and it is the highest such one;
  there is none only if no checkpoint qualifies.
\<close>

theorem calc_checkpoint_correct:
  "case calc_checkpoint q vcs of
     None \<Rightarrow> \<forall>cp. \<not> candidate_checkpoint q vcs cp
   | Some cp \<Rightarrow> candidate_checkpoint q vcs cp \<and>
       (\<forall>cp'. candidate_checkpoint q vcs cp' \<longrightarrow> cp_seqNoEnd cp' \<le> cp_seqNoEnd cp)"
proof (cases "calc_checkpoint q vcs")
  case None
  then have "calc_checkpoint_candidates q vcs [] (concat (map vc_checkpoints vcs)) = []"
    by (simp add: calc_checkpoint_def highest_checkpoint_None_iff)
  then show ?thesis using None candidates_iff [of _ q vcs] by simp
next
  case (Some cp)
  then have "cp \<in> set (calc_checkpoint_candidates q vcs [] (concat (map vc_checkpoints vcs))) \<and>
      (\<forall>x \<in> set (calc_checkpoint_candidates q vcs [] (concat (map vc_checkpoints vcs))). cp_seqNoEnd x \<le> cp_seqNoEnd cp)"
    unfolding calc_checkpoint_def by (rule highest_checkpoint_max)
  then show ?thesis using Some by (simp add: candidates_iff)
qed

text \<open>Votes for the examples: four nodes, one checkpoint, two batches.\<close>

definition demo_cp :: "nat \<Rightarrow> Checkpoint" where
  "demo_cp n = \<lparr>cp_instId = 0, cp_viewNo = 0, cp_seqNoStart = 0, cp_seqNoEnd = n, cp_digest = None\<rparr>"

definition demo_bid :: "nat \<Rightarrow> nat \<Rightarrow> BatchID" where
  "demo_bid v n = \<lparr>b_view_no = v, b_pp_view_no = 0, b_pp_seq_no = n, b_pp_digest = ''d''\<rparr>"

definition demo_vc :: "BatchID list \<Rightarrow> ViewChange" where
  "demo_vc bids = \<lparr>vc_viewNo = 2, vc_stableCheckpoint = 0, vc_prepared = bids, vc_preprepared = bids, vc_checkpoints = [demo_cp 0]\<rparr>"

theorem calc_checkpoint_correct_witness:
  "calc_checkpoint (mk_Quorums 4) [demo_vc [], demo_vc [], demo_vc []] = Some (demo_cp 0) \<and>
   candidate_checkpoint (mk_Quorums 4) [demo_vc [], demo_vc [], demo_vc []] (demo_cp 0)"
proof -
  have "calc_checkpoint (mk_Quorums 4) [demo_vc [], demo_vc [], demo_vc []] = Some (demo_cp 0)" by code_simp
  then show ?thesis
    using calc_checkpoint_correct [of "mk_Quorums 4" "[demo_vc [], demo_vc [], demo_vc []]"] by simp
qed

text \<open>
  C31: the batches of a new view have, taken together, every sequence number from the one after
  the checkpoint up to some number within the log, each exactly once; every batch is reported
  as prepared by a vote, has a strong quorum of votes that do not contradict it and a weak
  quorum that pre-prepared it. If the batches stop before the end of the log, a strong quorum
  has nothing prepared under the next number.
\<close>

theorem calc_batches_correct:
  assumes "calc_batches q log_size cp vcs = Some bs"
  shows "distinct bs \<and> length bs \<le> log_size \<and>
    b_pp_seq_no ` set bs = {cp_seqNoEnd cp + 1..<cp_seqNoEnd cp + 1 + length bs} \<and>
    (\<forall>b \<in> set bs. is_batch_prepared q b vcs \<and> is_batch_preprepared q b vcs \<and> (\<exists>vc \<in> set vcs. b \<in> set (vc_prepared vc))) \<and>
    (length bs < log_size \<longrightarrow> check_null_batch q vcs (cp_seqNoEnd cp + 1 + length bs))"
proof -
  obtain k where k: "k \<le> log_size" "distinct bs" "length bs = k"
    "set bs = (\<lambda>i. the (try_find_batch_for_pp_seq_no q vcs i)) ` {cp_seqNoEnd cp + 1..<cp_seqNoEnd cp + 1 + k}"
    "\<forall>i \<in> {cp_seqNoEnd cp + 1..<cp_seqNoEnd cp + 1 + k}. try_find_batch_for_pp_seq_no q vcs i \<noteq> None"
    "k < log_size \<longrightarrow> check_null_batch q vcs (cp_seqNoEnd cp + 1 + k)"
    using calc_batches_spec [OF assms] by blast
  have each: "b_pp_seq_no (the (try_find_batch_for_pp_seq_no q vcs i)) = i \<and>
      is_batch_prepared q (the (try_find_batch_for_pp_seq_no q vcs i)) vcs \<and>
      is_batch_preprepared q (the (try_find_batch_for_pp_seq_no q vcs i)) vcs \<and>
      (\<exists>vc \<in> set vcs. the (try_find_batch_for_pp_seq_no q vcs i) \<in> set (vc_prepared vc))"
    if "i \<in> {cp_seqNoEnd cp + 1..<cp_seqNoEnd cp + 1 + k}" for i
    using k(5) that try_find_Some [of q vcs i] by force
  have "b_pp_seq_no ` set bs = {cp_seqNoEnd cp + 1..<cp_seqNoEnd cp + 1 + length bs}"
    unfolding k(3,4) image_image using each
      image_cong [OF refl, of "{cp_seqNoEnd cp + 1..<cp_seqNoEnd cp + 1 + k}" "\<lambda>i. b_pp_seq_no (the (try_find_batch_for_pp_seq_no q vcs i))" "\<lambda>i. i"]
    by (simp del: atLeastLessThan_iff)
  moreover have "\<forall>b \<in> set bs. is_batch_prepared q b vcs \<and> is_batch_preprepared q b vcs \<and> (\<exists>vc \<in> set vcs. b \<in> set (vc_prepared vc))"
    unfolding k(4) using each by blast
  ultimately show ?thesis using k(1,2,3,6) by simp
qed

theorem calc_batches_correct_witness:
  "calc_batches (mk_Quorums 4) 300 (demo_cp 0) (replicate 3 (demo_vc [demo_bid 1 1, demo_bid 1 2])) = Some [demo_bid 1 1, demo_bid 1 2] \<and>
   b_pp_seq_no ` set [demo_bid 1 1, demo_bid 1 2] = {1..<3}"
proof -
  have c: "calc_batches (mk_Quorums 4) 300 (demo_cp 0) (replicate 3 (demo_vc [demo_bid 1 1, demo_bid 1 2])) = Some [demo_bid 1 1, demo_bid 1 2]"
    by code_simp
  from calc_batches_correct [OF this] c show ?thesis by (simp add: demo_cp_def eval_nat_numeral)
qed

text \<open>
  C10: the safety of a view change. If every sequence number from the checkpoint up to some
  number was committed in earlier views, and a new view is built from the votes of distinct
  nodes of a pool with at most \<open>f\<close> faulty ones, then the new view re-orders every one of
  those batches, with the digest and the original view it was committed with.
\<close>

theorem new_view_keeps_committed:
  assumes "vote_setting V F votes"
    and "calc_batches (mk_Quorums (int (card V))) log_size cp (map snd votes) = Some bs"
    and "last_seq_no \<le> cp_seqNoEnd cp + log_size"
    and "\<And>n. cp_seqNoEnd cp < n \<Longrightarrow> n \<le> last_seq_no \<Longrightarrow> b_pp_seq_no (bid n) = n \<and> committed_batch V F votes (C n) (bid n)"
    and "cp_seqNoEnd cp < n" and "n \<le> last_seq_no"
  shows "\<exists>b \<in> set bs. b_pp_seq_no b = n \<and> b_pp_digest b = b_pp_digest (bid n) \<and> b_pp_view_no b = b_pp_view_no (bid n)"
  by (rule new_view_covers_committed [OF assms])

theorem new_view_keeps_committed_witness:
  "\<exists>bs. calc_batches (mk_Quorums 4) 300 (demo_cp 0)
      (map snd [(''A'', demo_vc [demo_bid 1 1]), (''B'', demo_vc [demo_bid 1 1]), (''C'', demo_vc [])]) = Some bs \<and>
    (\<exists>b \<in> set bs. b_pp_seq_no b = 1 \<and> b_pp_digest b = ''d'' \<and> b_pp_view_no b = 0)"
proof -
  let ?V = "{''A'', ''B'', ''C'', ''D''}"
  let ?votes = "[(''A'', demo_vc [demo_bid 1 1]), (''B'', demo_vc [demo_bid 1 1]), (''C'', demo_vc [])]"
  have c: "card ?V = 4" by simp
  have s: "vote_setting ?V {''C''} ?votes"
    unfolding vote_setting_def c by (simp add: getMaxFailures_def)
  have cb: "committed_batch ?V {''C''} ?votes {''A'', ''B'', ''C''} (demo_bid 1 1)"
    unfolding committed_batch_def c by (simp add: getMaxFailures_def demo_vc_def demo_bid_def) force
  have b: "calc_batches (mk_Quorums (int (card ?V))) 300 (demo_cp 0) (map snd ?votes) = Some [demo_bid 1 1]"
    unfolding c by code_simp
  have "\<exists>b \<in> set [demo_bid 1 1]. b_pp_seq_no b = 1 \<and> b_pp_digest b = b_pp_digest (demo_bid 1 1) \<and> b_pp_view_no b = b_pp_view_no (demo_bid 1 1)"
    using cb by (intro new_view_keeps_committed [OF s b, where ?last_seq_no = 1 and ?bid = "\<lambda>_. demo_bid 1 1" and ?C = "\<lambda>_. {''A'', ''B'', ''C''}"])
      (auto simp: demo_cp_def demo_bid_def)
  moreover have "calc_batches (mk_Quorums 4) 300 (demo_cp 0) (map snd ?votes) = Some [demo_bid 1 1]"
    using b unfolding c by simp
  ultimately show ?thesis by (simp add: demo_bid_def)
qed

text \<open>
  The batches of a new view are in the order of the view in which they were last prepared,
  not of their sequence numbers: with the first batch prepared again in view 1 and the second
  one only in view 0, the list ends with sequence number 1 although it contains 2.
\<close>

theorem calc_batches_order:
  "calc_batches (mk_Quorums 4) 300 (demo_cp 0) (replicate 3 (demo_vc [demo_bid 1 1, demo_bid 0 2])) =
     Some [demo_bid 0 2, demo_bid 1 1] \<and> b_pp_seq_no (last [demo_bid 0 2, demo_bid 1 1]) = 1"
  by code_simp

end
