(* ===== verification/Primary_Selector.thy ===== *)
theory Primary_Selector
  imports Prelude
begin

text \<open>
  \<^verbatim>\<open>plenum/server/consensus/primary_selector.py\<close>: the round-robin choice of the primaries of a
  view, from a fixed list of validators or from the node registries at the beginning of views.
  The loop over backup primaries can run forever; that is the value \<open>None\<close>.
\<close>

section \<open>Definitions\<close>

definition select_master_primary :: "string list \<Rightarrow> nat \<Rightarrow> string result" where
  "select_master_primary validators view_no =
     (if validators = [] then Inl ZeroDivisionError else Inr (validators ! (view_no mod length validators)))"

partial_function (option) backup_loop ::
  "nat \<Rightarrow> string list \<Rightarrow> int \<Rightarrow> string \<Rightarrow> nat \<Rightarrow> string list \<Rightarrow> string list result option" where
  "backup_loop view_no validators backup_instance_count master_primary i primaries =
     (if int (length primaries) < backup_instance_count then
        (if validators = [] then Some (Inl ZeroDivisionError)
         else
           (let backup_primary = validators ! ((view_no + i) mod length validators) in
            backup_loop view_no validators backup_instance_count master_primary (i + 1)
              (if backup_primary \<noteq> master_primary then primaries @ [backup_primary] else primaries)))
      else Some (Inr primaries))"

definition select_backup_primaries_round_robin ::
  "nat \<Rightarrow> string list \<Rightarrow> int \<Rightarrow> string \<Rightarrow> string list result option" where
  "select_backup_primaries_round_robin view_no validators backup_instance_count master_primary =
     backup_loop view_no validators backup_instance_count master_primary 1 []"

definition select_backup_primaries :: "string list \<Rightarrow> nat \<Rightarrow> string \<Rightarrow> string list result option" where
  "select_backup_primaries validators view_no master_primary =
     (let N = int (length validators); F = (N - 1) div 3 in
      select_backup_primaries_round_robin view_no validators F master_primary)"

definition select_primaries :: "string list \<Rightarrow> nat \<Rightarrow> string list result option" where
  "select_primaries validators view_no =
     (case select_master_primary validators view_no of
        Inl e \<Rightarrow> Some (Inl e)
      | Inr master_primary \<Rightarrow>
          map_option (\<lambda>r. bindE r (\<lambda>backups. Inr (master_primary # backups)))
            (select_backup_primaries validators view_no master_primary))"

text \<open>The selection from node registries, which are kept per view.\<close>

record node_reg_handler =
  committed_node_reg_at_beginning_of_view :: "(nat \<times> string list) list"
  uncommitted_node_reg_at_beginning_of_view :: "(nat \<times> string list) list"
  active_node_reg :: "string list"

fun view_no_for_selection :: "(nat \<times> string list) list \<Rightarrow> nat \<Rightarrow> nat" where
  "view_no_for_selection node_reg 0 = 0"
| "view_no_for_selection node_reg (Suc v) =
     (if map_of node_reg (Suc v) = None then view_no_for_selection node_reg v else Suc v)"

definition do_select_master_primary :: "nat \<Rightarrow> (nat \<times> string list) list \<Rightarrow> string result" where
  "do_select_master_primary view_no node_reg =
     (let v = view_no_for_selection node_reg (if view_no > 1 then view_no - 1 else 0) in
      case map_of node_reg v of
        None \<Rightarrow> Inl LogicError
      | Some reg \<Rightarrow> select_master_primary reg view_no)"

definition reg_select_master_primary :: "node_reg_handler \<Rightarrow> nat \<Rightarrow> string result" where
  "reg_select_master_primary h view_no = do_select_master_primary view_no (committed_node_reg_at_beginning_of_view h)"

definition reg_select_primaries :: "node_reg_handler \<Rightarrow> nat \<Rightarrow> string list result option" where
  "reg_select_primaries h view_no =
     (case do_select_master_primary view_no (uncommitted_node_reg_at_beginning_of_view h) of
        Inl e \<Rightarrow> Some (Inl e)
      | Inr master_primary \<Rightarrow>
          map_option (\<lambda>r. bindE r (\<lambda>backups. Inr (master_primary # backups)))
            (select_backup_primaries (active_node_reg h) view_no master_primary))"

section \<open>The loop ends\<close>

definition candidates :: "nat \<Rightarrow> string list \<Rightarrow> string list" where
  "candidates view_no validators = rotate (view_no + 1) validators"

lemma nth_candidates:
  "k < length validators \<Longrightarrow> candidates view_no validators ! k = validators ! ((view_no + (k + 1)) mod length validators)"
  using nth_rotate [of k validators "view_no + 1"] by (simp add: candidates_def add.assoc add.commute del: rotate_Suc)

lemma backup_loop_returns:
  assumes "k \<le> length validators"
    and "count \<le> int (length primaries) + int (length (filter (\<lambda>v. v \<noteq> master) (drop k (candidates view_no validators))))"
  shows "backup_loop view_no validators count master (k + 1) primaries =
    Some (Inr (primaries @ take (nat (count - int (length primaries))) (filter (\<lambda>v. v \<noteq> master) (drop k (candidates view_no validators)))))"
  using assms
proof (induction "length validators - k" arbitrary: k primaries)
  case 0
  then have "\<not> int (length primaries) < count" by (simp add: candidates_def)
  then show ?case by (subst backup_loop.simps) simp
next
  case (Suc m)
  then have k: "k < length validators" by simp
  then have d: "drop k (candidates view_no validators) = candidates view_no validators ! k # drop (Suc k) (candidates view_no validators)"
    by (simp add: Cons_nth_drop_Suc candidates_def)
  show ?case
  proof (cases "int (length primaries) < count")
    case False
    then show ?thesis by (subst backup_loop.simps) simp
  next
    case True
    let ?c = "candidates view_no validators ! k"
    let ?ps = "if ?c \<noteq> master then primaries @ [?c] else primaries"
    have "backup_loop view_no validators count master (k + 1) primaries = backup_loop view_no validators count master (Suc k + 1) ?ps"
      using True k by (subst backup_loop.simps) (auto simp: nth_candidates Let_def)
    also have "\<dots> = Some (Inr (?ps @ take (nat (count - int (length ?ps))) (filter (\<lambda>v. v \<noteq> master) (drop (Suc k) (candidates view_no validators)))))"
      by (rule Suc.hyps(1)) (use Suc k d in auto)
    finally show ?thesis using True d by (auto simp: nat_diff_distrib take_Cons' split: if_splits)
  qed
qed

lemma select_backup_primaries_returns:
  assumes "distinct validators"
  shows "\<exists>bs. select_backup_primaries validators view_no master = Some (Inr bs) \<and> int (length bs) = max 0 ((int (length validators) - 1) div 3) \<and>
    distinct bs \<and> set bs \<subseteq> set validators - {master}"
proof -
  let ?F = "(int (length validators) - 1) div 3" and ?c = "filter (\<lambda>v. v \<noteq> master) (candidates view_no validators)"
  have "distinct (candidates view_no validators)" using assms by (simp add: candidates_def)
  then have dist: "distinct ?c" by simp
  have "length ?c = card (set validators - {master})"
    using distinct_card [OF dist] by (simp add: candidates_def set_diff_eq)
  moreover have "card (set validators) - 1 \<le> card (set validators - {master})" by (simp add: card_Diff_singleton_if)
  ultimately have len: "int (length validators) - 1 \<le> int (length ?c)" using assms by (simp add: distinct_card)
  then have "select_backup_primaries validators view_no master = Some (Inr (take (nat ?F) ?c))"
    using backup_loop_returns [of 0 validators ?F "[]" master view_no]
    by (simp add: select_backup_primaries_def select_backup_primaries_round_robin_def Let_def)
  moreover have "int (length (take (nat ?F) ?c)) = max 0 ?F" using len by simp
  moreover have "set (take (nat ?F) ?c) \<subseteq> set validators - {master}"
    using set_take_subset [of "nat ?F" ?c] by (auto simp: candidates_def)
  ultimately show ?thesis using distinct_take [OF dist, of "nat ?F"] by blast
qed

section \<open>Properties\<close>

text \<open>
  C29: for a list of distinct validators the selection of the primaries of a view always ends, and
  gives one primary per protocol instance, all of them different validators, the first of them
  the master primary of the view.
\<close>

theorem select_primaries_ends:
  assumes "validators \<noteq> []" and "distinct validators"
  shows "\<exists>ps. select_primaries validators view_no = Some (Inr ps) \<and> length ps = (length validators - 1) div 3 + 1 \<and>
    distinct ps \<and> set ps \<subseteq> set validators \<and> select_master_primary validators view_no = Inr (hd ps)"
proof -
  let ?m = "validators ! (view_no mod length validators)"
  obtain bs where bs: "select_backup_primaries validators view_no ?m = Some (Inr bs)" "int (length bs) = max 0 ((int (length validators) - 1) div 3)"
    "distinct bs" "set bs \<subseteq> set validators - {?m}"
    using select_backup_primaries_returns [OF assms(2), of view_no ?m] by blast
  have "length bs = (length validators - 1) div 3"
  proof -
    have "(int (length validators) - 1) div 3 = int ((length validators - 1) div 3)"
      using assms(1) by (cases validators) (simp_all add: zdiv_int)
    then show ?thesis using bs(2) by simp
  qed
  moreover have "?m \<in> set validators" using assms(1) by simp
  ultimately show ?thesis using bs assms(1) by (auto simp: select_primaries_def select_master_primary_def)
qed

theorem select_primaries_ends_witness:
  "\<exists>ps. select_primaries [''A'', ''B'', ''C'', ''D''] 3 = Some (Inr ps) \<and> length ps = 2 \<and> distinct ps"
  using select_primaries_ends [of "[''A'', ''B'', ''C'', ''D'']" 3] by auto

text \<open>
  C30: leadership goes round: among as many consecutive views as there are validators, every
  validator is master primary of one of them, so a faulty primary is left behind.
\<close>

theorem every_validator_gets_master_primary:
  assumes "v \<in> set validators"
  shows "\<exists>k < length validators. select_master_primary validators (view_no + k) = Inr v"
proof -
  let ?n = "length validators"
  obtain i where i: "i < ?n" "validators ! i = v" using assms by (auto simp: in_set_conv_nth)
  have n: "0 < ?n" using i(1) by linarith
  let ?k = "(i + (?n - view_no mod ?n)) mod ?n"
  have "(view_no + ?k) mod ?n = (view_no mod ?n + (i + (?n - view_no mod ?n))) mod ?n" by (simp add: mod_simps)
  also have "view_no mod ?n + (i + (?n - view_no mod ?n)) = i + ?n"
    using mod_less_divisor [OF n, of view_no] by linarith
  finally have "(view_no + ?k) mod ?n = i" using i by simp
  then show ?thesis using i n by (intro exI [of _ ?k]) (auto simp: select_master_primary_def)
qed

theorem every_validator_gets_master_primary_witness:
  "\<exists>k < length [''A'', ''B'', ''C'']. select_master_primary [''A'', ''B'', ''C''] (7 + k) = Inr ''A''"
  by (rule every_validator_gets_master_primary) simp

text \<open>
  Selecting from the node registries uses the registry of the latest earlier view that has
  one, and fails exactly if no view up to the previous one has a registry; so nodes with the same
  registries select the same master primary.
\<close>

theorem do_select_master_primary_correct:
  "(case do_select_master_primary view_no node_reg of
      Inl e \<Rightarrow> (e = LogicError \<and> (\<forall>v \<le> view_no - 1. map_of node_reg v = None)) \<or>
               (e = ZeroDivisionError \<and> (\<exists>v \<le> view_no - 1. map_of node_reg v = Some []))
    | Inr p \<Rightarrow> \<exists>v reg. v \<le> view_no - 1 \<and> map_of node_reg v = Some reg \<and> (\<forall>w. v < w \<and> w \<le> view_no - 1 \<longrightarrow> map_of node_reg w = None) \<and>
                 p = reg ! (view_no mod length reg))"
proof -
  have sel: "view_no_for_selection node_reg n \<le> n \<and>
      (\<forall>w. view_no_for_selection node_reg n < w \<and> w \<le> n \<longrightarrow> map_of node_reg w = None) \<and>
      (map_of node_reg (view_no_for_selection node_reg n) = None \<longrightarrow> view_no_for_selection node_reg n = 0)" for n
    by (induction n) (auto simp: le_Suc_eq)
  have start: "(if view_no > 1 then view_no - 1 else 0) = view_no - 1" by simp
  let ?v = "view_no_for_selection node_reg (view_no - 1)"
  show ?thesis
  proof (cases "map_of node_reg ?v")
    case None
    then have "\<forall>v \<le> view_no - 1. map_of node_reg v = None" using sel [of "view_no - 1"] by (metis not_gr_zero)
    then show ?thesis using None by (simp add: do_select_master_primary_def start Let_def)
  next
    case (Some reg)
    then show ?thesis using sel [of "view_no - 1"]
      by (cases "reg = []") (auto simp: do_select_master_primary_def select_master_primary_def start Let_def)
  qed
qed

theorem do_select_master_primary_correct_witness:
  "do_select_master_primary 3 [(0, [''A'', ''B'']), (1, [''A'', ''B'', ''C'', ''D''])] = Inr ''D'' \<and>
   (\<exists>(v::nat) reg. v \<le> 3 - 1 \<and> map_of [(0, [''A'', ''B'']), (1, [''A'', ''B'', ''C'', ''D''])] v = Some reg \<and> ''D'' = reg ! (3 mod length reg))"
proof -
  have "do_select_master_primary 3 [(0, [''A'', ''B'']), (1, [''A'', ''B'', ''C'', ''D''])] = Inr ''D''" by code_simp
  note * = this
  show ?thesis
    using * do_select_master_primary_correct [of 3 "[(0, [''A'', ''B'']), (1, [''A'', ''B'', ''C'', ''D''])]"]
    unfolding * sum.case by blast
qed

end
