(* ===== verification/View_Change_Service.thy ===== *)
theory View_Change_Service
  imports New_View_Builder Msg_Validator Primary_Selector
begin

text \<open>
  \<^verbatim>\<open>plenum/server/consensus/view_change_service.py\<close>: the service that moves a replica to the
  next view. Its state is the shared state and its own collections; handlers return the new
  state and their effects in order. The digests of messages, the selector of the master primary
  and the unstashing of messages kept for the next view (which runs the handlers of this service
  again) are the fields of \<open>vs_env\<close>.
\<close>

section \<open>State\<close>

record ViewChangeService =
  vs_data :: ConsensusSharedData
  last_completed_view_no :: nat
  old_prepared :: "(nat \<times> BatchID) list"
  old_preprepared :: "(nat \<times> BatchID list) list"
  stashed_vc_msgs :: "(nat \<times> nat) list"

type_synonym vs_step = "ViewChangeService \<times> effect list"

record vs_env =
  vs_view_change_digest :: "ViewChange \<Rightarrow> string"
  vs_new_view_digest :: "NewView \<Rightarrow> string"
  vs_select_master_primary :: "nat \<Rightarrow> string result"
  vs_unstash_view_change :: "ViewChangeService \<Rightarrow> vs_step"

definition mk_ViewChangeService :: "ConsensusSharedData \<Rightarrow> ViewChangeService" where
  "mk_ViewChangeService d =
     \<lparr>vs_data = d, last_completed_view_no = d_view_no d, old_prepared = [], old_preprepared = [], stashed_vc_msgs = []\<rparr>"

datatype vc_reason = NOT_MASTER_INSTANCE | MSG_OLD_VIEW | VIEW_CHANGE_FINISHED | NOT_PARTICIPATING | MSG_FUTURE_VIEW

type_synonym vc_answer = "int \<times> vc_reason option"

definition validate_vc :: "ViewChangeService \<Rightarrow> nat \<Rightarrow> vc_answer" where
  "validate_vc s viewNo =
     (let d = vs_data s in
      if \<not> d_is_master d then (V_DISCARD, Some NOT_MASTER_INSTANCE)
      else if viewNo < d_view_no d then (V_DISCARD, Some MSG_OLD_VIEW)
      else if viewNo = d_view_no d \<and> \<not> d_waiting_for_new_view d then (V_DISCARD, Some VIEW_CHANGE_FINISHED)
      else if \<not> is_participating d then (STASH_CATCH_UP, Some NOT_PARTICIPATING)
      else if viewNo > d_view_no d then (STASH_WAITING_VIEW_CHANGE, Some MSG_FUTURE_VIEW)
      else (V_PROCESS, None))"

section \<open>Starting a view change\<close>

definition clear_old_batches :: "nat \<Rightarrow> (nat \<times> 'b) list \<Rightarrow> (nat \<times> 'b) list" where
  "clear_old_batches stable_checkpoint batches =
     fold (\<lambda>k b. if k \<le> stable_checkpoint then AList.delete k b else b) (map fst batches) batches"

definition clean_on_view_change_start :: "ViewChangeService \<Rightarrow> ViewChangeService" where
  "clean_on_view_change_start s =
     s\<lparr>old_prepared := clear_old_batches (d_stable_checkpoint (vs_data s)) (old_prepared s),
       old_preprepared := clear_old_batches (d_stable_checkpoint (vs_data s)) (old_preprepared s),
       vs_data := (vs_data s)\<lparr>d_view_change_votes := vv_clear (d_view_change_votes (vs_data s)),
                               d_new_view_votes := nv_clear (d_new_view_votes (vs_data s))\<rparr>\<rparr>"

definition add_old_prepared :: "BatchID \<Rightarrow> (nat \<times> BatchID) list \<Rightarrow> (nat \<times> BatchID) list" where
  "add_old_prepared b d = AList.update (b_pp_seq_no b) b d"

definition add_old_preprepared :: "BatchID \<Rightarrow> (nat \<times> BatchID list) list \<Rightarrow> (nat \<times> BatchID list) list" where
  "add_old_preprepared new_bid d =
     (let pretenders = (case map_of d (b_pp_seq_no new_bid) of None \<Rightarrow> [] | Some p \<Rightarrow> p) in
      AList.update (b_pp_seq_no new_bid) (filter (\<lambda>b. b_pp_digest b \<noteq> b_pp_digest new_bid) pretenders @ [new_bid]) d)"

definition build_view_change_msg :: "ViewChangeService \<Rightarrow> ViewChangeService \<times> ViewChange" where
  "build_view_change_msg s =
     (let d = vs_data s;
          op = fold add_old_prepared (d_prepared d) (old_prepared s);
          opp = fold add_old_preprepared (d_preprepared d) (old_preprepared s) in
      (s\<lparr>old_prepared := op, old_preprepared := opp\<rparr>,
       \<lparr>vc_viewNo = d_view_no d, vc_stableCheckpoint = d_stable_checkpoint d,
        vc_prepared = sorted_bids (map snd op), vc_preprepared = sorted_bids (concat (map snd opp)),
        vc_checkpoints = d_checkpoints d\<rparr>))"

definition process_need_view_change :: "vs_env \<Rightarrow> ViewChangeService \<Rightarrow> nat option \<Rightarrow> vs_step result" where
  "process_need_view_change env s msg_view_no =
     (let view_no = (case msg_view_no of None \<Rightarrow> d_view_no (vs_data s) + 1 | Some v \<Rightarrow> v);
          s1 = clean_on_view_change_start s;
          old_primary = d_primary_name (vs_data s1);
          s2 = s1\<lparr>vs_data := (vs_data s1)\<lparr>d_view_no := view_no, d_waiting_for_new_view := True, d_primary_name := None\<rparr>\<rparr> in
      if \<not> d_is_master (vs_data s2)
      then Inr (s2\<lparr>vs_data := (vs_data s2)\<lparr>d_master_reordered_after_vc := False\<rparr>\<rparr>, [])
      else
        bindE (vs_select_master_primary env (d_view_no (vs_data s2))) (\<lambda>selected.
          let primary = generateName selected (d_inst_id (vs_data s2));
              s3 = s2\<lparr>vs_data := (vs_data s2)\<lparr>d_primary_name := Some primary\<rparr>\<rparr>;
              eff3 = (if old_primary \<noteq> None \<and> old_primary \<noteq> Some [] \<and> Some primary = old_primary
                      then [VoteForViewChange INCORRECT_NEW_PRIMARY] else []);
              (s4, vc) = build_view_change_msg s3;
              s5 = s4\<lparr>vs_data := (vs_data s4)\<lparr>d_view_change_votes :=
                     fst (vv_add_view_change (vs_view_change_digest env) (d_view_change_votes (vs_data s4)) vc (d_name (vs_data s4)))\<rparr>\<rparr>;
              (s6, eff6) = vs_unstash_view_change env s5 in
          Inr (s6\<lparr>stashed_vc_msgs := []\<rparr>,
               eff3 @ [ViewChangeStarted (d_view_no (vs_data s4)), SendViewChange vc] @ eff6 @ [StopNewViewTimer, StartNewViewTimer])))"

section \<open>Finishing a view change\<close>

definition propose_view_change :: "suspicion \<Rightarrow> effect list" where
  "propose_view_change suspicion = [VoteForViewChange suspicion]"

text \<open>Reading \<^verbatim>\<open>self._data.new_view\<close> when there is none raises on the first attribute.\<close>

definition finish_view_change :: "ViewChangeService \<Rightarrow> vs_step result" where
  "finish_view_change s =
     (case new_view (vs_data s) of
        None \<Rightarrow> Inl AttributeError
      | Some nv \<Rightarrow>
          (let d1 = (vs_data s)\<lparr>d_waiting_for_new_view := False,
                 d_prev_view_prepare_cert := (if nv_batches nv \<noteq> [] then b_pp_seq_no (last (nv_batches nv)) else cp_seqNoEnd (nv_checkpoint nv))\<rparr>;
               d2 = (case nv_primary nv of
                       None \<Rightarrow> d1
                     | Some p \<Rightarrow> d1\<lparr>d_primary_name := Some (generateName p (d_inst_id d1))\<rparr>) in
           case new_view d2 of
             None \<Rightarrow> Inl AttributeError
           | Some nv' \<Rightarrow>
               Inr (s\<lparr>vs_data := d2, last_completed_view_no := d_view_no d2\<rparr>,
                    [StopNewViewTimer, NewViewAccepted (nv_viewNo nv') (nv_viewChanges nv') (nv_checkpoint nv') (nv_batches nv')])))"

text \<open>
  The view changes that a new view is built from, looked up one by one; the lookup of an unknown
  node leaves an empty entry behind. The primary looks all of them up, a replica stops at the
  first one that it does not have.
\<close>

fun get_view_changes ::
  "(ViewChange \<Rightarrow> string) \<Rightarrow> ViewChangeVotesForView \<Rightarrow> (string \<times> string) list \<Rightarrow> ViewChangeVotesForView \<times> ViewChange option list" where
  "get_view_changes D vv [] = (vv, [])"
| "get_view_changes D vv ((frm, digest) # votes) =
     (case get_view_change D vv frm digest of (vv1, vc) \<Rightarrow>
      case get_view_changes D vv1 votes of (vv2, vcs) \<Rightarrow> (vv2, vc # vcs))"

fun find_view_changes ::
  "(ViewChange \<Rightarrow> string) \<Rightarrow> ViewChangeVotesForView \<Rightarrow> (string \<times> string) list \<Rightarrow> ViewChangeVotesForView \<times> ((string \<times> string) + ViewChange list)" where
  "find_view_changes D vv [] = (vv, Inr [])"
| "find_view_changes D vv ((frm, digest) # votes) =
     (case get_view_change D vv frm digest of (vv1, vc) \<Rightarrow>
        (case vc of
           None \<Rightarrow> (vv1, Inl (frm, digest))
         | Some c \<Rightarrow>
             (case find_view_changes D vv1 votes of
                (vv2, Inl missing) \<Rightarrow> (vv2, Inl missing)
              | (vv2, Inr vcs) \<Rightarrow> (vv2, Inr (c # vcs)))))"

definition set_votes :: "ViewChangeService \<Rightarrow> ViewChangeVotesForView \<Rightarrow> ViewChangeService" where
  "set_votes s vv = s\<lparr>vs_data := (vs_data s)\<lparr>d_view_change_votes := vv\<rparr>\<rparr>"

definition finish_view_change_if_needed :: "vs_env \<Rightarrow> ViewChangeService \<Rightarrow> vs_step result" where
  "finish_view_change_if_needed env s =
     (case new_view (vs_data s) of
        None \<Rightarrow> Inr (s, [])
      | Some nv \<Rightarrow>
          (case find_view_changes (vs_view_change_digest env) (d_view_change_votes (vs_data s)) (nv_viewChanges nv) of
             (vv, Inl missing) \<Rightarrow> Inr (set_votes s vv, [MissingViewChange missing])
           | (vv, Inr vcs) \<Rightarrow>
               (let s1 = set_votes s vv; q = quorums (vs_data s1); cp = calc_checkpoint q vcs in
                if cp = None \<or> cp \<noteq> Some (nv_checkpoint nv)
                then Inr (s1, propose_view_change NEW_VIEW_INVALID_CHECKPOINTS)
                else if calc_batches q (d_log_size (vs_data s1)) (the cp) vcs \<noteq> Some (nv_batches nv)
                then Inr (s1, propose_view_change NEW_VIEW_INVALID_BATCHES)
                else finish_view_change s1)))"

definition send_new_view_if_needed :: "vs_env \<Rightarrow> ViewChangeService \<Rightarrow> vs_step result" where
  "send_new_view_if_needed env s =
     (let d = vs_data s; votes = confirmed_votes (d_view_change_votes d) in
      if \<not> is_reached (view_change (quorums d)) (int (length votes)) then Inr (s, [])
      else
        (case get_view_changes (vs_view_change_digest env) (d_view_change_votes d) votes of (vv, ovcs) \<Rightarrow>
           if None \<in> set ovcs then Inl AttributeError
           else
             (let s1 = set_votes s vv; vcs = map the ovcs in
              case calc_checkpoint (quorums d) vcs of
                None \<Rightarrow> Inr (s1, [])
              | Some cp \<Rightarrow>
                  (case calc_batches (quorums d) (d_log_size d) cp vcs of
                     None \<Rightarrow> Inr (s1, [])
                   | Some batches \<Rightarrow>
                       if cp \<notin> set (d_checkpoints d) then Inr (s1, [])
                       else
                         (let nv = \<lparr>nv_viewNo = d_view_no d, nv_viewChanges = sort_key fst votes, nv_checkpoint = cp,
                                    nv_batches = batches, nv_primary = None\<rparr>;
                              s2 = s1\<lparr>vs_data := (vs_data s1)\<lparr>d_new_view_votes :=
                                     add_new_view (vs_new_view_digest env) (d_new_view_votes (vs_data s1)) nv (d_name (vs_data s1))\<rparr>\<rparr> in
                          bindE (finish_view_change s2) (\<lambda>(s3, eff). Inr (s3, SendNewView nv # eff)))))))"

section \<open>Handlers of messages\<close>

definition process_view_change_message ::
  "vs_env \<Rightarrow> ViewChangeService \<Rightarrow> ViewChange \<Rightarrow> string \<Rightarrow> (vs_step \<times> vc_answer) result" where
  "process_view_change_message env s msg frm =
     (let (res, reason) = validate_vc s (vc_viewNo msg) in
      if res = STASH_WAITING_VIEW_CHANGE then
        (let n = (case map_of (stashed_vc_msgs s) (vc_viewNo msg) of None \<Rightarrow> 0 | Some n \<Rightarrow> n) + 1;
             s1 = s\<lparr>stashed_vc_msgs := AList.update (vc_viewNo msg) n (stashed_vc_msgs s)\<rparr> in
         Inr ((s1, if is_reached (view_change (quorums (vs_data s))) (int n) \<and> \<not> d_waiting_for_new_view (vs_data s)
                   then [NodeNeedViewChange (vc_viewNo msg)] else []), (res, reason)))
      else if res \<noteq> V_PROCESS then Inr ((s, []), (res, reason))
      else
        (let vv1 = fst (vv_add_view_change (vs_view_change_digest env) (d_view_change_votes (vs_data s)) msg frm);
             vca = \<lparr>vca_viewNo = vc_viewNo msg, vca_name = replica_name_to_node_name frm, vca_digest = vs_view_change_digest env msg\<rparr>;
             vv2 = fst (vv_add_view_change_ack vv1 vca (replica_name_to_node_name (d_name (vs_data s))));
             s1 = set_votes s vv2 in
         if is_primary (vs_data s1) = Some True
         then bindE (send_new_view_if_needed env s1) (\<lambda>st. Inr (st, (V_PROCESS, None)))
         else
           bindE (finish_view_change_if_needed env s1) (\<lambda>(s2, eff).
             Inr ((s2, SendViewChangeAck vca (map_option replica_name_to_node_name (d_primary_name (vs_data s1))) # eff), (V_PROCESS, None)))))"

definition process_view_change_ack_message ::
  "vs_env \<Rightarrow> ViewChangeService \<Rightarrow> ViewChangeAck \<Rightarrow> string \<Rightarrow> (vs_step \<times> vc_answer) result" where
  "process_view_change_ack_message env s msg frm =
     (let (res, reason) = validate_vc s (vca_viewNo msg) in
      if res \<noteq> V_PROCESS then Inr ((s, []), (res, reason))
      else if is_primary (vs_data s) \<noteq> Some True then Inr ((s, []), (V_PROCESS, None))
      else
        bindE (send_new_view_if_needed env (set_votes s (fst (vv_add_view_change_ack (d_view_change_votes (vs_data s)) msg frm))))
          (\<lambda>st. Inr (st, (V_PROCESS, None))))"

definition process_new_view_message ::
  "vs_env \<Rightarrow> ViewChangeService \<Rightarrow> NewView \<Rightarrow> string \<Rightarrow> (vs_step \<times> vc_answer) result" where
  "process_new_view_message env s msg frm =
     (let (res, reason) = validate_vc s (nv_viewNo msg) in
      if res \<noteq> V_PROCESS then Inr ((s, []), (res, reason))
      else
        (let s1 = s\<lparr>vs_data := (vs_data s)\<lparr>d_new_view_votes :=
               add_new_view (vs_new_view_digest env) (d_new_view_votes (vs_data s)) msg frm\<rparr>\<rparr> in
         bindE (finish_view_change_if_needed env s1) (\<lambda>st. Inr (st, (V_PROCESS, None)))))"

definition propose_view_change_not_complete_in_time :: "ViewChangeService \<Rightarrow> effect list" where
  "propose_view_change_not_complete_in_time s =
     propose_view_change INSTANCE_CHANGE_TIMEOUT @
     (if new_view (vs_data s) = None then [MissingNewView (d_view_no (vs_data s))] else [])"

section \<open>Looking up view changes\<close>

text \<open>What it means that a view change message with a digest is stored for a node.\<close>

definition stored_vc :: "(ViewChange \<Rightarrow> string) \<Rightarrow> ViewChangeVotesForView \<Rightarrow> string \<times> string \<Rightarrow> ViewChange \<Rightarrow> bool" where
  "stored_vc D vv vote vc \<longleftrightarrow> D vc = snd vote \<and> (\<exists>v. map_of (vv_votes vv) (fst vote) = Some v \<and> vn_view_change v = Some vc)"

lemma get_view_change_stored:
  assumes "get_view_change D vv frm digest = (vv', Some vc)"
  shows "vv' = vv \<and> stored_vc D vv (frm, digest) vc"
  using assms by (auto simp: get_view_change_def get_vote_def stored_vc_def mk_ViewChangeVotesForNode_def Let_def
      split: option.splits if_splits)

lemma find_view_changes_stored:
  "find_view_changes D vv votes = (vv', Inr vcs) \<Longrightarrow> vv' = vv \<and> list_all2 (stored_vc D vv) votes vcs"
proof (induction D vv votes arbitrary: vv' vcs rule: find_view_changes.induct)
  case (2 D vv frm digest votes)
  obtain vv1 c where c: "get_view_change D vv frm digest = (vv1, Some c)"
    using "2.prems" by (auto split: prod.splits option.splits)
  then have vv1: "vv1 = vv" and st: "stored_vc D vv (frm, digest) c" using get_view_change_stored by blast+
  obtain vcs' where r: "find_view_changes D vv votes = (vv', Inr vcs')" "vcs = c # vcs'"
    using "2.prems" c vv1 by (auto split: prod.splits sum.splits)
  then show ?case using "2.IH" [OF c [symmetric] refl] vv1 st by simp
qed simp

lemma get_view_changes_confirmed:
  assumes "vv_ok D vv" and "set votes \<subseteq> set (confirmed_votes vv)"
  shows "get_view_changes D vv votes = (vv, map (\<lambda>(frm, digest). snd (get_view_change D vv frm digest)) votes) \<and>
    (\<forall>(frm, digest) \<in> set votes. \<exists>vc. snd (get_view_change D vv frm digest) = Some vc \<and> stored_vc D vv (frm, digest) vc)"
  using assms(2)
proof (induction votes)
  case (Cons x votes)
  obtain frm digest where x: "x = (frm, digest)" by (cases x)
  then obtain vc where vc: "get_view_change D vv frm digest = (vv, Some vc)"
    using get_view_change_confirmed [OF assms(1)] Cons.prems by fastforce
  then have "stored_vc D vv (frm, digest) vc" using get_view_change_stored by blast
  then show ?case using Cons vc x by simp
qed simp

section \<open>What is sent, and what is accepted\<close>

definition recorded_votes :: "(ViewChange \<Rightarrow> string) \<Rightarrow> ViewChangeVotesForView \<Rightarrow> (string \<times> ViewChange) list" where
  "recorded_votes D vv =
     map (\<lambda>(frm, digest). (frm, the (snd (get_view_change D vv frm digest)))) (confirmed_votes vv)"

lemma fst_recorded_votes: "map fst (recorded_votes D vv) = map fst (confirmed_votes vv)"
  by (simp add: recorded_votes_def split_beta)

lemma finish_view_change_no_send: "finish_view_change s = Inr (s', eff) \<Longrightarrow> SendNewView nv \<notin> set eff"
  by (auto simp: finish_view_change_def Let_def split: option.splits)

lemma send_new_view_sent:
  assumes "vv_ok (vs_view_change_digest env) (d_view_change_votes (vs_data s))"
    and "send_new_view_if_needed env s = Inr (s', eff)" and "SendNewView nv \<in> set eff"
  shows "is_reached (view_change (quorums (vs_data s))) (int (length (confirmed_votes (d_view_change_votes (vs_data s))))) \<and>
    calc_checkpoint (quorums (vs_data s)) (map snd (recorded_votes (vs_view_change_digest env) (d_view_change_votes (vs_data s)))) = Some (nv_checkpoint nv) \<and>
    calc_batches (quorums (vs_data s)) (d_log_size (vs_data s)) (nv_checkpoint nv)
      (map snd (recorded_votes (vs_view_change_digest env) (d_view_change_votes (vs_data s)))) = Some (nv_batches nv) \<and>
    nv_checkpoint nv \<in> set (d_checkpoints (vs_data s)) \<and>
    nv_viewChanges nv = sort_key fst (confirmed_votes (d_view_change_votes (vs_data s)))"
proof -
  let ?D = "vs_view_change_digest env" and ?vv = "d_view_change_votes (vs_data s)"
  let ?o = "map (\<lambda>(frm, digest). snd (get_view_change ?D ?vv frm digest)) (confirmed_votes ?vv)"
  have g: "get_view_changes ?D ?vv (confirmed_votes ?vv) = (?vv, ?o)"
    using get_view_changes_confirmed [OF assms(1)] by blast
  have the: "map the ?o = map snd (recorded_votes ?D ?vv)" by (simp add: recorded_votes_def split_beta)
  show ?thesis
    using assms(2,3) finish_view_change_no_send
    unfolding send_new_view_if_needed_def Let_def g prod.case the
    by (fastforce simp: bindE_eq_Inr split: if_splits option.splits prod.splits)
qed

section \<open>One vote, listed again and again\<close>

lemma find_view_changes_replicate:
  "stored_vc D vv vote vc \<Longrightarrow> find_view_changes D vv (replicate k vote) = (vv, Inr (replicate k vc))"
  by (induction k; cases vote) (auto simp: stored_vc_def get_view_change_def get_vote_def)

lemma calc_checkpoint_quorum: "calc_checkpoint q vcs = Some cp \<Longrightarrow> is_reached (strong q) (int (length vcs))"
proof -
  assume "calc_checkpoint q vcs = Some cp"
  then have "candidate_checkpoint q vcs cp" unfolding calc_checkpoint_def
    using highest_checkpoint_max candidates_iff by blast
  then have "is_reached (strong q) (int (length (filter (\<lambda>vc. cp \<in> set (vc_checkpoints vc)) vcs)))" by (simp add: candidate_checkpoint_def)
  moreover have "length (filter (\<lambda>vc. cp \<in> set (vc_checkpoints vc)) vcs) \<le> length vcs" by simp
  ultimately show ?thesis by (auto simp: is_reached_def simp del: length_filter_le)
qed

lemma calc_checkpoint_replicate:
  assumes "vc_checkpoints vc = [cp]" "vc_stableCheckpoint vc \<le> cp_seqNoEnd cp" "is_reached (strong q) (int k)" "0 < k"
  shows "calc_checkpoint q (replicate k vc) = Some cp"
proof -
  have rest: "calc_checkpoint_candidates q vcs [cp] (replicate j cp) = [cp]" for vcs j by (induction j) simp_all
  obtain j where k: "k = Suc j" using assms(4) by (cases k) auto
  have "concat (map vc_checkpoints (replicate k vc)) = replicate k cp" using assms(1) by (induction k) simp_all
  then show ?thesis using assms(1-3) k rest by (simp add: calc_checkpoint_def filter_replicate)
qed

lemma calc_batches_replicate:
  assumes "vc_stableCheckpoint vc \<le> cp_seqNoEnd cp" "vc_prepared vc = []" "is_reached (strong q) (int k)"
  shows "calc_batches q log_size cp (replicate k vc) = Some []"
proof -
  have "concat (map vc_prepared (replicate k vc)) = []" using assms(2) by simp
  then show ?thesis using assms
    by (simp add: calc_batches_def calc_batches_loop.simps try_find_batch_for_pp_seq_no_def check_null_batch_def check_null_def
        filter_replicate sorted_bids_def)
qed

section \<open>Reported batches\<close>

text \<open>The remembered prepared batches: one per sequence number, under that number.\<close>

definition old_prepared_ok :: "(nat \<times> BatchID) list \<Rightarrow> bool" where
  "old_prepared_ok d \<longleftrightarrow> distinct (map fst d) \<and> (\<forall>(k, b) \<in> set d. b_pp_seq_no b = k)"

lemma add_old_prepared_ok: "old_prepared_ok d \<Longrightarrow> old_prepared_ok (add_old_prepared b d)"
  by (auto simp: old_prepared_ok_def add_old_prepared_def distinct_update dest!: set_update_cases)

lemma fold_add_old_prepared_ok: "old_prepared_ok d \<Longrightarrow> old_prepared_ok (fold add_old_prepared bs d)"
  by (induction bs arbitrary: d) (simp_all add: add_old_prepared_ok)

lemma fold_add_old_prepared_lookup:
  "map_of (fold add_old_prepared bs d) n =
     (case filter (\<lambda>b. b_pp_seq_no b = n) bs of [] \<Rightarrow> map_of d n | l \<Rightarrow> Some (last l))"
proof (induction bs arbitrary: d)
  case (Cons b bs)
  then show ?case by (auto simp: add_old_prepared_def update_conv' split: list.splits)
qed simp

lemma distinct_map_sorted_bids: "distinct (map f (sorted_bids bs)) = distinct (map f bs)"
  unfolding sorted_bids_def by (rule mset_eq_imp_distinct_iff) simp

lemma old_prepared_seq_nos: "old_prepared_ok d \<Longrightarrow> map b_pp_seq_no (map snd d) = map fst d"
  by (auto simp: old_prepared_ok_def)

lemma clear_old_batches_lookup: "map_of (clear_old_batches c d) n = (if n \<le> c then None else map_of d n)"
proof -
  have all: "map_of (fold (\<lambda>k b. if k \<le> c then AList.delete k b else b) ks d) n = (if n \<in> set ks \<and> n \<le> c then None else map_of d n)" for ks d
    by (induction ks arbitrary: d) (auto simp: delete_conv')
  have "n \<notin> set (map fst d) \<Longrightarrow> map_of d n = None" by (simp add: map_of_eq_None_iff)
  then show ?thesis unfolding clear_old_batches_def all by auto
qed

text \<open>Every pre-prepared batch is reported with its digest, the latest of the batches that share it.\<close>

lemma fold_add_old_preprepared_lookup:
  assumes "b \<in> set bs"
  shows "\<exists>l b'. map_of (fold add_old_preprepared bs d) (b_pp_seq_no b) = Some l \<and> b' \<in> set l \<and>
    b_pp_digest b' = b_pp_digest b \<and> b' \<in> set bs \<and> b_pp_seq_no b' = b_pp_seq_no b"
  using assms
proof (induction bs rule: rev_induct)
  case (snoc c bs)
  let ?d = "fold add_old_preprepared bs d"
  have step: "map_of (add_old_preprepared c ?d) n =
      (if n = b_pp_seq_no c then Some (filter (\<lambda>b. b_pp_digest b \<noteq> b_pp_digest c) (case map_of ?d n of None \<Rightarrow> [] | Some p \<Rightarrow> p) @ [c])
       else map_of ?d n)" for n
    by (simp add: add_old_preprepared_def Let_def update_conv')
  show ?case
  proof (cases "b_pp_seq_no b = b_pp_seq_no c \<and> b_pp_digest b = b_pp_digest c")
    case True
    then show ?thesis by (auto simp: step)
  next
    case False
    then have "b \<in> set bs" using snoc.prems by auto
    then obtain l b' where l: "map_of ?d (b_pp_seq_no b) = Some l" "b' \<in> set l" "b_pp_digest b' = b_pp_digest b"
      "b' \<in> set bs" "b_pp_seq_no b' = b_pp_seq_no b" using snoc.IH by blast
    show ?thesis
    proof (cases "b_pp_seq_no b = b_pp_seq_no c")
      case True
      then have "b_pp_digest b' \<noteq> b_pp_digest c" using False l(3) by simp
      then show ?thesis using l True by (auto simp: step)
    qed (use l in \<open>auto simp: step\<close>)
  qed
qed simp

section \<open>Properties\<close>

text \<open>
  C11: a replica ends a view change only with a new-view message that it has checked itself: the
  replica has every view-change message that the new view refers to, with its digest, these
  references are at least a strong quorum in number, and the checkpoint and the batches of the new
  view are the ones it computes from these messages. That the references name different nodes is
  not checked and not claimed.
\<close>

theorem view_change_finished_valid:
  assumes "finish_view_change_if_needed env s = Inr (s', eff)"
    and "d_waiting_for_new_view (vs_data s)" and "\<not> d_waiting_for_new_view (vs_data s')"
  shows "\<exists>nv vcs. new_view (vs_data s) = Some nv \<and>
    list_all2 (stored_vc (vs_view_change_digest env) (d_view_change_votes (vs_data s))) (nv_viewChanges nv) vcs \<and>
    is_reached (strong (quorums (vs_data s))) (int (length (nv_viewChanges nv))) \<and>
    calc_checkpoint (quorums (vs_data s)) vcs = Some (nv_checkpoint nv) \<and>
    calc_batches (quorums (vs_data s)) (d_log_size (vs_data s)) (nv_checkpoint nv) vcs = Some (nv_batches nv) \<and>
    last_completed_view_no s' = d_view_no (vs_data s)"
proof -
  let ?D = "vs_view_change_digest env" and ?vv = "d_view_change_votes (vs_data s)"
  obtain nv where nv: "new_view (vs_data s) = Some nv"
    using assms by (auto simp: finish_view_change_if_needed_def split: option.splits)
  obtain vv vcs where vcs: "find_view_changes ?D ?vv (nv_viewChanges nv) = (vv, Inr vcs)"
    using assms nv by (cases "find_view_changes ?D ?vv (nv_viewChanges nv)")
      (auto simp: finish_view_change_if_needed_def set_votes_def split: sum.splits)
  then have vv: "vv = ?vv" and stored: "list_all2 (stored_vc ?D ?vv) (nv_viewChanges nv) vcs"
    using find_view_changes_stored by blast+
  have s1: "set_votes s ?vv = s" by (simp add: set_votes_def)
  have cp: "calc_checkpoint (quorums (vs_data s)) vcs = Some (nv_checkpoint nv)"
    and bs: "calc_batches (quorums (vs_data s)) (d_log_size (vs_data s)) (nv_checkpoint nv) vcs = Some (nv_batches nv)"
    and fin: "finish_view_change s = Inr (s', eff)"
    using assms nv vcs vv s1 by (auto simp: finish_view_change_if_needed_def Let_def split: if_splits)
  moreover have "is_reached (strong (quorums (vs_data s))) (int (length (nv_viewChanges nv)))"
    using calc_checkpoint_quorum [OF cp] list_all2_lengthD [OF stored] by simp
  moreover have "last_completed_view_no s' = d_view_no (vs_data s)"
    using fin by (auto simp: finish_view_change_def Let_def split: option.splits)
  ultimately show ?thesis using nv stored by blast
qed

text \<open>
  States for the examples: four nodes move to view 2. The batch 1 was prepared by all in view 0
  and is to be ordered again in view 1, where only node B has prepared it before the next view
  change started.
\<close>

definition demo_vc2 :: "nat \<Rightarrow> ViewChange" where
  "demo_vc2 v = \<lparr>vc_viewNo = 2, vc_stableCheckpoint = 0, vc_prepared = [demo_bid v 1], vc_preprepared = [demo_bid 1 1],
     vc_checkpoints = [initial_checkpoint_of 0]\<rparr>"

definition demo_digest :: "ViewChange \<Rightarrow> string" where
  "demo_digest vc = map (\<lambda>b. if b_view_no b = 0 then CHR ''0'' else CHR ''1'') (vc_prepared vc)"

definition demo_vote :: "nat \<Rightarrow> ViewChangeVotesForNode" where
  "demo_vote v = \<lparr>vn_view_change = Some (demo_vc2 v), vn_digest = Some (demo_digest (demo_vc2 v)), vn_quorums = mk_Quorums 4,
     vn_acks = [(demo_digest (demo_vc2 v), {|''A'', ''C''|})]\<rparr>"

definition demo_vs :: "string \<Rightarrow> (string \<times> nat) list \<Rightarrow> ViewChangeService" where
  "demo_vs name votes = mk_ViewChangeService
     ((mk_ConsensusSharedData insort_right 5 name [''A'', ''B'', ''C'', ''D''] 0 True)
       \<lparr>d_view_no := 2, d_waiting_for_new_view := True, d_primary_name := Some ''C:0'', d_node_mode := Some Mode_participating,
        d_view_change_votes := \<lparr>vv_votes = map (\<lambda>(n, v). (n, demo_vote v)) votes, vv_quorums = mk_Quorums 4\<rparr>\<rparr>)"

definition demo_vs_env :: vs_env where
  "demo_vs_env = \<lparr>vs_view_change_digest = demo_digest, vs_new_view_digest = (\<lambda>_. ''nv''),
     vs_select_master_primary = select_master_primary [''A'', ''B'', ''C'', ''D''], vs_unstash_view_change = (\<lambda>s. (s, []))\<rparr>"

definition demo_nv :: NewView where
  "demo_nv = \<lparr>nv_viewNo = 2, nv_viewChanges = [(''A'', ''0''), (''B'', ''1''), (''C'', ''0''), (''D'', ''0'')],
     nv_checkpoint = initial_checkpoint_of 0, nv_batches = [demo_bid 0 1], nv_primary = None\<rparr>"

definition demo_replica :: ViewChangeService where
  "demo_replica = (let s = demo_vs ''D:0'' [(''A'', 0), (''B'', 1), (''C'', 0), (''D'', 0)] in
     s\<lparr>vs_data := (vs_data s)\<lparr>d_new_view_votes := add_new_view (\<lambda>_. ''nv'') (d_new_view_votes (vs_data s)) demo_nv ''C:0''\<rparr>\<rparr>)"

theorem view_change_finished_valid_witness:
  "\<exists>s' eff. finish_view_change_if_needed demo_vs_env demo_replica = Inr (s', eff) \<and> last_completed_view_no s' = 2"
proof -
  have f: "case finish_view_change_if_needed demo_vs_env demo_replica of Inl e \<Rightarrow> False | Inr (s', eff) \<Rightarrow> \<not> d_waiting_for_new_view (vs_data s')"
    and w: "d_waiting_for_new_view (vs_data demo_replica)" "d_view_no (vs_data demo_replica) = 2" by code_simp+
  then obtain s' eff where "finish_view_change_if_needed demo_vs_env demo_replica = Inr (s', eff)" "\<not> d_waiting_for_new_view (vs_data s')"
    by (auto split: sum.splits prod.splits)
  then show ?thesis using view_change_finished_valid [OF _ w(1)] w(2) by fastforce
qed

text \<open>
  C7: end to end: if a primary sends a new-view message, built from the confirmed votes of nodes
  of a pool with at most \<open>f\<close> faulty ones, then every batch that was committed after the checkpoint
  of the new view, up to some number within the log, is in it again with its digest and its
  original view.
\<close>

theorem sent_new_view_keeps_committed:
  assumes "vv_ok (vs_view_change_digest env) (d_view_change_votes (vs_data s))" and "quorums_ok (vs_data s)"
    and "distinct (d_validators (vs_data s))" and "V = set (d_validators (vs_data s))" and "V \<noteq> {}"
    and "F \<subseteq> V" and "int (card F) \<le> getMaxFailures (int (card V))"
    and "fst ` set (confirmed_votes (d_view_change_votes (vs_data s))) \<subseteq> V"
    and "send_new_view_if_needed env s = Inr (s', eff)" and "SendNewView nv \<in> set eff"
    and "last_seq_no \<le> cp_seqNoEnd (nv_checkpoint nv) + d_log_size (vs_data s)"
    and "\<And>n. cp_seqNoEnd (nv_checkpoint nv) < n \<Longrightarrow> n \<le> last_seq_no \<Longrightarrow>
      b_pp_seq_no (bid n) = n \<and> committed_batch V F (recorded_votes (vs_view_change_digest env) (d_view_change_votes (vs_data s))) (C n) (bid n)"
    and "cp_seqNoEnd (nv_checkpoint nv) < n" and "n \<le> last_seq_no"
  shows "\<exists>b \<in> set (nv_batches nv). b_pp_seq_no b = n \<and> b_pp_digest b = b_pp_digest (bid n) \<and> b_pp_view_no b = b_pp_view_no (bid n)"
proof -
  let ?vv = "d_view_change_votes (vs_data s)" and ?D = "vs_view_change_digest env"
  have q: "quorums (vs_data s) = mk_Quorums (int (card V))"
    using assms(2,3,4) by (simp add: quorums_ok_def quorums_def distinct_card)
  have "distinct (map fst (recorded_votes ?D ?vv))" unfolding fst_recorded_votes by (rule confirmed_votes_distinct [OF assms(1)])
  moreover have "fst ` set (recorded_votes ?D ?vv) = fst ` set (confirmed_votes ?vv)"
    using fst_recorded_votes [of ?D ?vv] by (metis list.set_map)
  ultimately have "vote_setting V F (recorded_votes ?D ?vv)"
    using assms(4-8) by (simp add: vote_setting_def)
  moreover have "calc_batches (mk_Quorums (int (card V))) (d_log_size (vs_data s)) (nv_checkpoint nv) (map snd (recorded_votes ?D ?vv)) = Some (nv_batches nv)"
    using send_new_view_sent [OF assms(1,9,10)] q by simp
  ultimately show ?thesis by (rule new_view_covers_committed [OF _ _ assms(11,12,13,14)])
qed

theorem sent_new_view_keeps_committed_witness:
  "\<exists>s' eff nv. send_new_view_if_needed demo_vs_env (demo_vs ''C:0'' [(''A'', 0), (''B'', 1), (''C'', 0), (''D'', 0)]) = Inr (s', eff) \<and> SendNewView nv \<in> set eff \<and>
     (\<exists>b \<in> set (nv_batches nv). b_pp_seq_no b = 1 \<and> b_pp_digest b = ''d'' \<and> b_pp_view_no b = 0)"
proof -
  let ?s = "demo_vs ''C:0'' [(''A'', 0), (''B'', 1), (''C'', 0), (''D'', 0)]" and ?V = "{''A'', ''B'', ''C'', ''D''}"
  have "case send_new_view_if_needed demo_vs_env ?s of Inl e \<Rightarrow> False | Inr (s', eff) \<Rightarrow> hd eff = SendNewView demo_nv \<and> eff \<noteq> []" by code_simp
  then obtain s' eff where send: "send_new_view_if_needed demo_vs_env ?s = Inr (s', eff)" "SendNewView demo_nv \<in> set eff"
    by (auto split: sum.splits prod.splits) (metis hd_in_set)
  have r: "recorded_votes demo_digest (d_view_change_votes (vs_data ?s)) = [(''A'', demo_vc2 0), (''B'', demo_vc2 1), (''C'', demo_vc2 0), (''D'', demo_vc2 0)]"
    and "d_validators (vs_data ?s) = [''A'', ''B'', ''C'', ''D'']"
    and "map fst (confirmed_votes (d_view_change_votes (vs_data ?s))) = [''A'', ''B'', ''C'', ''D'']"
    and "cp_seqNoEnd (nv_checkpoint demo_nv) = 0" "d_log_size (vs_data ?s) = 5"
    by code_simp+
  note f = this
  have q: "quorums_ok (vs_data ?s)"
    by (simp add: demo_vs_def mk_ViewChangeService_def mk_ConsensusSharedData_def set_validators_def quorums_ok_def quorums_def Let_def nv_update_quorums_def)
  have vv: "vv_ok demo_digest (d_view_change_votes (vs_data ?s))"
    by (simp add: demo_vs_def mk_ViewChangeService_def vv_ok_def vn_ok_def demo_vote_def)
  have c: "card ?V = 4" by simp
  have V: "?V = set (d_validators (vs_data ?s))" using f by simp
  have cb: "committed_batch ?V {} (recorded_votes demo_digest (d_view_change_votes (vs_data ?s))) ?V (demo_bid 0 1)"
    unfolding committed_batch_def c r by (auto simp: getMaxFailures_def demo_vc2_def demo_bid_def)
  have "\<exists>b \<in> set (nv_batches demo_nv). b_pp_seq_no b = 1 \<and> b_pp_digest b = b_pp_digest (demo_bid 0 1) \<and> b_pp_view_no b = b_pp_view_no (demo_bid 0 1)"
    by (rule sent_new_view_keeps_committed [OF _ q _ V _ _ _ _ send, where ?last_seq_no = 1 and ?F = "{}" and ?bid = "\<lambda>_. demo_bid 0 1" and ?C = "\<lambda>_. ?V"])
      (use vv f cb in \<open>auto simp: demo_vs_env_def getMaxFailures_def demo_bid_def simp flip: list.set_map\<close>)
  then show ?thesis using send by (auto simp: demo_bid_def)
qed

text \<open>
  C37: nothing stops a new view from resting on one vote listed often enough. Let a replica wait for
  the new view, and let it have a view-change message of some node, the faulty primary included,
  that reports one checkpoint and no prepared batch. Then it accepts a new-view message of the
  primary that lists this one vote as often as the strong quorum is large, starts from its
  checkpoint and re-orders nothing, whatever the other votes report; the view change is over.
\<close>

theorem repeated_vote_accepted:
  assumes "validate_vc s (d_view_no (vs_data s)) = (V_PROCESS, None)" and "d_primary_name (vs_data s) = Some frm"
    and "nv_votes (d_new_view_votes (vs_data s)) = []" and "nv_new_view (d_new_view_votes (vs_data s)) = None"
    and "stored_vc (vs_view_change_digest env) (d_view_change_votes (vs_data s)) vote vc"
    and "vc_checkpoints vc = [cp]" and "vc_stableCheckpoint vc \<le> cp_seqNoEnd cp" and "vc_prepared vc = []"
    and "is_reached (strong (quorums (vs_data s))) (int k)" and "0 < k"
    and "nv = \<lparr>nv_viewNo = d_view_no (vs_data s), nv_viewChanges = replicate k vote, nv_checkpoint = cp, nv_batches = [], nv_primary = None\<rparr>"
  shows "\<exists>s'. process_new_view_message env s nv frm =
      Inr ((s', [StopNewViewTimer, NewViewAccepted (d_view_no (vs_data s)) (replicate k vote) cp []]), (V_PROCESS, None)) \<and>
    \<not> d_waiting_for_new_view (vs_data s') \<and> d_prev_view_prepare_cert (vs_data s') = cp_seqNoEnd cp"
proof -
  let ?nvs = "add_new_view (vs_new_view_digest env) (d_new_view_votes (vs_data s)) nv frm"
  let ?s1 = "s\<lparr>vs_data := (vs_data s)\<lparr>d_new_view_votes := ?nvs\<rparr>\<rparr>"
  have nv: "new_view (vs_data ?s1) = Some nv" "new_view d = Some nv"
    if "d_new_view_votes d = ?nvs" "d_primary_name d = Some frm" for d
    using assms(2-4,11) that by (simp_all add: new_view_def get_new_view_def add_new_view_def add_vote_def mk_NewViewVotes_def Let_def)
  have find: "find_view_changes (vs_view_change_digest env) (d_view_change_votes (vs_data s)) (replicate k vote) =
      (d_view_change_votes (vs_data s), Inr (replicate k vc))" by (rule find_view_changes_replicate [OF assms(5)])
  have cp: "calc_checkpoint (quorums (vs_data s)) (replicate k vc) = Some cp" by (rule calc_checkpoint_replicate [OF assms(6,7,9,10)])
  have bs: "calc_batches (quorums (vs_data s)) (d_log_size (vs_data s)) cp (replicate k vc) = Some []"
    by (rule calc_batches_replicate [OF assms(7,8,9)])
  have "finish_view_change_if_needed env ?s1 = finish_view_change ?s1"
    using nv(2) [of "vs_data ?s1"] assms(2,11) find cp bs by (simp add: finish_view_change_if_needed_def set_votes_def quorums_def Let_def)
  then show ?thesis
    using assms(1,2,11) nv(2) by (simp add: process_new_view_message_def finish_view_change_def Let_def)
qed

text \<open>
  The messages that a replica receives, handled one after the other from some state; the effects
  in order.
\<close>

datatype vs_input = Need "nat option" | In_VC ViewChange string | In_Ack ViewChangeAck string | In_NV NewView string

fun vs_handle :: "vs_env \<Rightarrow> ViewChangeService \<Rightarrow> vs_input \<Rightarrow> vs_step result" where
  "vs_handle env s (Need v) = process_need_view_change env s v"
| "vs_handle env s (In_VC msg frm) = bindE (process_view_change_message env s msg frm) (\<lambda>r. Inr (fst r))"
| "vs_handle env s (In_Ack msg frm) = bindE (process_view_change_ack_message env s msg frm) (\<lambda>r. Inr (fst r))"
| "vs_handle env s (In_NV msg frm) = bindE (process_new_view_message env s msg frm) (\<lambda>r. Inr (fst r))"

fun vs_run :: "vs_env \<Rightarrow> ViewChangeService \<Rightarrow> vs_input list \<Rightarrow> vs_step result" where
  "vs_run env s [] = Inr (s, [])"
| "vs_run env s (i # is) = bindE (vs_handle env s i) (\<lambda>(s1, eff1). bindE (vs_run env s1 is) (\<lambda>(s2, eff2). Inr (s2, eff1 @ eff2)))"

text \<open>
  Four nodes move to view 2, whose primary is C. Node A has prepared batch 1 in view 0 and heard
  nothing in view 1; in view 1, B has prepared the batch again and C has only its PrePrepare; D is
  faulty and reports nothing.
\<close>

definition run_digest :: "ViewChange \<Rightarrow> string" where
  "run_digest vc = map (\<lambda>b. if b_view_no b = 0 then CHR ''0'' else CHR ''1'') (vc_prepared vc) @ '':'' @
     map (\<lambda>b. if b_view_no b = 0 then CHR ''0'' else CHR ''1'') (vc_preprepared vc)"

definition run_env :: vs_env where
  "run_env = demo_vs_env\<lparr>vs_view_change_digest := run_digest\<rparr>"

definition run_node :: "string \<Rightarrow> nat \<Rightarrow> BatchID list \<Rightarrow> BatchID list \<Rightarrow> ViewChangeService" where
  "run_node name view_no prepared preprepared = mk_ViewChangeService
     ((mk_ConsensusSharedData insort_right 5 name [''A'', ''B'', ''C'', ''D''] 0 True)
       \<lparr>d_view_no := view_no, d_prepared := prepared, d_preprepared := preprepared, d_node_mode := Some Mode_participating\<rparr>)"

definition run_vc :: "BatchID list \<Rightarrow> BatchID list \<Rightarrow> ViewChange" where
  "run_vc prepared preprepared = \<lparr>vc_viewNo = 2, vc_stableCheckpoint = 0, vc_prepared = prepared, vc_preprepared = preprepared,
     vc_checkpoints = [initial_checkpoint_of 0]\<rparr>"

definition run_votes :: "(string \<times> ViewChange) list" where
  "run_votes = [(''A'', run_vc [demo_bid 0 1] [demo_bid 0 1]), (''B'', run_vc [demo_bid 1 1] [demo_bid 1 1]),
     (''C'', run_vc [] [demo_bid 1 1]), (''D'', run_vc [] [])]"

definition run_in :: "string \<Rightarrow> vs_input" where
  "run_in n = In_VC (the (map_of run_votes n)) (n @ '':0'')"


theorem repeated_vote_accepted_witness:
  "\<exists>s s' eff. vs_run run_env (run_node ''A:0'' 1 [demo_bid 1 1] [demo_bid 1 1]) [Need None, run_in ''B'', run_in ''D''] = Inr s \<and>
     process_new_view_message run_env (fst s)
       \<lparr>nv_viewNo = 2, nv_viewChanges = replicate 3 (''D'', '':''), nv_checkpoint = initial_checkpoint_of 0, nv_batches = [], nv_primary = None\<rparr> ''C:0'' =
       Inr ((s', eff), (V_PROCESS, None)) \<and> \<not> d_waiting_for_new_view (vs_data s')"
proof -
  let ?run = "vs_run run_env (run_node ''A:0'' 1 [demo_bid 1 1] [demo_bid 1 1]) [Need None, run_in ''B'', run_in ''D'']"
  have "case ?run of Inl e \<Rightarrow> False | Inr (s, eff) \<Rightarrow>
      validate_vc s (d_view_no (vs_data s)) = (V_PROCESS, None) \<and> d_primary_name (vs_data s) = Some ''C:0'' \<and> d_view_no (vs_data s) = 2 \<and>
      nv_votes (d_new_view_votes (vs_data s)) = [] \<and> nv_new_view (d_new_view_votes (vs_data s)) = None \<and>
      map_option vn_view_change (map_of (vv_votes (d_view_change_votes (vs_data s))) ''D'') = Some (Some (run_vc [] [])) \<and>
      is_reached (strong (quorums (vs_data s))) 3"
    by code_simp
  then obtain s eff where run: "?run = Inr (s, eff)" "validate_vc s (d_view_no (vs_data s)) = (V_PROCESS, None)"
    "d_primary_name (vs_data s) = Some ''C:0''" "d_view_no (vs_data s) = 2" "nv_votes (d_new_view_votes (vs_data s)) = []"
    "nv_new_view (d_new_view_votes (vs_data s)) = None" "is_reached (strong (quorums (vs_data s))) 3"
    and vc: "stored_vc (vs_view_change_digest run_env) (d_view_change_votes (vs_data s)) (''D'', '':'') (run_vc [] [])"
    by (auto simp: stored_vc_def run_env_def run_digest_def run_vc_def split: sum.splits prod.splits)
  show ?thesis
    using repeated_vote_accepted [OF run(2,3,5,6) vc, where ?k = 3 and ?cp = "initial_checkpoint_of 0"] run(1,4,7)
    by (auto simp: run_vc_def initial_checkpoint_of_def)
qed


text \<open>
  A view-change message reports at most one prepared batch per sequence number; for every
  number of a batch that is prepared now it reports the batch prepared last, for every other
  number above the stable checkpoint the one remembered from earlier views; and it reports every
  batch pre-prepared now, by its number and digest.
\<close>

theorem view_change_msg_reports:
  assumes "old_prepared_ok (old_prepared s)" and "build_view_change_msg s = (s', vc)"
  shows "distinct (map b_pp_seq_no (vc_prepared vc)) \<and> old_prepared_ok (old_prepared s') \<and>
    (\<forall>b. b \<in> set (vc_prepared vc) \<longleftrightarrow>
       (case filter (\<lambda>b'. b_pp_seq_no b' = b_pp_seq_no b) (d_prepared (vs_data s)) of
          [] \<Rightarrow> map_of (old_prepared s) (b_pp_seq_no b) = Some b
        | l \<Rightarrow> b = last l)) \<and>
    (\<forall>b \<in> set (d_preprepared (vs_data s)). \<exists>b' \<in> set (vc_preprepared vc). b_pp_seq_no b' = b_pp_seq_no b \<and> b_pp_digest b' = b_pp_digest b)"
proof -
  let ?op = "fold add_old_prepared (d_prepared (vs_data s)) (old_prepared s)"
  let ?opp = "fold add_old_preprepared (d_preprepared (vs_data s)) (old_preprepared s)"
  have vc: "vc_prepared vc = sorted_bids (map snd ?op)" "vc_preprepared vc = sorted_bids (concat (map snd ?opp))" "old_prepared s' = ?op"
    using assms(2) by (auto simp: build_view_change_msg_def Let_def)
  have ok: "old_prepared_ok ?op" by (rule fold_add_old_prepared_ok [OF assms(1)])
  then have "distinct (map b_pp_seq_no (map snd ?op))" unfolding old_prepared_seq_nos [OF ok] by (simp add: old_prepared_ok_def)
  then have dist: "distinct (map b_pp_seq_no (vc_prepared vc))"
    unfolding vc by (simp only: distinct_map_sorted_bids)
  have "b \<in> set (map snd ?op) \<longleftrightarrow> map_of ?op (b_pp_seq_no b) = Some b" for b
    using ok by (force simp: old_prepared_ok_def)
  then have mem: "b \<in> set (vc_prepared vc) \<longleftrightarrow>
       (case filter (\<lambda>b'. b_pp_seq_no b' = b_pp_seq_no b) (d_prepared (vs_data s)) of
          [] \<Rightarrow> map_of (old_prepared s) (b_pp_seq_no b) = Some b | l \<Rightarrow> b = last l)" for b
    unfolding vc set_sorted_bids fold_add_old_prepared_lookup by (auto split: list.splits)
  have "\<exists>b' \<in> set (vc_preprepared vc). b_pp_seq_no b' = b_pp_seq_no b \<and> b_pp_digest b' = b_pp_digest b"
    if b: "b \<in> set (d_preprepared (vs_data s))" for b
    using fold_add_old_preprepared_lookup [OF b, of "old_preprepared s"] unfolding vc by (auto dest!: map_of_SomeD) force
  then show ?thesis using dist ok mem vc(3) by simp
qed

theorem view_change_msg_reports_witness:
  "demo_bid 1 1 \<in> set (vc_prepared (snd (build_view_change_msg
     ((demo_vs ''A:0'' [])\<lparr>old_prepared := [(1, demo_bid 0 1)], vs_data := (vs_data (demo_vs ''A:0'' []))\<lparr>d_prepared := [demo_bid 1 1]\<rparr>\<rparr>))))"
  using view_change_msg_reports
    [of "(demo_vs ''A:0'' [])\<lparr>old_prepared := [(1, demo_bid 0 1)], vs_data := (vs_data (demo_vs ''A:0'' []))\<lparr>d_prepared := [demo_bid 1 1]\<rparr>\<rparr>",
     OF _ prod.collapse [symmetric]]
  by (simp add: old_prepared_ok_def demo_bid_def)

end
