(* ===== verification/Json_Serializer.thy ===== *)
theory Json_Serializer
  imports Prelude Complex_Main
begin

text \<open>
  \<^verbatim>\<open>common/serializers/json_serializer.py\<close>: the serializer of the node status database, with the
  encoder that is used when \<^verbatim>\<open>ujson\<close> is installed. The functions of \<^verbatim>\<open>ujson\<close>, a foreign package, are
  the fields of \<open>ujson\<close>; what an encoded text has outside ASCII is escaped by it, so that \<open>encode\<close>
  and \<open>decode\<close> are the conversions to and from bytes.
\<close>

section \<open>Values\<close>

datatype json =
    J_none
  | J_bool bool
  | J_int int
  | J_float rat
  | J_str string
  | J_bytes bytes
  | J_list "json list"
  | J_tuple "json list"
  | J_dict "(string \<times> json) list"

datatype dumped = D_str string | D_bytes bytes

record ujson =
  uencode :: "bool \<Rightarrow> json \<Rightarrow> string"
  uloads :: "string \<Rightarrow> json result"

section \<open>The standard library\<close>

definition b64_alphabet :: string where
  "b64_alphabet = ''ABCDEFGHIJKLMNOPQRSTUVWXYZabcdefghijklmnopqrstuvwxyz0123456789+/''"

definition b64_char :: "nat \<Rightarrow> char" where "b64_char n = b64_alphabet ! (n mod 64)"

text \<open>\<^verbatim>\<open>base64.b64encode\<close>: three bytes as four characters, the last group padded.\<close>

fun b64encode :: "bytes \<Rightarrow> string" where
  "b64encode [] = []"
| "b64encode [a] = [b64_char (unat a div 4), b64_char (unat a * 16), CHR ''='', CHR ''='']"
| "b64encode [a, b] =
     [b64_char (unat a div 4), b64_char (unat a * 16 + unat b div 16), b64_char (unat b * 4), CHR ''='']"
| "b64encode (a # b # c # bs) =
     [b64_char (unat a div 4), b64_char (unat a * 16 + unat b div 16), b64_char (unat b * 4 + unat c div 64), b64_char (unat c)] @
     b64encode bs"

text \<open>Which values are false, and the arguments that \<^verbatim>\<open>f(*v)\<close> passes on.\<close>

fun py_truthy :: "json \<Rightarrow> bool" where
  "py_truthy J_none = False"
| "py_truthy (J_bool b) = b"
| "py_truthy (J_int i) = (i \<noteq> 0)"
| "py_truthy (J_float x) = (x \<noteq> 0)"
| "py_truthy (J_str s) = (s \<noteq> [])"
| "py_truthy (J_bytes bs) = (bs \<noteq> [])"
| "py_truthy (J_list vs) = (vs \<noteq> [])"
| "py_truthy (J_tuple vs) = (vs \<noteq> [])"
| "py_truthy (J_dict kvs) = (kvs \<noteq> [])"

fun star_args :: "json \<Rightarrow> json list result" where
  "star_args (J_list vs) = Inr vs"
| "star_args (J_tuple vs) = Inr vs"
| "star_args (J_str s) = Inr (map (\<lambda>c. J_str [c]) s)"
| "star_args (J_bytes bs) = Inr (map (\<lambda>b. J_int (uint b)) bs)"
| "star_args (J_dict kvs) = Inr (map (\<lambda>(k, _). J_str k) kvs)"
| "star_args _ = Inl TypeError"

section \<open>The serializer\<close>

definition UJsonEncoder_encode :: "ujson \<Rightarrow> json \<Rightarrow> string" where
  "UJsonEncoder_encode lib v =
     (case v of
        J_bytes b \<Rightarrow> ''\"'' @ b64encode b @ ''\"''
      | _ \<Rightarrow> uencode lib True v)"

definition dumps :: "ujson \<Rightarrow> json \<Rightarrow> bool \<Rightarrow> dumped" where
  "dumps lib data toBytes =
     (let encoded = UJsonEncoder_encode lib data in
      if toBytes then D_bytes (encode encoded) else D_str encoded)"

definition loads :: "ujson \<Rightarrow> dumped \<Rightarrow> json result" where
  "loads lib data = uloads lib (case data of D_bytes b \<Rightarrow> decode b | D_str s \<Rightarrow> s)"

definition json_serialize :: "ujson \<Rightarrow> json \<Rightarrow> bool \<Rightarrow> dumped" where
  "json_serialize lib data toBytes = dumps lib data toBytes"

definition json_deserialize :: "ujson \<Rightarrow> dumped \<Rightarrow> json result" where
  "json_deserialize lib data = loads lib data"

text \<open>
  What is loaded from a serialized value is what \<^verbatim>\<open>ujson\<close> loads from its own text with sorted
  keys, as text and as bytes alike.
\<close>

lemma json_deserialize_serialize:
  "(\<And>b. v \<noteq> J_bytes b) \<Longrightarrow> json_deserialize lib (json_serialize lib v toBytes) = uloads lib (uencode lib True v)"
  by (cases v) (auto simp: json_deserialize_def json_serialize_def loads_def dumps_def UJsonEncoder_encode_def decode_encode Let_def)

end
