(* ===== verification/Instance_Change.thy ===== *)
theory Instance_Change
  imports Msg_Validator KV_Store Json_Serializer
begin

text \<open>
  Votes for a view change: \<^verbatim>\<open>plenum/server/view_change/instance_change_provider.py\<close>, which keeps
  them per view, drops outdated ones and stores them in the node status database, and
  \<^verbatim>\<open>plenum/server/consensus/view_change_trigger_service.py\<close>, which collects them and starts the
  view change. The clock does not move during one call; a time is a rational number. The operations
  of the database and the functions of \<^verbatim>\<open>ujson\<close> are parameters.
\<close>

section \<open>The cache of votes\<close>

record Vote =
  v_timestamp :: rat
  v_reason :: int

type_synonym votes = "(string \<times> Vote) list"
type_synonym InstanceChangeCache = "(nat \<times> votes) list"

definition cache_add :: "InstanceChangeCache \<Rightarrow> nat \<Rightarrow> string \<Rightarrow> Vote \<Rightarrow> InstanceChangeCache" where
  "cache_add c view_no voter vote =
     AList.update view_no (AList.update voter vote (case map_of c view_no of None \<Rightarrow> [] | Some vs \<Rightarrow> vs)) c"

definition cache_remove_vote :: "InstanceChangeCache \<Rightarrow> nat \<Rightarrow> string \<Rightarrow> InstanceChangeCache" where
  "cache_remove_vote c view_no voter =
     (case map_of c view_no of
        None \<Rightarrow> c
      | Some vs \<Rightarrow>
          if map_of vs voter = None then c
          else (let vs' = AList.delete voter vs in
                if vs' = [] then AList.delete view_no c else AList.update view_no vs' c))"

section \<open>The provider\<close>

record 'kv InstanceChangeProvider =
  ic_cache :: InstanceChangeCache
  ic_db :: "'kv option"

record 'kv ic_env =
  outdated_ic_interval :: rat
  ic_ops :: "'kv KeyValueStorage"
  ic_ujson :: ujson

text \<open>The votes of a view as \<^verbatim>\<open>ujson\<close> sees them: a dictionary of named tuples; a tuple is encoded as a list.\<close>

definition votes_json :: "votes \<Rightarrow> json" where
  "votes_json vs = J_dict (map (\<lambda>(voter, vote). (voter, J_tuple [J_float (v_timestamp vote), J_int (v_reason vote)])) vs)"

definition serialized_votes :: "'kv ic_env \<Rightarrow> votes \<Rightarrow> bytes" where
  "serialized_votes env vs =
     (case json_serialize (ic_ujson env) (votes_json vs) True of D_bytes b \<Rightarrow> b | D_str s \<Rightarrow> encode s)"

definition db_prefix :: string where "db_prefix = ''instance_change_''"

definition generate_db_key :: "nat \<Rightarrow> string" where
  "generate_db_key view_no = db_prefix @ py_str (int view_no)"

definition update_db_from_cache :: "'kv ic_env \<Rightarrow> 'kv InstanceChangeProvider \<Rightarrow> nat \<Rightarrow> 'kv InstanceChangeProvider result" where
  "update_db_from_cache env p view_no =
     (case ic_db p of
        None \<Rightarrow> Inr p
      | Some db \<Rightarrow>
          (case map_of (ic_cache p) view_no of
             Some (v # vs) \<Rightarrow> Inr (p\<lparr>ic_db := Some (kv_put (ic_ops env) db (encode (generate_db_key view_no)) (serialized_votes env (v # vs)))\<rparr>)
           | _ \<Rightarrow> bindE (kv_remove (ic_ops env) db (encode (generate_db_key view_no))) (\<lambda>db'. Inr (p\<lparr>ic_db := Some db'\<rparr>))))"

definition is_outdated :: "'kv ic_env \<Rightarrow> rat \<Rightarrow> Vote \<Rightarrow> bool" where
  "is_outdated env now vote = (v_timestamp vote < now - outdated_ic_interval env)"

definition update_votes :: "'kv ic_env \<Rightarrow> rat \<Rightarrow> 'kv InstanceChangeProvider \<Rightarrow> nat \<Rightarrow> 'kv InstanceChangeProvider result" where
  "update_votes env now p view_no =
     (case map_of (ic_cache p) view_no of
        None \<Rightarrow> Inr p
      | Some vs \<Rightarrow>
          if outdated_ic_interval env \<le> 0 then Inr p
          else
            (let p' = p\<lparr>ic_cache := fold (\<lambda>(voter, vote) c. if is_outdated env now vote then cache_remove_vote c view_no voter else c) vs (ic_cache p)\<rparr> in
             if list_ex (\<lambda>(voter, vote). is_outdated env now vote) vs then update_db_from_cache env p' view_no else Inr p'))"

definition ic_add_vote :: "'kv ic_env \<Rightarrow> rat \<Rightarrow> 'kv InstanceChangeProvider \<Rightarrow> nat \<Rightarrow> nat \<Rightarrow> string \<Rightarrow> 'kv InstanceChangeProvider result" where
  "ic_add_vote env now p view_no reason voter =
     update_db_from_cache env (p\<lparr>ic_cache := cache_add (ic_cache p) view_no voter \<lparr>v_timestamp = now, v_reason = int reason\<rparr>\<rparr>) view_no"

definition has_view :: "'kv ic_env \<Rightarrow> rat \<Rightarrow> 'kv InstanceChangeProvider \<Rightarrow> nat \<Rightarrow> ('kv InstanceChangeProvider \<times> bool) result" where
  "has_view env now p view_no =
     bindE (update_votes env now p view_no) (\<lambda>p'. Inr (p', map_of (ic_cache p') view_no \<noteq> None))"

definition has_inst_chng_from ::
  "'kv ic_env \<Rightarrow> rat \<Rightarrow> 'kv InstanceChangeProvider \<Rightarrow> nat \<Rightarrow> string \<Rightarrow> ('kv InstanceChangeProvider \<times> bool) result" where
  "has_inst_chng_from env now p view_no voter =
     bindE (update_votes env now p view_no) (\<lambda>p'.
       Inr (p', case map_of (ic_cache p') view_no of None \<Rightarrow> False | Some vs \<Rightarrow> map_of vs voter \<noteq> None))"

definition ic_has_quorum :: "'kv ic_env \<Rightarrow> rat \<Rightarrow> 'kv InstanceChangeProvider \<Rightarrow> nat \<Rightarrow> int \<Rightarrow> ('kv InstanceChangeProvider \<times> bool) result" where
  "ic_has_quorum env now p view_no quorum =
     bindE (update_votes env now p view_no) (\<lambda>p'.
       Inr (p', case map_of (ic_cache p') view_no of None \<Rightarrow> False | Some vs \<Rightarrow> int (length vs) \<ge> quorum))"

fun remove_views :: "'kv ic_env \<Rightarrow> 'kv InstanceChangeProvider \<Rightarrow> nat \<Rightarrow> nat list \<Rightarrow> 'kv InstanceChangeProvider result" where
  "remove_views env p view_to_remove [] = Inr p"
| "remove_views env p view_to_remove (v # vs) =
     (if v > view_to_remove then Inr p
      else
        (let p' = p\<lparr>ic_cache := AList.delete v (ic_cache p)\<rparr> in
         case ic_db p' of
           None \<Rightarrow> remove_views env p' view_to_remove vs
         | Some db \<Rightarrow> bindE (kv_remove (ic_ops env) db (encode (generate_db_key v)))
             (\<lambda>db'. remove_views env (p'\<lparr>ic_db := Some db'\<rparr>) view_to_remove vs)))"

definition remove_view :: "'kv ic_env \<Rightarrow> 'kv InstanceChangeProvider \<Rightarrow> nat \<Rightarrow> 'kv InstanceChangeProvider result" where
  "remove_view env p view_to_remove = remove_views env p view_to_remove (sort (map fst (ic_cache p)))"

text \<open>
  Loading the votes from the database. \<^verbatim>\<open>decode\<close> is for the ASCII keys that the provider writes;
  \<^verbatim>\<open>s.replace(prefix, "")\<close> drops every occurrence of the prefix.
\<close>

fun py_replace_nil :: "nat \<Rightarrow> string \<Rightarrow> string \<Rightarrow> string" where
  "py_replace_nil 0 prefix s = s"
| "py_replace_nil (Suc n) prefix s =
     (if s = [] then []
      else if take (length prefix) s = prefix then py_replace_nil n prefix (drop (length prefix) s)
      else hd s # py_replace_nil n prefix (tl s))"

text \<open>A timestamp is a number, a reason an integer; a Boolean is both.\<close>

fun json_number :: "json \<Rightarrow> rat option" where
  "json_number (J_float x) = Some x"
| "json_number (J_int i) = Some (of_int i)"
| "json_number (J_bool b) = Some (if b then 1 else 0)"
| "json_number _ = None"

fun json_integer :: "json \<Rightarrow> int option" where
  "json_integer (J_int i) = Some i"
| "json_integer (J_bool b) = Some (if b then 1 else 0)"
| "json_integer _ = None"

definition load_vote :: "nat \<Rightarrow> InstanceChangeCache \<Rightarrow> string \<times> json \<Rightarrow> InstanceChangeCache result" where
  "load_vote view_no c item =
     bindE (star_args (snd item)) (\<lambda>args.
       case args of
         [ts, reason] \<Rightarrow>
           Inr (case (json_number ts, json_integer reason) of
                  (Some t, Some r) \<Rightarrow> cache_add c view_no (fst item) \<lparr>v_timestamp = t, v_reason = r\<rparr>
                | _ \<Rightarrow> c)
       | _ \<Rightarrow> Inl TypeError)"

definition load_votes :: "'kv ic_env \<Rightarrow> InstanceChangeCache \<Rightarrow> bytes \<times> bytes \<Rightarrow> InstanceChangeCache result" where
  "load_votes env c item =
     (let key = decode (fst item);
          view_no_str = py_replace_nil (length key) db_prefix key in
      if \<not> isdigit view_no_str then Inr c
      else
        bindE (json_deserialize (ic_ujson env) (D_bytes (snd item))) (\<lambda>votes_as_dict.
          if \<not> py_truthy votes_as_dict then Inr c
          else (case votes_as_dict of
                  J_dict items \<Rightarrow> foldE (load_vote (py_int view_no_str)) c items
                | _ \<Rightarrow> Inl AttributeError)))"

definition fill_cache_by_db :: "'kv ic_env \<Rightarrow> 'kv option \<Rightarrow> InstanceChangeCache result" where
  "fill_cache_by_db env db =
     (case db of None \<Rightarrow> Inr [] | Some d \<Rightarrow> foldE (load_votes env) [] (kv_items (ic_ops env) d))"

definition mk_InstanceChangeProvider :: "'kv ic_env \<Rightarrow> 'kv option \<Rightarrow> 'kv InstanceChangeProvider result" where
  "mk_InstanceChangeProvider env db =
     bindE (fill_cache_by_db env db) (\<lambda>c. Inr \<lparr>ic_cache = c, ic_db = db\<rparr>)"

section \<open>The trigger service\<close>

record 'kv ViewChangeTriggerService =
  vt_data :: ConsensusSharedData
  instance_changes :: "'kv InstanceChangeProvider"

type_synonym 'kv vt_step = "'kv ViewChangeTriggerService \<times> effect list"

definition vt_name :: "'kv ViewChangeTriggerService \<Rightarrow> string" where
  "vt_name s = replica_name_to_node_name (d_name (vt_data s))"

definition can_view_change :: "'kv ic_env \<Rightarrow> rat \<Rightarrow> 'kv ViewChangeTriggerService \<Rightarrow> nat \<Rightarrow> ('kv ViewChangeTriggerService \<times> bool) result" where
  "can_view_change env now s proposed_view_no =
     bindE (ic_has_quorum env now (instance_changes s) proposed_view_no (q_value (view_change (quorums (vt_data s))))) (\<lambda>(p, q).
       Inr (s\<lparr>instance_changes := p\<rparr>, q \<and> proposed_view_no > d_view_no (vt_data s)))"

definition try_start_view_change_by_instance_change ::
  "'kv ic_env \<Rightarrow> rat \<Rightarrow> 'kv ViewChangeTriggerService \<Rightarrow> nat \<Rightarrow> 'kv vt_step result" where
  "try_start_view_change_by_instance_change env now s proposed_view_no =
     bindE (can_view_change env now s proposed_view_no) (\<lambda>(s', can).
       Inr (s', if can then [NodeNeedViewChange proposed_view_no] else []))"

definition on_verified_instance_change_msg ::
  "'kv ic_env \<Rightarrow> rat \<Rightarrow> 'kv ViewChangeTriggerService \<Rightarrow> nat \<Rightarrow> nat \<Rightarrow> string \<Rightarrow> 'kv vt_step result" where
  "on_verified_instance_change_msg env now s view_no reason frm =
     bindE (has_inst_chng_from env now (instance_changes s) view_no frm) (\<lambda>(p, has).
       let s1 = s\<lparr>instance_changes := p\<rparr> in
       if has then Inr (s1, [])
       else
         bindE (ic_add_vote env now p view_no reason frm) (\<lambda>p'.
           let s2 = s1\<lparr>instance_changes := p'\<rparr> in
           if view_no > d_view_no (vt_data s2) then try_start_view_change_by_instance_change env now s2 view_no
           else Inr (s2, [])))"

definition send_instance_change ::
  "'kv ic_env \<Rightarrow> rat \<Rightarrow> 'kv ViewChangeTriggerService \<Rightarrow> nat \<Rightarrow> suspicion \<Rightarrow> 'kv vt_step result" where
  "send_instance_change env now s view_no suspicion =
     bindE (on_verified_instance_change_msg env now s view_no (suspicion_code suspicion) (vt_name s)) (\<lambda>(s', eff).
       Inr (s', SendInstanceChange view_no (suspicion_code suspicion) # eff))"

definition process_vote_for_view_change ::
  "'kv ic_env \<Rightarrow> rat \<Rightarrow> 'kv ViewChangeTriggerService \<Rightarrow> suspicion \<Rightarrow> nat option \<Rightarrow> 'kv vt_step result" where
  "process_vote_for_view_change env now s suspicion msg_view_no =
     (let proposed = (if suspicion \<noteq> STATE_SIGS_ARE_NOT_UPDATED \<or> \<not> d_waiting_for_new_view (vt_data s)
                      then d_view_no (vt_data s) + 1 else d_view_no (vt_data s));
          proposed' = (case msg_view_no of None \<Rightarrow> proposed | Some v \<Rightarrow> v) in
      send_instance_change env now s proposed' suspicion)"

datatype ic_reason = NOT_CONNECTED | IC_CATCHING_UP | VIEW_NOT_GREATER

definition process_instance_change ::
  "'kv ic_env \<Rightarrow> rat \<Rightarrow> string set \<Rightarrow> bool \<Rightarrow> 'kv ViewChangeTriggerService \<Rightarrow> nat \<Rightarrow> nat \<Rightarrow> string \<Rightarrow>
     ('kv vt_step \<times> (int \<times> ic_reason) option) result" where
  "process_instance_change env now connecteds is_master_degraded s viewNo reason frm =
     (let frm' = replica_name_to_node_name frm in
      if frm' \<notin> connecteds then Inr ((s, []), Some (V_DISCARD, NOT_CONNECTED))
      else if \<not> is_participating (vt_data s) then Inr ((s, []), Some (STASH_CATCH_UP, IC_CATCHING_UP))
      else if viewNo \<le> d_view_no (vt_data s) then Inr ((s, []), Some (V_DISCARD, VIEW_NOT_GREATER))
      else
        bindE (on_verified_instance_change_msg env now s viewNo reason frm') (\<lambda>(s1, eff1).
          bindE (has_inst_chng_from env now (instance_changes s1) viewNo (vt_name s1)) (\<lambda>(p, has).
            let s2 = s1\<lparr>instance_changes := p\<rparr> in
            if has \<or> \<not> is_master_degraded then Inr ((s2, eff1), None)
            else bindE (send_instance_change env now s2 viewNo PRIMARY_DEGRADED) (\<lambda>(s3, eff3). Inr ((s3, eff1 @ eff3), None)))))"

definition vt_process_new_view_accepted :: "'kv ic_env \<Rightarrow> 'kv ViewChangeTriggerService \<Rightarrow> 'kv vt_step result" where
  "vt_process_new_view_accepted env s =
     bindE (remove_view env (instance_changes s) (d_view_no (vt_data s))) (\<lambda>p. Inr (s\<lparr>instance_changes := p\<rparr>, []))"

section \<open>Fresh votes\<close>

text \<open>One entry per view and per voter, no view without votes; a view whose votes are not outdated.\<close>

definition cache_ok :: "InstanceChangeCache \<Rightarrow> bool" where
  "cache_ok c \<longleftrightarrow> distinct (map fst c) \<and> (\<forall>(v, vs) \<in> set c. vs \<noteq> [] \<and> distinct (map fst vs))"

definition fresh_view :: "'kv ic_env \<Rightarrow> rat \<Rightarrow> InstanceChangeCache \<Rightarrow> nat \<Rightarrow> bool" where
  "fresh_view env now c v \<longleftrightarrow>
     (case map_of c v of None \<Rightarrow> True | Some vs \<Rightarrow> outdated_ic_interval env \<le> 0 \<or> (\<forall>(n, vote) \<in> set vs. \<not> is_outdated env now vote))"

lemma cache_okD: "cache_ok c \<Longrightarrow> map_of c v = Some vs \<Longrightarrow> vs \<noteq> [] \<and> distinct (map fst vs)"
  by (auto simp: cache_ok_def dest!: map_of_SomeD)

lemma update_nonempty: "AList.update k v xs \<noteq> []"
  by (induction xs) auto

lemma cache_add_ok: "cache_ok c \<Longrightarrow> cache_ok (cache_add c v n vote)"
proof -
  assume ok: "cache_ok c"
  let ?vs = "AList.update n vote (case map_of c v of None \<Rightarrow> [] | Some vs \<Rightarrow> vs)"
  have "?vs \<noteq> []" "distinct (map fst ?vs)" using cache_okD [OF ok, of v] by (auto simp: update_nonempty distinct_update split: option.splits)
  then show ?thesis using ok by (auto simp: cache_ok_def cache_add_def distinct_update dest!: set_update_cases)
qed

lemma cache_remove_vote_ok: "cache_ok c \<Longrightarrow> cache_ok (cache_remove_vote c v n)"
proof (cases "map_of c v")
  case (Some vs)
  assume ok: "cache_ok c"
  then have "distinct (map fst (AList.delete n vs))" using cache_okD [OF ok Some] by (simp add: distinct_delete)
  moreover have "cache_ok (AList.delete v c)" using ok by (auto simp: cache_ok_def distinct_delete AList.delete_eq distinct_map_filter)
  ultimately show ?thesis using ok Some
    by (auto simp: cache_remove_vote_def Let_def cache_ok_def distinct_update dest!: set_update_cases)
qed (simp add: cache_remove_vote_def)

lemma cache_remove_vote_lookup:
  assumes "cache_ok c"
  shows "map_of (cache_remove_vote c v n) v =
    (case map_of c v of None \<Rightarrow> None
     | Some vs \<Rightarrow> if AList.delete n vs = [] then None else Some (AList.delete n vs))"
proof (cases "map_of c v")
  case (Some vs)
  have "map_of vs n = None \<Longrightarrow> AList.delete n vs = vs"
    by (simp add: map_of_eq_None_iff)
  then show ?thesis using cache_okD [OF assms Some] Some
    by (auto simp: cache_remove_vote_def Let_def update_conv' delete_conv')
qed (simp add: cache_remove_vote_def)

text \<open>Dropping the outdated votes of a view leaves exactly the others.\<close>

lemma drop_outdated_lookup:
  assumes "cache_ok c"
  shows "cache_ok (fold (\<lambda>(voter, vote) c. if P vote then cache_remove_vote c v voter else c) ws c)"
    and "map_of (fold (\<lambda>(voter, vote) c. if P vote then cache_remove_vote c v voter else c) ws c) v = Some vs \<Longrightarrow>
       \<exists>vs0. map_of c v = Some vs0 \<and> (\<forall>x \<in> set vs. x \<in> set vs0 \<and> (\<forall>vote. (fst x, vote) \<in> set ws \<longrightarrow> \<not> P vote))"
proof -
  show "cache_ok (fold (\<lambda>(voter, vote) c. if P vote then cache_remove_vote c v voter else c) ws c)"
    using assms by (induction ws arbitrary: c) (auto simp: cache_remove_vote_ok)
  show "\<exists>vs0. map_of c v = Some vs0 \<and> (\<forall>x \<in> set vs. x \<in> set vs0 \<and> (\<forall>vote. (fst x, vote) \<in> set ws \<longrightarrow> \<not> P vote))"
    if "map_of (fold (\<lambda>(voter, vote) c. if P vote then cache_remove_vote c v voter else c) ws c) v = Some vs"
    using that assms
  proof (induction ws arbitrary: c)
    case (Cons w ws)
    obtain n vote where w: "w = (n, vote)" by (cases w)
    let ?c = "if P vote then cache_remove_vote c v n else c"
    have f: "map_of (fold (\<lambda>(voter, vote) c. if P vote then cache_remove_vote c v voter else c) ws ?c) v = Some vs"
      using Cons.prems(1) w by simp
    have "cache_ok ?c" using Cons.prems(2) by (simp add: cache_remove_vote_ok)
    from Cons.IH [OF f this] obtain vs1 where vs1: "map_of ?c v = Some vs1" "\<forall>x \<in> set vs. x \<in> set vs1 \<and> (\<forall>vote. (fst x, vote) \<in> set ws \<longrightarrow> \<not> P vote)"
      by blast
    have "\<exists>vs0. map_of c v = Some vs0 \<and> (\<forall>x \<in> set vs1. x \<in> set vs0 \<and> (P vote \<longrightarrow> fst x \<noteq> n))"
      using vs1(1) cache_remove_vote_lookup [OF Cons.prems(2), of v n]
      by (auto simp: AList.delete_eq split: if_splits option.splits)
    then show ?case using vs1(2) w by auto
  qed auto
qed

lemma cache_add_lookup:
  "map_of (cache_add c v n vote) w =
     (if w = v then Some (AList.update n vote (case map_of c v of None \<Rightarrow> [] | Some vs \<Rightarrow> vs)) else map_of c w)"
  by (simp add: cache_add_def update_conv')

lemma update_db_cache: "update_db_from_cache env p v = Inr p' \<Longrightarrow> ic_cache p' = ic_cache p"
  by (auto simp: update_db_from_cache_def bindE_eq_Inr split: option.splits list.splits)

lemma update_votes_fresh:
  assumes "cache_ok (ic_cache p)" and "update_votes env now p v = Inr p'"
  shows "cache_ok (ic_cache p')" and "fresh_view env now (ic_cache p') v"
    and "fresh_view env now (ic_cache p) v \<Longrightarrow> ic_cache p' = ic_cache p"
proof -
  let ?f = "\<lambda>vs c. fold (\<lambda>(voter, vote) c. if is_outdated env now vote then cache_remove_vote c v voter else c) vs c"
  have c: "ic_cache p' = (case map_of (ic_cache p) v of None \<Rightarrow> ic_cache p
      | Some vs \<Rightarrow> if outdated_ic_interval env \<le> 0 then ic_cache p else ?f vs (ic_cache p))"
    using assms(2) by (auto simp: update_votes_def Let_def dest: update_db_cache split: option.splits if_splits)
  show "cache_ok (ic_cache p')" unfolding c using assms(1) drop_outdated_lookup(1) by (auto split: option.splits)
  show "fresh_view env now (ic_cache p') v"
  proof (cases "map_of (ic_cache p) v = None \<or> outdated_ic_interval env \<le> 0")
    case False
    then obtain vs where vs: "map_of (ic_cache p) v = Some vs" "\<not> outdated_ic_interval env \<le> 0" by auto
    have "\<not> is_outdated env now (snd x)" if "map_of (?f vs (ic_cache p)) v = Some vs'" "x \<in> set vs'" for vs' x
      using drop_outdated_lookup(2) [OF assms(1) that(1)] that(2) vs(1) by (metis option.inject prod.collapse)
    then show ?thesis unfolding c using vs by (auto simp: fresh_view_def split: option.splits)
  qed (auto simp: c fresh_view_def split: option.splits)
  show "ic_cache p' = ic_cache p" if fresh: "fresh_view env now (ic_cache p) v"
  proof (cases "map_of (ic_cache p) v")
    case (Some vs)
    have "?f ws d = d" if "\<forall>(n, vote) \<in> set ws. \<not> is_outdated env now vote" for ws d
      using that by (induction ws arbitrary: d) auto
    then show ?thesis unfolding c using fresh Some by (auto simp: fresh_view_def)
  qed (simp add: c)
qed

section \<open>A quorum of fresh votes\<close>

definition quorum_of_votes :: "'kv ic_env \<Rightarrow> rat \<Rightarrow> 'kv ViewChangeTriggerService \<Rightarrow> nat \<Rightarrow> bool" where
  "quorum_of_votes env now s v \<longleftrightarrow>
     (\<exists>vs. map_of (ic_cache (instance_changes s)) v = Some vs \<and> distinct (map fst vs) \<and>
        q_value (view_change (quorums (vt_data s))) \<le> int (length vs) \<and>
        (outdated_ic_interval env \<le> 0 \<or> (\<forall>(n, vote) \<in> set vs. \<not> is_outdated env now vote)))"

lemma fresh_add: "fresh_view env now c v \<Longrightarrow> fresh_view env now (cache_add c v n \<lparr>v_timestamp = now, v_reason = r\<rparr>) v"
  by (auto simp: fresh_view_def cache_add_lookup is_outdated_def split: option.splits dest!: set_update_cases)

lemma has_inst_cache:
  assumes "cache_ok (ic_cache p)" and "has_inst_chng_from env now p v n = Inr (p', b)"
  shows "cache_ok (ic_cache p') \<and> fresh_view env now (ic_cache p') v \<and> (fresh_view env now (ic_cache p) v \<longrightarrow> ic_cache p' = ic_cache p)"
  using assms update_votes_fresh [OF assms(1)] by (auto simp: has_inst_chng_from_def bindE_eq_Inr)

lemma length_update_ge: "length xs \<le> length (AList.update k v xs)"
  by (induction xs) auto

text \<open>A vote that is already there changes nothing; a new one is added, and then the votes are counted.\<close>

lemma on_verified_result:
  assumes ok: "cache_ok (ic_cache (instance_changes s))" and r: "on_verified_instance_change_msg env now s v reason frm = Inr (s', eff)"
  shows "\<exists>c. cache_ok c \<and> fresh_view env now c v \<and>
    (fresh_view env now (ic_cache (instance_changes s)) v \<longrightarrow> c = ic_cache (instance_changes s)) \<and> vt_data s' = vt_data s \<and>
    ((ic_cache (instance_changes s') = c \<and> eff = []) \<or>
     (ic_cache (instance_changes s') = cache_add c v frm \<lparr>v_timestamp = now, v_reason = int reason\<rparr> \<and>
      set eff \<subseteq> (if d_view_no (vt_data s) < v \<and>
          q_value (view_change (quorums (vt_data s))) \<le> int (length (the (map_of (ic_cache (instance_changes s')) v)))
        then {NodeNeedViewChange v} else {})))"
proof -
  obtain p has where h: "has_inst_chng_from env now (instance_changes s) v frm = Inr (p, has)"
    using r by (auto simp: on_verified_instance_change_msg_def bindE_eq_Inr)
  note p = has_inst_cache [OF ok h]
  show ?thesis
  proof (cases has)
    case True
    then have "s' = s\<lparr>instance_changes := p\<rparr>" "eff = []" using r h by (auto simp: on_verified_instance_change_msg_def Let_def)
    then show ?thesis using p by (intro exI [of _ "ic_cache p"]) simp
  next
    case False
    obtain p' where p': "ic_add_vote env now p v reason frm = Inr p'"
      using r h False by (auto simp: on_verified_instance_change_msg_def Let_def bindE_eq_Inr)
    let ?c = "cache_add (ic_cache p) v frm \<lparr>v_timestamp = now, v_reason = int reason\<rparr>"
    have c: "ic_cache p' = ?c" using update_db_cache p' unfolding ic_add_vote_def by fastforce
    have fresh: "fresh_view env now ?c v" and cok: "cache_ok ?c" using p fresh_add cache_add_ok by blast+
    show ?thesis
    proof (cases "v > d_view_no (vt_data s)")
      case True
      then obtain p'' where u: "update_votes env now p' v = Inr p''" "s' = s\<lparr>instance_changes := p''\<rparr>"
          "eff = (if (case map_of (ic_cache p'') v of None \<Rightarrow> False | Some vs \<Rightarrow> int (length vs) \<ge> q_value (view_change (quorums (vt_data s)))) then [NodeNeedViewChange v] else [])"
        using r h False p'
        by (auto simp: on_verified_instance_change_msg_def Let_def bindE_eq_Inr try_start_view_change_by_instance_change_def
            can_view_change_def ic_has_quorum_def)
      have "ic_cache p'' = ?c" using update_votes_fresh(3) [OF _ u(1)] c cok fresh by simp
      then show ?thesis using u True p by (intro exI [of _ "ic_cache p"]) (auto split: option.splits)
    next
      case not_greater: False
      then have "s' = s\<lparr>instance_changes := p'\<rparr>" "eff = []"
        using r h False p' by (auto simp: on_verified_instance_change_msg_def Let_def)
      then show ?thesis using p c not_greater by (intro exI [of _ "ic_cache p"]) simp
    qed
  qed
qed

lemma on_verified_quorum:
  assumes ok: "cache_ok (ic_cache (instance_changes s))" and r: "on_verified_instance_change_msg env now s v reason frm = Inr (s', eff)"
  shows "cache_ok (ic_cache (instance_changes s')) \<and> fresh_view env now (ic_cache (instance_changes s')) v \<and> vt_data s' = vt_data s"
    and "NodeNeedViewChange w \<in> set eff \<Longrightarrow> w = v \<and> d_view_no (vt_data s) < v \<and> quorum_of_votes env now s' v"
    and "fresh_view env now (ic_cache (instance_changes s)) v \<Longrightarrow> quorum_of_votes env now s v \<Longrightarrow> quorum_of_votes env now s' v"
proof -
  obtain c where p: "cache_ok c" "fresh_view env now c v"
    "fresh_view env now (ic_cache (instance_changes s)) v \<longrightarrow> c = ic_cache (instance_changes s)" and d: "vt_data s' = vt_data s"
    and c': "(ic_cache (instance_changes s') = c \<and> eff = []) \<or>
     (ic_cache (instance_changes s') = cache_add c v frm \<lparr>v_timestamp = now, v_reason = int reason\<rparr> \<and>
      set eff \<subseteq> (if d_view_no (vt_data s) < v \<and>
          q_value (view_change (quorums (vt_data s))) \<le> int (length (the (map_of (ic_cache (instance_changes s')) v)))
        then {NodeNeedViewChange v} else {}))"
    using on_verified_result [OF assms] by blast
  have ok': "cache_ok (ic_cache (instance_changes s'))" and fresh': "fresh_view env now (ic_cache (instance_changes s')) v"
    using c' p(1,2) by (auto simp: cache_add_ok fresh_add)
  have quorum: "quorum_of_votes env now s' v"
    if "map_of (ic_cache (instance_changes s')) v = Some vs" "q_value (view_change (quorums (vt_data s))) \<le> int (length vs)" for vs
    using that d fresh' cache_okD [OF ok' that(1)] by (auto simp: quorum_of_votes_def fresh_view_def)
  show "cache_ok (ic_cache (instance_changes s')) \<and> fresh_view env now (ic_cache (instance_changes s')) v \<and> vt_data s' = vt_data s"
    using ok' fresh' d by simp
  show "w = v \<and> d_view_no (vt_data s) < v \<and> quorum_of_votes env now s' v" if "NodeNeedViewChange w \<in> set eff"
    using that c' quorum by (auto simp: cache_add_lookup split: if_splits)
  show "quorum_of_votes env now s' v" if f: "fresh_view env now (ic_cache (instance_changes s)) v" and q: "quorum_of_votes env now s v"
  proof -
    obtain vs where vs: "map_of c v = Some vs" "q_value (view_change (quorums (vt_data s))) \<le> int (length vs)"
      using q mp [OF p(3) f] unfolding quorum_of_votes_def by auto
    have "\<exists>vs'. map_of (ic_cache (instance_changes s')) v = Some vs' \<and> length vs \<le> length vs'"
      using c' vs(1) by (auto simp: cache_add_lookup length_update_ge)
    then show ?thesis using quorum vs(2) by fastforce
  qed
qed

section \<open>Votes in the database\<close>

lemma py_replace_nil_digits:
  "length s \<le> n \<Longrightarrow> (\<forall>c \<in> set s. \<exists>d < 10. c = (char_of (48 + d :: nat) :: char)) \<Longrightarrow> py_replace_nil n db_prefix s = s"
proof (induction n arbitrary: s)
  case (Suc n)
  show ?case
  proof (cases s)
    case (Cons c r)
    then obtain d :: nat where d: "d < 10" "c = char_of (48 + d)" using Suc.prems(2) by auto
    have "c \<noteq> CHR ''i''"
    proof
      assume "c = CHR ''i''"
      then have "(of_char c :: nat) = 105" by simp
      then show False using d digit_char [of d] by simp
    qed
    then have "take (length db_prefix) s \<noteq> db_prefix" using Cons by (simp add: db_prefix_def)
    then show ?thesis using Suc Cons by simp
  qed simp
qed simp

lemma key_view_no: "py_replace_nil (length (generate_db_key v)) db_prefix (generate_db_key v) = py_str (int v)"
proof -
  have "py_replace_nil (Suc n) db_prefix (db_prefix @ s) = py_replace_nil n db_prefix s" for n s
    by (simp add: db_prefix_def)
  moreover have "length (generate_db_key v) = Suc (15 + length (py_str (int v)))" by (simp add: generate_db_key_def db_prefix_def)
  ultimately show ?thesis
    using py_replace_nil_digits [of "py_str (int v)" "15 + length (py_str (int v))"] py_str_char
    by (simp only: generate_db_key_def) simp
qed

text \<open>
  Votes after their way through the serializer: in the order of the names, with the times as
  \<^verbatim>\<open>ujson\<close> rounds them; and what \<^verbatim>\<open>ujson\<close> makes of the text of a dictionary of votes.
\<close>

definition stored_votes :: "(rat \<Rightarrow> rat) \<Rightarrow> votes \<Rightarrow> votes" where
  "stored_votes rnd vs = map (\<lambda>(voter, vote). (voter, vote\<lparr>v_timestamp := rnd (v_timestamp vote)\<rparr>)) (sort_key fst vs)"

definition loaded_json :: "votes \<Rightarrow> json" where
  "loaded_json vs = J_dict (map (\<lambda>(voter, vote). (voter, J_list [J_float (v_timestamp vote), J_int (v_reason vote)])) vs)"

lemma stored_votes_facts:
  "fst ` set (stored_votes rnd vs) = fst ` set vs" "distinct (map fst vs) \<Longrightarrow> distinct (map fst (stored_votes rnd vs))"
  "stored_votes rnd vs = [] \<longleftrightarrow> vs = []"
proof -
  have "mset (map fst (stored_votes rnd vs)) = mset (map fst vs)" by (simp add: stored_votes_def comp_def split_beta)
  then show "fst ` set (stored_votes rnd vs) = fst ` set vs" "distinct (map fst vs) \<Longrightarrow> distinct (map fst (stored_votes rnd vs))"
    "stored_votes rnd vs = [] \<longleftrightarrow> vs = []"
    by (metis set_mset_mset list.set_map, metis mset_eq_imp_distinct_iff, metis list.map_disc_iff mset_zero_iff)
qed

text \<open>Loading one entry puts its votes under their view, in their order.\<close>

lemma load_vote_loaded:
  "foldE (load_vote v) c (map (\<lambda>(voter, vote). (voter, J_list [J_float (v_timestamp vote), J_int (v_reason vote)])) vs) =
     Inr (fold (\<lambda>(voter, vote) c. cache_add c v voter vote) vs c)"
  proof (induction vs arbitrary: c)
  case (Cons x vs)
  show ?case using Cons.IH by (cases x; cases "snd x") (simp add: load_vote_def)
qed simp

lemma load_votes_entry:
  assumes "uloads (ic_ujson env) (uencode (ic_ujson env) True (votes_json vs)) = Inr (loaded_json ws)"
  shows "load_votes env c (encode (generate_db_key v), serialized_votes env vs) = Inr (fold (\<lambda>(voter, vote) c. cache_add c v voter vote) ws c)"
proof -
  have "json_deserialize (ic_ujson env) (D_bytes (serialized_votes env vs)) = Inr (loaded_json ws)"
    using json_deserialize_serialize [of "votes_json vs" "ic_ujson env" True] assms
    by (simp add: serialized_votes_def json_serialize_def dumps_def votes_json_def Let_def)
  then show ?thesis using load_vote_loaded [of v c ws]
    by (simp add: load_votes_def decode_encode key_view_no isdigit_py_str py_int_py_str) (auto simp: loaded_json_def py_int_py_str)
qed

lemma fold_cache_add_lookup:
  "distinct (map fst vs) \<Longrightarrow> (case map_of c v of None \<Rightarrow> True | Some ws \<Rightarrow> fst ` set ws \<inter> fst ` set vs = {}) \<Longrightarrow>
   map_of (fold (\<lambda>(voter, vote) c. cache_add c v voter vote) vs c) w =
     (if w = v \<and> vs \<noteq> [] then Some ((case map_of c v of None \<Rightarrow> [] | Some ws \<Rightarrow> ws) @ vs) else map_of c w)"
proof (induction vs arbitrary: c)
  case (Cons x vs)
  obtain n vote where x: "x = (n, vote)" by (cases x)
  have upd: "AList.update n vote ws = ws @ [(n, vote)]" if "n \<notin> fst ` set ws" for ws :: votes
    using that by (induction ws) auto
  have "map_of (cache_add c v n vote) u =
      (if u = v then Some ((case map_of c v of None \<Rightarrow> [] | Some ws \<Rightarrow> ws) @ [(n, vote)]) else map_of c u)" for u
    using Cons.prems(2) x upd by (auto simp: cache_add_lookup split: option.splits)
  then show ?case using Cons.IH [of "cache_add c v n vote"] Cons.prems x by (auto split: option.splits)
qed auto

lemma ic_key_inj: "encode (generate_db_key v) = encode (generate_db_key w) \<longleftrightarrow> v = w"
  using inj_encode py_str_nonneg_inj [of "int v" "int w"] by (auto simp: generate_db_key_def inj_eq)

text \<open>The database has the votes of every view of the cache under its key, and nothing else.\<close>

definition db_synced :: "'kv ic_env \<Rightarrow> ('kv \<Rightarrow> bytes \<rightharpoonup> bytes) \<Rightarrow> ('kv \<Rightarrow> bool) \<Rightarrow> 'kv InstanceChangeProvider \<Rightarrow> bool" where
  "db_synced env kv_map kv_inv p \<longleftrightarrow> cache_ok (ic_cache p) \<and>
     (\<exists>d. ic_db p = Some d \<and> kv_inv d \<and>
        (\<forall>v. kv_map d (encode (generate_db_key v)) = map_option (serialized_votes env) (map_of (ic_cache p) v)) \<and>
        (\<forall>k. kv_map d k \<noteq> None \<longrightarrow> (\<exists>v. k = encode (generate_db_key v))))"

lemma load_votes_items:
  assumes "\<And>vs. distinct (map fst vs) \<Longrightarrow> uloads (ic_ujson env) (uencode (ic_ujson env) True (votes_json vs)) = Inr (loaded_json (stored_votes rnd vs))"
    and "distinct (map fst its)" and "\<forall>(k, bs) \<in> set its. \<exists>v vs. k = encode (generate_db_key v) \<and> map_of d v = Some vs \<and> bs = serialized_votes env vs"
    and "\<And>v vs. map_of d v = Some vs \<Longrightarrow> vs \<noteq> [] \<and> distinct (map fst vs)"
    and "\<forall>v. encode (generate_db_key v) \<in> fst ` set its \<longrightarrow> map_of c v = None"
  shows "\<exists>c'. foldE (load_votes env) c its = Inr c' \<and>
    (\<forall>w. map_of c' w = (if encode (generate_db_key w) \<in> fst ` set its then map_option (stored_votes rnd) (map_of d w) else map_of c w))"
  using assms(2,3,5)
proof (induction its arbitrary: c)
  case (Cons item its)
  obtain v vs where it: "item = (encode (generate_db_key v), serialized_votes env vs)" and vs: "map_of d v = Some vs"
    using Cons.prems(2) by (cases item) auto
  let ?c = "fold (\<lambda>(voter, vote) c. cache_add c v voter vote) (stored_votes rnd vs) c"
  have load: "load_votes env c item = Inr ?c" unfolding it using assms(1,4) vs by (intro load_votes_entry) simp
  have "distinct (map fst (stored_votes rnd vs))" "stored_votes rnd vs \<noteq> []" "map_of c v = None"
    using assms(4) [OF vs] stored_votes_facts Cons.prems(3) it by simp_all
  then have c: "map_of ?c u = (if u = v then Some (stored_votes rnd vs) else map_of c u)" for u
    by (subst fold_cache_add_lookup) auto
  have new: "encode (generate_db_key v) \<notin> fst ` set its" using Cons.prems(1) it by auto
  then have "map_of ?c u = None" if "encode (generate_db_key u) \<in> fst ` set its" for u
    using Cons.prems(3) that unfolding c by auto
  then obtain c' where c': "foldE (load_votes env) ?c its = Inr c'"
    "\<And>w. map_of c' w = (if encode (generate_db_key w) \<in> fst ` set its then map_option (stored_votes rnd) (map_of d w) else map_of ?c w)"
    using Cons.IH [of ?c] Cons.prems(1,2) by auto
  have "map_of c' w = (if encode (generate_db_key w) \<in> fst ` set (item # its) then map_option (stored_votes rnd) (map_of d w) else map_of c w)" for w
    unfolding c'(2) c using new vs it by (auto simp: ic_key_inj)
  then show ?case using load c'(1) by auto
qed simp

context kv_storage
begin

lemma reload_synced:
  assumes "db_synced env kv_map kv_inv p" and "ic_ops env = ops"
    and "\<And>vs. distinct (map fst vs) \<Longrightarrow> uloads (ic_ujson env) (uencode (ic_ujson env) True (votes_json vs)) = Inr (loaded_json (stored_votes rnd vs))"
  shows "\<exists>d q. ic_db p = Some d \<and> mk_InstanceChangeProvider env (Some d) = Inr q \<and>
    (\<forall>v. map_of (ic_cache q) v = map_option (stored_votes rnd) (map_of (ic_cache p) v))"
proof -
  obtain d where d: "ic_db p = Some d" "kv_inv d" "\<And>v. kv_map d (encode (generate_db_key v)) = map_option (serialized_votes env) (map_of (ic_cache p) v)"
    "\<And>k. kv_map d k \<noteq> None \<Longrightarrow> \<exists>v. k = encode (generate_db_key v)" and ok: "cache_ok (ic_cache p)"
    using assms(1) unfolding db_synced_def by blast
  note items = items_distinct [OF d(2)] items_map [OF d(2)]
  have "\<exists>v vs. k = encode (generate_db_key v) \<and> map_of (ic_cache p) v = Some vs \<and> bs = serialized_votes env vs"
    if "(k, bs) \<in> set (kv_items ops d)" for k bs
  proof -
    have k: "kv_map d k = Some bs" using that items by (metis map_of_is_SomeI)
    then obtain v where "k = encode (generate_db_key v)" using d(4) by auto
    then show ?thesis using k d(3) by auto
  qed
  then have its: "\<forall>(k, bs) \<in> set (kv_items ops d). \<exists>v vs. k = encode (generate_db_key v) \<and> map_of (ic_cache p) v = Some vs \<and> bs = serialized_votes env vs"
    by blast
  obtain c where c: "foldE (load_votes env) [] (kv_items ops d) = Inr c"
    "\<And>w. map_of c w = (if encode (generate_db_key w) \<in> fst ` set (kv_items ops d) then map_option (stored_votes rnd) (map_of (ic_cache p) w) else None)"
    using load_votes_items [OF assms(3) items(1) its, of "[]"] cache_okD [OF ok] by auto
  have "encode (generate_db_key w) \<in> fst ` set (kv_items ops d) \<longleftrightarrow> map_of (ic_cache p) w \<noteq> None" for w
    using items(2) d(3) by (metis map_of_eq_None_iff option.map_disc_iff)
  then have "map_of c w = map_option (stored_votes rnd) (map_of (ic_cache p) w)" for w unfolding c(2) by auto
  then show ?thesis using d(1) c(1) assms(2) by (simp add: mk_InstanceChangeProvider_def fill_cache_by_db_def)
qed

text \<open>Writing the votes of one view brings the database up to date with a change of that view.\<close>

lemma update_db_synced:
  assumes "db_synced env kv_map kv_inv p" and "ic_ops env = ops" and "cache_ok c"
    and "\<And>w. w \<noteq> v \<Longrightarrow> map_of c w = map_of (ic_cache p) w" and "map_of (ic_cache p) v \<noteq> None \<or> map_of c v \<noteq> None"
  shows "\<exists>p'. update_db_from_cache env (p\<lparr>ic_cache := c\<rparr>) v = Inr p' \<and> db_synced env kv_map kv_inv p'"
proof -
  obtain d where d: "ic_db p = Some d" "kv_inv d" "\<And>v. kv_map d (encode (generate_db_key v)) = map_option (serialized_votes env) (map_of (ic_cache p) v)"
    "\<And>k. kv_map d k \<noteq> None \<Longrightarrow> \<exists>v. k = encode (generate_db_key v)"
    using assms(1) unfolding db_synced_def by blast
  let ?k = "encode (generate_db_key v)"
  show ?thesis
  proof (cases "map_of c v")
    case None
    then have "kv_map d ?k \<noteq> None" using assms(5) d(3) by auto
    then obtain d' where d': "kv_remove ops d ?k = Inr d'" "kv_inv d'" "kv_map d' = (kv_map d)(?k := None)"
      using remove_spec [OF d(2)] by blast
    then show ?thesis using None assms(2-4) d by (auto simp: update_db_from_cache_def db_synced_def ic_key_inj)
  next
    case (Some vs)
    then obtain x xs where "vs = x # xs" using cache_okD [OF assms(3)] by (cases vs) auto
    then show ?thesis using Some assms(2-4) d put_inv [OF d(2)] put_map [OF d(2)]
      by (auto simp: update_db_from_cache_def db_synced_def ic_key_inj)
  qed
qed

lemma add_vote_synced:
  assumes "db_synced env kv_map kv_inv p" and "ic_ops env = ops"
  shows "\<exists>p'. ic_add_vote env now p v reason voter = Inr p' \<and> db_synced env kv_map kv_inv p'"
  unfolding ic_add_vote_def using assms
  by (intro update_db_synced) (auto simp: cache_add_lookup db_synced_def intro: cache_add_ok)

lemma update_votes_synced:
  assumes "db_synced env kv_map kv_inv p" and "ic_ops env = ops"
  shows "\<exists>p'. update_votes env now p v = Inr p' \<and> db_synced env kv_map kv_inv p'"
proof (cases "map_of (ic_cache p) v = None \<or> outdated_ic_interval env \<le> 0")
  case True
  then show ?thesis using assms(1) by (auto simp: update_votes_def split: option.splits)
next
  case False
  then obtain vs where vs: "map_of (ic_cache p) v = Some vs" "\<not> outdated_ic_interval env \<le> 0" by auto
  let ?drop = "\<lambda>ws c. fold (\<lambda>(voter, vote) c. if is_outdated env now vote then cache_remove_vote c v voter else c) ws c"
  let ?c = "?drop vs (ic_cache p)"
  have ok: "cache_ok ?c" using drop_outdated_lookup(1) assms(1) unfolding db_synced_def by blast
  have step: "map_of (cache_remove_vote c v n) w = map_of c w" if "w \<noteq> v" for c n w
    using that by (auto simp: cache_remove_vote_def Let_def update_conv' delete_conv' split: option.splits)
  have other: "map_of (?drop ws c) w = map_of c w" if "w \<noteq> v" for ws c w
    by (induction ws arbitrary: c) (auto simp: step [OF that])
  have same: "?drop ws c = c" if "\<not> list_ex (\<lambda>(voter, vote). is_outdated env now vote) ws" for ws c
    using that by (induction ws arbitrary: c) auto
  have "\<exists>p'. update_db_from_cache env (p\<lparr>ic_cache := ?c\<rparr>) v = Inr p' \<and> db_synced env kv_map kv_inv p'"
    by (rule update_db_synced [OF assms ok]) (simp_all add: other vs(1))
  then show ?thesis using vs same [of vs "ic_cache p"] assms(1)
    by (cases "list_ex (\<lambda>(voter, vote). is_outdated env now vote) vs") (auto simp: update_votes_def Let_def)
qed

lemma remove_views_synced:
  assumes "ic_ops env = ops"
  shows "db_synced env kv_map kv_inv p \<Longrightarrow> distinct vs \<Longrightarrow> \<forall>v \<in> set vs. map_of (ic_cache p) v \<noteq> None \<Longrightarrow>
    \<exists>p'. remove_views env p till vs = Inr p' \<and> db_synced env kv_map kv_inv p'"
proof (induction vs arbitrary: p)
  case (Cons v vs)
  obtain d where d: "ic_db p = Some d" "kv_inv d" "\<And>v. kv_map d (encode (generate_db_key v)) = map_option (serialized_votes env) (map_of (ic_cache p) v)"
    "\<And>k. kv_map d k \<noteq> None \<Longrightarrow> \<exists>v. k = encode (generate_db_key v)" and ok: "cache_ok (ic_cache p)"
    using Cons.prems(1) unfolding db_synced_def by blast
  let ?k = "encode (generate_db_key v)"
  have "kv_map d ?k \<noteq> None" using Cons.prems(3) d(3) by auto
  then obtain d' where d': "kv_remove ops d ?k = Inr d'" "kv_inv d'" "kv_map d' = (kv_map d)(?k := None)"
    using remove_spec [OF d(2)] by blast
  let ?p = "p\<lparr>ic_cache := AList.delete v (ic_cache p), ic_db := Some d'\<rparr>"
  have "cache_ok (AList.delete v (ic_cache p))" using ok by (auto simp: cache_ok_def distinct_delete AList.delete_eq distinct_map_filter)
  then have "db_synced env kv_map kv_inv ?p" using d d' by (auto simp: db_synced_def ic_key_inj delete_conv')
  then have "\<exists>p'. remove_views env ?p till vs = Inr p' \<and> db_synced env kv_map kv_inv p'"
    using Cons.prems(2,3) by (intro Cons.IH) (auto simp: delete_conv')
  then show ?case using Cons.prems(1) d(1) d'(1) assms by (simp add: Let_def)
qed simp

end

text \<open>A history of a provider: votes, questions about a view, removals of views.\<close>

datatype ic_op = IC_Vote rat nat nat string | IC_Look rat nat | IC_Remove nat

fun ic_step :: "'kv ic_env \<Rightarrow> 'kv InstanceChangeProvider \<Rightarrow> ic_op \<Rightarrow> 'kv InstanceChangeProvider result" where
  "ic_step env p (IC_Vote now v reason voter) = ic_add_vote env now p v reason voter"
| "ic_step env p (IC_Look now v) = bindE (has_view env now p v) (\<lambda>(p', _). Inr p')"
| "ic_step env p (IC_Remove v) = remove_view env p v"

lemma ic_step_synced:
  assumes "kv_storage (ic_ops env) kv_map kv_inv" and "db_synced env kv_map kv_inv p"
  shows "\<exists>p'. ic_step env p op = Inr p' \<and> db_synced env kv_map kv_inv p'"
proof (cases op)
  case (IC_Vote now v reason voter)
  then show ?thesis using kv_storage.add_vote_synced [OF assms refl] by simp
next
  case (IC_Look now v)
  then show ?thesis using kv_storage.update_votes_synced [OF assms refl, of now v] by (auto simp: has_view_def)
next
  case (IC_Remove v)
  have "distinct (map fst (ic_cache p))" using assms(2) by (simp add: db_synced_def cache_ok_def)
  then have "\<exists>p'. remove_views env p v (sort (map fst (ic_cache p))) = Inr p' \<and> db_synced env kv_map kv_inv p'"
    by (intro kv_storage.remove_views_synced [OF assms(1) refl assms(2)]) (auto simp: map_of_eq_None_iff)
  then show ?thesis by (simp add: IC_Remove remove_view_def)
qed

lemma ic_run_synced:
  assumes "kv_storage (ic_ops env) kv_map kv_inv"
  shows "db_synced env kv_map kv_inv p \<Longrightarrow> \<exists>p'. foldE (ic_step env) p hist = Inr p' \<and> db_synced env kv_map kv_inv p'"
proof (induction hist arbitrary: p)
  case (Cons op hist)
  then show ?case using ic_step_synced [OF assms Cons.prems, of op] by auto
qed auto

section \<open>Properties\<close>

text \<open>
  C27: handling instance change messages starts a view change only to the view of the message,
  only to a view above the current one, and only with votes of a view-change quorum of
  different nodes, none of them outdated.
\<close>

theorem view_change_needs_quorum:
  assumes "cache_ok (ic_cache (instance_changes s))"
    and "process_instance_change env now connecteds degraded s v reason frm = Inr ((s', eff), answer)"
    and "NodeNeedViewChange w \<in> set eff"
  shows "w = v \<and> d_view_no (vt_data s) < v \<and> replica_name_to_node_name frm \<in> connecteds \<and> quorum_of_votes env now s' v"
proof -
  obtain s1 eff1 p has where v: "on_verified_instance_change_msg env now s v reason (replica_name_to_node_name frm) = Inr (s1, eff1)"
    and h: "has_inst_chng_from env now (instance_changes s1) v (vt_name s1) = Inr (p, has)"
    and frm: "replica_name_to_node_name frm \<in> connecteds"
    and rest: "(has \<or> \<not> degraded) \<and> s' = s1\<lparr>instance_changes := p\<rparr> \<and> eff = eff1 \<or>
      (\<exists>eff3. send_instance_change env now (s1\<lparr>instance_changes := p\<rparr>) v PRIMARY_DEGRADED = Inr (s', eff3) \<and> eff = eff1 @ eff3)"
    using assms(2,3) by (auto simp: process_instance_change_def Let_def bindE_eq_Inr split: if_splits)
  note v1 = on_verified_quorum [OF assms(1) v]
  have p: "ic_cache p = ic_cache (instance_changes s1)" using has_inst_cache [OF _ h] v1(1) by blast
  then have q: "quorum_of_votes env now (s1\<lparr>instance_changes := p\<rparr>) v = quorum_of_votes env now s1 v" by (simp add: quorum_of_votes_def)
  from rest show ?thesis
  proof (elim disjE [of "_ \<and> _"] exE conjE)
    assume s': "s' = s1\<lparr>instance_changes := p\<rparr>" "eff = eff1"
    then have "NodeNeedViewChange w \<in> set eff1" using assms(3) by simp
    from v1(2) [OF this] show ?thesis unfolding s'(1) q using frm by blast
  next
    fix eff3
    assume e: "send_instance_change env now (s1\<lparr>instance_changes := p\<rparr>) v PRIMARY_DEGRADED = Inr (s', eff3)" "eff = eff1 @ eff3"
    then obtain eff4 where o: "on_verified_instance_change_msg env now (s1\<lparr>instance_changes := p\<rparr>) v (suspicion_code PRIMARY_DEGRADED)
        (vt_name (s1\<lparr>instance_changes := p\<rparr>)) = Inr (s', eff4)" "eff3 = SendInstanceChange v (suspicion_code PRIMARY_DEGRADED) # eff4"
      by (auto simp: send_instance_change_def bindE_eq_Inr)
    have "cache_ok (ic_cache (instance_changes (s1\<lparr>instance_changes := p\<rparr>)))" using v1(1) p by simp
    note v2 = on_verified_quorum [OF this o(1)]
    have "NodeNeedViewChange w \<in> set eff1 \<or> NodeNeedViewChange w \<in> set eff4" using assms(3) e(2) o(2) by auto
    then show ?thesis using v1 v2 p q frm by auto
  qed
qed

text \<open>An environment for the examples, over the in-memory database, with votes outdated after 10 seconds.\<close>

definition demo_ic_env :: "kvm ic_env" where
  "demo_ic_env = \<lparr>outdated_ic_interval = 10, ic_ops = kvm_ops, ic_ujson = \<lparr>uencode = (\<lambda>_ _. ''{}''), uloads = (\<lambda>_. Inr (J_dict []))\<rparr>\<rparr>"

definition demo_vt :: "kvm ViewChangeTriggerService" where
  "demo_vt = \<lparr>vt_data = (mk_ConsensusSharedData insort_right 300 ''A:0'' [''A'', ''B'', ''C'', ''D''] 0 True)\<lparr>d_node_mode := Some Mode_participating\<rparr>,
     instance_changes = \<lparr>ic_cache = [(1, [(''B'', \<lparr>v_timestamp = 95, v_reason = 25\<rparr>), (''C'', \<lparr>v_timestamp = 96, v_reason = 25\<rparr>)])], ic_db = Some []\<rparr>\<rparr>"

theorem view_change_needs_quorum_witness:
  "\<exists>s' eff answer. process_instance_change demo_ic_env 100 {''B'', ''C'', ''D''} False demo_vt 1 25 ''D:0'' = Inr ((s', eff), answer) \<and>
     NodeNeedViewChange 1 \<in> set eff \<and> quorum_of_votes demo_ic_env 100 s' 1"
proof -
  have "cache_ok (ic_cache (instance_changes demo_vt))" by (simp add: demo_vt_def cache_ok_def)
  moreover have "case process_instance_change demo_ic_env 100 {''B'', ''C'', ''D''} False demo_vt 1 25 ''D:0'' of
      Inr ((s', eff), answer) \<Rightarrow> eff = [NodeNeedViewChange 1] | _ \<Rightarrow> False" by code_simp
  ultimately show ?thesis using view_change_needs_quorum [of demo_vt demo_ic_env 100 "{''B'', ''C'', ''D''}" False 1 25 "''D:0''"]
    by (auto split: sum.splits prod.splits)
qed

text \<open>
  C35: votes survive a restart: a provider that starts with an empty database never fails, whatever
  votes, questions and removals follow, and neither does a provider started anew on the database
  it leaves behind. The new one has, for every view, votes of the same nodes with the same reasons,
  ordered by the names of the nodes, with the times as \<^verbatim>\<open>ujson\<close> rounds them. The hypothesis on \<^verbatim>\<open>ujson\<close>
  is that it loads the text of a dictionary of votes, encoded with sorted keys, as the dictionary
  in the order of its keys, with the named tuples as lists and the numbers rounded.
\<close>

theorem instance_changes_survive_restart:
  assumes "kv_storage (ic_ops env) kv_map kv_inv" and "kv_inv db" and "kv_map db = Map.empty"
    and "\<And>vs. distinct (map fst vs) \<Longrightarrow> uloads (ic_ujson env) (uencode (ic_ujson env) True (votes_json vs)) =
      Inr (J_dict (map (\<lambda>(voter, vote). (voter, J_list [J_float (rnd (v_timestamp vote)), J_int (v_reason vote)])) (sort_key fst vs)))"
  shows "\<exists>p d q. bindE (mk_InstanceChangeProvider env (Some db)) (\<lambda>p. foldE (ic_step env) p hist) = Inr p \<and> ic_db p = Some d \<and>
    mk_InstanceChangeProvider env (Some d) = Inr q \<and>
    (\<forall>v. map_of (ic_cache q) v = map_option
       (\<lambda>vs. map (\<lambda>(voter, vote). (voter, vote\<lparr>v_timestamp := rnd (v_timestamp vote)\<rparr>)) (sort_key fst vs)) (map_of (ic_cache p) v))"
proof -
  let ?p = "\<lparr>ic_cache = [], ic_db = Some db\<rparr>"
  have "kv_items (ic_ops env) db = []"
    using kv_storage.items_map [OF assms(1,2)] assms(3) by simp
  then have init: "mk_InstanceChangeProvider env (Some db) = Inr ?p"
    by (simp add: mk_InstanceChangeProvider_def fill_cache_by_db_def)
  have "db_synced env kv_map kv_inv ?p" using assms(2,3) by (simp add: db_synced_def cache_ok_def)
  then obtain p where p: "foldE (ic_step env) ?p hist = Inr p" "db_synced env kv_map kv_inv p"
    using ic_run_synced [OF assms(1)] by blast
  have "uloads (ic_ujson env) (uencode (ic_ujson env) True (votes_json vs)) = Inr (loaded_json (stored_votes rnd vs))"
    if "distinct (map fst vs)" for vs
    using assms(4) [OF that] by (simp add: loaded_json_def stored_votes_def comp_def split_beta)
  from kv_storage.reload_synced [OF assms(1) p(2) refl this] show ?thesis
    using init p(1) unfolding stored_votes_def by simp
qed

text \<open>
  A serializer for the example: numbers in unary, lists with a mark before every element; the
  times are rounded to a tenth.
\<close>

definition ser_nat :: "nat \<Rightarrow> string" where "ser_nat n = replicate n CHR ''1'' @ ''0''"

definition de_nat :: "string \<Rightarrow> nat \<times> string" where
  "de_nat bs = (length (takeWhile (\<lambda>b. b = CHR ''1'') bs), tl (dropWhile (\<lambda>b. b = CHR ''1'') bs))"

definition ser_int :: "int \<Rightarrow> nat list" where "ser_int i = [if i < 0 then 1 else 0, nat \<bar>i\<bar>]"

definition de_int :: "nat \<Rightarrow> nat \<Rightarrow> int" where "de_int s n = (if s = 1 then - int n else int n)"

definition ser_vote :: "string \<times> Vote \<Rightarrow> string" where
  "ser_vote nv = (case quotient_of (v_timestamp (snd nv)) of (p, q) \<Rightarrow>
     concat (map ser_nat (ser_int p @ ser_int q @ ser_int (v_reason (snd nv)) @ [length (fst nv)])) @
     concat (map ser_nat (map of_char (fst nv))))"

fun de_nats :: "nat \<Rightarrow> string \<Rightarrow> nat list \<times> string" where
  "de_nats 0 bs = ([], bs)"
| "de_nats (Suc n) bs = (case de_nat bs of (k, bs') \<Rightarrow> (case de_nats n bs' of (ks, rest) \<Rightarrow> (k # ks, rest)))"

definition de_vote :: "string \<Rightarrow> (string \<times> Vote) \<times> string" where
  "de_vote bs = (case de_nats 7 bs of (ks, bs') \<Rightarrow> (case de_nats (ks ! 6) bs' of (cs, rest) \<Rightarrow>
     ((map char_of cs, \<lparr>v_timestamp = Fract (de_int (ks ! 0) (ks ! 1)) (de_int (ks ! 2) (ks ! 3)), v_reason = de_int (ks ! 4) (ks ! 5)\<rparr>), rest)))"

definition ser_votes :: "votes \<Rightarrow> string" where
  "ser_votes vs = ser_nat (length vs) @ concat (map ser_vote vs)"

fun de_votes_loop :: "nat \<Rightarrow> string \<Rightarrow> votes" where
  "de_votes_loop 0 bs = []"
| "de_votes_loop (Suc n) bs = (case de_vote bs of (v, bs') \<Rightarrow> v # de_votes_loop n bs')"

definition de_votes :: "string \<Rightarrow> votes" where
  "de_votes bs = (case de_nat bs of (n, bs') \<Rightarrow> de_votes_loop n bs')"

lemma de_ser_nat: "de_nat (ser_nat n @ bs) = (n, bs)"
  by (induction n) (auto simp: de_nat_def ser_nat_def)

lemma de_ser_nats: "length ks = n \<Longrightarrow> de_nats n (concat (map ser_nat ks) @ bs) = (ks, bs)"
  by (induction ks arbitrary: n) (auto simp: de_ser_nat)

lemma de_ser_int: "de_int (if i < 0 then 1 else 0) (nat \<bar>i\<bar>) = i"
  by (simp add: de_int_def)

lemma de_ser_vote: "de_vote (ser_vote nv @ bs) = (nv, bs)"
proof -
  obtain p q where pq: "quotient_of (v_timestamp (snd nv)) = (p, q)" by fastforce
  have t: "Fract p q = v_timestamp (snd nv)" using quotient_of_div [OF pq] by (simp add: Fract_of_int_quotient)
  let ?ks = "ser_int p @ ser_int q @ ser_int (v_reason (snd nv)) @ [length (fst nv)]"
  have "ser_vote nv @ bs = concat (map ser_nat ?ks) @ concat (map ser_nat (map of_char (fst nv))) @ bs"
    by (simp add: ser_vote_def pq)
  moreover have "de_nats 7 (concat (map ser_nat ?ks) @ cs) = (?ks, cs)" for cs
    by (rule de_ser_nats) (simp add: ser_int_def)
  moreover have "de_nats (length (fst nv)) (concat (map ser_nat (map of_char (fst nv))) @ bs) = (map of_char (fst nv), bs)"
    by (rule de_ser_nats) simp
  ultimately have "de_vote (ser_vote nv @ bs) =
      ((fst nv, \<lparr>v_timestamp = Fract p q, v_reason = v_reason (snd nv)\<rparr>), bs)"
    by (simp only: de_vote_def prod.case) (simp add: ser_int_def de_ser_int comp_def)
  then show ?thesis using t by (cases nv) simp
qed

lemma de_ser_votes: "de_votes (ser_votes vs) = vs"
proof -
  have "de_votes_loop (length vs) (concat (map ser_vote vs) @ bs) = vs" for bs
    by (induction vs) (simp_all add: de_ser_vote)
  from this [of "[]"] show ?thesis by (simp add: de_votes_def ser_votes_def de_ser_nat)
qed

definition demo_rnd :: "rat \<Rightarrow> rat" where "demo_rnd x = of_int \<lfloor>10 * x\<rfloor> / 10"

fun json_votes :: "json \<Rightarrow> votes" where
  "json_votes (J_dict kvs) = concat (map (\<lambda>(k, v). case v of J_tuple [J_float t, J_int r] \<Rightarrow> [(k, \<lparr>v_timestamp = t, v_reason = r\<rparr>)] | _ \<Rightarrow> []) kvs)"
| "json_votes _ = []"

definition demo_ujson :: ujson where
  "demo_ujson = \<lparr>uencode = (\<lambda>sort_keys v. ser_votes (if sort_keys then stored_votes demo_rnd (json_votes v) else json_votes v)),
     uloads = (\<lambda>s. Inr (loaded_json (de_votes s)))\<rparr>"

definition demo_ser_env :: "kvm ic_env" where
  "demo_ser_env = \<lparr>outdated_ic_interval = 10, ic_ops = kvm_ops, ic_ujson = demo_ujson\<rparr>"

lemma json_votes_of: "json_votes (votes_json vs) = vs"
  by (induction vs) (auto simp: votes_json_def)

theorem instance_changes_survive_restart_witness:
  "\<exists>p d q. bindE (mk_InstanceChangeProvider demo_ser_env (Some [])) (\<lambda>p. foldE (ic_step demo_ser_env) p
      [IC_Vote 1 3 25 ''C'', IC_Vote (9 / 4) 3 25 ''B'', IC_Vote 2 4 25 ''C'', IC_Look 12 3, IC_Vote 13 5 26 ''B'', IC_Remove 4]) = Inr p \<and>
    ic_db p = Some d \<and> mk_InstanceChangeProvider demo_ser_env (Some d) = Inr q \<and>
    (\<forall>v. map_of (ic_cache q) v = map_option
       (\<lambda>vs. map (\<lambda>(voter, vote). (voter, vote\<lparr>v_timestamp := demo_rnd (v_timestamp vote)\<rparr>)) (sort_key fst vs)) (map_of (ic_cache p) v))"
  by (rule instance_changes_survive_restart [where kv_map = map_of and kv_inv = "\<lambda>d. distinct (map fst d)"])
    (simp_all add: demo_ser_env_def demo_ujson_def json_votes_of de_ser_votes kvm.kv_storage_axioms loaded_json_def stored_votes_def comp_def split_beta)

end
