(* ===== verification/Replica_Helper.thy ===== *)
theory Replica_Helper
  imports Prelude
begin

text \<open>
  \<^verbatim>\<open>plenum/server/replica_helper.py\<close>: the counters of three-phase messages, the list of
  intervals that records which sequence numbers were ordered, and the tracker that keeps one
  such list per view. An interval is a two-element list in Python and a pair here; the loop of
  \<^verbatim>\<open>add\<close> changes it in place, which the model does by rebuilding the list around it.
\<close>

section \<open>Counters\<close>

datatype TPCStat =
    ReqDigestRcvd | PrePrepareSent | PrePrepareRcvd | PrepareRcvd | PrepareSent | CommitRcvd | CommitSent | OrderSent

fun TPCStat_value :: "TPCStat \<Rightarrow> nat" where
  "TPCStat_value ReqDigestRcvd = 0"
| "TPCStat_value PrePrepareSent = 1"
| "TPCStat_value PrePrepareRcvd = 2"
| "TPCStat_value PrepareRcvd = 3"
| "TPCStat_value PrepareSent = 4"
| "TPCStat_value CommitRcvd = 5"
| "TPCStat_value CommitSent = 6"
| "TPCStat_value OrderSent = 7"

type_synonym Stats = "(nat \<times> nat) list"

definition mk_Stats :: "TPCStat list \<Rightarrow> Stats" where
  "mk_Stats keys = fold (\<lambda>s d. AList.update s 0 d) (sort (map TPCStat_value keys)) []"

definition stats_inc :: "Stats \<Rightarrow> TPCStat \<Rightarrow> Stats result" where
  "stats_inc stats key =
     (case map_of stats (TPCStat_value key) of
        None \<Rightarrow> Inl KeyError
      | Some n \<Rightarrow> Inr (AList.update (TPCStat_value key) (n + 1) stats))"

definition stats_get :: "Stats \<Rightarrow> TPCStat \<Rightarrow> nat result" where
  "stats_get stats key = (case map_of stats (TPCStat_value key) of None \<Rightarrow> Inl KeyError | Some n \<Rightarrow> Inr n)"

section \<open>Interval lists\<close>

type_synonym interval = "int \<times> int"
type_synonym IntervalList = "interval list"

definition il_len :: "IntervalList \<Rightarrow> int" where
  "il_len ivs = sum_list (map (\<lambda>i. snd i - fst i + 1) ivs)"

definition il_contains :: "IntervalList \<Rightarrow> int \<Rightarrow> bool" where
  "il_contains ivs item = list_ex (\<lambda>i. fst i \<le> item \<and> item \<le> snd i) ivs"

text \<open>\<^verbatim>\<open>xs.index(x)\<close> for an \<open>x\<close> in the list, and \<^verbatim>\<open>xs.insert(i, x)\<close>.\<close>

fun py_index :: "'a list \<Rightarrow> 'a \<Rightarrow> nat" where
  "py_index [] x = 0"
| "py_index (y # ys) x = (if y = x then 0 else Suc (py_index ys x))"

definition py_insert :: "nat \<Rightarrow> 'a \<Rightarrow> 'a list \<Rightarrow> 'a list" where
  "py_insert i x xs = take i xs @ x # drop i xs"

text \<open>
  The loop over neighbouring intervals. \<open>pre\<close> holds the intervals before \<open>prev\<close>; \<open>None\<close> means
  the loop ran to its end without returning.
\<close>

fun il_add_loop :: "IntervalList \<Rightarrow> interval \<Rightarrow> IntervalList \<Rightarrow> int \<Rightarrow> IntervalList option" where
  "il_add_loop pre prev [] item = None"
| "il_add_loop pre prev (nxt # rest) item =
     (if item = snd prev + 1 then
        (if snd prev + 1 = fst nxt - 1
         then Some (remove1 nxt (pre @ (fst prev, snd nxt) # nxt # rest))
         else Some (pre @ (fst prev, snd prev + 1) # nxt # rest))
      else if snd prev + 1 < item \<and> item < fst nxt - 1 then
        Some (py_insert (py_index (pre @ prev # nxt # rest) nxt) (item, item) (pre @ prev # nxt # rest))
      else if item = fst nxt - 1 then Some (pre @ prev # (fst nxt - 1, snd nxt) # rest)
      else if fst nxt \<le> item \<and> item \<le> snd nxt then Some (pre @ prev # nxt # rest)
      else il_add_loop (pre @ [prev]) nxt rest item)"

definition il_add :: "IntervalList \<Rightarrow> int \<Rightarrow> IntervalList" where
  "il_add ivs item =
     (case ivs of
        [] \<Rightarrow> [(item, item)]
      | first # rest \<Rightarrow>
          if item < fst first - 1 then (item, item) # ivs
          else if item = fst first - 1 then (fst first - 1, snd first) # rest
          else if fst first \<le> item \<and> item \<le> snd first then ivs
          else (case il_add_loop [] first rest item of
                  Some ivs' \<Rightarrow> ivs'
                | None \<Rightarrow>
                    if item = snd (last ivs) + 1 then butlast ivs @ [(fst (last ivs), snd (last ivs) + 1)]
                    else ivs @ [(item, item)]))"

section \<open>The tracker of ordered batches\<close>

type_synonym OrderedTracker = "(int \<times> IntervalList) list"

definition ot_len :: "OrderedTracker \<Rightarrow> int" where
  "ot_len t = sum_list (map (\<lambda>(_, il). il_len il) t)"

definition ot_eq :: "OrderedTracker \<Rightarrow> OrderedTracker \<Rightarrow> bool" where
  "ot_eq t t' = (set (map fst t) = set (map fst t') \<and> list_all (\<lambda>k. map_of t k = map_of t' k) (map fst t))"

text \<open>Reading a key of a \<^verbatim>\<open>defaultdict\<close> creates it.\<close>

definition ot_getitem :: "OrderedTracker \<Rightarrow> int \<Rightarrow> OrderedTracker \<times> IntervalList" where
  "ot_getitem t view_no =
     (case map_of t view_no of Some il \<Rightarrow> (t, il) | None \<Rightarrow> (AList.update view_no [] t, []))"

definition ot_contains :: "OrderedTracker \<Rightarrow> int \<times> int \<Rightarrow> OrderedTracker \<times> bool" where
  "ot_contains t item = (case ot_getitem t (fst item) of (t', il) \<Rightarrow> (t', il_contains il (snd item)))"

definition ot_add :: "OrderedTracker \<Rightarrow> int \<Rightarrow> int \<Rightarrow> OrderedTracker" where
  "ot_add t view_no pp_seq_no =
     (case ot_getitem t view_no of (t', il) \<Rightarrow> AList.update view_no (il_add il pp_seq_no) t')"

definition ot_clear_below_view :: "OrderedTracker \<Rightarrow> int \<Rightarrow> OrderedTracker" where
  "ot_clear_below_view t view_no = fold (\<lambda>v t. if v < view_no then AList.delete v t else t) (map fst t) t"

text \<open>The digest of a batch: a hash over the joined digests of its requests.\<close>

definition replica_batch_digest :: "(bytes \<Rightarrow> string) \<Rightarrow> string list \<Rightarrow> string" where
  "replica_batch_digest sha256_hex digests = sha256_hex (concat (map encode digests))"

section \<open>Interval lists are sets\<close>

text \<open>The invariant: no interval is empty, and between two of them at least one number is missing.\<close>

fun il_ok :: "IntervalList \<Rightarrow> bool" where
  "il_ok [] = True"
| "il_ok [i] = (fst i \<le> snd i)"
| "il_ok (i # j # r) = (fst i \<le> snd i \<and> snd i + 1 < fst j \<and> il_ok (j # r))"

definition il_set :: "IntervalList \<Rightarrow> int set" where
  "il_set ivs = (\<Union>i \<in> set ivs. {fst i..snd i})"

lemma il_set_simps [simp]:
  "il_set [] = {}"
  "il_set (i # ivs) = {fst i..snd i} \<union> il_set ivs"
  "il_set (xs @ ys) = il_set xs \<union> il_set ys"
  by (auto simp: il_set_def)

lemma il_contains_iff: "il_contains ivs x \<longleftrightarrow> x \<in> il_set ivs"
  by (auto simp: il_contains_def il_set_def list_ex_iff)

lemma finite_il_set [simp]: "finite (il_set ivs)"
  by (simp add: il_set_def)

text \<open>The tail of a list that satisfies the invariant is above its head, with a gap.\<close>

lemma il_ok_Cons: "il_ok (i # ivs) \<longleftrightarrow> fst i \<le> snd i \<and> il_ok ivs \<and> (\<forall>j \<in> set ivs. snd i + 1 < fst j)"
proof (induction ivs arbitrary: i)
  case (Cons j ivs)
  show ?case using Cons.IH [of j] by force
qed simp

lemma il_ok_append:
  "il_ok (xs @ ys) \<longleftrightarrow> il_ok xs \<and> il_ok ys \<and> (\<forall>i \<in> set xs. \<forall>j \<in> set ys. snd i + 1 < fst j)"
  by (induction xs) (auto simp: il_ok_Cons)

lemma il_ok_bounds: "il_ok ivs \<Longrightarrow> i \<in> set ivs \<Longrightarrow> fst i \<le> snd i"
  by (induction ivs) (auto simp: il_ok_Cons)

lemma il_ok_distinct: "il_ok ivs \<Longrightarrow> distinct ivs"
proof (induction ivs)
  case (Cons i ivs)
  then show ?case using il_ok_bounds by (fastforce simp: il_ok_Cons)
qed simp

lemma il_set_above: "il_ok (i # ivs) \<Longrightarrow> x \<in> il_set ivs \<Longrightarrow> snd i + 1 < x"
  by (fastforce simp: il_ok_Cons il_set_def)

lemma il_len_card: "il_ok ivs \<Longrightarrow> il_len ivs = int (card (il_set ivs))"
proof (induction ivs)
  case (Cons i ivs)
  have "{fst i..snd i} \<inter> il_set ivs = {}" using il_set_above [OF Cons.prems] by fastforce
  then have "card (il_set (i # ivs)) = card {fst i..snd i} + card (il_set ivs)"
    by (simp add: card_Un_disjoint)
  then show ?case using Cons by (simp add: il_len_def il_ok_Cons)
qed (simp add: il_len_def)

lemma py_index_append: "x \<notin> set pre \<Longrightarrow> py_index (pre @ x # ys) x = length pre"
  by (induction pre) auto

text \<open>The loop, started behind the intervals \<open>pre\<close> with the item above \<open>prev\<close>.\<close>

lemma il_add_loop_correct:
  assumes "il_ok (pre @ prev # rest)" and "snd prev < item"
  shows "case il_add_loop pre prev rest item of
      Some ivs \<Rightarrow> il_ok ivs \<and> il_set ivs = insert item (il_set (pre @ prev # rest))
    | None \<Rightarrow> snd (last (prev # rest)) < item"
  using assms
proof (induction pre prev rest item rule: il_add_loop.induct)
  case (2 pre prev nxt rest item)
  have ok: "il_ok pre" "fst prev \<le> snd prev" "fst nxt \<le> snd nxt" "snd prev + 1 < fst nxt" "il_ok rest"
    "\<forall>i \<in> set pre. snd i + 1 < fst prev" "\<forall>j \<in> set rest. snd nxt + 1 < fst j" "\<forall>i \<in> set pre. \<forall>j \<in> set rest. snd i + 1 < fst j"
    "\<forall>i \<in> set pre. snd i + 1 < fst nxt"
    using "2.prems"(1) by (auto simp: il_ok_append il_ok_Cons)
  have "nxt \<notin> set pre" "nxt \<noteq> prev" using ok by fastforce+
  then have nxt: "py_index (pre @ prev # nxt # rest) nxt = Suc (length pre)"
    using py_index_append [of nxt "pre @ [prev]" rest] by simp
  have rem: "remove1 nxt (pre @ (fst prev, snd nxt) # nxt # rest) = pre @ (fst prev, snd nxt) # rest"
    using \<open>nxt \<notin> set pre\<close> ok by (simp add: remove1_append prod_eq_iff)
  consider (touch) "item = snd prev + 1" | (gap) "snd prev + 1 < item \<and> item < fst nxt - 1" | (below) "item = fst nxt - 1" "item \<noteq> snd prev + 1"
    | (inside) "fst nxt \<le> item \<and> item \<le> snd nxt" | (above) "snd nxt < item"
    using "2.prems"(2) by linarith
  then show ?case
  proof cases
    case touch
    then show ?thesis using ok by (auto simp: rem il_ok_append il_ok_Cons)
  next
    case gap
    then show ?thesis using ok nxt by (auto simp: py_insert_def il_ok_append il_ok_Cons)
  next
    case below
    then show ?thesis using ok by (auto simp: il_ok_append il_ok_Cons)
  next
    case inside
    then show ?thesis using ok "2.prems"(1) by auto
  next
    case above
    have "il_add_loop pre prev (nxt # rest) item = il_add_loop (pre @ [prev]) nxt rest item"
      using above ok by simp
    moreover have "case il_add_loop (pre @ [prev]) nxt rest item of
        Some ivs \<Rightarrow> il_ok ivs \<and> il_set ivs = insert item (il_set ((pre @ [prev]) @ nxt # rest))
      | None \<Rightarrow> snd (last (nxt # rest)) < item"
      by (rule "2.IH") (use above ok "2.prems"(1) in auto)
    ultimately show ?thesis
      by (cases "il_add_loop (pre @ [prev]) nxt rest item") (simp_all del: il_add_loop.simps)
  qed
qed simp

lemma il_add_end:
  assumes "il_ok (xs @ [l])" and "snd l < item"
  shows "item = snd l + 1 \<Longrightarrow> il_ok (xs @ [(fst l, snd l + 1)]) \<and> il_set (xs @ [(fst l, snd l + 1)]) = insert item (il_set (xs @ [l]))"
    and "item \<noteq> snd l + 1 \<Longrightarrow> il_ok ((xs @ [l]) @ [(item, item)]) \<and> il_set ((xs @ [l]) @ [(item, item)]) = insert item (il_set (xs @ [l]))"
proof -
  have ok: "il_ok xs" "fst l \<le> snd l" "\<forall>i \<in> set xs. snd i + 1 < fst l" using assms(1) by (simp_all add: il_ok_append)
  show "item = snd l + 1 \<Longrightarrow> il_ok (xs @ [(fst l, snd l + 1)]) \<and> il_set (xs @ [(fst l, snd l + 1)]) = insert item (il_set (xs @ [l]))"
    using ok by (auto simp: il_ok_append)
  show "item \<noteq> snd l + 1 \<Longrightarrow> il_ok ((xs @ [l]) @ [(item, item)]) \<and> il_set ((xs @ [l]) @ [(item, item)]) = insert item (il_set (xs @ [l]))"
    using ok assms(2) by (fastforce simp: il_ok_append)
qed

lemma il_add_correct:
  assumes "il_ok ivs"
  shows "il_ok (il_add ivs item) \<and> il_set (il_add ivs item) = insert item (il_set ivs)"
proof (cases ivs)
  case (Cons first rest)
  note ok = assms [unfolded Cons il_ok_Cons]
  consider (low) "item < fst first" | (inside) "fst first \<le> item" "item \<le> snd first" | (above) "snd first < item" by linarith
  then show ?thesis
  proof cases
    case low
    then show ?thesis using Cons ok by (auto simp: il_add_def il_ok_Cons)
  next
    case inside
    then show ?thesis using Cons assms by (auto simp: il_add_def)
  next
    case above
    have loop: "case il_add_loop [] first rest item of
        Some ivs \<Rightarrow> il_ok ivs \<and> il_set ivs = insert item (il_set ([] @ first # rest))
      | None \<Rightarrow> snd (last (first # rest)) < item"
      by (rule il_add_loop_correct) (use above assms Cons in auto)
    have add: "il_add ivs item = (case il_add_loop [] first rest item of Some ivs' \<Rightarrow> ivs'
        | None \<Rightarrow> if item = snd (last ivs) + 1 then butlast ivs @ [(fst (last ivs), snd (last ivs) + 1)] else ivs @ [(item, item)])"
      unfolding Cons il_add_def list.case using above ok by (simp del: last.simps butlast.simps)
    have last: "butlast ivs @ [last ivs] = ivs" using Cons by simp
    show ?thesis
    proof (cases "il_add_loop [] first rest item")
      case None
      then show ?thesis using loop il_add_end [of "butlast ivs" "last ivs" item, unfolded last, OF assms] Cons add by simp
    qed (use loop add Cons in simp)
  qed
qed (simp add: il_add_def)

text \<open>The representation is canonical: equal sets have equal lists.\<close>

lemma il_set_above': "il_ok (i # ivs) \<Longrightarrow> \<forall>x \<in> il_set ivs. snd i + 1 < x"
  using il_set_above by blast

lemma il_set_head:
  assumes "il_ok (i # ivs)"
  shows "fst i \<in> il_set (i # ivs) \<and> (\<forall>x \<in> il_set (i # ivs). fst i \<le> x) \<and> snd i + 1 \<notin> il_set (i # ivs)"
proof -
  have "fst i \<le> snd i" using assms by (simp add: il_ok_Cons)
  then show ?thesis using il_set_above' [OF assms] by auto
qed

lemma il_set_tail: "il_ok (i # ivs) \<Longrightarrow> il_set ivs = il_set (i # ivs) - {fst i..snd i}"
  using il_set_above' [of i ivs] by auto

lemma il_set_empty: "il_ok xs \<Longrightarrow> il_set xs = {} \<Longrightarrow> xs = []"
proof (cases xs)
  case (Cons i ivs)
  assume "il_ok xs" "il_set xs = {}"
  then show ?thesis using il_set_head [of i ivs] unfolding Cons by blast
qed simp

lemma il_set_inject: "il_ok xs \<Longrightarrow> il_ok ys \<Longrightarrow> il_set xs = il_set ys \<Longrightarrow> xs = ys"
proof (induction xs arbitrary: ys)
  case Nil
  then show ?case using il_set_empty [of ys] by simp
next
  case (Cons i xs)
  obtain j ys' where ys: "ys = j # ys'" using il_set_empty [OF Cons.prems(1)] Cons.prems(3) by (cases ys) auto
  note h = il_set_head [OF Cons.prems(1)] il_set_head [OF Cons.prems(2) [unfolded ys]]
  have sets: "il_set (i # xs) = il_set (j # ys')" using Cons.prems(3) unfolding ys .
  have "fst j \<le> fst i" "fst i \<le> fst j" using h unfolding sets by blast+
  then have first: "fst i = fst j" by simp
  have le: "fst i \<le> snd i" "fst j \<le> snd j" using Cons.prems(1,2) ys by (simp_all add: il_ok_Cons)
  have "snd i + 1 \<notin> il_set (j # ys')" "snd j + 1 \<notin> il_set (i # xs)" using h unfolding sets by blast+
  then have "\<not> snd i < snd j" "\<not> snd j < snd i" using first le by auto
  then have ij: "i = j" using first by (simp add: prod_eq_iff)
  then have "il_set xs = il_set ys'"
    unfolding il_set_tail [OF Cons.prems(1)] il_set_tail [OF Cons.prems(2) [unfolded ys]] sets by simp
  moreover have "il_ok xs" "il_ok ys'" using Cons.prems(1,2) unfolding ys il_ok_Cons by blast+
  ultimately have "xs = ys'" using Cons.IH by blast
  then show ?case using ij ys by simp
qed

section \<open>The tracker is a set of pairs\<close>

definition ot_ok :: "OrderedTracker \<Rightarrow> bool" where
  "ot_ok t \<longleftrightarrow> distinct (map fst t) \<and> (\<forall>(v, il) \<in> set t. il_ok il)"

definition ot_set :: "OrderedTracker \<Rightarrow> (int \<times> int) set" where
  "ot_set t = {(v, n). \<exists>il. map_of t v = Some il \<and> n \<in> il_set il}"

lemma ot_okD: "ot_ok t \<Longrightarrow> map_of t v = Some il \<Longrightarrow> il_ok il"
  by (auto simp: ot_ok_def dest: map_of_SomeD)

lemma ot_ok_update: "ot_ok t \<Longrightarrow> il_ok il \<Longrightarrow> ot_ok (AList.update v il t)"
  by (auto simp: ot_ok_def distinct_update dest!: set_update_cases)

lemma ot_contains_iff:
  "snd (ot_contains t item) \<longleftrightarrow> item \<in> ot_set t" "ot_set (fst (ot_contains t item)) = ot_set t"
  "ot_ok t \<Longrightarrow> ot_ok (fst (ot_contains t item))"
  by (auto simp: ot_contains_def ot_getitem_def ot_set_def il_contains_iff update_conv' ot_ok_update
      split: option.splits if_splits prod.splits)

lemma ot_add_correct:
  assumes "ot_ok t"
  shows "ot_ok (ot_add t v n)" and "ot_set (ot_add t v n) = insert (v, n) (ot_set t)"
proof -
  have g: "il_ok (snd (ot_getitem t v)) \<and> ot_ok (fst (ot_getitem t v)) \<and>
      map_of (fst (ot_getitem t v)) = (map_of t)(v \<mapsto> snd (ot_getitem t v)) \<and>
      il_set (snd (ot_getitem t v)) = {n. (v, n) \<in> ot_set t}"
    using assms ot_okD [OF assms] by (auto simp: ot_getitem_def ot_ok_update update_conv' ot_set_def split: option.splits)
  have a: "ot_add t v n = AList.update v (il_add (snd (ot_getitem t v)) n) (fst (ot_getitem t v))"
    by (simp add: ot_add_def split: prod.splits)
  show "ot_ok (ot_add t v n)" unfolding a using g il_add_correct by (simp add: ot_ok_update)
  show "ot_set (ot_add t v n) = insert (v, n) (ot_set t)"
    unfolding a using g il_add_correct [of "snd (ot_getitem t v)" n]
    by (auto simp: ot_set_def update_conv' split: if_splits)
qed

lemma map_of_delete_below:
  "map_of (fold (\<lambda>v t. if v < w then AList.delete v t else t) ks t) x =
     (if x \<in> set ks \<and> x < w then None else map_of t (x :: int))"
  by (induction ks arbitrary: t) (auto simp: delete_conv')

lemma ot_ok_delete: "ot_ok t \<Longrightarrow> ot_ok (AList.delete v t)"
  by (auto simp: ot_ok_def distinct_delete AList.delete_eq distinct_map_filter)

lemma ot_clear_below_view_correct:
  assumes "ot_ok t"
  shows "ot_ok (ot_clear_below_view t w)" and "ot_set (ot_clear_below_view t w) = {x \<in> ot_set t. w \<le> fst x}"
proof -
  have "ot_ok (fold (\<lambda>v t. if v < w then AList.delete v t else t) ks t)" for ks
    using assms by (induction ks arbitrary: t) (auto simp: ot_ok_delete)
  then show "ot_ok (ot_clear_below_view t w)" by (simp add: ot_clear_below_view_def)
  show "ot_set (ot_clear_below_view t w) = {x \<in> ot_set t. w \<le> fst x}"
    by (auto simp: ot_set_def ot_clear_below_view_def map_of_delete_below dom_map_of_conv_image_fst [symmetric] split: if_splits)
qed

lemma ot_set_Cons: "v \<notin> fst ` set t \<Longrightarrow> ot_set ((v, il) # t) = {v} \<times> il_set il \<union> ot_set t"
  by (auto simp: ot_set_def split: if_splits dest: map_of_SomeD) (metis fst_conv image_eqI map_of_SomeD)

lemma ot_len_card: "ot_ok t \<Longrightarrow> ot_len t = int (card (ot_set t)) \<and> finite (ot_set t)"
proof (induction t)
  case (Cons x t)
  obtain v il where x: "x = (v, il)" by (cases x)
  have v: "v \<notin> fst ` set t" and il: "il_ok il" and t: "ot_ok t" using Cons.prems x by (auto simp: ot_ok_def)
  have "({v} \<times> il_set il) \<inter> ot_set t = {}" using v by (auto simp: ot_set_def dest: map_of_SomeD) (metis fst_conv image_eqI map_of_SomeD)
  then have "card (ot_set (x # t)) = card ({v} \<times> il_set il) + card (ot_set t)"
    unfolding x ot_set_Cons [OF v] using Cons.IH [OF t] by (intro card_Un_disjoint) auto
  then show ?case using Cons.IH [OF t] il_len_card [OF il] x v
    by (simp add: ot_len_def ot_set_Cons card_cartesian_product_singleton)
qed (simp add: ot_len_def ot_set_def)

section \<open>Properties\<close>

text \<open>A use of the tracker as the ordering service makes it, and the set it stands for.\<close>

datatype ot_op = OT_Add int int | OT_In "int \<times> int" | OT_Clear int

fun ot_run :: "OrderedTracker \<Rightarrow> ot_op list \<Rightarrow> OrderedTracker" where
  "ot_run t [] = t"
| "ot_run t (OT_Add v n # ops) = ot_run (ot_add t v n) ops"
| "ot_run t (OT_In item # ops) = ot_run (fst (ot_contains t item)) ops"
| "ot_run t (OT_Clear v # ops) = ot_run (ot_clear_below_view t v) ops"

fun set_run :: "(int \<times> int) set \<Rightarrow> ot_op list \<Rightarrow> (int \<times> int) set" where
  "set_run s [] = s"
| "set_run s (OT_Add v n # ops) = set_run (insert (v, n) s) ops"
| "set_run s (OT_In item # ops) = set_run s ops"
| "set_run s (OT_Clear v # ops) = set_run {x \<in> s. v \<le> fst x} ops"

lemma ot_run_refines: "ot_ok t \<Longrightarrow> ot_ok (ot_run t ops) \<and> ot_set (ot_run t ops) = set_run (ot_set t) ops"
  by (induction t ops rule: ot_run.induct)
    (simp_all add: ot_add_correct ot_contains_iff ot_clear_below_view_correct)

text \<open>
  C28: whatever is added to, asked of and cleared from an initially empty tracker of ordered
  batches, it behaves as the set of the added batches that were not cleared: membership, size,
  and the interval list of each view, which is the only one of its set.
\<close>

theorem ordered_tracker_is_set:
  "snd (ot_contains (ot_run [] ops) item) = (item \<in> set_run {} ops) \<and>
   ot_len (ot_run [] ops) = int (card (set_run {} ops)) \<and>
   (\<forall>v il. map_of (ot_run [] ops) v = Some il \<longrightarrow> il_set il = {n. (v, n) \<in> set_run {} ops} \<and>
      (\<forall>il'. il_ok il' \<and> il_set il' = il_set il \<longrightarrow> il' = il))"
proof -
  have ok: "ot_ok (ot_run [] ops)" and set: "ot_set (ot_run [] ops) = set_run {} ops"
    using ot_run_refines [of "[]" ops] by (simp_all add: ot_set_def [of "[]"] ot_ok_def [of "[]"])
  have "il_set il = {n. (v, n) \<in> set_run {} ops} \<and> (\<forall>il'. il_ok il' \<and> il_set il' = il_set il \<longrightarrow> il' = il)"
    if "map_of (ot_run [] ops) v = Some il" for v il
    using that il_set_inject ot_okD [OF ok that] unfolding set [symmetric] by (auto simp: ot_set_def)
  then show ?thesis using ot_contains_iff(1) [of "ot_run [] ops" item] ot_len_card [OF ok] unfolding set by simp
qed

theorem ordered_tracker_is_set_witness:
  "map_of (ot_run [] [OT_Add 0 1, OT_Add 0 3, OT_In (1, 1), OT_Add 0 2]) 0 = Some [(1, 3)] \<and>
   il_set [(1, 3)] = {n. (0, n) \<in> set_run {} [OT_Add 0 1, OT_Add 0 3, OT_In (1, 1), OT_Add 0 2]}"
proof -
  have "map_of (ot_run [] [OT_Add 0 1, OT_Add 0 3, OT_In (1, 1), OT_Add 0 2]) 0 = Some [(1, 3)]" by code_simp
  then show ?thesis
    using ordered_tracker_is_set [of "[OT_Add 0 1, OT_Add 0 3, OT_In (1, 1), OT_Add 0 2]" "(0, 1)"] by blast
qed

text \<open>
  Asking a tracker for a batch of a view it has not seen makes it unequal to what it was
  before, because the question leaves an empty interval list for the view behind.
\<close>

theorem tracker_question_changes_equality:
  assumes "map_of t (fst item) = None"
  shows "\<not> ot_eq (fst (ot_contains t item)) t"
proof -
  have "fst (ot_contains t item) = AList.update (fst item) [] t" using assms by (simp add: ot_contains_def ot_getitem_def)
  moreover have "fst item \<notin> fst ` set t" using assms by (simp add: map_of_eq_None_iff)
  ultimately show ?thesis by (auto simp: ot_eq_def dom_update)
qed

theorem tracker_question_changes_equality_witness:
  "map_of ([] :: OrderedTracker) (fst (0, 1)) = None \<and> \<not> ot_eq (fst (ot_contains [] (0, 1))) []"
  using tracker_question_changes_equality [of "[]" "(0, 1)"] by simp

end
