(* ===== verification/Stashing_Router.thy ===== *)
theory Stashing_Router
  imports Sorted_Containers
begin

text \<open>
  \<^verbatim>\<open>plenum/common/stashing_router.py\<close>: the queues of messages that cannot be handled yet and
  the router that puts messages there and takes them out again. A handler is code of another
  component: it is a function on the state of the services and of the router (a handler may
  call the router again) that answers with a stash code and a reason. \<^verbatim>\<open>None\<close>, as the answer
  of a call, is \<open>None\<close>.
\<close>

section \<open>Queues\<close>

definition DISCARD :: int where "DISCARD = -1"
definition PROCESS :: int where "PROCESS = 0"
definition STASH :: int where "STASH = 1"

datatype ('m, 'a, 'k) StashingQueue =
    UnsortedStash nat "('m \<times> 'a) list"
  | SortedStash nat "'m \<Rightarrow> 'k" "('m \<times> 'a) list"

type_synonym ('m, 'a, 'k) adder = "('m \<times> 'a \<Rightarrow> 'k) \<Rightarrow> ('m \<times> 'a) list \<Rightarrow> 'm \<times> 'a \<Rightarrow> ('m \<times> 'a) list"

fun sq_data :: "('m, 'a, 'k) StashingQueue \<Rightarrow> ('m \<times> 'a) list" where
  "sq_data (UnsortedStash limit data) = data"
| "sq_data (SortedStash limit key data) = data"

fun sq_limit :: "('m, 'a, 'k) StashingQueue \<Rightarrow> nat" where
  "sq_limit (UnsortedStash limit data) = limit"
| "sq_limit (SortedStash limit key data) = limit"

definition sq_len :: "('m, 'a, 'k) StashingQueue \<Rightarrow> nat" where
  "sq_len q = length (sq_data q)"

fun sq_push :: "('m, 'a, 'k) adder \<Rightarrow> ('m, 'a, 'k) StashingQueue \<Rightarrow> 'm \<times> 'a \<Rightarrow> ('m, 'a, 'k) StashingQueue \<times> bool" where
  "sq_push sl_add (UnsortedStash limit data) item =
     (if limit \<le> length data then (UnsortedStash limit data, False)
      else (UnsortedStash limit (data @ [item]), True))"
| "sq_push sl_add (SortedStash limit key data) item =
     (if limit \<le> length data then (SortedStash limit key data, False)
      else (SortedStash limit key (sl_add (\<lambda>v. key (fst v)) data item), True))"

definition pop_first :: "'i list \<Rightarrow> ('i list \<times> 'i) result" where
  "pop_first data = (case data of [] \<Rightarrow> Inl IndexError | x # xs \<Rightarrow> Inr (xs, x))"

fun sq_pop :: "('m, 'a, 'k) StashingQueue \<Rightarrow> (('m, 'a, 'k) StashingQueue \<times> ('m \<times> 'a)) result" where
  "sq_pop (UnsortedStash limit data) = bindE (pop_first data) (\<lambda>(xs, x). Inr (UnsortedStash limit xs, x))"
| "sq_pop (SortedStash limit key data) = bindE (pop_first data) (\<lambda>(xs, x). Inr (SortedStash limit key xs, x))"

fun sq_pop_all :: "('m, 'a, 'k) StashingQueue \<Rightarrow> ('m, 'a, 'k) StashingQueue \<times> ('m \<times> 'a) list" where
  "sq_pop_all (UnsortedStash limit data) = (UnsortedStash limit [], data)"
| "sq_pop_all (SortedStash limit key data) = (SortedStash limit key [], data)"

section \<open>The router\<close>

record ('m, 'a, 'k) StashingRouter =
  sr_limit :: nat
  sr_queues :: "(int \<times> ('m, 'a, 'k) StashingQueue) list"

definition mk_StashingRouter :: "nat \<Rightarrow> ('m, 'a, 'k) StashingRouter" where
  "mk_StashingRouter limit = \<lparr>sr_limit = limit, sr_queues = []\<rparr>"

definition set_sorted_stasher :: "('m, 'a, 'k) StashingRouter \<Rightarrow> int \<Rightarrow> ('m \<Rightarrow> 'k) \<Rightarrow> ('m, 'a, 'k) StashingRouter" where
  "set_sorted_stasher r code key = r\<lparr>sr_queues := AList.update code (SortedStash (sr_limit r) key []) (sr_queues r)\<rparr>"

type_synonym ('s, 'm, 'a, 'k) sr_state = "'s \<times> ('m, 'a, 'k) StashingRouter"

type_synonym ('s, 'm, 'a, 'k) handler =
  "('s, 'm, 'a, 'k) sr_state \<Rightarrow> 'm \<times> 'a \<Rightarrow> (('s, 'm, 'a, 'k) sr_state \<times> (int \<times> string) option) result"

text \<open>
  What a router is connected with: the insertion of the sorted container, the handlers
  subscribed for a message, and the function that takes unstashed messages if there is one.
\<close>

record ('s, 'm, 'a, 'k) sr_env =
  se_add :: "('m, 'a, 'k) adder"
  se_handlers :: "'m \<Rightarrow> ('s, 'm, 'a, 'k) handler list"
  se_unstash_handler :: "('s \<Rightarrow> 'm \<times> 'a \<Rightarrow> 's result) option"

definition sr_stash :: "('m, 'a, 'k) adder \<Rightarrow> ('m, 'a, 'k) StashingRouter \<Rightarrow> int \<Rightarrow> 'm \<times> 'a \<Rightarrow> ('m, 'a, 'k) StashingRouter" where
  "sr_stash sl_add r code item =
     (let queue = (case map_of (sr_queues r) code of Some q \<Rightarrow> q | None \<Rightarrow> UnsortedStash (sr_limit r) []) in
      r\<lparr>sr_queues := AList.update code (fst (sq_push sl_add queue item)) (sr_queues r)\<rparr>)"

definition sr_process ::
  "('m, 'a, 'k) adder \<Rightarrow> ('s, 'm, 'a, 'k) handler \<Rightarrow> ('s, 'm, 'a, 'k) sr_state \<Rightarrow> 'm \<times> 'a \<Rightarrow> (('s, 'm, 'a, 'k) sr_state \<times> bool) result" where
  "sr_process sl_add handler sr item =
     bindE (handler sr item) (\<lambda>((s, r), answer).
       case answer of
         None \<Rightarrow> Inr ((s, r), True)
       | Some (code, reason) \<Rightarrow>
           if code = 0 then Inr ((s, r), True)
           else if code = DISCARD then Inr ((s, r), True)
           else Inr ((s, sr_stash sl_add r code item), False))"

definition sr_unstash ::
  "('s, 'm, 'a, 'k) sr_env \<Rightarrow> ('s, 'm, 'a, 'k) handler \<Rightarrow> ('s, 'm, 'a, 'k) sr_state \<Rightarrow> 'm \<times> 'a \<Rightarrow> (('s, 'm, 'a, 'k) sr_state \<times> bool option) result" where
  "sr_unstash env handler sr item =
     (case se_unstash_handler env of
        None \<Rightarrow> bindE (sr_process (se_add env) handler sr item) (\<lambda>(sr', b). Inr (sr', Some b))
      | Some u \<Rightarrow> bindE (u (fst sr) item) (\<lambda>s. Inr ((s, snd sr), None)))"

definition resolve_and_process ::
  "('s, 'm, 'a, 'k) sr_env \<Rightarrow> ('s, 'm, 'a, 'k) sr_state \<Rightarrow> 'm \<times> 'a \<Rightarrow> (('s, 'm, 'a, 'k) sr_state \<times> bool option) result" where
  "resolve_and_process env sr item =
     (case se_handlers env (fst item) of
        [] \<Rightarrow> Inl LogicError
      | h # _ \<Rightarrow> sr_unstash env h sr item)"

definition process_all_stashed_code ::
  "('s, 'm, 'a, 'k) sr_env \<Rightarrow> ('s, 'm, 'a, 'k) sr_state \<Rightarrow> int \<Rightarrow> ('s, 'm, 'a, 'k) sr_state result" where
  "process_all_stashed_code env sr code =
     (case map_of (sr_queues (snd sr)) code of
        None \<Rightarrow> Inr sr
      | Some queue \<Rightarrow>
          if sq_len queue = 0 then Inr sr
          else (case sq_pop_all queue of (queue', data) \<Rightarrow>
            foldE (\<lambda>sr item. bindE (resolve_and_process env sr item) (\<lambda>(sr', _). Inr sr'))
              (fst sr, (snd sr)\<lparr>sr_queues := AList.update code queue' (sr_queues (snd sr))\<rparr>) data))"

definition process_all_stashed ::
  "('s, 'm, 'a, 'k) sr_env \<Rightarrow> ('s, 'm, 'a, 'k) sr_state \<Rightarrow> int option \<Rightarrow> ('s, 'm, 'a, 'k) sr_state result" where
  "process_all_stashed env sr code =
     (case code of
        None \<Rightarrow> foldE (process_all_stashed_code env) sr (sort (map fst (sr_queues (snd sr))))
      | Some c \<Rightarrow> process_all_stashed_code env sr c)"

text \<open>
  The loop that stops at the first message stashed again. A handler that keeps filling the
  queue can make it run forever, which is the value \<open>None\<close>. The queue is looked up by its code
  in every round; the code looks it up once, which makes no difference unless a handler
  replaces the queue of the code.
\<close>

partial_function (option) until_first_restash ::
  "('s, 'm, 'a, 'k) sr_env \<Rightarrow> int \<Rightarrow> ('s, 'm, 'a, 'k) sr_state \<Rightarrow> ('s, 'm, 'a, 'k) sr_state result option" where
  "until_first_restash env code sr =
     (case map_of (sr_queues (snd sr)) code of
        None \<Rightarrow> Some (Inr sr)
      | Some queue \<Rightarrow>
          (case sq_pop queue of
             Inl _ \<Rightarrow> Some (Inr sr)
           | Inr (queue', item) \<Rightarrow>
               (case resolve_and_process env (fst sr, (snd sr)\<lparr>sr_queues := AList.update code queue' (sr_queues (snd sr))\<rparr>) item of
                  Inl e \<Rightarrow> Some (Inl e)
                | Inr (sr', answer) \<Rightarrow>
                    if answer = Some True then until_first_restash env code sr' else Some (Inr sr'))))"

fun until_first_restash_codes ::
  "('s, 'm, 'a, 'k) sr_env \<Rightarrow> ('s, 'm, 'a, 'k) sr_state \<Rightarrow> int list \<Rightarrow> ('s, 'm, 'a, 'k) sr_state result option" where
  "until_first_restash_codes env sr [] = Some (Inr sr)"
| "until_first_restash_codes env sr (c # cs) =
     (case until_first_restash env c sr of
        None \<Rightarrow> None
      | Some (Inl e) \<Rightarrow> Some (Inl e)
      | Some (Inr sr') \<Rightarrow> until_first_restash_codes env sr' cs)"

definition process_stashed_until_first_restash ::
  "('s, 'm, 'a, 'k) sr_env \<Rightarrow> ('s, 'm, 'a, 'k) sr_state \<Rightarrow> int option \<Rightarrow> ('s, 'm, 'a, 'k) sr_state result option" where
  "process_stashed_until_first_restash env sr code =
     (case code of
        None \<Rightarrow> until_first_restash_codes env sr (sort (map fst (sr_queues (snd sr))))
      | Some c \<Rightarrow> until_first_restash env c sr)"

definition stash_size :: "('m, 'a, 'k) StashingRouter \<Rightarrow> int option \<Rightarrow> nat" where
  "stash_size r code =
     (case code of
        None \<Rightarrow> sum_list (map (\<lambda>(_, q). sq_len q) (sr_queues r))
      | Some c \<Rightarrow> (case map_of (sr_queues r) c of None \<Rightarrow> 0 | Some q \<Rightarrow> sq_len q))"

section \<open>The contract of a queue\<close>

text \<open>
  A full queue refuses an item and stays as it is; a queue with room takes it. Hence a queue
  never grows beyond its limit.
\<close>

locale stashing_queue =
  fixes push :: "'q \<Rightarrow> 'i \<Rightarrow> 'q \<times> bool" and items :: "'q \<Rightarrow> 'i list" and limit :: "'q \<Rightarrow> nat"
  assumes push_full: "limit q \<le> length (items q) \<Longrightarrow> push q x = (q, False)"
    and push_room: "length (items q) < limit q \<Longrightarrow>
      snd (push q x) \<and> mset (items (fst (push q x))) = add_mset x (mset (items q)) \<and> limit (fst (push q x)) = limit q"
begin

lemma push_limit: "limit (fst (push q x)) = limit q"
  using push_full [of q x] push_room [of q x] by (cases "limit q \<le> length (items q)") auto

lemma push_bounded:
  assumes "length (items q) \<le> limit q"
  shows "length (items (fst (push q x))) \<le> limit (fst (push q x))"
proof (cases "limit q \<le> length (items q)")
  case True
  then show ?thesis using push_full assms by simp
next
  case False
  then have "length (items (fst (push q x))) = Suc (length (items q))"
    using push_room [of q x] by (metis not_le size_add_mset size_mset)
  then show ?thesis using False push_room [of q x] by simp
qed

end

locale stash_adder = sorted_adder sl_add
  for sl_add :: "('m \<times> 'a \<Rightarrow> 'k::linorder) \<Rightarrow> ('m \<times> 'a) list \<Rightarrow> 'm \<times> 'a \<Rightarrow> ('m \<times> 'a) list"

sublocale stash_adder \<subseteq> sq: stashing_queue "sq_push sl_add" sq_data sq_limit
proof
  fix q :: "('m, 'a, 'k) StashingQueue" and x
  show "sq_limit q \<le> length (sq_data q) \<Longrightarrow> sq_push sl_add q x = (q, False)"
    by (cases q) simp_all
  show "length (sq_data q) < sq_limit q \<Longrightarrow> snd (sq_push sl_add q x) \<and>
      mset (sq_data (fst (sq_push sl_add q x))) = add_mset x (mset (sq_data q)) \<and> sq_limit (fst (sq_push sl_add q x)) = sq_limit q"
    by (cases q) (simp_all add: mset_sl_add)
qed

interpretation insort_stash: stash_adder insort_right
  by unfold_locales

section \<open>Bounded, sorted queues\<close>

fun sq_ok :: "('m, 'a, 'k::linorder) StashingQueue \<Rightarrow> bool" where
  "sq_ok (UnsortedStash limit data) = (length data \<le> limit)"
| "sq_ok (SortedStash limit key data) = (length data \<le> limit \<and> sorted (map (\<lambda>v. key (fst v)) data))"

definition router_ok :: "('m, 'a, 'k::linorder) StashingRouter \<Rightarrow> bool" where
  "router_ok r \<longleftrightarrow> distinct (map fst (sr_queues r)) \<and>
     (\<forall>(code, q) \<in> set (sr_queues r). sq_ok q \<and> sq_limit q = sr_limit r)"

lemma sq_ok_len: "sq_ok q \<Longrightarrow> sq_len q \<le> sq_limit q"
  by (cases q) (simp_all add: sq_len_def)

definition handlers_keep_router :: "('s, 'm, 'a, 'k::linorder) sr_env \<Rightarrow> bool" where
  "handlers_keep_router env \<longleftrightarrow> (\<forall>msg. \<forall>h \<in> set (se_handlers env msg). \<forall>sr x sr' a.
     h sr x = Inr (sr', a) \<longrightarrow> router_ok (snd sr) \<longrightarrow> router_ok (snd sr'))"

lemma router_okD: "router_ok r \<Longrightarrow> map_of (sr_queues r) code = Some q \<Longrightarrow> sq_ok q \<and> sq_limit q = sr_limit r"
  by (auto simp: router_ok_def dest: map_of_SomeD)

lemma router_ok_update:
  "router_ok r \<Longrightarrow> sq_ok q \<Longrightarrow> sq_limit q = sr_limit r \<Longrightarrow> router_ok (r\<lparr>sr_queues := AList.update code q (sr_queues r)\<rparr>)"
  by (auto simp: router_ok_def distinct_update dest!: set_update_cases)

lemma sq_pop_all_ok: "sq_ok (fst (sq_pop_all q))" "sq_limit (fst (sq_pop_all q)) = sq_limit q" "snd (sq_pop_all q) = sq_data q"
  by (cases q; simp)+

lemma sq_pop_ok: "sq_pop q = Inr (q', x) \<Longrightarrow> sq_ok q \<Longrightarrow> sq_ok q' \<and> sq_limit q' = sq_limit q \<and> sq_data q = x # sq_data q'"
  by (cases q) (auto simp: pop_first_def bindE_eq_Inr split: list.splits)

context stash_adder
begin

lemma sq_push_ok: "sq_ok q \<Longrightarrow> sq_ok (fst (sq_push sl_add q x))"
proof (cases q)
  case (UnsortedStash limit data)
  assume "sq_ok q"
  then show ?thesis using UnsortedStash by simp
next
  case (SortedStash limit key data)
  assume "sq_ok q"
  then show ?thesis using SortedStash sorted_sl_add [of "\<lambda>v. key (fst v)" data x] by (simp add: length_sl_add)
qed

lemma sr_stash_ok: "router_ok r \<Longrightarrow> router_ok (sr_stash sl_add r code item) \<and> sr_limit (sr_stash sl_add r code item) = sr_limit r"
proof -
  assume ok: "router_ok r"
  let ?q = "case map_of (sr_queues r) code of Some q \<Rightarrow> q | None \<Rightarrow> UnsortedStash (sr_limit r) []"
  have "sq_ok ?q \<and> sq_limit ?q = sr_limit r" using router_okD [OF ok] by (auto split: option.splits)
  then show ?thesis using router_ok_update [OF ok, of "fst (sq_push sl_add ?q item)" code]
    by (simp add: sr_stash_def Let_def sq_push_ok sq.push_limit)
qed

text \<open>Handlers that keep the router in order keep it so through every operation of the router.\<close>

lemma resolve_and_process_ok:
  assumes "handlers_keep_router env"
    and "se_add env = sl_add" and "router_ok (snd sr)" and "resolve_and_process env sr item = Inr (sr', a)"
  shows "router_ok (snd sr')"
proof -
  obtain h hs where h: "se_handlers env (fst item) = h # hs" and u: "sr_unstash env h sr item = Inr (sr', a)"
    using assms(4) by (auto simp: resolve_and_process_def split: list.splits)
  have step: "router_ok (snd sr1)" if "h sr item = Inr (sr1, ans)" for sr1 ans
    using assms(1,3) h that unfolding handlers_keep_router_def by (metis list.set_intros(1))
  show ?thesis
  proof (cases "se_unstash_handler env")
    case None
    then obtain b where "sr_process sl_add h sr item = Inr (sr', b)"
      using u assms(2) by (auto simp: sr_unstash_def bindE_eq_Inr)
    then show ?thesis using step
      by (auto simp: sr_process_def bindE_eq_Inr sr_stash_ok split: option.splits prod.splits if_splits)
  next
    case (Some f)
    then show ?thesis using u assms(3) by (auto simp: sr_unstash_def bindE_eq_Inr)
  qed
qed

lemma process_all_stashed_code_ok:
  assumes h: "handlers_keep_router env"
    and a: "se_add env = sl_add" and "router_ok (snd sr)" and "process_all_stashed_code env sr code = Inr sr'"
  shows "router_ok (snd sr')"
proof -
  have loop: "router_ok (snd sr2)"
    if "foldE (\<lambda>sr item. bindE (resolve_and_process env sr item) (\<lambda>(sr', _). Inr sr')) sr1 data = Inr sr2" "router_ok (snd sr1)"
    for sr1 data sr2
    using that
  proof (rule foldE_invariant)
    fix s x s'
    assume "router_ok (snd s)" "bindE (resolve_and_process env s x) (\<lambda>(sr', _). Inr sr') = Inr s'"
    then show "router_ok (snd s')" using resolve_and_process_ok [OF h a, of s x s'] by (auto simp: bindE_eq_Inr)
  qed
  show ?thesis
  proof (cases "map_of (sr_queues (snd sr)) code")
    case (Some q)
    have "router_ok ((snd sr)\<lparr>sr_queues := AList.update code (fst (sq_pop_all q)) (sr_queues (snd sr))\<rparr>)"
      using router_okD [OF assms(3) Some] assms(3) by (simp add: router_ok_update sq_pop_all_ok)
    then show ?thesis
      using assms(3,4) Some loop [of _ _ sr'] by (fastforce simp: process_all_stashed_code_def split: if_splits prod.splits)
  qed (use assms in \<open>simp add: process_all_stashed_code_def\<close>)
qed

end

section \<open>Plain handlers\<close>

text \<open>
  A plain handler works on the state of the services only. The messages it wants to see again
  are the ones it answers with a code other than \<^verbatim>\<open>PROCESS\<close> and \<^verbatim>\<open>DISCARD\<close>.
\<close>

definition plain :: "('s \<Rightarrow> 'm \<times> 'a \<Rightarrow> 's \<times> (int \<times> string) option) \<Rightarrow> ('s, 'm, 'a, 'k) handler" where
  "plain h sr item = Inr ((fst (h (fst sr) item), snd sr), snd (h (fst sr) item))"

definition restash_code :: "(int \<times> string) option \<Rightarrow> int option" where
  "restash_code answer =
     (case answer of None \<Rightarrow> None | Some (code, reason) \<Rightarrow> if code = 0 \<or> code = DISCARD then None else Some code)"

definition plain_env :: "('s \<Rightarrow> 'm \<times> 'a \<Rightarrow> 's \<times> (int \<times> string) option) \<Rightarrow> ('s, 'm, 'a, 'k) sr_env \<Rightarrow> bool" where
  "plain_env h env \<longleftrightarrow> se_unstash_handler env = None \<and> (\<forall>msg. \<exists>hs. se_handlers env msg = plain h # hs)"

fun handle_all :: "('s \<Rightarrow> 'i \<Rightarrow> 's \<times> (int \<times> string) option) \<Rightarrow> 's \<Rightarrow> 'i list \<Rightarrow> 's \<times> (int \<times> 'i) list" where
  "handle_all h s [] = (s, [])"
| "handle_all h s (x # xs) =
     (case h s x of (s1, answer) \<Rightarrow>
      case handle_all h s1 xs of (s2, again) \<Rightarrow>
        (s2, (case restash_code answer of None \<Rightarrow> again | Some c \<Rightarrow> (c, x) # again)))"

fun handle_until :: "('s \<Rightarrow> 'i \<Rightarrow> 's \<times> (int \<times> string) option) \<Rightarrow> 's \<Rightarrow> 'i list \<Rightarrow> 's \<times> (int \<times> 'i) option \<times> 'i list" where
  "handle_until h s [] = (s, None, [])"
| "handle_until h s (x # xs) =
     (case h s x of (s1, answer) \<Rightarrow>
        (case restash_code answer of None \<Rightarrow> handle_until h s1 xs | Some c \<Rightarrow> (s1, Some (c, x), xs)))"

lemma resolve_plain:
  assumes "plain_env h env"
  shows "resolve_and_process env (s, r) item =
    (case restash_code (snd (h s item)) of
       None \<Rightarrow> Inr ((fst (h s item), r), Some True)
     | Some c \<Rightarrow> Inr ((fst (h s item), sr_stash (se_add env) r c item), Some False))"
proof -
  obtain hs where "se_handlers env (fst item) = plain h # hs" using assms by (auto simp: plain_env_def)
  moreover have "se_unstash_handler env = None" using assms by (simp add: plain_env_def)
  ultimately show ?thesis
    by (auto simp: resolve_and_process_def sr_unstash_def sr_process_def plain_def restash_code_def split: option.splits prod.splits)
qed

lemma foldE_plain:
  assumes "plain_env h env"
  shows "foldE (\<lambda>sr item. bindE (resolve_and_process env sr item) (\<lambda>(sr', _). Inr sr')) (s, r) data =
    Inr (fst (handle_all h s data), foldl (\<lambda>r (c, x). sr_stash (se_add env) r c x) r (snd (handle_all h s data)))"
  by (induction data arbitrary: s r) (auto simp: resolve_plain [OF assms] split: prod.splits option.splits)

text \<open>What stashing does to an unsorted queue with room for all that is stashed.\<close>

lemma sr_stash_queue:
  "map_of (sr_queues (sr_stash sl_add r c x)) code =
     (if c = code
      then Some (fst (sq_push sl_add (case map_of (sr_queues r) code of Some q \<Rightarrow> q | None \<Rightarrow> UnsortedStash (sr_limit r) []) x))
      else map_of (sr_queues r) code)"
  by (simp add: sr_stash_def Let_def update_conv')

lemma foldl_stash_unsorted:
  assumes "map_of (sr_queues r) code = Some (UnsortedStash limit data)"
    and "length data + length (filter (\<lambda>(c, x). c = code) again) \<le> limit"
  shows "map_of (sr_queues (foldl (\<lambda>r (c, x). sr_stash sl_add r c x) r again)) code =
    Some (UnsortedStash limit (data @ map snd (filter (\<lambda>(c, x). c = code) again)))"
  using assms
proof (induction again arbitrary: r data)
  case (Cons cx again)
  obtain c x where cx: "cx = (c, x)" by (cases cx)
  show ?case
  proof (cases "c = code")
    case True
    have "map_of (sr_queues (sr_stash sl_add r c x)) code = Some (UnsortedStash limit (data @ [x]))"
      using Cons.prems True cx by (simp add: sr_stash_queue)
    then show ?thesis using Cons.IH [of "sr_stash sl_add r c x" "data @ [x]"] Cons.prems(2) True cx by simp
  next
    case False
    then have "map_of (sr_queues (sr_stash sl_add r c x)) code = Some (UnsortedStash limit data)"
      using Cons.prems by (simp add: sr_stash_queue)
    then show ?thesis using Cons.IH [of "sr_stash sl_add r c x" data] Cons.prems(2) False cx by simp
  qed
qed simp

lemma length_handle_all: "length (snd (handle_all h s data)) \<le> length data"
  by (induction data arbitrary: s) (auto split: prod.splits option.splits, (metis le_SucI snd_conv)+)

text \<open>The queue of a code after its messages were taken out one by one.\<close>

definition put_queue :: "('m, 'a, 'k) StashingRouter \<Rightarrow> int \<Rightarrow> ('m, 'a, 'k) StashingQueue \<Rightarrow> ('m, 'a, 'k) StashingRouter" where
  "put_queue r code q = r\<lparr>sr_queues := AList.update code q (sr_queues r)\<rparr>"

lemma map_of_put_queue [simp]: "map_of (sr_queues (put_queue r code q)) c = (if c = code then Some q else map_of (sr_queues r) c)"
  by (simp add: put_queue_def update_conv')

lemma put_queue_twice [simp]: "put_queue (put_queue r code q) code q' = put_queue r code q'"
  by (simp add: put_queue_def)

lemma until_first_restash_plain:
  assumes "plain_env h env" and "map_of (sr_queues r) code = Some (UnsortedStash limit data)" and "handle_until h s data = (s', again, rest)"
  shows "\<exists>r'. until_first_restash env code (s, r) = Some (Inr (s', r')) \<and>
    r' = (case again of
            None \<Rightarrow> if data = [] then r else put_queue r code (UnsortedStash limit [])
          | Some (c, x) \<Rightarrow> sr_stash (se_add env) (put_queue r code (UnsortedStash limit rest)) c x)"
  using assms(2,3)
proof (induction data arbitrary: s r)
  case Nil
  then show ?case by (subst until_first_restash.simps) (simp add: pop_first_def)
next
  case (Cons x xs)
  let ?r = "put_queue r code (UnsortedStash limit xs)"
  have unfold: "until_first_restash env code (s, r) =
      (case restash_code (snd (h s x)) of
         None \<Rightarrow> until_first_restash env code (fst (h s x), ?r)
       | Some c \<Rightarrow> Some (Inr (fst (h s x), sr_stash (se_add env) ?r c x)))"
    by (subst until_first_restash.simps)
      (simp add: Cons.prems pop_first_def put_queue_def [symmetric] resolve_plain [OF assms(1)] split: option.splits)
  show ?case
  proof (cases "restash_code (snd (h s x))")
    case None
    then have "handle_until h (fst (h s x)) xs = (s', again, rest)" using Cons.prems(2) by (simp split: prod.splits)
    then show ?thesis using Cons.IH [of ?r "fst (h s x)"] unfold None by (auto split: option.splits)
  next
    case (Some c)
    then show ?thesis using unfold Cons.prems(2) by (auto split: prod.splits)
  qed
qed

section \<open>Properties\<close>

text \<open>
  Taking the messages out of an unsorted stash hands every one of them to its handler
  exactly once and in the order in which they were stashed, and what is left under the code
  afterwards are the messages the handler stashed there again, in that order; none is lost.
\<close>

theorem process_all_stashed_correct:
  assumes "plain_env h env" and "map_of (sr_queues r) code = Some (UnsortedStash limit data)" and "length data \<le> limit"
  shows "\<exists>r'. process_all_stashed env (s, r) (Some code) = Inr (fst (handle_all h s data), r') \<and>
    map_of (sr_queues r') code =
      Some (UnsortedStash limit (map snd (filter (\<lambda>(c, x). c = code) (snd (handle_all h s data)))))"
proof -
  let ?r = "put_queue r code (UnsortedStash limit [])"
  let ?again = "snd (handle_all h s data)"
  have "length (filter (\<lambda>(c, x). c = code) ?again) \<le> length ?again" by (rule length_filter_le)
  then have "length (filter (\<lambda>(c, x). c = code) ?again) \<le> limit" using length_handle_all [of h s data] assms(3) by linarith
  then have q: "map_of (sr_queues (foldl (\<lambda>r (c, x). sr_stash (se_add env) r c x) ?r ?again)) code =
      Some (UnsortedStash limit (map snd (filter (\<lambda>(c, x). c = code) ?again)))"
    using foldl_stash_unsorted [of ?r code limit "[]" ?again] by simp
  show ?thesis
  proof (cases "data = []")
    case True
    then show ?thesis using assms(2) by (simp add: process_all_stashed_def process_all_stashed_code_def sq_len_def)
  next
    case False
    then have "process_all_stashed env (s, r) (Some code) =
        foldE (\<lambda>sr item. bindE (resolve_and_process env sr item) (\<lambda>(sr', _). Inr sr')) (s, ?r) data"
      using assms(2) by (simp add: process_all_stashed_def process_all_stashed_code_def sq_len_def put_queue_def)
    then show ?thesis using q foldE_plain [OF assms(1)] by simp
  qed
qed

text \<open>A handler for the examples: it counts, and stashes the message \<open>0\<close> under code 2.\<close>

definition demo_h :: "nat \<Rightarrow> nat \<times> unit \<Rightarrow> nat \<times> (int \<times> string) option" where
  "demo_h s x = (if fst x = 0 then (s, Some (2, ''later'')) else (s + fst x, None))"

definition demo_env :: "(nat, nat, unit, nat) sr_env" where
  "demo_env = \<lparr>se_add = insort_right, se_handlers = \<lambda>_. [plain demo_h], se_unstash_handler = None\<rparr>"

definition demo_router :: "(nat \<times> unit) list \<Rightarrow> (nat, unit, nat) StashingRouter" where
  "demo_router data = \<lparr>sr_limit = 10, sr_queues = [(2, UnsortedStash 10 data)]\<rparr>"

theorem process_all_stashed_correct_witness:
  "\<exists>r'. process_all_stashed demo_env (0, demo_router [(5, ()), (0, ()), (7, ())]) (Some 2) = Inr (12, r') \<and>
    map_of (sr_queues r') 2 = Some (UnsortedStash 10 [(0, ())])"
  using process_all_stashed_correct [of demo_h demo_env "demo_router [(5, ()), (0, ()), (7, ())]" 2 10 "[(5, ()), (0, ()), (7, ())]" 0]
  by (simp add: plain_env_def demo_env_def demo_router_def demo_h_def restash_code_def DISCARD_def)

text \<open>
  Processing a stash until the first message that is stashed again always ends: the messages
  before that one are handled, and the stash keeps the rest in order, followed by that message
  if it was stashed under the same code.
\<close>

theorem until_first_restash_ends:
  assumes "plain_env h env" and "map_of (sr_queues r) code = Some (UnsortedStash limit data)" and "length data \<le> limit"
    and "handle_until h s data = (s', again, rest)"
  shows "\<exists>r'. process_stashed_until_first_restash env (s, r) (Some code) = Some (Inr (s', r')) \<and>
    map_of (sr_queues r') code = Some (UnsortedStash limit (rest @ (case again of Some (c, x) \<Rightarrow> if c = code then [x] else [] | None \<Rightarrow> [])))"
proof -
  have "length rest + (if again = None then 0 else 1) \<le> length data" "again = None \<longrightarrow> rest = []"
    using assms(4) by (induction data arbitrary: s) (fastforce split: prod.splits option.splits if_splits)+
  then show ?thesis
    using until_first_restash_plain [OF assms(1,2,4)] assms(2,3)
    by (auto simp: process_stashed_until_first_restash_def sr_stash_queue split: option.splits if_splits)
qed

theorem until_first_restash_ends_witness:
  "\<exists>r'. process_stashed_until_first_restash demo_env (0, demo_router [(5, ()), (0, ()), (7, ())]) (Some 2) = Some (Inr (5, r')) \<and>
    map_of (sr_queues r') 2 = Some (UnsortedStash 10 [(7, ()), (0, ())])"
  using until_first_restash_ends [of demo_h demo_env "demo_router [(5, ()), (0, ()), (7, ())]" 2 10 "[(5, ()), (0, ()), (7, ())]" 0]
  by (simp add: plain_env_def demo_env_def demo_router_def demo_h_def restash_code_def DISCARD_def)

text \<open>
  C36: if the handlers leave the router as they should, processing stashed messages keeps every
  queue within the limit of the router and every sorted queue sorted.
\<close>

theorem stashes_stay_bounded:
  assumes "stash_adder (se_add env)" and "handlers_keep_router env" and "router_ok (snd sr)"
    and "process_all_stashed env sr code = Inr sr'"
  shows "router_ok (snd sr') \<and> (\<forall>c. stash_size (snd sr') (Some c) \<le> sr_limit (snd sr'))"
proof -
  have "router_ok (snd sr')"
  proof (cases code)
    case None
    then have "foldE (process_all_stashed_code env) sr (sort (map fst (sr_queues (snd sr)))) = Inr sr'"
      using assms(4) by (simp add: process_all_stashed_def)
    then show ?thesis using assms(3)
      by (rule foldE_invariant) (rule stash_adder.process_all_stashed_code_ok [OF assms(1,2) refl])
  next
    case (Some c)
    then show ?thesis
      using assms(4) stash_adder.process_all_stashed_code_ok [OF assms(1,2) refl assms(3)] by (simp add: process_all_stashed_def)
  qed
  then show ?thesis using router_okD sq_ok_len by (fastforce simp: stash_size_def split: option.splits)
qed

theorem stashes_stay_bounded_witness:
  "\<exists>sr'. process_all_stashed demo_env (0, demo_router [(0, ())]) None = Inr sr' \<and> stash_size (snd sr') (Some 2) \<le> sr_limit (snd sr')"
proof -
  have "router_ok (snd (0, demo_router [(0, ())]))" by (simp add: demo_router_def router_ok_def)
  moreover have "handlers_keep_router demo_env" by (auto simp: handlers_keep_router_def demo_env_def plain_def)
  moreover have "stash_adder (se_add demo_env)" unfolding demo_env_def by simp (rule insort_stash.stash_adder_axioms)
  moreover have "process_all_stashed demo_env (0, demo_router [(0, ())]) None = Inr (0, demo_router [(0, ())])"
    by (simp add: process_all_stashed_def process_all_stashed_code_def demo_env_def demo_router_def sq_len_def
        resolve_and_process_def sr_unstash_def plain_def sr_process_def demo_h_def sr_stash_def DISCARD_def)
  ultimately show ?thesis using stashes_stay_bounded [of demo_env "(0, demo_router [(0, ())])" None] by blast
qed

text \<open>
  A router that was given a function for unstashed messages hands it one message only: the
  call that should go on until the first message stashed again stops after the first one.
\<close>

theorem unstash_handler_stops_after_one:
  assumes "se_unstash_handler env = Some u" and "u s x = Inr s'" and "se_handlers env (fst x) \<noteq> []"
    and "map_of (sr_queues r) code = Some (UnsortedStash limit (x # rest))"
  shows "process_stashed_until_first_restash env (s, r) (Some code) = Some (Inr (s', put_queue r code (UnsortedStash limit rest)))"
  unfolding process_stashed_until_first_restash_def option.case using assms
  by (subst until_first_restash.simps)
    (simp add: pop_first_def resolve_and_process_def sr_unstash_def put_queue_def split: list.splits)

theorem unstash_handler_stops_after_one_witness:
  "process_stashed_until_first_restash (demo_env\<lparr>se_unstash_handler := Some (\<lambda>s x. Inr (s + fst x))\<rparr>) (0, demo_router [(5, ()), (6, ())]) (Some 2) =
     Some (Inr (5, put_queue (demo_router [(5, ()), (6, ())]) 2 (UnsortedStash 10 [(6, ())])))"
  by (rule unstash_handler_stops_after_one [where u = "\<lambda>s x. Inr (s + fst x)" and x = "(5, ())"]) (simp_all add: demo_env_def demo_router_def)

end
