(* ===== verification/Rlp.thy ===== *)
theory Rlp
  imports Prelude
begin

text \<open>
  The recursive length prefix format of \<^verbatim>\<open>state/util/fast_rlp.py\<close>. A Python value that is a byte
  string, a list of such values or an integer read out of a byte string is an \<open>item\<close>; the format
  is for items without integers. \<^verbatim>\<open>_encode_optimized\<close> is the encoder of the file (the one in use
  since Python 3, \<^verbatim>\<open>rlp.codec.encode_raw\<close>, is from a library and writes the same format),
  \<^verbatim>\<open>_decode_optimized\<close> the decoder in use. The encoder makes its prefixes with \<^verbatim>\<open>chr\<close>: it is code for
  Python 2, where a string is a byte string, and the model has it with that meaning. The conversion of lengths to big-endian bytes is a
  library function and a parameter. Positions in the decoder are relative to the rest of the input.
\<close>

section \<open>Encoding\<close>

datatype item = RB bytes | RL "item list" | RI nat

fun pure_item :: "item \<Rightarrow> bool" where
  "pure_item (RB _) = True"
| "pure_item (RL xs) = list_all pure_item xs"
| "pure_item (RI _) = False"

definition length_prefix :: "(nat \<Rightarrow> bytes) \<Rightarrow> nat \<Rightarrow> nat \<Rightarrow> bytes" where
  "length_prefix to_be len offset =
     (if len < 56 then [of_nat (offset + len)]
      else of_nat (offset + 56 - 1 + length (to_be len)) # to_be len)"

fun encode_optimized :: "(nat \<Rightarrow> bytes) \<Rightarrow> item \<Rightarrow> bytes" where
  "encode_optimized to_be (RB b) =
     (if length b = 1 \<and> unat (hd b) < 128 then b else length_prefix to_be (length b) 128 @ b)"
| "encode_optimized to_be (RL xs) =
     (let b = concat (map (encode_optimized to_be) xs) in length_prefix to_be (length b) 192 @ b)"
| "encode_optimized to_be (RI _) = []"

section \<open>Decoding\<close>

definition consume_length_prefix :: "(bytes \<Rightarrow> nat) \<Rightarrow> bytes \<Rightarrow> nat \<Rightarrow> (bool \<times> nat \<times> nat) result" where
  "consume_length_prefix from_be rlp start =
     (if length rlp \<le> start then Inl IndexError
      else
        (let b0 = unat (rlp ! start) in
         if b0 < 128 then Inr (False, 1, start)
         else if b0 < 128 + 56 then Inr (False, b0 - 128, start + 1)
         else if b0 < 192 then
           (let ll = b0 - 128 - 56 + 1 in Inr (False, from_be (py_slice (start + 1) (start + 1 + ll) rlp), start + 1 + ll))
         else if b0 < 192 + 56 then Inr (True, b0 - 192, start + 1)
         else
           (let ll = b0 - 192 - 56 + 1 in Inr (True, from_be (py_slice (start + 1) (start + 1 + ll) rlp), start + 1 + ll))))"

lemma consume_progress:
  "consume_length_prefix from_be rlp 0 = Inr (ty, l, p) \<Longrightarrow> 0 < length rlp \<and> 0 < l + p \<and> (ty \<longrightarrow> 0 < p)"
  by (auto simp: consume_length_prefix_def Let_def split: if_splits)

function decode_optimized :: "(bytes \<Rightarrow> nat) \<Rightarrow> bytes \<Rightarrow> item result"
  and decode_loop :: "(bytes \<Rightarrow> nat) \<Rightarrow> bytes \<Rightarrow> item list result" where
  "decode_optimized from_be rlp =
     (case consume_length_prefix from_be rlp 0 of
        Inl e \<Rightarrow> Inl e
      | Inr (ty, l, pos) \<Rightarrow>
          if \<not> ty then Inr (RB (py_slice pos (pos + l) rlp))
          else bindE (decode_loop from_be (drop pos rlp)) (\<lambda>items. Inr (RL items)))"
| "decode_loop from_be rest =
     (if rest = [] then Inr []
      else
        (case consume_length_prefix from_be rest 0 of
           Inl e \<Rightarrow> Inl e
         | Inr (_, l, p) \<Rightarrow>
             bindE (decode_optimized from_be (py_slice 0 (l + p) rest)) (\<lambda>x.
             bindE (decode_loop from_be (drop (l + p) rest)) (\<lambda>xs. Inr (x # xs)))))"
  by pat_completeness auto
termination
proof (relation "measure (\<lambda>x. case x of Inl (_, rlp) \<Rightarrow> 2 * length rlp | Inr (_, rest) \<Rightarrow> 2 * length rest + 1)", goal_cases)
  case 2
  then show ?case by (auto dest!: consume_progress simp flip: length_greater_0_conv)
next
  case 4
  then show ?case by (auto dest!: consume_progress)
qed (auto simp: less_Suc_eq_le)

declare decode_optimized.simps [simp del] decode_loop.simps [simp del]

section \<open>Round trip\<close>

text \<open>Big-endian bytes of a number, without leading zeros.\<close>

fun be_bytes :: "nat \<Rightarrow> bytes" where
  "be_bytes n = (if n = 0 then [] else be_bytes (n div 256) @ [of_nat (n mod 256)])"

definition be_value :: "bytes \<Rightarrow> nat" where
  "be_value bs = foldl (\<lambda>n b. 256 * n + unat b) 0 bs"

declare be_bytes.simps [simp del]

locale big_endian =
  fixes to_be :: "nat \<Rightarrow> bytes" and from_be :: "bytes \<Rightarrow> nat"
  assumes from_to: "from_be (to_be n) = n"
    and to_pos: "0 < n \<Longrightarrow> to_be n \<noteq> []"
    and to_len: "n < 256 ^ m \<Longrightarrow> length (to_be n) \<le> m"
begin

abbreviation "enc \<equiv> encode_optimized to_be"

lemma prefix_consume:
  assumes "n < 256 ^ 8" "off = 128 \<or> off = 192" "n = length b"
  shows "consume_length_prefix from_be (length_prefix to_be n off @ b @ rest) 0 =
    Inr (off = 192, n, length (length_prefix to_be n off))"
proof (cases "n < 56")
  case True
  have "unat (of_nat (off + n) :: byte) = off + n" using True assms(2) by (simp add: unat_of_nat take_bit_nat_eq_self del: of_nat_add) (auto simp: take_bit_nat_eq_self_iff)
  then show ?thesis using assms(2) True
    by (auto simp: length_prefix_def consume_length_prefix_def Let_def simp del: of_nat_add)
next
  case False
  then have "to_be n \<noteq> []" "length (to_be n) \<le> 8" using to_pos to_len [OF assms(1)] by auto
  then have l: "0 < length (to_be n)" "length (to_be n) \<le> 8" by auto
  have "unat (of_nat (off + 56 - 1 + length (to_be n)) :: byte) = off + 56 - 1 + length (to_be n)"
    using l assms(2) by (simp add: unat_of_nat take_bit_nat_eq_self del: of_nat_add) (auto simp: take_bit_nat_eq_self_iff)
  then show ?thesis using False assms(2) l
    by (auto simp: length_prefix_def consume_length_prefix_def Let_def py_slice_def from_to simp del: of_nat_add)
qed

lemma enc_consume:
  assumes "pure_item x" "length (enc x) < 256 ^ 8"
  shows "\<exists>ty l p. consume_length_prefix from_be (enc x @ rest) 0 = Inr (ty, l, p) \<and> l + p = length (enc x) \<and> enc x \<noteq> [] \<and>
    (ty \<longleftrightarrow> (\<exists>xs. x = RL xs)) \<and> drop p (enc x) = (case x of RB b \<Rightarrow> b | RL xs \<Rightarrow> concat (map enc xs) | RI _ \<Rightarrow> [])"
proof (cases x)
  case (RB b)
  show ?thesis
  proof (cases "length b = 1 \<and> unat (hd b) < 128")
    case True
    then show ?thesis using RB by (cases b) (auto simp: consume_length_prefix_def Let_def)
  next
    case False
    then have "enc x = length_prefix to_be (length b) 128 @ b" unfolding RB encode_optimized.simps by (rule if_not_P)
    then show ?thesis using prefix_consume [of "length b" 128 b rest] assms(2) RB
      by (auto simp: length_prefix_def simp del: encode_optimized.simps)
  qed
next
  case (RL xs)
  then have "enc x = length_prefix to_be (length (concat (map enc xs))) 192 @ concat (map enc xs)" by (simp add: Let_def)
  then show ?thesis using prefix_consume [of "length (concat (map enc xs))" 192 "concat (map enc xs)" rest] assms(2) RL
    by (auto simp: length_prefix_def)
qed (use assms in simp)

lemma decode_loop_enc:
  assumes "\<And>x. x \<in> set xs \<Longrightarrow> decode_optimized from_be (enc x) = Inr x"
    and "\<And>x. x \<in> set xs \<Longrightarrow> pure_item x \<and> length (enc x) < 256 ^ 8"
  shows "decode_loop from_be (concat (map enc xs)) = Inr xs"
  using assms
proof (induction xs)
  case (Cons x xs)
  obtain ty l p where c: "consume_length_prefix from_be (enc x @ concat (map enc xs)) 0 = Inr (ty, l, p)"
    "l + p = length (enc x)" "enc x \<noteq> []" using enc_consume [of x "concat (map enc xs)"] Cons.prems(2) [of x] by auto
  then show ?case using Cons by (subst decode_loop.simps) (simp add: py_slice_def)
qed (simp add: decode_loop.simps)

lemma decode_enc: "pure_item x \<Longrightarrow> length (enc x) < 256 ^ 8 \<Longrightarrow> decode_optimized from_be (enc x) = Inr x"
proof (induction x)
  case (RB b)
  then obtain ty l p where "consume_length_prefix from_be (enc (RB b) @ []) 0 = Inr (ty, l, p)" "l + p = length (enc (RB b))"
    "\<not> ty" "drop p (enc (RB b)) = b" using enc_consume [of "RB b" "[]"] by (auto simp del: encode_optimized.simps)
  moreover from this have "length b = l" by (metis add_diff_cancel_right' length_drop)
  ultimately show ?case by (subst decode_optimized.simps) (simp add: py_slice_def del: encode_optimized.simps)
next
  case (RL xs)
  have len: "length (concat (map enc xs)) \<le> length (enc (RL xs))" by (simp add: Let_def)
  have el: "length (enc x) \<le> length (concat (map enc xs))" if "x \<in> set xs" for x
    using that by (induction xs) auto
  have b: "pure_item x \<and> length (enc x) < 256 ^ 8" if "x \<in> set xs" for x
    using el [OF that] len RL.prems that by (auto simp: list_all_iff)
  obtain l p where "consume_length_prefix from_be (enc (RL xs) @ []) 0 = Inr (True, l, p)" "drop p (enc (RL xs)) = concat (map enc xs)"
    using enc_consume [of "RL xs" "[]"] RL.prems by (auto simp del: encode_optimized.simps)
  then show ?case using decode_loop_enc [of xs] RL.IH b by (subst decode_optimized.simps) (simp del: encode_optimized.simps)
qed simp

end

lemma be_bytes_eq_Nil [simp]: "be_bytes n = [] \<longleftrightarrow> n = 0"
  by (subst be_bytes.simps) simp

interpretation be: big_endian be_bytes be_value
proof
  fix n m :: nat
  show "be_value (be_bytes n) = n"
  proof (induction n rule: be_bytes.induct)
    case (1 n)
    then show ?case by (subst be_bytes.simps) (auto simp: be_value_def unat_of_nat)
  qed
  show "0 < n \<Longrightarrow> be_bytes n \<noteq> []" by simp
  show "n < 256 ^ m \<Longrightarrow> length (be_bytes n) \<le> m"
  proof (induction n arbitrary: m rule: be_bytes.induct)
    case (1 n)
    show ?case
    proof (cases m)
      case (Suc m')
      then have "n div 256 < 256 ^ m'" using 1(2) by (simp add: less_mult_imp_div_less mult.commute)
      then show ?thesis using 1(1) Suc by (subst be_bytes.simps) simp
    qed (use 1(2) in simp)
  qed
qed

end
