(* ===== verification/Nibbles.thy ===== *)
theory Nibbles
  imports Prelude
begin

text \<open>
  Keys of the state trie as nibbles: the functions at the top of
  \<^verbatim>\<open>state/trie/pruning_trie.py\<close> and \<^verbatim>\<open>encode_hex\<close> of \<^verbatim>\<open>state/util/utils.py\<close>. A nibble is a
  number below 16; the number 16 at the end of a sequence marks the key of a leaf. The packed form
  starts with a flag nibble, and the round trip between the two forms is the main lemma.
\<close>

section \<open>Definitions\<close>

type_synonym nibbles = "nat list"

definition nibs :: "nibbles \<Rightarrow> bool" where
  "nibs k = (\<forall>x \<in> set k. x < 16)"

definition hexdigits :: string where "hexdigits = ''0123456789abcdef''"

definition encode_hex :: "bytes \<Rightarrow> string" where
  "encode_hex b = concat (map (\<lambda>x. [hexdigits ! (unat x div 16), hexdigits ! (unat x mod 16)]) b)"

definition hti :: "char \<rightharpoonup> nat" where
  "hti = map_of (zip hexdigits [0..<16])"

definition bin_to_nibbles :: "bytes \<Rightarrow> nat list" where
  "bin_to_nibbles s = map (\<lambda>c. the (hti c)) (encode_hex s)"

text \<open>Pairs of nibbles as bytes; a pair above 255 is not a byte.\<close>

fun pack_pairs :: "nat list \<Rightarrow> bytes result" where
  "pack_pairs [] = Inr []"
| "pack_pairs [x] = Inl IndexError"
| "pack_pairs (x # y # rest) =
     (if 16 * x + y > 255 then Inl ValueError else bindE (pack_pairs rest) (\<lambda>b. Inr (of_nat (16 * x + y) # b)))"

definition nibbles_to_bin :: "nat list \<Rightarrow> bytes result" where
  "nibbles_to_bin nibbles =
     (if list_ex (\<lambda>x. x > 15) nibbles then Inl GenericException
      else if length nibbles mod 2 \<noteq> 0 then Inl GenericException
      else pack_pairs nibbles)"

definition NIBBLE_TERMINATOR :: nat where "NIBBLE_TERMINATOR = 16"

definition with_terminator :: "nat list \<Rightarrow> nat list" where
  "with_terminator nibbles =
     (if nibbles = [] \<or> last nibbles \<noteq> NIBBLE_TERMINATOR then nibbles @ [NIBBLE_TERMINATOR] else nibbles)"

definition without_terminator :: "nat list \<Rightarrow> nat list" where
  "without_terminator nibbles =
     (if nibbles \<noteq> [] \<and> last nibbles = NIBBLE_TERMINATOR then butlast nibbles else nibbles)"

definition adapt_terminator :: "nat list \<Rightarrow> bool \<Rightarrow> nat list" where
  "adapt_terminator nibbles has_terminator =
     (if has_terminator then with_terminator nibbles else without_terminator nibbles)"

definition without_terminator_and_flags :: "nat list \<Rightarrow> nat list" where
  "without_terminator_and_flags nibbles =
     (let n = without_terminator nibbles in if length n mod 2 \<noteq> 0 then tl n else n)"

definition pack_nibbles :: "nat list \<Rightarrow> bytes result" where
  "pack_nibbles nibbles =
     (if nibbles = [] then Inl IndexError
      else
        (let term = (last nibbles = NIBBLE_TERMINATOR);
             flags = (if term then 2 else 0);
             nibbles' = (if term then butlast nibbles else nibbles);
             oddlen = length nibbles' mod 2;
             flags' = flags + oddlen in
         pack_pairs (if oddlen \<noteq> 0 then flags' # nibbles' else flags' # 0 # nibbles')))"

definition unpack_to_nibbles :: "bytes \<Rightarrow> nat list result" where
  "unpack_to_nibbles bindata =
     (case bin_to_nibbles bindata of
        [] \<Rightarrow> Inl IndexError
      | flags # rest \<Rightarrow>
          (let nib = flags # rest;
               nib' = (if odd (flags div 2) then nib @ [NIBBLE_TERMINATOR] else nib) in
           Inr (if odd flags then drop 1 nib' else drop 2 nib')))"

definition starts_with :: "nat list \<Rightarrow> nat list \<Rightarrow> bool" where
  "starts_with full part = (if length full < length part then False else take (length part) full = part)"

section \<open>Round trip\<close>

lemma hti_hexdigit: "i < 16 \<Longrightarrow> hti (hexdigits ! i) = Some i"
proof -
  have "\<forall>i \<in> {0..<16}. hti (hexdigits ! i) = Some i" unfolding hti_def hexdigits_def by code_simp
  then show "i < 16 \<Longrightarrow> ?thesis" by simp
qed

lemma unat_byte: "unat (b :: byte) < 16 * 16"
proof -
  have "unat b < 2 ^ LENGTH(8)" by (rule unsigned_less)
  then show ?thesis by simp
qed

lemma bin_to_nibbles_simps [simp]:
  "bin_to_nibbles [] = []"
  "bin_to_nibbles (b # bs) = unat b div 16 # unat b mod 16 # bin_to_nibbles bs"
proof -
  have "unat b div 16 < 16" by (rule less_mult_imp_div_less [OF unat_byte])
  then show "bin_to_nibbles (b # bs) = unat b div 16 # unat b mod 16 # bin_to_nibbles bs"
    by (simp add: bin_to_nibbles_def encode_hex_def hti_hexdigit)
qed (simp add: bin_to_nibbles_def encode_hex_def)

lemma length_bin_to_nibbles [simp]: "length (bin_to_nibbles b) = 2 * length b"
  by (induction b) simp_all

lemma nibs_simps [simp]:
  "nibs []" "nibs (x # k) \<longleftrightarrow> x < 16 \<and> nibs k" "nibs (k @ l) \<longleftrightarrow> nibs k \<and> nibs l"
  by (auto simp: nibs_def)

lemma nibs_bin [simp]: "nibs (bin_to_nibbles b)"
proof (induction b)
  case (Cons x b)
  then show ?case using less_mult_imp_div_less [OF unat_byte, of x] by simp
qed simp

lemma inj_bin_to_nibbles: "bin_to_nibbles a = bin_to_nibbles b \<Longrightarrow> a = b"
proof (induction a arbitrary: b)
  case (Cons x a)
  then obtain y b' where b: "b = y # b'" by (cases b) auto
  then have "unat x div 16 = unat y div 16" "unat x mod 16 = unat y mod 16" using Cons.prems by simp_all
  then have "unat x = unat y" using div_mult_mod_eq [of "unat x" 16] div_mult_mod_eq [of "unat y" 16] by linarith
  then have "x = y" by (simp add: word_unat_eq_iff)
  moreover have "a = b'" by (rule Cons.IH) (use Cons.prems b in simp)
  ultimately show ?case using b by simp
qed (case_tac b; simp)

lemma pack_pairs_bin:
  "nibs k \<Longrightarrow> even (length k) \<Longrightarrow> \<exists>b. pack_pairs k = Inr b \<and> bin_to_nibbles b = k"
proof (induction k rule: pack_pairs.induct)
  case (3 x y rest)
  then obtain b where b: "pack_pairs rest = Inr b" "bin_to_nibbles b = rest" by auto
  have "16 * x + y < 256" using 3(2) by simp
  then have "unat (of_nat (16 * x + y) :: byte) = 16 * x + y" by (simp add: unat_of_nat del: of_nat_add of_nat_mult)
  then show ?case using 3(2) b by (simp del: of_nat_add of_nat_mult)
qed auto

lemma nibbles_to_bin_bin [simp]: "nibbles_to_bin (bin_to_nibbles b) = Inr b"
proof -
  have "\<not> list_ex (\<lambda>x. x > 15) (bin_to_nibbles b)" using nibs_bin [of b] by (auto simp: list_ex_iff nibs_def)
  moreover obtain c where "pack_pairs (bin_to_nibbles b) = Inr c" "bin_to_nibbles c = bin_to_nibbles b"
    using pack_pairs_bin [OF nibs_bin, of b] by auto
  ultimately show ?thesis using inj_bin_to_nibbles by (simp add: nibbles_to_bin_def)
qed

text \<open>The packed form of a key, with the terminator for a leaf.\<close>

definition packed :: "bool \<Rightarrow> nat list \<Rightarrow> bytes" where
  "packed term k = (case pack_nibbles (if term then k @ [NIBBLE_TERMINATOR] else k) of Inr b \<Rightarrow> b | Inl _ \<Rightarrow> [])"

lemma pack_unpack:
  assumes "nibs k" "term \<or> k \<noteq> []"
  shows "pack_nibbles (if term then k @ [NIBBLE_TERMINATOR] else k) = Inr (packed term k)"
    and "unpack_to_nibbles (packed term k) = Inr (if term then k @ [NIBBLE_TERMINATOR] else k)"
proof -
  have l: "\<not> term \<Longrightarrow> last k \<noteq> NIBBLE_TERMINATOR" using assms last_in_set [of k] by (metis NIBBLE_TERMINATOR_def less_irrefl nibs_def)
  have parity: "length k mod 2 \<noteq> 0 \<longleftrightarrow> odd (length k)" by presburger
  define fl where "fl = (if term then 2 else 0) + length k mod 2"
  define ks where "ks = (if length k mod 2 \<noteq> 0 then fl # k else fl # 0 # k)"
  have "nibs ks" "even (length ks)" using assms by (auto simp: ks_def fl_def parity)
  then obtain b where b: "pack_pairs ks = Inr b" "bin_to_nibbles b = ks" using pack_pairs_bin by blast
  have p: "pack_nibbles (if term then k @ [NIBBLE_TERMINATOR] else k) = Inr b"
    using assms l b(1) by (cases "term") (auto simp: pack_nibbles_def Let_def ks_def fl_def)
  then have e: "packed term k = b" by (simp add: packed_def)
  show "pack_nibbles (if term then k @ [NIBBLE_TERMINATOR] else k) = Inr (packed term k)" unfolding e by (rule p)
  have "odd ((2 + length k mod 2) div 2)" "even (length k mod 2 div 2)" by presburger+
  then have "odd (fl div 2) \<longleftrightarrow> term" "odd fl \<longleftrightarrow> length k mod 2 \<noteq> 0" by (auto simp: fl_def odd_iff_mod_2_eq_one)
  then show "unpack_to_nibbles (packed term k) = Inr (if term then k @ [NIBBLE_TERMINATOR] else k)"
    unfolding e by (auto simp: unpack_to_nibbles_def b(2) ks_def Let_def)
qed

end
