(* ===== verification/Pruning_Trie.thy ===== *)
theory Pruning_Trie
  imports Rlp Nibbles KV_Store
begin

text \<open>
  The state trie of \<^verbatim>\<open>state/trie/pruning_trie.py\<close> over the database of
  \<^verbatim>\<open>state/db/persistent_db.py\<close>. A node is an item: the blank node is the empty byte string, a leaf
  or an extension is a list of a packed key and a value or a child, a branch a list of sixteen
  children and a value; a child is held inline or, when its encoding has 32 bytes or more, by hash.

  Every method is a function from the state of a trie to a result and the state after it, so that
  the effects before an exception stay. Besides the database and the root node the state has the
  module's proof constructor, which records the nodes read while a proof is produced and checks
  them while one is verified. Recursive methods have a number of nested calls of themselves
  left; when it is used up the model has Python's \<open>RecursionError\<close>. Python counts all frames, a few for
  each of these calls: the number stands for what its limit leaves for them. The encoder and decoder of the \<^verbatim>\<open>rlp\<close> package and the hash
  function are parameters. Nodes are values here: the code copies the one it still needs before it
  changes a list in place.
\<close>

section \<open>State and effects\<close>

definition RECORDING :: int where "RECORDING = 1"
definition VERIFYING :: int where "VERIFYING = -1"

text \<open>The stacks have their top first; a set of encoded nodes is a list without duplicates.\<close>

record ProofConstructor =
  pc_proving :: bool
  pc_mode :: "int list"
  pc_nodes :: "bytes list list"
  pc_exempt :: "bytes list list"

record 'kv Trie =
  t_db :: 'kv
  root_node :: item
  t_proof :: ProofConstructor

record 'kv trie_env =
  rlp_encode :: "item \<Rightarrow> bytes"
  rlp_lib_decode :: "bytes \<Rightarrow> item result"
  sha3 :: "bytes \<Rightarrow> bytes"
  db_get :: "'kv \<Rightarrow> bytes \<Rightarrow> bytes result"
  inc_refcount :: "'kv \<Rightarrow> bytes \<Rightarrow> bytes \<Rightarrow> 'kv"
  dec_refcount :: "'kv \<Rightarrow> bytes \<Rightarrow> 'kv"
  recursion_limit :: nat

definition PersistentDB ::
  "'kv KeyValueStorage \<Rightarrow> (item \<Rightarrow> bytes) \<Rightarrow> (bytes \<Rightarrow> item result) \<Rightarrow> (bytes \<Rightarrow> bytes) \<Rightarrow> nat \<Rightarrow> 'kv trie_env" where
  "PersistentDB ops enc dec H limit =
     \<lparr>rlp_encode = enc, rlp_lib_decode = dec, sha3 = H, db_get = kv_get ops, inc_refcount = kv_put ops,
      dec_refcount = (\<lambda>s _. s), recursion_limit = limit\<rparr>"

type_synonym ('kv, 'a) tm = "'kv Trie \<Rightarrow> 'a result \<times> 'kv Trie"

definition returnT :: "'a \<Rightarrow> ('kv, 'a) tm" where "returnT x st = (Inr x, st)"
definition raiseT :: "py_error \<Rightarrow> ('kv, 'a) tm" where "raiseT e st = (Inl e, st)"
definition liftT :: "'a result \<Rightarrow> ('kv, 'a) tm" where "liftT r st = (r, st)"

definition bindT :: "('kv, 'a) tm \<Rightarrow> ('a \<Rightarrow> ('kv, 'b) tm) \<Rightarrow> ('kv, 'b) tm" where
  "bindT m f st = (case m st of (Inl e, st') \<Rightarrow> (Inl e, st') | (Inr x, st') \<Rightarrow> f x st')"

definition modifyT :: "('kv Trie \<Rightarrow> 'kv Trie) \<Rightarrow> ('kv, unit) tm" where
  "modifyT f st = (Inr (), f st)"

fun mapT :: "('a \<Rightarrow> ('kv, 'b) tm) \<Rightarrow> 'a list \<Rightarrow> ('kv, 'b list) tm" where
  "mapT f [] = returnT []"
| "mapT f (x # xs) = bindT (f x) (\<lambda>y. bindT (mapT f xs) (\<lambda>ys. returnT (y # ys)))"

section \<open>The proof constructor\<close>

definition pc_push :: "(item \<Rightarrow> bytes) \<Rightarrow> int \<Rightarrow> item list \<Rightarrow> ProofConstructor \<Rightarrow> ProofConstructor" where
  "pc_push enc mode nodes p =
     p\<lparr>pc_proving := True, pc_mode := mode # pc_mode p, pc_exempt := [] # pc_exempt p,
       pc_nodes := (if mode = VERIFYING then remdups (map enc nodes) else []) # pc_nodes p\<rparr>"

definition pc_pop :: "ProofConstructor \<Rightarrow> ProofConstructor" where
  "pc_pop p =
     (let m = tl (pc_mode p) in
      p\<lparr>pc_mode := m, pc_nodes := tl (pc_nodes p), pc_exempt := tl (pc_exempt p),
        pc_proving := (if m = [] then False else pc_proving p)\<rparr>)"

definition add_node :: "(item \<Rightarrow> bytes) \<Rightarrow> item \<Rightarrow> ProofConstructor \<Rightarrow> ProofConstructor" where
  "add_node enc node p =
     (let e = enc node in
      if e \<notin> set (hd (pc_exempt p)) then p\<lparr>pc_nodes := List.insert e (hd (pc_nodes p)) # tl (pc_nodes p)\<rparr> else p)"

definition get_nodelist :: "'kv trie_env \<Rightarrow> ('kv, item list) tm" where
  "get_nodelist env st = liftT (mapE (rlp_lib_decode env) (hd (pc_nodes (t_proof st)))) st"

definition spv_grabbing :: "'kv trie_env \<Rightarrow> item \<Rightarrow> ('kv, unit) tm" where
  "spv_grabbing env node st =
     (let p = t_proof st in
      if \<not> pc_proving p then (Inr (), st)
      else if hd (pc_mode p) = RECORDING then (Inr (), st\<lparr>t_proof := add_node (rlp_encode env) node p\<rparr>)
      else if hd (pc_mode p) = VERIFYING then
        (case pc_nodes p of
           [] \<Rightarrow> (Inl IndexError, st)
         | nodes # _ \<Rightarrow> (if rlp_encode env node \<in> set nodes then Inr () else Inl InvalidSPVProof, st))
      else (Inr (), st))"

section \<open>Nodes\<close>

abbreviation BLANK_NODE :: item where "BLANK_NODE \<equiv> RB []"

definition BLANK_ROOT :: "'kv trie_env \<Rightarrow> bytes" where
  "BLANK_ROOT env = sha3 env (rlp_encode env BLANK_NODE)"

fun py_len :: "item \<Rightarrow> nat result" where
  "py_len (RB b) = Inr (length b)"
| "py_len (RL xs) = Inr (length xs)"
| "py_len (RI _) = Inl TypeError"

fun py_getitem :: "item \<Rightarrow> nat \<Rightarrow> item result" where
  "py_getitem (RB b) i = (if i < length b then Inr (RI (unat (b ! i))) else Inl IndexError)"
| "py_getitem (RL xs) i = (if i < length xs then Inr (xs ! i) else Inl IndexError)"
| "py_getitem (RI _) i = Inl TypeError"

fun py_setitem :: "item \<Rightarrow> nat \<Rightarrow> item \<Rightarrow> item result" where
  "py_setitem (RL xs) i v = (if i < length xs then Inr (RL (xs[i := v])) else Inl IndexError)"
| "py_setitem _ i v = Inl TypeError"

fun is_list :: "item \<Rightarrow> bool" where
  "is_list (RL _) = True"
| "is_list _ = False"

fun unpack_item :: "item \<Rightarrow> nibbles result" where
  "unpack_item (RB b) = unpack_to_nibbles b"
| "unpack_item _ = Inl TypeError"

datatype node_type = NODE_TYPE_BLANK | NODE_TYPE_LEAF | NODE_TYPE_EXTENSION | NODE_TYPE_BRANCH

definition is_key_value_type :: "node_type option \<Rightarrow> bool" where
  "is_key_value_type ty = (ty = Some NODE_TYPE_LEAF \<or> ty = Some NODE_TYPE_EXTENSION)"

definition get_node_type :: "item \<Rightarrow> node_type option result" where
  "get_node_type node =
     (if node = BLANK_NODE then Inr (Some NODE_TYPE_BLANK)
      else bindE (py_len node) (\<lambda>n.
        if n = 2 then
          bindE (py_getitem node 0) (\<lambda>k.
          bindE (unpack_item k) (\<lambda>nibbles.
            Inr (Some (if nibbles \<noteq> [] \<and> last nibbles = NIBBLE_TERMINATOR then NODE_TYPE_LEAF else NODE_TYPE_EXTENSION))))
        else if n = 17 then Inr (Some NODE_TYPE_BRANCH)
        else Inr None))"

definition key_nibbles_from_key_value_node :: "item \<Rightarrow> nibbles result" where
  "key_nibbles_from_key_value_node node =
     bindE (py_getitem node 0) (\<lambda>k. bindE (unpack_item k) (\<lambda>n. Inr (without_terminator n)))"

definition encode_node :: "'kv trie_env \<Rightarrow> item \<Rightarrow> bool \<Rightarrow> ('kv, item) tm" where
  "encode_node env node is_root =
     (if node = BLANK_NODE then returnT BLANK_NODE
      else
        (let rlpnode = rlp_encode env node in
         if length rlpnode < 32 \<and> \<not> is_root then returnT node
         else
           (let hashkey = sha3 env rlpnode in
            bindT (modifyT (\<lambda>st. st\<lparr>t_db := inc_refcount env (t_db st) hashkey rlpnode\<rparr>)) (\<lambda>_.
            returnT (RB hashkey)))))"

fun decode_to_node :: "'kv trie_env \<Rightarrow> item \<Rightarrow> ('kv, item) tm" where
  "decode_to_node env (RL xs) = returnT (RL xs)"
| "decode_to_node env (RB k) =
     (if k = [] then returnT BLANK_NODE
      else
        bindT (\<lambda>st. liftT (db_get env (t_db st) k) st) (\<lambda>encoded.
        bindT (liftT (rlp_lib_decode env encoded)) (\<lambda>node.
        bindT (spv_grabbing env node) (\<lambda>_. returnT node))))"
| "decode_to_node env (RI _) = raiseT KeyError"

definition get_inner_node_from_extension :: "'kv trie_env \<Rightarrow> item \<Rightarrow> ('kv, item) tm" where
  "get_inner_node_from_extension env node = bindT (liftT (py_getitem node 1)) (decode_to_node env)"

definition delete_node_storage :: "'kv trie_env \<Rightarrow> item \<Rightarrow> bool \<Rightarrow> ('kv, unit) tm" where
  "delete_node_storage env node is_root =
     (if node = BLANK_NODE then returnT ()
      else
        (let encoded = rlp_encode env node in
         if length encoded < 32 \<and> \<not> is_root then returnT ()
         else modifyT (\<lambda>st. st\<lparr>t_db := dec_refcount env (t_db st) (sha3 env encoded)\<rparr>)))"

section \<open>Look-up\<close>

fun trie_get_node :: "'kv trie_env \<Rightarrow> nat \<Rightarrow> item \<Rightarrow> nibbles \<Rightarrow> ('kv, item option) tm" where
  "trie_get_node env 0 node key = raiseT RecursionError"
| "trie_get_node env (Suc n) node key =
     bindT (liftT (get_node_type node)) (\<lambda>ty.
       if ty = Some NODE_TYPE_BLANK then returnT (Some BLANK_NODE)
       else if ty = Some NODE_TYPE_BRANCH then
         (case key of
            [] \<Rightarrow> bindT (liftT (py_getitem node 16)) (\<lambda>v. returnT (Some v))
          | x # key' \<Rightarrow>
              bindT (liftT (py_getitem node x)) (\<lambda>child.
              bindT (decode_to_node env child) (\<lambda>sub_node. trie_get_node env n sub_node key')))
       else
         bindT (liftT (key_nibbles_from_key_value_node node)) (\<lambda>curr_key.
           if ty = Some NODE_TYPE_LEAF then
             (if key = curr_key then bindT (liftT (py_getitem node 1)) (\<lambda>v. returnT (Some v)) else returnT (Some BLANK_NODE))
           else if ty = Some NODE_TYPE_EXTENSION then
             (if starts_with key curr_key then
                bindT (get_inner_node_from_extension env node) (\<lambda>sub_node.
                  trie_get_node env n sub_node (drop (length curr_key) key))
              else returnT (Some BLANK_NODE))
           else returnT None))"

section \<open>Update\<close>

text \<open>The recursive call of a helper is an argument of it.\<close>

definition update_and_delete_storage ::
  "'kv trie_env \<Rightarrow> (item \<Rightarrow> nibbles \<Rightarrow> bytes \<Rightarrow> ('kv, item) tm) \<Rightarrow> item \<Rightarrow> nibbles \<Rightarrow> bytes \<Rightarrow> ('kv, item) tm" where
  "update_and_delete_storage env update node key value =
     bindT (update node key value) (\<lambda>new_node.
     bindT (delete_node_storage env node False) (\<lambda>_. returnT new_node))"

fun prefix_length :: "nibbles \<Rightarrow> nibbles \<Rightarrow> nat" where
  "prefix_length (x # curr_key) (y # key) = (if x \<noteq> y then 0 else Suc (prefix_length curr_key key))"
| "prefix_length _ _ = 0"

definition blank_branch :: "item list" where "blank_branch = replicate 17 BLANK_NODE"

text \<open>A leaf for the rest of a key, stored; and what \<^verbatim>\<open>_update_kv_node\<close> does at its end.\<close>

definition encode_leaf :: "'kv trie_env \<Rightarrow> nibbles \<Rightarrow> item \<Rightarrow> ('kv, item) tm" where
  "encode_leaf env key value =
     bindT (liftT (pack_nibbles (with_terminator key))) (\<lambda>k. encode_node env (RL [RB k, value]) False)"

definition finish_kv_node :: "'kv trie_env \<Rightarrow> nibbles \<Rightarrow> item \<Rightarrow> bool \<Rightarrow> ('kv, item) tm" where
  "finish_kv_node env prefix new_node new_node_encoded =
     (if prefix \<noteq> [] then
        bindT (liftT (pack_nibbles prefix)) (\<lambda>k.
        bindT (encode_node env new_node False) (\<lambda>e.
        bindT (if new_node_encoded then delete_node_storage env new_node False else returnT ()) (\<lambda>_.
        bindT (encode_node env (RL [RB k, e]) False) (\<lambda>_.
        returnT (RL [RB k, e])))))
      else if \<not> new_node_encoded then bindT (encode_node env new_node False) (\<lambda>_. returnT new_node)
      else returnT new_node)"

definition update_kv_node ::
  "'kv trie_env \<Rightarrow> (item \<Rightarrow> nibbles \<Rightarrow> bytes \<Rightarrow> ('kv, item) tm) \<Rightarrow> item \<Rightarrow> nibbles \<Rightarrow> bytes \<Rightarrow> ('kv, item) tm" where
  "update_kv_node env update node key value =
     bindT (liftT (get_node_type node)) (\<lambda>node_type.
     bindT (liftT (key_nibbles_from_key_value_node node)) (\<lambda>curr_key.
     bindT (liftT (py_getitem node 0)) (\<lambda>node_key.
     bindT (liftT (py_getitem node 1)) (\<lambda>node_value.
       let is_inner = (node_type = Some NODE_TYPE_EXTENSION);
           n = prefix_length curr_key key;
           remain_key = drop n key;
           remain_curr_key = drop n curr_key;
           prefix = take n curr_key in
       if remain_key = [] \<and> remain_curr_key = [] \<and> \<not> is_inner then
         bindT (encode_node env (RL [node_key, RB value]) False) (\<lambda>_. returnT (RL [node_key, RB value]))
       else if remain_curr_key = [] then
         (if is_inner then
            bindT (decode_to_node env node_value) (\<lambda>child.
            bindT (update_and_delete_storage env update child remain_key value) (\<lambda>new_node.
            finish_kv_node env prefix new_node True))
          else
            bindT (encode_leaf env (tl remain_key) (RB value)) (\<lambda>e.
            finish_kv_node env prefix (RL (blank_branch[16 := node_value, hd remain_key := e])) False))
       else
         bindT (if length remain_curr_key = 1 \<and> is_inner then returnT node_value
                else bindT (liftT (pack_nibbles (adapt_terminator (tl remain_curr_key) (\<not> is_inner)))) (\<lambda>k.
                       encode_node env (RL [RB k, node_value]) False)) (\<lambda>old.
         bindT (if remain_key = [] then returnT (RL (blank_branch[hd remain_curr_key := old, 16 := RB value]))
                else bindT (encode_leaf env (tl remain_key) (RB value)) (\<lambda>e.
                       returnT (RL (blank_branch[hd remain_curr_key := old, hd remain_key := e])))) (\<lambda>new_node.
         finish_kv_node env prefix new_node False))))))"

fun update_node :: "'kv trie_env \<Rightarrow> nat \<Rightarrow> item \<Rightarrow> nibbles \<Rightarrow> bytes \<Rightarrow> ('kv, item) tm" where
  "update_node env 0 node key value = raiseT RecursionError"
| "update_node env (Suc n) node key value =
     bindT (liftT (get_node_type node)) (\<lambda>ty.
       if ty = Some NODE_TYPE_BLANK then
         bindT (liftT (pack_nibbles (with_terminator key))) (\<lambda>k.
         bindT (encode_node env (RL [RB k, RB value]) False) (\<lambda>_. returnT (RL [RB k, RB value])))
       else if ty = Some NODE_TYPE_BRANCH then
         bindT
           (case key of
              [] \<Rightarrow> liftT (py_setitem node 16 (RB value))
            | x # key' \<Rightarrow>
                bindT (liftT (py_getitem node x)) (\<lambda>child.
                bindT (decode_to_node env child) (\<lambda>sub_node.
                bindT (update_and_delete_storage env (update_node env n) sub_node key' value) (\<lambda>new_node.
                bindT (encode_node env new_node False) (\<lambda>e.
                bindT (liftT (py_setitem node x e)) (\<lambda>node'.
                bindT (delete_node_storage env new_node False) (\<lambda>_.
                returnT node')))))))
           (\<lambda>node'. bindT (encode_node env node' False) (\<lambda>_. returnT node'))
       else if is_key_value_type ty then update_kv_node env (update_node env n) node key value
       else raiseT EncodingError)"

section \<open>Deletion\<close>

fun truthy :: "item \<Rightarrow> bool" where
  "truthy (RB b) = (b \<noteq> [])"
| "truthy (RL xs) = (xs \<noteq> [])"
| "truthy (RI n) = (n \<noteq> 0)"

definition collapse_branch :: "'kv trie_env \<Rightarrow> nat \<Rightarrow> item \<Rightarrow> ('kv, item) tm" where
  "collapse_branch env i child =
     bindT (decode_to_node env child) (\<lambda>sub_node.
     bindT (liftT (get_node_type sub_node)) (\<lambda>sub_node_type.
       if is_key_value_type sub_node_type then
         bindT (delete_node_storage env sub_node False) (\<lambda>_.
         bindT (liftT (py_getitem sub_node 0)) (\<lambda>sub_key.
         bindT (liftT (unpack_item sub_key)) (\<lambda>nibbles.
         bindT (liftT (pack_nibbles (i # nibbles))) (\<lambda>k.
         bindT (liftT (py_getitem sub_node 1)) (\<lambda>v.
         bindT (encode_node env (RL [RB k, v]) False) (\<lambda>_. returnT (RL [RB k, v])))))))
       else if sub_node_type = Some NODE_TYPE_BRANCH then
         bindT (liftT (pack_nibbles [i])) (\<lambda>k.
         bindT (encode_node env (RL [RB k, child]) False) (\<lambda>_. returnT (RL [RB k, child])))
       else raiseT AssertionError))"

definition normalize_branch_node :: "'kv trie_env \<Rightarrow> item \<Rightarrow> ('kv, item) tm" where
  "normalize_branch_node env node =
     (case node of
        RL xs \<Rightarrow>
          (let not_blank = filter (\<lambda>i. truthy (xs ! i)) [0..<17] in
           if not_blank = [] then raiseT AssertionError
           else if length not_blank > 1 then bindT (encode_node env node False) (\<lambda>_. returnT node)
           else if hd not_blank = 16 then
             bindT (liftT (pack_nibbles (with_terminator []))) (\<lambda>k.
             bindT (encode_node env (RL [RB k, xs ! 16]) False) (\<lambda>_. returnT (RL [RB k, xs ! 16])))
           else collapse_branch env (hd not_blank) (xs ! hd not_blank))
      | _ \<Rightarrow> raiseT TypeError)"

definition delete_and_delete_storage ::
  "'kv trie_env \<Rightarrow> (item \<Rightarrow> nibbles \<Rightarrow> ('kv, item) tm) \<Rightarrow> item \<Rightarrow> nibbles \<Rightarrow> ('kv, item) tm" where
  "delete_and_delete_storage env delete node key =
     bindT (delete node key) (\<lambda>new_node.
     bindT (delete_node_storage env node False) (\<lambda>_. returnT new_node))"

definition delete_branch_node ::
  "'kv trie_env \<Rightarrow> (item \<Rightarrow> nibbles \<Rightarrow> ('kv, item) tm) \<Rightarrow> item \<Rightarrow> nibbles \<Rightarrow> ('kv, item) tm" where
  "delete_branch_node env delete node key =
     (case key of
        [] \<Rightarrow> bindT (liftT (py_setitem node 16 BLANK_NODE)) (normalize_branch_node env)
      | x # key' \<Rightarrow>
          bindT (liftT (py_getitem node x)) (\<lambda>child.
          bindT (decode_to_node env child) (\<lambda>sub_node.
          bindT (delete_and_delete_storage env delete sub_node key') (\<lambda>new_node.
          bindT (encode_node env new_node False) (\<lambda>e.
          bindT (delete_node_storage env new_node False) (\<lambda>_.
          bindT (liftT (py_setitem node x e)) (\<lambda>node'.
            if e = BLANK_NODE then normalize_branch_node env node'
            else bindT (encode_node env node' False) (\<lambda>_. returnT node'))))))))"

text \<open>The end of \<^verbatim>\<open>_delete_kv_node\<close>: what is left below an extension goes into its place.\<close>

definition collapse_extension :: "'kv trie_env \<Rightarrow> nibbles \<Rightarrow> item \<Rightarrow> ('kv, item) tm" where
  "collapse_extension env curr_key new_sub_node =
     (if new_sub_node = BLANK_NODE then returnT BLANK_NODE
      else
        bindT (liftT (get_node_type new_sub_node)) (\<lambda>new_sub_node_type.
          if is_key_value_type new_sub_node_type then
            bindT (liftT (py_getitem new_sub_node 0)) (\<lambda>sub_key.
            bindT (liftT (unpack_item sub_key)) (\<lambda>nibbles.
            bindT (liftT (pack_nibbles (curr_key @ nibbles))) (\<lambda>k.
            bindT (liftT (py_getitem new_sub_node 1)) (\<lambda>v.
            bindT (delete_node_storage env new_sub_node False) (\<lambda>_.
            bindT (encode_node env (RL [RB k, v]) False) (\<lambda>_. returnT (RL [RB k, v])))))))
          else if new_sub_node_type = Some NODE_TYPE_BRANCH then
            bindT (liftT (pack_nibbles curr_key)) (\<lambda>k.
            bindT (encode_node env new_sub_node False) (\<lambda>e.
            bindT (delete_node_storage env new_sub_node False) (\<lambda>_.
            bindT (encode_node env (RL [RB k, e]) False) (\<lambda>_. returnT (RL [RB k, e])))))
          else raiseT AssertionError))"

definition delete_kv_node ::
  "'kv trie_env \<Rightarrow> (item \<Rightarrow> nibbles \<Rightarrow> ('kv, item) tm) \<Rightarrow> item \<Rightarrow> nibbles \<Rightarrow> ('kv, item) tm" where
  "delete_kv_node env delete node key =
     bindT (liftT (get_node_type node)) (\<lambda>node_type.
     bindT (liftT (assertE AssertionError (is_key_value_type node_type))) (\<lambda>_.
     bindT (liftT (key_nibbles_from_key_value_node node)) (\<lambda>curr_key.
       if \<not> starts_with key curr_key then bindT (encode_node env node False) (\<lambda>_. returnT node)
       else if node_type = Some NODE_TYPE_LEAF then
         (if key = curr_key then returnT BLANK_NODE else bindT (encode_node env node False) (\<lambda>_. returnT node))
       else
         bindT (get_inner_node_from_extension env node) (\<lambda>sub_node.
         bindT (delete_and_delete_storage env delete sub_node (drop (length curr_key) key)) (\<lambda>new_sub_node.
         collapse_extension env curr_key new_sub_node)))))"

fun delete_node :: "'kv trie_env \<Rightarrow> nat \<Rightarrow> item \<Rightarrow> nibbles \<Rightarrow> ('kv, item) tm" where
  "delete_node env 0 node key = raiseT RecursionError"
| "delete_node env (Suc n) node key =
     bindT (liftT (get_node_type node)) (\<lambda>ty.
       if ty = Some NODE_TYPE_BLANK then returnT BLANK_NODE
       else if ty = Some NODE_TYPE_BRANCH then delete_branch_node env (delete_node env n) node key
       else if is_key_value_type ty then delete_kv_node env (delete_node env n) node key
       else raiseT EncodingError)"

section \<open>The methods of the trie\<close>

definition get_root_hash :: "'kv trie_env \<Rightarrow> ('kv, bytes) tm" where
  "get_root_hash env st =
     (if root_node st = BLANK_NODE then (Inr (BLANK_ROOT env), st)
      else bindT (liftT (assertE AssertionError (is_list (root_node st)))) (\<lambda>_.
           bindT (spv_grabbing env (root_node st)) (\<lambda>_.
           returnT (sha3 env (rlp_encode env (root_node st))))) st)"

definition replace_root_hash :: "'kv trie_env \<Rightarrow> item \<Rightarrow> item \<Rightarrow> ('kv, unit) tm" where
  "replace_root_hash env old_node new_node =
     bindT (delete_node_storage env old_node True) (\<lambda>_.
     bindT (encode_node env new_node True) (\<lambda>_.
     modifyT (\<lambda>st. st\<lparr>root_node := new_node\<rparr>)))"

definition set_root_hash :: "'kv trie_env \<Rightarrow> bytes \<Rightarrow> ('kv, unit) tm" where
  "set_root_hash env root_hash =
     (if length root_hash \<notin> {0, 32} then raiseT PlenumValueError
      else if root_hash = BLANK_ROOT env then modifyT (\<lambda>st. st\<lparr>root_node := BLANK_NODE\<rparr>)
      else bindT (decode_to_node env (RB root_hash)) (\<lambda>node. modifyT (\<lambda>st. st\<lparr>root_node := node\<rparr>)))"

definition trie_get :: "'kv trie_env \<Rightarrow> bytes \<Rightarrow> ('kv, item option) tm" where
  "trie_get env key st = trie_get_node env (recursion_limit env) (root_node st) (bin_to_nibbles key) st"

definition trie_update :: "'kv trie_env \<Rightarrow> bytes \<Rightarrow> bytes \<Rightarrow> ('kv, unit) tm" where
  "trie_update env key value st =
     (let old_root = root_node st in
      bindT (update_and_delete_storage env (update_node env (recursion_limit env)) old_root (bin_to_nibbles key) value) (\<lambda>new.
      bindT (modifyT (\<lambda>st. st\<lparr>root_node := new\<rparr>)) (\<lambda>_.
      replace_root_hash env old_root new)) st)"

definition trie_delete :: "'kv trie_env \<Rightarrow> bytes \<Rightarrow> ('kv, unit) tm" where
  "trie_delete env key st =
     (let old_root = root_node st in
      bindT (delete_and_delete_storage env (delete_node env (recursion_limit env)) old_root (bin_to_nibbles key)) (\<lambda>new.
      bindT (modifyT (\<lambda>st. st\<lparr>root_node := new\<rparr>)) (\<lambda>_.
      replace_root_hash env old_root new)) st)"

end
