(* ===== verification/Trie_Spec.thy ===== *)
theory Trie_Spec
  imports Nibbles "HOL-Library.Sublist"
begin

text \<open>
  What the state trie of \<^verbatim>\<open>state/trie/pruning_trie.py\<close> means: a radix tree over nibbles without
  encodings, hashes and storage, with the lookup, the insertion and the deletion its methods
  perform. An absent key has the empty value, as in the code. The trees the code builds are in a
  normal form, and in normal form the contents determine the tree; hence the root hash is a
  function of the contents.
\<close>

section \<open>Trees and their operations\<close>

datatype trie = TBlank | TLeaf nibbles bytes | TExt nibbles trie | TBranch "trie list" bytes

lemma size_nth_trie [termination_simp]: "i < length ts \<Longrightarrow> size (ts ! i) < Suc (size_list size ts)"
  by (metis less_Suc_eq_le nth_mem size_list_estimation' order_refl)

fun lookup :: "trie \<Rightarrow> nibbles \<Rightarrow> bytes" where
  "lookup TBlank k = []"
| "lookup (TLeaf c v) k = (if k = c then v else [])"
| "lookup (TExt c t) k = (if prefix c k then lookup t (drop (length c) k) else [])"
| "lookup (TBranch ts v) [] = v"
| "lookup (TBranch ts v) (i # k) = (if i < length ts then lookup (ts ! i) k else [])"

definition wrap :: "nibbles \<Rightarrow> trie \<Rightarrow> trie" where
  "wrap p t = (if p = [] then t else TExt p t)"

fun lcp :: "nibbles \<Rightarrow> nibbles \<Rightarrow> nat" where
  "lcp (x # xs) (y # ys) = (if x = y then Suc (lcp xs ys) else 0)"
| "lcp _ _ = 0"

definition blanks :: "trie list" where "blanks = replicate 16 TBlank"

text \<open>A branch that holds what is below the node split at, if any, and the new value.\<close>

definition split_branch :: "trie list \<Rightarrow> bytes \<Rightarrow> nibbles \<Rightarrow> bytes \<Rightarrow> trie" where
  "split_branch ts u rk v = (if rk = [] then TBranch ts v else TBranch (ts[hd rk := TLeaf (tl rk) v]) u)"

fun upd :: "trie \<Rightarrow> nibbles \<Rightarrow> bytes \<Rightarrow> trie" where
  "upd TBlank k v = TLeaf k v"
| "upd (TBranch ts u) [] v = TBranch ts v"
| "upd (TBranch ts u) (i # k) v = (if i < length ts then TBranch (ts[i := upd (ts ! i) k v]) u else TBranch ts u)"
| "upd (TLeaf c u) k v =
     (let n = lcp c k; rc = drop n c; rk = drop n k in
      if rc = [] \<and> rk = [] then TLeaf c v
      else wrap (take n c)
        (if rc = [] then split_branch blanks u rk v
         else split_branch (blanks[hd rc := TLeaf (tl rc) u]) [] rk v))"
| "upd (TExt c t) k v =
     (let n = lcp c k; rc = drop n c; rk = drop n k in
      if rc = [] then TExt c (upd t rk v)
      else wrap (take n c) (split_branch (blanks[hd rc := wrap (tl rc) t]) [] rk v))"

fun join :: "nibbles \<Rightarrow> trie \<Rightarrow> trie" where
  "join c TBlank = TBlank"
| "join c (TLeaf k v) = TLeaf (c @ k) v"
| "join c (TExt k t) = TExt (c @ k) t"
| "join c (TBranch ts v) = TExt c (TBranch ts v)"

definition fill :: "trie list \<Rightarrow> bytes \<Rightarrow> nat" where
  "fill ts v = length (filter (\<lambda>t. t \<noteq> TBlank) ts) + (if v = [] then 0 else 1)"

definition normal :: "trie list \<Rightarrow> bytes \<Rightarrow> trie" where
  "normal ts v =
     (if fill ts v > 1 then TBranch ts v
      else case find (\<lambda>i. ts ! i \<noteq> TBlank) [0..<length ts] of
             None \<Rightarrow> TLeaf [] v
           | Some i \<Rightarrow> join [i] (ts ! i))"

fun del :: "trie \<Rightarrow> nibbles \<Rightarrow> trie" where
  "del TBlank k = TBlank"
| "del (TLeaf c v) k = (if k = c then TBlank else TLeaf c v)"
| "del (TExt c t) k = (if prefix c k then join c (del t (drop (length c) k)) else TExt c t)"
| "del (TBranch ts v) [] = normal ts []"
| "del (TBranch ts v) (i # k) =
     (if i < length ts then
        (let s = del (ts ! i) k in if s = TBlank then normal (ts[i := s]) v else TBranch (ts[i := s]) v)
      else TBranch ts v)"

fun is_branch :: "trie \<Rightarrow> bool" where
  "is_branch (TBranch _ _) = True"
| "is_branch _ = False"

fun wf_trie :: "trie \<Rightarrow> bool" where
  "wf_trie TBlank = True"
| "wf_trie (TLeaf c v) = (nibs c \<and> v \<noteq> [])"
| "wf_trie (TExt c t) = (c \<noteq> [] \<and> nibs c \<and> is_branch t \<and> wf_trie t)"
| "wf_trie (TBranch ts v) = (length ts = 16 \<and> (\<forall>t \<in> set ts. wf_trie t) \<and> fill ts v > 1)"

section \<open>Auxiliary facts\<close>

lemma nibs_take_drop [simp]: "nibs k \<Longrightarrow> nibs (take n k)" "nibs k \<Longrightarrow> nibs (drop n k)"
  by (auto simp: nibs_def dest: in_set_takeD in_set_dropD)

lemma lookup_TBranch: "i < length ts \<Longrightarrow> lookup (TBranch ts v) (i # k) = lookup (ts ! i) k"
  by simp

lemma length_blanks [simp]: "length blanks = 16" by (simp add: blanks_def)

lemma nth_blanks [simp]: "i < 16 \<Longrightarrow> blanks ! i = TBlank" by (simp add: blanks_def)

lemma lookup_append [simp]: "lookup (TExt c t) (c @ k) = lookup t k" by simp

lemma lookup_wrap [simp]: "lookup (wrap p t) k = (if prefix p k then lookup t (drop (length p) k) else [])"
  by (simp add: wrap_def)

lemma lcp_le [simp]: "lcp c k \<le> length c" "lcp c k \<le> length k"
  by (induction c k rule: lcp.induct) auto

lemma lcp_take: "take (lcp c k) c = take (lcp c k) k"
  by (induction c k rule: lcp.induct) auto

lemma lcp_diverge:
  "drop (lcp c k) c = x # c' \<Longrightarrow> drop (lcp c k) k = y # k' \<Longrightarrow> x \<noteq> y"
  by (induction c k rule: lcp.induct) (auto split: if_splits)

lemma lcp_split:
  obtains p rc rk where "c = p @ rc" "k = p @ rk" "lcp c k = length p"
    "\<And>x xs y ys. rc = x # xs \<Longrightarrow> rk = y # ys \<Longrightarrow> x \<noteq> y"
proof
  show "c = take (lcp c k) c @ drop (lcp c k) c" by simp
  show "k = take (lcp c k) c @ drop (lcp c k) k" by (metis append_take_drop_id lcp_take)
  show "lcp c k = length (take (lcp c k) c)" by simp
qed (rule lcp_diverge)


section \<open>Insertion\<close>

declare upd.simps(4,5) [simp del]

lemma upd_TLeaf:
  assumes "c = p @ rc" "k = p @ rk" "lcp c k = length p"
  shows "upd (TLeaf c u) k v =
    (if rc = [] \<and> rk = [] then TLeaf c v
     else wrap p (if rc = [] then split_branch blanks u rk v
                  else split_branch (blanks[hd rc := TLeaf (tl rc) u]) [] rk v))"
  using assms by (simp add: upd.simps Let_def)

lemma upd_TExt:
  assumes "c = p @ rc" "k = p @ rk" "lcp c k = length p"
  shows "upd (TExt c t) k v =
    (if rc = [] then TExt c (upd t rk v)
     else wrap p (split_branch (blanks[hd rc := wrap (tl rc) t]) [] rk v))"
  using assms by (simp add: upd.simps Let_def)

lemma prefix_append_drop: "prefix p k \<Longrightarrow> \<exists>r. k = p @ r \<and> drop (length p) k = r"
  by (auto simp: prefix_def)

lemma lookup_split_branch:
  assumes "length ts = 16" "nibs rk" "rk \<noteq> [] \<Longrightarrow> ts ! hd rk = TBlank" "rk = [] \<Longrightarrow> u = []"
  shows "lookup (split_branch ts u rk v) k = (if k = rk then v else lookup (TBranch ts u) k)"
  using assms by (cases k; cases rk) (auto simp: split_branch_def nth_list_update)

lemma lookup_split_at:
  assumes "nibs rc" "nibs rk" "rc = x # xs" "\<And>y ys. rk = y # ys \<Longrightarrow> x \<noteq> y"
  shows "lookup (wrap p (split_branch (blanks[x := t]) [] rk v)) k =
    (if k = p @ rk then v else if prefix (p @ [x]) k then lookup t (drop (Suc (length p)) k) else [])"
proof -
  have b: "lookup (split_branch (blanks[x := t]) [] rk v) r =
      (if r = rk then v else lookup (TBranch (blanks[x := t]) []) r)" for r
    using assms by (intro lookup_split_branch) (cases rk; force)+
  show ?thesis
  proof (cases "prefix p k")
    case True
    then obtain r where r: "k = p @ r" by (auto simp: prefix_def)
    show ?thesis using assms(1,3) by (cases r) (simp_all add: r b nth_list_update)
  next
    case False
    then show ?thesis by (auto simp: prefix_def)
  qed
qed

lemma lookup_upd: "wf_trie t \<Longrightarrow> nibs k \<Longrightarrow> lookup (upd t k v) k' = (if k' = k then v else lookup t k')"
proof (induction t k v arbitrary: k' rule: upd.induct)
  case (2 ts u v)
  then show ?case by (cases k') auto
next
  case (3 ts u i k v)
  then show ?case by (cases k') (auto simp: nth_list_update)
next
  case (4 c u k v)
  obtain p rc rk where s: "c = p @ rc" "k = p @ rk" "lcp c k = length p"
    "\<And>x xs y ys. rc = x # xs \<Longrightarrow> rk = y # ys \<Longrightarrow> x \<noteq> y" by (rule lcp_split [of c k]) blast
  have n: "nibs rc" "nibs rk" using 4(1,2) s(1,2) by simp_all
  show ?case unfolding upd_TLeaf [OF s(1-3)] unfolding s(1,2)
  proof (cases rc)
    case Nil
    then show "lookup (if rc = [] \<and> rk = [] then TLeaf (p @ rc) v
        else wrap p (if rc = [] then split_branch blanks u rk v
                     else split_branch (blanks[hd rc := TLeaf (tl rc) u]) [] rk v)) k' =
      (if k' = p @ rk then v else lookup (TLeaf (p @ rc) u) k')"
      using n lookup_split_branch [of blanks rk u v] by (cases rk; cases "drop (length p) k'") (auto simp: prefix_def)
  next
    case (Cons x xs)
    then show "lookup (if rc = [] \<and> rk = [] then TLeaf (p @ rc) v
        else wrap p (if rc = [] then split_branch blanks u rk v
                     else split_branch (blanks[hd rc := TLeaf (tl rc) u]) [] rk v)) k' =
      (if k' = p @ rk then v else lookup (TLeaf (p @ rc) u) k')"
      using lookup_split_at [OF n Cons, where p = p and t = "TLeaf xs u" and v = v and k = k'] s(4) [OF Cons]
      by (auto simp: prefix_def)
  qed
next
  case (5 c t k v)
  obtain p rc rk where s: "c = p @ rc" "k = p @ rk" "lcp c k = length p"
    "\<And>x xs y ys. rc = x # xs \<Longrightarrow> rk = y # ys \<Longrightarrow> x \<noteq> y" by (rule lcp_split [of c k]) blast
  have n: "nibs rc" "nibs rk" "wf_trie t" using 5(2,3) s(1,2) by simp_all
  have d: "drop (lcp c k) c = rc" "drop (lcp c k) k = rk" unfolding s(3) by (simp_all add: s(1,2))
  have IH: "rc = [] \<Longrightarrow> lookup (upd t rk v) r = (if r = rk then v else lookup t r)" for r
    using 5(1) [OF refl refl refl] d n(2,3) by simp
  show ?case unfolding upd_TExt [OF s(1-3)] unfolding s(1,2)
  proof (cases rc)
    case Nil
    then show "lookup (if rc = [] then TExt (p @ rc) (upd t rk v)
        else wrap p (split_branch (blanks[hd rc := wrap (tl rc) t]) [] rk v)) k' =
      (if k' = p @ rk then v else lookup (TExt (p @ rc) t) k')" by (auto simp: IH prefix_def)
  next
    case (Cons x xs)
    then show "lookup (if rc = [] then TExt (p @ rc) (upd t rk v)
        else wrap p (split_branch (blanks[hd rc := wrap (tl rc) t]) [] rk v)) k' =
      (if k' = p @ rk then v else lookup (TExt (p @ rc) t) k')"
      using lookup_split_at [OF n(1,2) Cons, where p = p and t = "wrap xs t" and v = v and k = k'] s(4) [OF Cons]
      by (auto simp: prefix_def)
  qed
qed auto


lemma fill_update:
  "i < length ts \<Longrightarrow> fill (ts[i := t]) v + (if ts ! i = TBlank then 0 else 1) = fill ts v + (if t = TBlank then 0 else 1)"
proof -
  have "i < length ts \<Longrightarrow> length (filter (\<lambda>t. t \<noteq> TBlank) (ts[i := t])) + (if ts ! i = TBlank then 0 else 1) =
      length (filter (\<lambda>t. t \<noteq> TBlank) ts) + (if t = TBlank then 0 else 1)"
  proof (induction ts arbitrary: i)
    case (Cons a ts)
    show ?case using Cons.prems Cons.IH [of "i - 1"] by (cases i) (auto split: if_splits)
  qed simp
  then show "i < length ts \<Longrightarrow> ?thesis" by (auto simp: fill_def)
qed

lemma fill_blanks [simp]: "fill blanks v = (if v = [] then 0 else 1)"
  by (simp add: fill_def blanks_def)

lemma fill_value: "fill ts v = fill ts [] + (if v = [] then 0 else 1)"
  by (simp add: fill_def)

lemma upd_nonblank [simp]: "upd t k v \<noteq> TBlank"
  by (cases "(t, k, v)" rule: upd.cases) (auto simp: upd.simps Let_def wrap_def split_branch_def)

lemma is_branch_upd [simp]: "is_branch t \<Longrightarrow> is_branch (upd t k v)"
  by (cases t; cases k) auto

lemma wf_wrap: "is_branch t \<Longrightarrow> wf_trie t \<Longrightarrow> nibs p \<Longrightarrow> wf_trie (wrap p t)"
  by (simp add: wrap_def)

lemma wf_split_branch:
  assumes "nibs rk" "v \<noteq> []" "length ts = 16" "\<forall>t \<in> set ts. wf_trie t" "rk \<noteq> [] \<Longrightarrow> ts ! hd rk = TBlank"
    "rk = [] \<Longrightarrow> u = []" "fill ts u > 0"
  shows "wf_trie (split_branch ts u rk v) \<and> is_branch (split_branch ts u rk v)"
  using assms fill_update [of "hd rk" ts "TLeaf (tl rk) v" u] fill_value [of ts v]
  by (cases rk) (auto simp: split_branch_def dest!: subsetD [OF set_update_subset_insert])

lemma wf_blanks_update: "wf_trie t \<Longrightarrow> \<forall>s \<in> set (blanks[x := t]). wf_trie s"
  by (auto simp: blanks_def dest!: subsetD [OF set_update_subset_insert])

lemma wf_blanks: "\<forall>s \<in> set blanks. wf_trie s"
  by (simp add: blanks_def)

lemma hd_nibs: "nibs k \<Longrightarrow> k \<noteq> [] \<Longrightarrow> hd k < 16"
  by (cases k) simp_all

lemma wf_split_at:
  assumes "nibs rk" "v \<noteq> []" "x < 16" "wf_trie t" "t \<noteq> TBlank" "\<And>y ys. rk = y # ys \<Longrightarrow> x \<noteq> y"
  shows "wf_trie (split_branch (blanks[x := t]) [] rk v) \<and> is_branch (split_branch (blanks[x := t]) [] rk v)"
proof (rule wf_split_branch [OF assms(1,2)])
  show "rk \<noteq> [] \<Longrightarrow> blanks[x := t] ! hd rk = TBlank" using assms(1,6) by (cases rk) auto
  show "fill (blanks[x := t]) [] > 0" using fill_update [of x blanks t "[]"] assms(3,5) by simp
qed (use wf_blanks_update [OF assms(4)] in auto)

lemma wf_upd: "wf_trie t \<Longrightarrow> nibs k \<Longrightarrow> v \<noteq> [] \<Longrightarrow> wf_trie (upd t k v)"
proof (induction t k v rule: upd.induct)
  case (2 ts u v)
  then show ?case using fill_value [of ts u] fill_value [of ts v] by (auto split: if_splits)
next
  case (3 ts u i k v)
  then show ?case using fill_update [of i ts "upd (ts ! i) k v" u]
    by (auto dest!: subsetD [OF set_update_subset_insert] split: if_splits)
next
  case (4 c u k v)
  obtain p rc rk where s: "c = p @ rc" "k = p @ rk" "lcp c k = length p"
    "\<And>x xs y ys. rc = x # xs \<Longrightarrow> rk = y # ys \<Longrightarrow> x \<noteq> y" by (rule lcp_split [of c k]) blast
  have n: "nibs p" "nibs rc" "nibs rk" "u \<noteq> []" using 4(1,2) s(1,2) by simp_all
  have B: "wf_trie (wrap p (split_branch blanks u rk v))" if "rk \<noteq> []"
    using that wf_split_branch [OF n(3) 4(3), of blanks u] n hd_nibs [OF n(3)]
    by (auto simp: wf_wrap wf_blanks)
  have C: "wf_trie (wrap p (split_branch (blanks[x := TLeaf xs u]) [] rk v))" if "rc = x # xs" for x xs
    using n(1,2,4) that wf_split_at [OF n(3) 4(3) _ _ _ s(4) [OF that]] by (simp add: wf_wrap)
  show ?case unfolding upd_TLeaf [OF s(1-3)] using B C n 4(1,3) by (cases rc) auto
next
  case (5 c t k v)
  obtain p rc rk where s: "c = p @ rc" "k = p @ rk" "lcp c k = length p"
    "\<And>x xs y ys. rc = x # xs \<Longrightarrow> rk = y # ys \<Longrightarrow> x \<noteq> y" by (rule lcp_split [of c k]) blast
  have n: "nibs p" "nibs rc" "nibs rk" "wf_trie t" "is_branch t" using 5(2,3) s(1,2) by simp_all
  have d: "drop (lcp c k) c = rc" "drop (lcp c k) k = rk" unfolding s(3) by (simp_all add: s(1,2))
  have IH: "rc = [] \<Longrightarrow> wf_trie (upd t rk v)" using 5(1) [OF refl refl refl] d n 5(4) by simp
  have C: "wf_trie (wrap p (split_branch (blanks[x := wrap xs t]) [] rk v))" if "rc = x # xs" for x xs
  proof -
    have "wf_trie (wrap xs t)" "wrap xs t \<noteq> TBlank" using n that by (auto intro: wf_wrap simp: wrap_def)
    then show ?thesis
      using n(1,2) that wf_split_at [OF n(3) 5(4) _ _ _ s(4) [OF that]] by (simp add: wf_wrap)
  qed
  show ?case unfolding upd_TExt [OF s(1-3)] using C IH n 5(2) by (cases rc) auto
qed auto


section \<open>Deletion\<close>

lemma lookup_join: "t = TBlank \<or> c \<noteq> [] \<Longrightarrow> lookup (join c t) k = (if prefix c k then lookup t (drop (length c) k) else [])"
  by (cases t) (auto simp: prefix_def)

lemma wf_join: "wf_trie t \<Longrightarrow> nibs c \<Longrightarrow> c \<noteq> [] \<Longrightarrow> wf_trie (join c t)"
  by (cases t) auto

lemma join_blank: "join c t = TBlank \<longleftrightarrow> t = TBlank"
  by (cases t) auto

lemma fill_two:
  "i < length ts \<Longrightarrow> j < length ts \<Longrightarrow> i \<noteq> j \<Longrightarrow> ts ! i \<noteq> TBlank \<Longrightarrow> ts ! j \<noteq> TBlank \<Longrightarrow> fill ts v > 1"
  using fill_update [of i ts TBlank v] fill_update [of j "ts[i := TBlank]" TBlank v] by simp

lemma find_nonblank:
  "find (\<lambda>i. ts ! i \<noteq> TBlank) [0..<length ts] = Some i \<Longrightarrow> i < length ts \<and> ts ! i \<noteq> TBlank"
  "find (\<lambda>i. ts ! i \<noteq> TBlank) [0..<length ts] = None \<Longrightarrow> i < length ts \<Longrightarrow> ts ! i = TBlank"
  by (auto simp: find_Some_iff find_None_iff)

lemma normal_cases:
  assumes "fill ts v > 0"
  obtains (full) "normal ts v = TBranch ts v" "fill ts v > 1"
    | (val) "normal ts v = TLeaf [] v" "v \<noteq> []" "\<And>i. i < length ts \<Longrightarrow> ts ! i = TBlank"
    | (child) i where "normal ts v = join [i] (ts ! i)" "i < length ts" "ts ! i \<noteq> TBlank" "v = []"
        "\<And>j. j < length ts \<Longrightarrow> j \<noteq> i \<Longrightarrow> ts ! j = TBlank"
proof (cases "fill ts v > 1")
  case True
  then show ?thesis using full by (simp add: normal_def)
next
  case False
  show ?thesis
  proof (cases "find (\<lambda>i. ts ! i \<noteq> TBlank) [0..<length ts]")
    case None
    then have "\<forall>t \<in> set ts. t = TBlank" using find_nonblank(2) by (metis in_set_conv_nth)
    then have "fill ts v = (if v = [] then 0 else 1)" by (simp add: fill_def)
    then show ?thesis using None False assms val find_nonblank(2) [OF None]
      by (auto simp: normal_def split: if_splits)
  next
    case (Some i)
    then have i: "i < length ts" "ts ! i \<noteq> TBlank" using find_nonblank(1) by blast+
    have "v = []" using fill_update [of i ts TBlank v] fill_value [of "ts[i := TBlank]" v] i False by (auto split: if_splits)
    moreover have "ts ! j = TBlank" if "j < length ts" "j \<noteq> i" for j using fill_two [OF i(1) that(1)] that i(2) False by blast
    ultimately show ?thesis using Some False i child by (simp add: normal_def)
  qed
qed

lemma lookup_normal: "fill ts v > 0 \<Longrightarrow> lookup (normal ts v) k = lookup (TBranch ts v) k"
proof (erule normal_cases)
  fix i
  assume *: "normal ts v = join [i] (ts ! i)" "i < length ts" "ts ! i \<noteq> TBlank" "v = []"
    "\<And>j. j < length ts \<Longrightarrow> j \<noteq> i \<Longrightarrow> ts ! j = TBlank"
  then show "lookup (normal ts v) k = lookup (TBranch ts v) k"
    by (cases k) (auto simp: lookup_join)
qed (cases k; auto)+

lemma wf_normal:
  assumes "fill ts v > 0" "length ts = 16" "\<forall>t \<in> set ts. wf_trie t"
  shows "wf_trie (normal ts v) \<and> normal ts v \<noteq> TBlank"
  using assms(1)
proof (cases rule: normal_cases)
  case (child i)
  then have "wf_trie (ts ! i)" "join [i] (ts ! i) \<noteq> TBlank" using assms(3) by (auto simp: join_blank)
  then show ?thesis using child assms(2) by (simp add: wf_join)
qed (use assms in auto)

lemma lookup_wf_del:
  "wf_trie t \<Longrightarrow> nibs k \<Longrightarrow>
     (\<forall>k'. lookup (del t k) k' = (if k' = k then [] else lookup t k')) \<and> wf_trie (del t k) \<and> (is_branch t \<longrightarrow> del t k \<noteq> TBlank)"
proof (induction t k rule: del.induct)
  case (3 c t k)
  show ?case
  proof (cases "prefix c k")
    case True
    then obtain r where r: "k = c @ r" by (auto simp: prefix_def)
    then have IH: "\<And>k'. lookup (del t r) k' = (if k' = r then [] else lookup t k')" "wf_trie (del t r)" "del t r \<noteq> TBlank"
      using 3 by auto
    have "lookup (join c (del t r)) k' = (if k' = c @ r then [] else lookup (TExt c t) k')" for k'
      using 3(2) by (auto simp: lookup_join IH(1) prefix_def)
    then show ?thesis using IH 3(2) by (simp add: r wf_join)
  qed (use 3 in auto)
next
  case (4 ts v)
  then have f: "fill ts [] > 0" using fill_value [of ts v] by (auto split: if_splits)
  have "lookup (TBranch ts []) k' = (if k' = [] then [] else lookup (TBranch ts v) k')" for k' by (cases k') auto
  then show ?case using 4 wf_normal [OF f] lookup_normal [OF f] by simp
next
  case (5 ts v i k)
  let ?s = "del (ts ! i) k"
  have i: "i < length ts" "wf_trie (ts ! i)" "nibs k" using 5(2,3) by auto
  then have IH: "\<And>k'. lookup ?s k' = (if k' = k then [] else lookup (ts ! i) k')" "wf_trie ?s" using 5(1) by auto
  have f: "fill (ts[i := ?s]) v > 0" "?s \<noteq> TBlank \<Longrightarrow> fill (ts[i := ?s]) v > 1"
    using fill_update [OF i(1), of ?s v] 5(2) by (auto split: if_splits)
  have w: "\<forall>t \<in> set (ts[i := ?s]). wf_trie t" using 5(2) IH(2) by (auto dest!: subsetD [OF set_update_subset_insert])
  have "lookup (TBranch (ts[i := ?s]) v) k' = (if k' = i # k then [] else lookup (TBranch ts v) k')" for k'
    using i(1) by (cases k') (auto simp: nth_list_update IH(1))
  moreover have "del (TBranch ts v) (i # k) = (if ?s = TBlank then normal (ts[i := ?s]) v else TBranch (ts[i := ?s]) v)"
    using i(1) by (simp only: del.simps Let_def if_True)
  ultimately show ?case using 5(2) f w wf_normal [OF f(1)] lookup_normal [OF f(1)]
    by (cases "?s = TBlank") (simp_all only: if_True if_False wf_trie.simps length_list_update trie.distinct, auto)
qed auto

lemmas lookup_del = lookup_wf_del [THEN conjunct1, rule_format]
lemmas wf_del = lookup_wf_del [THEN conjunct2, THEN conjunct1]

section \<open>The contents determine the tree\<close>

lemma one_nonblank:
  assumes "\<And>i. i < length ts \<Longrightarrow> i \<noteq> x \<Longrightarrow> ts ! i = TBlank"
  shows "length (filter (\<lambda>t. t \<noteq> TBlank) ts) \<le> 1"
proof -
  have "ts[x := TBlank] ! i = TBlank" if "i < length ts" for i using assms [OF that] that by (cases "i = x") simp_all
  then have "filter (\<lambda>t. t \<noteq> TBlank) (ts[x := TBlank]) = []" by (auto simp: filter_empty_conv in_set_conv_nth)
  then show ?thesis using fill_update [of x ts TBlank "[]"]
    by (cases "x < length ts") (auto simp: fill_def list_update_beyond split: if_splits)
qed

lemma branch_diverges:
  assumes "wf_trie (TBranch ts v)" "\<And>t. t \<in> set ts \<Longrightarrow> t \<noteq> TBlank \<Longrightarrow> \<exists>k. lookup t k \<noteq> []"
  obtains k where "lookup (TBranch ts v) k \<noteq> []" "k = [] \<or> hd k \<noteq> x"
proof (cases "v = []")
  case True
  then have "length (filter (\<lambda>t. t \<noteq> TBlank) ts) > 1" using assms(1) by (simp add: fill_def)
  then have "\<exists>i. i < length ts \<and> i \<noteq> x \<and> ts ! i \<noteq> TBlank" using one_nonblank [of ts x] by force
  then obtain i where i: "i < length ts" "i \<noteq> x" "ts ! i \<noteq> TBlank" by blast
  obtain k where "lookup (ts ! i) k \<noteq> []" using assms(2) [OF nth_mem [OF i(1)] i(3)] by blast
  then show ?thesis using that [of "i # k"] i by simp
next
  case False
  then show ?thesis using that [of "[]"] by simp
qed

lemma nonblank_key: "wf_trie t \<Longrightarrow> t \<noteq> TBlank \<Longrightarrow> \<exists>k. lookup t k \<noteq> []"
proof (induction t)
  case (TExt c t)
  then obtain k where "lookup t k \<noteq> []" by (cases t) auto
  then show ?case by (intro exI [of _ "c @ k"]) simp
next
  case (TBranch ts v)
  then have "\<And>t. t \<in> set ts \<Longrightarrow> t \<noteq> TBlank \<Longrightarrow> \<exists>k. lookup t k \<noteq> []" by simp
  then show ?case using branch_diverges [OF TBranch.prems(1)] by blast
qed auto

lemma branch_keys:
  assumes "wf_trie (TBranch ts v)"
  obtains k where "lookup (TBranch ts v) k \<noteq> []" "k = [] \<or> hd k \<noteq> x"
proof -
  have "\<And>t. t \<in> set ts \<Longrightarrow> t \<noteq> TBlank \<Longrightarrow> \<exists>k. lookup t k \<noteq> []" using assms nonblank_key by simp
  then show ?thesis using branch_diverges [OF assms] that by blast
qed

lemma branch_two_keys:
  assumes "wf_trie (TBranch ts v)"
  obtains i k l where "lookup (TBranch ts v) (i # k) \<noteq> []" "lookup (TBranch ts v) l \<noteq> []" "l = [] \<or> hd l \<noteq> i"
proof -
  have "length (filter (\<lambda>t. t \<noteq> TBlank) ts) > 0" using assms by (auto simp: fill_def split: if_splits)
  then obtain t where "t \<in> set ts" "t \<noteq> TBlank" by (auto simp: filter_empty_conv)
  then obtain i where i: "i < length ts" "ts ! i \<noteq> TBlank" by (auto simp: in_set_conv_nth)
  then obtain k where k: "lookup (ts ! i) k \<noteq> []" using nonblank_key assms by (meson nth_mem wf_trie.simps(4))
  obtain l where "lookup (TBranch ts v) l \<noteq> []" "l = [] \<or> hd l \<noteq> i" by (rule branch_keys [OF assms])
  then show ?thesis using that [of i k l] i k by simp
qed

text \<open>The keys of a tree in normal form tell the kind of its root.\<close>

lemma ext_two_keys:
  assumes "wf_trie t" "is_branch t"
  obtains k l where "lookup t k \<noteq> []" "lookup t l \<noteq> []" "k \<noteq> l"
proof -
  obtain ts v where t: "t = TBranch ts v" using assms(2) by (cases t) auto
  obtain i k l where "lookup t (i # k) \<noteq> []" "lookup t l \<noteq> []" "l = [] \<or> hd l \<noteq> i"
    using branch_two_keys assms(1) unfolding t by blast
  then show ?thesis using that [of "i # k" l] by (cases l) auto
qed

lemma leaf_keys:
  assumes "wf_trie t" "wf_trie (TLeaf c v)" "lookup t = lookup (TLeaf c v)"
  shows "t = TLeaf c v"
proof (cases t)
  case TBlank
  then show ?thesis using fun_cong [OF assms(3), of c] assms(2) by simp
next
  case (TLeaf c' v')
  then show ?thesis using assms(1,2) fun_cong [OF assms(3), of c] by (auto split: if_splits)
next
  case (TExt c' s)
  then have s: "wf_trie s" "is_branch s" using assms(1) by simp_all
  obtain k l where k: "lookup s k \<noteq> []" "lookup s l \<noteq> []" "k \<noteq> l" by (rule ext_two_keys [OF s])
  then have "c' @ k = c' @ l"
    using fun_cong [OF assms(3), of "c' @ k"] fun_cong [OF assms(3), of "c' @ l"] TExt by (auto split: if_splits)
  then show ?thesis using k(3) by simp
next
  case (TBranch ts v')
  then have "is_branch t" by simp
  then obtain k l where k: "lookup t k \<noteq> []" "lookup t l \<noteq> []" "k \<noteq> l" by (rule ext_two_keys [OF assms(1)])
  then have "k = c" "l = c" unfolding assms(3) by (auto split: if_splits)
  then show ?thesis using k(3) by simp
qed

lemma ext_keys_head: "lookup (TExt (x # c) t) k \<noteq> [] \<Longrightarrow> k \<noteq> [] \<and> hd k = x"
  by (auto simp: prefix_def split: if_splits)

lemma ext_not_branch:
  assumes "wf_trie (TExt c t)" "wf_trie (TBranch ts v)"
  shows "lookup (TExt c t) \<noteq> lookup (TBranch ts v)"
proof
  assume e: "lookup (TExt c t) = lookup (TBranch ts v)"
  obtain x xs where c: "c = x # xs" using assms(1) by (cases c) auto
  obtain k where k: "lookup (TBranch ts v) k \<noteq> []" "k = [] \<or> hd k \<noteq> x" by (rule branch_keys [OF assms(2)])
  have "lookup (TExt (x # xs) t) k \<noteq> []" using k(1) unfolding e [symmetric] c .
  then show False using ext_keys_head k(2) by blast
qed

lemma ext_prefix_unique:
  assumes "wf_trie (TExt c t)" "wf_trie (TExt c' t')" "lookup (TExt c t) = lookup (TExt c' t')"
  shows "prefix c' c"
proof -
  have b: "wf_trie t" "is_branch t" using assms(1) by simp_all
  obtain ts v where t: "t = TBranch ts v" using b(2) by (cases t) auto
  have key: "prefix c' (c @ k)" if "lookup t k \<noteq> []" for k
    using that fun_cong [OF assms(3), of "c @ k"] by (auto split: if_splits)
  show ?thesis
  proof (rule ccontr)
    assume n: "\<not> prefix c' c"
    obtain k where "lookup t k \<noteq> []" using nonblank_key [OF b(1)] t by auto
    then obtain us where us: "c' = c @ us" using key [of k] n by (auto simp: prefix_append)
    then have "us \<noteq> []" using n by auto
    then obtain x xs where c': "c' = c @ x # xs" using us by (cases us) auto
    obtain l where "lookup t l \<noteq> []" "l = [] \<or> hd l \<noteq> x" using branch_keys b(1) unfolding t by blast
    then show False using key [of l] unfolding c' by (cases l) auto
  qed
qed

lemma contents_determine_trie: "wf_trie t \<Longrightarrow> wf_trie t' \<Longrightarrow> lookup t = lookup t' \<Longrightarrow> t = t'"
proof (induction t arbitrary: t')
  case TBlank
  have "lookup t' k = []" for k using fun_cong [OF TBlank.prems(3), of k] by simp
  then show ?case using nonblank_key [OF TBlank.prems(2)] by blast
next
  case (TLeaf c v)
  show ?case by (rule sym, rule leaf_keys [OF TLeaf.prems(2,1) TLeaf.prems(3) [symmetric]])
next
  case (TExt c t)
  have "t' \<noteq> TBlank" using nonblank_key [OF TExt.prems(1)] unfolding TExt.prems(3) by auto
  moreover have "\<And>c v. t' \<noteq> TLeaf c v" using leaf_keys [OF TExt.prems(1)] TExt.prems(2,3) by (metis trie.distinct)
  moreover have "\<And>ts v. t' \<noteq> TBranch ts v" using ext_not_branch [OF TExt.prems(1)] TExt.prems(2,3) by metis
  ultimately obtain c' s where t': "t' = TExt c' s" by (cases t') auto
  have "prefix c' c" "prefix c c'"
    using ext_prefix_unique [OF TExt.prems [unfolded t']] 
      ext_prefix_unique [OF TExt.prems(2) [unfolded t'] TExt.prems(1) TExt.prems(3) [unfolded t', symmetric]]
    by simp_all
  then have c: "c' = c" by (rule prefix_order.antisym)
  have "lookup t k = lookup s k" for k using fun_cong [OF TExt.prems(3), of "c @ k"] unfolding t' c by simp
  then show ?case using TExt.IH [of s] TExt.prems(1,2) unfolding t' c by auto
next
  case (TBranch ts v)
  have "t' \<noteq> TBlank" using nonblank_key [OF TBranch.prems(1)] unfolding TBranch.prems(3) by auto
  moreover have "\<And>c v. t' \<noteq> TLeaf c v" using leaf_keys [OF TBranch.prems(1)] TBranch.prems(2,3) by (metis trie.distinct)
  moreover have "\<And>c s. t' \<noteq> TExt c s" using ext_not_branch [OF _ TBranch.prems(1)] TBranch.prems(2,3) by metis
  ultimately obtain us w where t': "t' = TBranch us w" by (cases t') auto
  have len: "length ts = 16" "length us = 16" using TBranch.prems(1,2) t' by simp_all
  have "v = w" using fun_cong [OF TBranch.prems(3), of "[]"] t' by simp
  moreover have "ts ! i = us ! i" if i: "i < 16" for i
  proof (rule TBranch.IH)
    show "ts ! i \<in> set ts" "wf_trie (ts ! i)" "wf_trie (us ! i)" using i len TBranch.prems(1,2) t' by simp_all
    show "lookup (ts ! i) = lookup (us ! i)"
      using fun_cong [OF TBranch.prems(3), of "i # k" for k] i len unfolding t' by (auto simp: fun_eq_iff)
  qed
  ultimately show ?case unfolding t' using len by (auto intro: nth_equalityI)
qed

end
