(* ===== verification/Trie_Refinement.thy ===== *)
theory Trie_Refinement
  imports Pruning_Trie Trie_Spec
begin

text \<open>
  The state trie implements the radix trees of \<^verbatim>\<open>Trie_Spec\<close>. A tree has one encoding as a node:
  a child is held by hash exactly when its encoding has 32 bytes or more. A database stores a tree
  when it maps the hash of every such child to its encoding. Look-up, update and deletion on the
  node of a stored tree succeed and give the node of the tree that the operation on trees gives,
  which is stored then.

  The hash function is only assumed to be free of collisions on the nodes in a set \<open>U\<close> of trees
  that contains the trees at hand, and so on finitely many strings.
\<close>

section \<open>Nodes of trees\<close>

definition ref_of :: "'kv trie_env \<Rightarrow> item \<Rightarrow> item" where
  "ref_of env n = (if n = BLANK_NODE \<or> length (rlp_encode env n) < 32 then n else RB (sha3 env (rlp_encode env n)))"

fun node_of :: "'kv trie_env \<Rightarrow> trie \<Rightarrow> item" where
  "node_of env TBlank = BLANK_NODE"
| "node_of env (TLeaf k v) = RL [RB (packed True k), RB v]"
| "node_of env (TExt k t) = RL [RB (packed False k), ref_of env (node_of env t)]"
| "node_of env (TBranch ts v) = RL (map (\<lambda>t. ref_of env (node_of env t)) ts @ [RB v])"

definition hash_key :: "'kv trie_env \<Rightarrow> trie \<Rightarrow> bytes" where
  "hash_key env t = sha3 env (rlp_encode env (node_of env t))"

definition in_db :: "'kv trie_env \<Rightarrow> (bytes \<rightharpoonup> bytes) \<Rightarrow> trie \<Rightarrow> bool" where
  "in_db env m t = (t = TBlank \<or> length (rlp_encode env (node_of env t)) < 32 \<or>
     m (hash_key env t) = Some (rlp_encode env (node_of env t)))"

fun stored :: "'kv trie_env \<Rightarrow> (bytes \<rightharpoonup> bytes) \<Rightarrow> trie \<Rightarrow> bool" where
  "stored env m TBlank = True"
| "stored env m (TLeaf k v) = True"
| "stored env m (TExt k t) = (in_db env m t \<and> stored env m t)"
| "stored env m (TBranch ts v) = (\<forall>t \<in> set ts. in_db env m t \<and> stored env m t)"

fun subs :: "trie \<Rightarrow> trie set" where
  "subs TBlank = {TBlank}"
| "subs (TLeaf k v) = {TLeaf k v}"
| "subs (TExt k t) = insert (TExt k t) (subs t)"
| "subs (TBranch ts v) = insert (TBranch ts v) (\<Union>t \<in> set ts. subs t)"

lemma subs_self [simp]: "t \<in> subs t"
  by (cases t) auto

lemma node_of_blank [simp]: "node_of env t = BLANK_NODE \<longleftrightarrow> t = TBlank"
  by (cases t) auto

lemma in_db_mono: "in_db env m t \<Longrightarrow> m \<subseteq>\<^sub>m m' \<Longrightarrow> in_db env m' t"
  by (auto simp: in_db_def map_le_def dom_def)

lemma stored_mono: "stored env m t \<Longrightarrow> m \<subseteq>\<^sub>m m' \<Longrightarrow> stored env m' t"
  by (induction t) (auto intro: in_db_mono)

section \<open>Shapes of nodes\<close>

lemma nibs_last: "nibs k \<Longrightarrow> k \<noteq> [] \<Longrightarrow> last k \<noteq> NIBBLE_TERMINATOR"
  using last_in_set [of k] by (metis NIBBLE_TERMINATOR_def less_irrefl nibs_def)

lemma key_packed:
  assumes "nibs k" "term \<or> k \<noteq> []"
  shows "unpack_to_nibbles (packed term k) = Inr (if term then k @ [NIBBLE_TERMINATOR] else k)"
    "key_nibbles_from_key_value_node (RL [RB (packed term k), v]) = Inr k"
proof -
  show "unpack_to_nibbles (packed term k) = Inr (if term then k @ [NIBBLE_TERMINATOR] else k)"
    "key_nibbles_from_key_value_node (RL [RB (packed term k), v]) = Inr k"
    using pack_unpack(2) [OF assms] nibs_last [OF assms(1)] by (auto simp: key_nibbles_from_key_value_node_def without_terminator_def)
qed

lemma node_type_kv:
  assumes "nibs k" "term \<or> k \<noteq> []"
  shows "get_node_type (RL [RB (packed term k), v]) = Inr (Some (if term then NODE_TYPE_LEAF else NODE_TYPE_EXTENSION))"
proof -
  show ?thesis using key_packed(1) [OF assms] nibs_last [OF assms(1)] by (auto simp: get_node_type_def)
qed

lemma node_type_branch: "length xs = 17 \<Longrightarrow> get_node_type (RL xs) = Inr (Some NODE_TYPE_BRANCH)"
  by (auto simp: get_node_type_def)

lemma node_type_blank: "get_node_type BLANK_NODE = Inr (Some NODE_TYPE_BLANK)"
  by (simp add: get_node_type_def)

lemma pack_leaf: "nibs k \<Longrightarrow> pack_nibbles (with_terminator k) = Inr (packed True k)"
  using pack_unpack(1) [of k True] nibs_last [of k] by (auto simp: with_terminator_def)

lemma pack_ext: "nibs k \<Longrightarrow> k \<noteq> [] \<Longrightarrow> pack_nibbles k = Inr (packed False k)"
  using pack_unpack(1) [of k False] by simp

lemma adapt_ext: "nibs k \<Longrightarrow> adapt_terminator k False = k"
  using nibs_last [of k] by (auto simp: adapt_terminator_def without_terminator_def)

lemma prefix_length_lcp: "prefix_length c k = lcp c k"
  by (induction c k rule: lcp.induct) auto

lemma starts_with_prefix: "starts_with k c \<longleftrightarrow> prefix c k"
  using take_is_prefix [of "length c" k] by (auto simp: starts_with_def prefix_def)

section \<open>Laws of the steps\<close>

lemma bindT_simps [simp]:
  "bindT (returnT x) f = f x"
  "bindT (liftT (Inr x)) f = f x"
  "bindT (raiseT e) f = raiseT e"
  by (auto simp: bindT_def returnT_def liftT_def raiseT_def)

lemma bindT_assoc: "bindT (bindT m f) g = bindT m (\<lambda>x. bindT (f x) g)"
  by (auto simp: bindT_def split: prod.splits sum.splits)

lemma bindT_app: "m st = (Inr x, st') \<Longrightarrow> bindT m f st = f x st'"
  by (simp add: bindT_def)

lemma bindT_cong_app: "m st = m' st \<Longrightarrow> bindT m f st = bindT m' f st"
  by (simp add: bindT_def)

section \<open>Steps that keep the database\<close>

locale trie_storage =
  fixes env :: "'kv trie_env" and kv_map :: "'kv \<Rightarrow> bytes \<rightharpoonup> bytes" and kv_inv :: "'kv \<Rightarrow> bool" and U :: "trie set"
  assumes get_spec: "kv_inv s \<Longrightarrow> db_get env s k = (case kv_map s k of None \<Rightarrow> Inl KeyError | Some v \<Rightarrow> Inr v)"
    and inc_inv: "kv_inv s \<Longrightarrow> kv_inv (inc_refcount env s k v)"
    and inc_map: "kv_inv s \<Longrightarrow> kv_map (inc_refcount env s k v) = (kv_map s)(k \<mapsto> v)"
    and dec_inv: "kv_inv s \<Longrightarrow> kv_inv (dec_refcount env s k)"
    and dec_map: "kv_inv s \<Longrightarrow> kv_map (dec_refcount env s k) = kv_map s"
    and codec: "t \<in> U \<Longrightarrow> rlp_lib_decode env (rlp_encode env (node_of env t)) = Inr (node_of env t)"
    and hash_nonempty: "t \<in> U \<Longrightarrow> hash_key env t \<noteq> []"
    and hash_inj: "t \<in> U \<Longrightarrow> t' \<in> U \<Longrightarrow> hash_key env t = hash_key env t' \<Longrightarrow>
          rlp_encode env (node_of env t) = rlp_encode env (node_of env t')"
begin

abbreviation dbm :: "'kv Trie \<Rightarrow> bytes \<rightharpoonup> bytes" where "dbm st \<equiv> kv_map (t_db st)"

definition addressed :: "(bytes \<rightharpoonup> bytes) \<Rightarrow> bool" where
  "addressed m = (\<forall>t \<in> U. \<forall>e. m (hash_key env t) = Some e \<longrightarrow> e = rlp_encode env (node_of env t))"

definition okT :: "'kv Trie \<Rightarrow> bool" where
  "okT st = (kv_inv (t_db st) \<and> \<not> pc_proving (t_proof st) \<and> addressed (dbm st))"

definition grows :: "'kv Trie \<Rightarrow> 'kv Trie \<Rightarrow> bool" where
  "grows st st' = (okT st' \<and> dbm st \<subseteq>\<^sub>m dbm st' \<and> st' = st\<lparr>t_db := t_db st'\<rparr>)"

text \<open>A step succeeds with a value, keeps what the database has and makes a condition on it true.\<close>

definition does :: "('kv, 'a) tm \<Rightarrow> 'kv Trie \<Rightarrow> 'a \<Rightarrow> ((bytes \<rightharpoonup> bytes) \<Rightarrow> bool) \<Rightarrow> bool" where
  "does m st x Q = (\<exists>st'. m st = (Inr x, st') \<and> grows st st' \<and> Q (dbm st'))"

lemma grows_refl: "okT st \<Longrightarrow> grows st st"
  by (simp add: grows_def)

lemma grows_ok: "grows st st' \<Longrightarrow> okT st'"
  by (simp add: grows_def)

lemma grows_map: "grows st st' \<Longrightarrow> dbm st \<subseteq>\<^sub>m dbm st'"
  by (simp add: grows_def)

lemma grows_trans: "grows st st' \<Longrightarrow> grows st' st'' \<Longrightarrow> grows st st''"
  unfolding grows_def by (cases st; cases st'; cases st'') (auto intro: map_le_trans)

lemma does_return: "okT st \<Longrightarrow> Q (dbm st) \<Longrightarrow> does (returnT x) st x Q"
  by (auto simp: does_def returnT_def intro: grows_refl)

lemma does_lift: "r = Inr x \<Longrightarrow> okT st \<Longrightarrow> Q (dbm st) \<Longrightarrow> does (liftT r) st x Q"
  by (auto simp: does_def liftT_def intro: grows_refl)

lemma does_bind:
  assumes "does m st x Q" "\<And>st'. grows st st' \<Longrightarrow> okT st' \<Longrightarrow> Q (dbm st') \<Longrightarrow> does (f x) st' y R"
  shows "does (bindT m f) st y R"
proof -
  obtain st' where 1: "m st = (Inr x, st')" "grows st st'" "Q (dbm st')" using assms(1) by (auto simp: does_def)
  obtain st'' where 2: "f x st' = (Inr y, st'')" "grows st' st''" "R (dbm st'')"
    using assms(2) [OF 1(2) grows_ok [OF 1(2)] 1(3)] by (auto simp: does_def)
  have "bindT m f st = (Inr y, st'')" using 1(1) 2(1) by (simp add: bindT_def)
  then show ?thesis using grows_trans [OF 1(2) 2(2)] 2(3) unfolding does_def by blast
qed

lemma does_lift_bind: "r = Inr x \<Longrightarrow> okT st \<Longrightarrow> does (f x) st y R \<Longrightarrow> does (bindT (liftT r) f) st y R"
  by (auto simp: does_def liftT_def bindT_def)

lemma does_put:
  assumes "t \<in> U" "okT st"
  shows "does (modifyT (\<lambda>st. st\<lparr>t_db := inc_refcount env (t_db st) (hash_key env t) (rlp_encode env (node_of env t))\<rparr>)) st ()
    (\<lambda>m. m (hash_key env t) = Some (rlp_encode env (node_of env t)))"
proof -
  let ?st = "st\<lparr>t_db := inc_refcount env (t_db st) (hash_key env t) (rlp_encode env (node_of env t))\<rparr>"
  have m: "dbm ?st = (dbm st)(hash_key env t \<mapsto> rlp_encode env (node_of env t))" using assms(2) by (simp add: okT_def inc_map)
  have a: "addressed (dbm st)" using assms(2) by (simp add: okT_def)
  have "e = rlp_encode env (node_of env s)" if s: "s \<in> U" and e: "dbm ?st (hash_key env s) = Some e" for s e
  proof (cases "hash_key env s = hash_key env t")
    case True
    then show ?thesis using e hash_inj [OF s assms(1) True] unfolding m by simp
  next
    case False
    then show ?thesis using e a s unfolding m addressed_def by simp
  qed
  then have "addressed (dbm ?st)" unfolding addressed_def by blast
  moreover have "dbm st \<subseteq>\<^sub>m dbm ?st" using a assms(1) unfolding m map_le_def addressed_def by force
  ultimately have "grows st ?st" using assms(2) by (simp add: grows_def okT_def inc_inv)
  then show ?thesis unfolding does_def modifyT_def using m by auto
qed

lemma does_encode:
  assumes "t \<in> U" "okT st" "n = node_of env t"
  shows "does (encode_node env n False) st (ref_of env n) (\<lambda>m. in_db env m t)"
  using does_put [OF assms(1,2)] assms(2,3)
  by (auto simp: encode_node_def ref_of_def Let_def hash_key_def in_db_def intro!: does_return does_bind)

lemma does_encode_root:
  assumes "t \<in> U" "okT st" "t \<noteq> TBlank"
  shows "does (encode_node env (node_of env t) True) st (RB (hash_key env t)) (\<lambda>m. m (hash_key env t) = Some (rlp_encode env (node_of env t)))"
  using does_put [OF assms(1,2)] assms(3)
  by (auto simp: encode_node_def Let_def hash_key_def intro!: does_return does_bind)

lemma does_delete_storage: "okT st \<Longrightarrow> does (delete_node_storage env n r) st () (\<lambda>_. True)"
  by (auto simp: delete_node_storage_def Let_def does_def returnT_def modifyT_def grows_def okT_def dec_inv dec_map)

lemma does_decode:
  assumes "t \<in> U" "okT st" "in_db env (dbm st) t"
  shows "does (decode_to_node env (ref_of env (node_of env t))) st (node_of env t) (\<lambda>_. True)"
proof (cases "t = TBlank \<or> length (rlp_encode env (node_of env t)) < 32")
  case True
  then have "decode_to_node env (ref_of env (node_of env t)) = returnT (node_of env t)"
    by (cases t) (auto simp: ref_of_def)
  then show ?thesis using assms(2) by (simp add: does_return)
next
  case False
  then have r: "ref_of env (node_of env t) = RB (hash_key env t)" by (simp add: ref_of_def hash_key_def)
  have "db_get env (t_db st) (hash_key env t) = Inr (rlp_encode env (node_of env t))"
    using assms(2,3) False get_spec by (simp add: in_db_def okT_def)
  moreover have "spv_grabbing env n st = (Inr (), st)" for n using assms(2) by (simp add: spv_grabbing_def okT_def)
  ultimately show ?thesis unfolding r using hash_nonempty [OF assms(1)] codec [OF assms(1)] grows_refl [OF assms(2)]
    by (simp add: does_def bindT_def liftT_def returnT_def)
qed

end

section \<open>Look-up\<close>

text \<open>The nodes that a look-up reads from the database, which the proof constructor sees.\<close>

definition hashed :: "'kv trie_env \<Rightarrow> trie \<Rightarrow> item list" where
  "hashed env t = (if t = TBlank \<or> length (rlp_encode env (node_of env t)) < 32 then [] else [node_of env t])"

fun path_nodes :: "'kv trie_env \<Rightarrow> trie \<Rightarrow> nibbles \<Rightarrow> item list" where
  "path_nodes env (TExt c t) k = (if prefix c k then hashed env t @ path_nodes env t (drop (length c) k) else [])"
| "path_nodes env (TBranch ts v) (i # k) = (if i < length ts then hashed env (ts ! i) @ path_nodes env (ts ! i) k else [])"
| "path_nodes env _ _ = []"

text \<open>The database has the nodes on the way to a key.\<close>

definition path_stored :: "'kv trie_env \<Rightarrow> (bytes \<rightharpoonup> bytes) \<Rightarrow> trie \<Rightarrow> nibbles \<Rightarrow> bool" where
  "path_stored env m t k = (\<forall>n \<in> set (path_nodes env t k). m (sha3 env (rlp_encode env n)) = Some (rlp_encode env n))"

lemma hashed_stored:
  "in_db env m t \<longleftrightarrow> (\<forall>n \<in> set (hashed env t). m (sha3 env (rlp_encode env n)) = Some (rlp_encode env n))"
  by (auto simp: in_db_def hashed_def hash_key_def)

lemma stored_path_stored: "stored env m t \<Longrightarrow> path_stored env m t k"
proof (induction t arbitrary: k)
  case (TExt c t)
  then show ?case by (auto simp: path_stored_def hashed_stored)
next
  case (TBranch ts v k)
  show ?case
  proof (cases k)
    case (Cons i r)
    then show ?thesis using TBranch.IH [of "ts ! i" r] TBranch.prems
      by (cases "i < length ts") (auto simp: path_stored_def hashed_stored)
  qed (simp add: path_stored_def)
qed (simp_all add: path_stored_def)

fun grab_all :: "'kv trie_env \<Rightarrow> item list \<Rightarrow> ('kv, unit) tm" where
  "grab_all env [] = returnT ()"
| "grab_all env (n # ns) = bindT (spv_grabbing env n) (\<lambda>_. grab_all env ns)"

lemma grab_all_append: "grab_all env (ns @ ms) = bindT (grab_all env ns) (\<lambda>_. grab_all env ms)"
  by (induction ns) (simp_all add: bindT_assoc)

lemma spv_grabbing_db: "t_db (snd (spv_grabbing env n st)) = t_db st"
  by (simp add: spv_grabbing_def Let_def split: list.split)

lemma grab_all_db: "t_db (snd (grab_all env ns st)) = t_db st"
proof (induction ns arbitrary: st)
  case (Cons n ns)
  then show ?case using spv_grabbing_db [of env n st] by (auto simp: bindT_def split: prod.splits sum.splits)
qed (simp add: returnT_def)

lemma grab_all_not_proving: "\<not> pc_proving (t_proof st) \<Longrightarrow> grab_all env ns st = (Inr (), st)"
  by (induction ns) (simp_all add: returnT_def bindT_def spv_grabbing_def)

lemma bindT_grab:
  assumes "\<And>st'. t_db st' = t_db st \<Longrightarrow> f () st' = g () st'"
  shows "bindT (grab_all env ns) f st = bindT (grab_all env ns) g st"
  using assms grab_all_db [of env ns st] by (auto simp: bindT_def split: prod.splits sum.splits)

text \<open>One level of a look-up on the node of a tree.\<close>

lemma get_node_steps:
  "trie_get_node env (Suc n) (node_of env TBlank) k = returnT (Some BLANK_NODE)"
  "nibs c \<Longrightarrow> trie_get_node env (Suc n) (node_of env (TLeaf c v)) k = returnT (Some (RB (lookup (TLeaf c v) k)))"
  "nibs c \<Longrightarrow> c \<noteq> [] \<Longrightarrow> trie_get_node env (Suc n) (node_of env (TExt c t)) k =
     (if prefix c k then bindT (decode_to_node env (ref_of env (node_of env t))) (\<lambda>s. trie_get_node env n s (drop (length c) k))
      else returnT (Some BLANK_NODE))"
  "length ts = 16 \<Longrightarrow> trie_get_node env (Suc n) (node_of env (TBranch ts v)) [] = returnT (Some (RB v))"
  "length ts = 16 \<Longrightarrow> i < 16 \<Longrightarrow> trie_get_node env (Suc n) (node_of env (TBranch ts v)) (i # r) =
     bindT (decode_to_node env (ref_of env (node_of env (ts ! i)))) (\<lambda>s. trie_get_node env n s r)"
  by (simp_all add: node_type_blank node_type_kv key_packed starts_with_prefix get_inner_node_from_extension_def node_type_branch nth_append)

context trie_storage
begin

lemma decode_ref:
  assumes "t \<in> U" "kv_inv (t_db st)" "in_db env (dbm st) t"
  shows "decode_to_node env (ref_of env (node_of env t)) st = bindT (grab_all env (hashed env t)) (\<lambda>_. returnT (node_of env t)) st"
proof (cases "t = TBlank \<or> length (rlp_encode env (node_of env t)) < 32")
  case True
  then have "decode_to_node env (ref_of env (node_of env t)) = returnT (node_of env t)"
    by (cases t) (auto simp: ref_of_def)
  then show ?thesis using True by (simp add: hashed_def)
next
  case False
  then have r: "ref_of env (node_of env t) = RB (hash_key env t)" by (simp add: ref_of_def hash_key_def)
  have "db_get env (t_db st) (hash_key env t) = Inr (rlp_encode env (node_of env t))"
    using assms(2,3) False get_spec by (simp add: in_db_def)
  then show ?thesis unfolding r using hash_nonempty [OF assms(1)] codec [OF assms(1)] False
    by (simp add: hashed_def bindT_assoc bindT_app liftT_def)
qed

lemma bind_decode_ref:
  assumes "t \<in> U" "kv_inv (t_db st)" "in_db env (dbm st) t"
  shows "bindT (decode_to_node env (ref_of env (node_of env t))) f st = bindT (grab_all env (hashed env t)) (\<lambda>_. f (node_of env t)) st"
proof -
  have "bindT (decode_to_node env (ref_of env (node_of env t))) f st =
      bindT (bindT (grab_all env (hashed env t)) (\<lambda>_. returnT (node_of env t))) f st"
    by (rule bindT_cong_app, rule decode_ref [OF assms])
  then show ?thesis by (simp add: bindT_assoc)
qed

lemma get_node_correct:
  "wf_trie t \<Longrightarrow> nibs k \<Longrightarrow> subs t \<subseteq> U \<Longrightarrow> length k < n \<Longrightarrow> kv_inv (t_db st) \<Longrightarrow> path_stored env (dbm st) t k \<Longrightarrow>
   trie_get_node env n (node_of env t) k st =
     bindT (grab_all env (path_nodes env t k)) (\<lambda>_. returnT (Some (RB (lookup t k)))) st"
proof (induction t arbitrary: k n st)
  case TBlank
  then show ?case by (cases n) (simp_all only: get_node_steps, simp_all)
next
  case (TLeaf c v)
  then show ?case by (cases n) (simp_all add: get_node_steps del: node_of.simps trie_get_node.simps)
next
  case (TExt c t)
  then obtain n' where n: "n = Suc n'" by (cases n) auto
  have c: "nibs c" "c \<noteq> []" using TExt.prems(1) by simp_all
  show ?case
  proof (cases "prefix c k")
    case True
    then obtain r where r: "k = c @ r" by (auto simp: prefix_def)
    have "trie_get_node env n (node_of env (TExt c t)) k st =
        bindT (decode_to_node env (ref_of env (node_of env t))) (\<lambda>s. trie_get_node env n' s r) st"
      using c by (simp add: n r get_node_steps del: node_of.simps trie_get_node.simps)
    also have "\<dots> = bindT (grab_all env (hashed env t)) (\<lambda>_. trie_get_node env n' (node_of env t) r) st"
      using TExt.prems subs_self [of t] r by (intro bind_decode_ref) (auto simp: path_stored_def hashed_stored)
    also have "\<dots> = bindT (grab_all env (hashed env t)) (\<lambda>_.
        bindT (grab_all env (path_nodes env t r)) (\<lambda>_. returnT (Some (RB (lookup t r))))) st"
      using TExt.prems c r n by (intro bindT_grab TExt.IH) (auto simp: path_stored_def simp flip: length_greater_0_conv)
    finally show ?thesis using r by (simp add: grab_all_append bindT_assoc)
  next
    case False
    then show ?thesis using c by (simp add: n get_node_steps del: node_of.simps trie_get_node.simps)
  qed
next
  case (TBranch ts v)
  then obtain n' where n: "n = Suc n'" by (cases n) auto
  have len: "length ts = 16" using TBranch.prems(1) by simp
  show ?case
  proof (cases k)
    case Nil
    then show ?thesis using len by (simp add: n get_node_steps del: node_of.simps trie_get_node.simps)
  next
    case (Cons i r)
    let ?t = "ts ! i"
    have i: "i < 16" "?t \<in> set ts" using TBranch.prems(2) Cons len by auto
    have u: "subs ?t \<subseteq> U" using TBranch.prems(3) i(2) unfolding subs.simps by blast
    have t: "wf_trie ?t" "subs ?t \<subseteq> U" "path_stored env (dbm st) ?t r" "in_db env (dbm st) ?t" "?t \<in> U"
      using TBranch.prems(1,6) i u subs_self [of ?t] Cons len by (auto simp: path_stored_def hashed_stored)
    have "trie_get_node env n (node_of env (TBranch ts v)) k st =
        bindT (decode_to_node env (ref_of env (node_of env ?t))) (\<lambda>s. trie_get_node env n' s r) st"
      using i len Cons by (simp add: n get_node_steps del: node_of.simps trie_get_node.simps)
    also have "\<dots> = bindT (grab_all env (hashed env ?t)) (\<lambda>_. trie_get_node env n' (node_of env ?t) r) st"
      using TBranch.prems(5) t by (intro bind_decode_ref) auto
    also have "\<dots> = bindT (grab_all env (hashed env ?t)) (\<lambda>_.
        bindT (grab_all env (path_nodes env ?t r)) (\<lambda>_. returnT (Some (RB (lookup ?t r))))) st"
      using TBranch.prems t i Cons n by (intro bindT_grab TBranch.IH) auto
    finally show ?thesis using Cons i len by (simp add: grab_all_append bindT_assoc)
  qed
qed

end

section \<open>Update\<close>

definition kept :: "'kv trie_env \<Rightarrow> (bytes \<rightharpoonup> bytes) \<Rightarrow> trie \<Rightarrow> bool" where
  "kept env m t = (in_db env m t \<and> stored env m t)"

lemma kept_mono: "kept env m t \<Longrightarrow> m \<subseteq>\<^sub>m m' \<Longrightarrow> kept env m' t"
  using in_db_mono stored_mono unfolding kept_def by blast

lemma stored_branch: "stored env m (TBranch ts v) \<longleftrightarrow> (\<forall>t \<in> set ts. kept env m t)"
  by (simp add: kept_def)

lemma kept_leaf: "kept env m (TLeaf k v) = in_db env m (TLeaf k v)"
  by (simp add: kept_def)

lemma kept_blank [simp]: "kept env m TBlank"
  by (simp add: kept_def in_db_def)

lemma kept_blanks: "t \<in> set blanks \<Longrightarrow> kept env m t"
  by (simp add: blanks_def)

lemma ref_of_blank [simp]: "ref_of env BLANK_NODE = BLANK_NODE"
  by (simp add: ref_of_def)

lemma node_of_blanks:
  "node_of env (TBranch blanks v) = RL (blank_branch[16 := RB v])"
  by (simp add: blanks_def blank_branch_def numeral_eq_Suc)

lemma node_of_branch_update:
  "i < length ts \<Longrightarrow> length ts = 16 \<Longrightarrow> node_of env (TBranch ts v) = RL xs \<Longrightarrow>
   node_of env (TBranch (ts[i := t]) v) = RL (xs[i := ref_of env (node_of env t)])"
  by (auto simp: list_update_append map_update)

lemma node_of_branch_value:
  "length ts = 16 \<Longrightarrow> node_of env (TBranch ts u) = RL xs \<Longrightarrow> node_of env (TBranch ts v) = RL (xs[16 := RB v])"
  by (auto simp: list_update_append)

context trie_storage
begin

lemma kept_grows: "kept env (dbm st) t \<Longrightarrow> grows st st' \<Longrightarrow> kept env (dbm st') t"
  by (rule kept_mono [OF _ grows_map])

lemma stored_grows: "stored env (dbm st) t \<Longrightarrow> grows st st' \<Longrightarrow> stored env (dbm st') t"
  by (rule stored_mono [OF _ grows_map])

lemma does_delete_bind:
  assumes "okT st" "\<And>st'. grows st st' \<Longrightarrow> okT st' \<Longrightarrow> does (f ()) st' y R"
  shows "does (bindT (delete_node_storage env n r) f) st y R"
  by (rule does_bind [OF does_delete_storage [OF assms(1)]]) (rule assms(2))

lemma does_encode_bind:
  assumes "t \<in> U" "okT st" "n = node_of env t"
    and "\<And>st'. grows st st' \<Longrightarrow> okT st' \<Longrightarrow> in_db env (dbm st') t \<Longrightarrow> does (f (ref_of env n)) st' y R"
  shows "does (bindT (encode_node env n False) f) st y R"
  by (rule does_bind [OF does_encode [OF assms(1-3)]]) (rule assms(4))

lemma does_encode_return:
  assumes "t \<in> U" "okT st" "stored env (dbm st) t" "n = node_of env t"
  shows "does (bindT (encode_node env n False) (\<lambda>_. returnT n)) st (node_of env t) (\<lambda>m. kept env m t)"
proof (rule does_encode_bind [OF assms(1,2,4)])
  fix st'
  assume "grows st st'" "okT st'" "in_db env (dbm st') t"
  then show "does (returnT n) st' (node_of env t) (\<lambda>m. kept env m t)"
    using stored_grows [OF assms(3)] unfolding assms(4) by (intro does_return) (simp_all add: kept_def)
qed

lemma does_encode_leaf:
  assumes "TLeaf k v \<in> U" "nibs k" "okT st"
    and "\<And>st'. grows st st' \<Longrightarrow> okT st' \<Longrightarrow> kept env (dbm st') (TLeaf k v) \<Longrightarrow> does (f (ref_of env (node_of env (TLeaf k v)))) st' y R"
  shows "does (bindT (encode_leaf env k (RB v)) f) st y R"
proof -
  have "does (bindT (encode_node env (node_of env (TLeaf k v)) False) f) st y R"
    by (rule does_encode_bind [OF assms(1,3) refl]) (rule assms(4), simp_all add: kept_leaf)
  then show ?thesis using pack_leaf [OF assms(2)] by (simp add: encode_leaf_def)
qed

lemma does_finish:
  assumes "s \<in> U" "wrap p s \<in> U" "nibs p" "okT st" "stored env (dbm st) s" "encoded \<Longrightarrow> in_db env (dbm st) s" "n = node_of env s"
  shows "does (finish_kv_node env p n encoded) st (node_of env (wrap p s)) (\<lambda>m. kept env m (wrap p s))"
proof (cases "p = []")
  case True
  show ?thesis
  proof (cases encoded)
    case enc: True
    then show ?thesis using True assms by (auto simp: finish_kv_node_def wrap_def kept_def intro!: does_return)
  next
    case False
    then show ?thesis using does_encode_return [OF assms(1,4,5,7)] True by (simp add: finish_kv_node_def wrap_def)
  qed
next
  case False
  have w: "wrap p s = TExt p s" "RL [RB (packed False p), ref_of env n] = node_of env (TExt p s)"
    using False assms(7) by (simp_all add: wrap_def)
  have last: "does (bindT (encode_node env (RL [RB (packed False p), ref_of env n]) False) (\<lambda>_. returnT (RL [RB (packed False p), ref_of env n])))
      st' (node_of env (TExt p s)) (\<lambda>m. kept env m (TExt p s))" if "kept env (dbm st') s" "okT st'" for st'
    using that by (intro does_encode_return [OF assms(2) [unfolded w(1)] that(2) _ w(2)]) (simp add: kept_def)
  have fin: "does (bindT (encode_node env n False) (\<lambda>e. bindT (if encoded then delete_node_storage env n False else returnT ()) (\<lambda>_.
      bindT (encode_node env (RL [RB (packed False p), e]) False) (\<lambda>_. returnT (RL [RB (packed False p), e])))))
      st (node_of env (TExt p s)) (\<lambda>m. kept env m (TExt p s))"
  proof (rule does_encode_bind [OF assms(1,4,7)])
    fix st'
    assume st': "grows st st'" "okT st'" "in_db env (dbm st') s"
    have k: "kept env (dbm st') s" using st' stored_grows [OF assms(5)] by (simp add: kept_def)
    show "does (bindT (if encoded then delete_node_storage env n False else returnT ()) (\<lambda>_.
        bindT (encode_node env (RL [RB (packed False p), ref_of env n]) False) (\<lambda>_. returnT (RL [RB (packed False p), ref_of env n]))))
        st' (node_of env (TExt p s)) (\<lambda>m. kept env m (TExt p s))"
    proof (cases encoded)
      case True
      then show ?thesis by (simp only: if_True) (rule does_delete_bind [OF st'(2)], rule last [OF kept_grows [OF k]])
    next
      case False
      then show ?thesis using last [OF k st'(2)] by (simp only: if_False bindT_simps)
    qed
  qed
  then show ?thesis using False pack_ext [OF assms(3) False] unfolding w(1) by (simp add: finish_kv_node_def)
qed

lemma subs_branch_update: "i < length ts \<Longrightarrow> subs t \<subseteq> subs (TBranch (ts[i := t]) v)"
  using set_update_memI [of i ts t] by auto

lemma subs_child: "i < length ts \<Longrightarrow> subs (ts ! i) \<subseteq> subs (TBranch ts v)"
  using nth_mem [of i ts] unfolding subs.simps by blast

lemma subs_wrap: "subs s \<subseteq> subs (wrap p s)" "s \<in> subs (wrap p s)" "wrap p s \<in> subs (wrap p s)"
  by (auto simp: wrap_def)

lemma subs_wrapU: "subs (wrap p s) \<subseteq> U \<Longrightarrow> s \<in> U \<and> wrap p s \<in> U \<and> subs s \<subseteq> U"
  using subs_wrap by blast

lemma subs_split:
  assumes "x < 16" "\<And>y ys. rk = y # ys \<Longrightarrow> x \<noteq> y"
  shows "subs t \<subseteq> subs (split_branch (blanks[x := t]) [] rk v)"
proof (cases rk)
  case Nil
  then show ?thesis using subs_branch_update [of x blanks t] assms(1) by (simp add: split_branch_def)
next
  case (Cons y ys)
  then have "blanks[x := t, y := TLeaf ys v] = blanks[y := TLeaf ys v, x := t]" using assms(2) by (simp add: list_update_swap)
  then show ?thesis using subs_branch_update [of x "blanks[y := TLeaf ys v]" t "[]"] assms(1) Cons by (simp add: split_branch_def)
qed

lemma stored_blanks_update: "kept env m t \<Longrightarrow> stored env m (TBranch (blanks[x := t]) v)"
  using set_update_subset_insert [of blanks x t] kept_blanks unfolding stored_branch by blast

lemma does_split:
  assumes t: "kept env (dbm st) t" and x: "x < 16" and rk: "nibs rk" "\<And>y ys. rk = y # ys \<Longrightarrow> x \<noteq> y"
    and U: "subs (wrap p (split_branch (blanks[x := t]) [] rk v)) \<subseteq> U" and p: "nibs p" and st: "okT st"
  shows "does (bindT (if rk = [] then returnT (RL (blank_branch[x := ref_of env (node_of env t), 16 := RB v]))
                else bindT (encode_leaf env (tl rk) (RB v)) (\<lambda>e.
                       returnT (RL (blank_branch[x := ref_of env (node_of env t), hd rk := e])))) (\<lambda>new_node.
         finish_kv_node env p new_node False)) st
    (node_of env (wrap p (split_branch (blanks[x := t]) [] rk v))) (\<lambda>m. kept env m (wrap p (split_branch (blanks[x := t]) [] rk v)))"
proof -
  let ?s = "split_branch (blanks[x := t]) [] rk v"
  have sU: "?s \<in> U" "wrap p ?s \<in> U" using subs_wrapU [OF U] by simp_all
  have old: "node_of env (TBranch (blanks[x := t]) []) = RL (blank_branch[x := ref_of env (node_of env t)])"
    using x by (subst node_of_branch_update [OF _ _ node_of_blanks]) (simp_all add: list_update_swap blank_branch_def numeral_eq_Suc)
  show ?thesis
  proof (cases rk)
    case Nil
    then have s: "?s = TBranch (blanks[x := t]) v" by (simp add: split_branch_def)
    have "node_of env ?s = RL (blank_branch[x := ref_of env (node_of env t), 16 := RB v])"
      unfolding s by (rule node_of_branch_value [OF _ old]) simp
    then show ?thesis using Nil does_finish [OF sU p st _ _ sym] stored_blanks_update [OF t] s by simp
  next
    case (Cons y ys)
    then have y: "y < 16" "y \<noteq> x" "nibs ys" using rk by auto
    have s: "?s = TBranch (blanks[x := t, y := TLeaf ys v]) []" using Cons by (simp add: split_branch_def)
    have leaf: "TLeaf ys v \<in> U"
      using subs_wrapU [OF U] subs_branch_update [of y "blanks[x := t]" "TLeaf ys v" "[]"] y s by auto
    have n: "node_of env ?s = RL (blank_branch[x := ref_of env (node_of env t), y := ref_of env (node_of env (TLeaf ys v))])"
      unfolding s using y by (intro node_of_branch_update [OF _ _ old]) simp_all
    have "does (bindT (encode_leaf env ys (RB v)) (\<lambda>e. finish_kv_node env p (RL (blank_branch[x := ref_of env (node_of env t), y := e])) False))
        st (node_of env (wrap p ?s)) (\<lambda>m. kept env m (wrap p ?s))"
    proof (rule does_encode_leaf [OF leaf y(3) st])
      fix st'
      assume st': "grows st st'" "okT st'" "kept env (dbm st') (TLeaf ys v)"
      have "stored env (dbm st') ?s" unfolding s stored_branch
        using st'(3) kept_grows [OF t st'(1)] set_update_subset_insert [of "blanks[x := t]" y "TLeaf ys v"]
          set_update_subset_insert [of blanks x t] kept_blanks by blast
      then show "does (finish_kv_node env p (RL (blank_branch[x := ref_of env (node_of env t), y := ref_of env (node_of env (TLeaf ys v))])) False)
          st' (node_of env (wrap p ?s)) (\<lambda>m. kept env m (wrap p ?s))"
        using does_finish [OF sU p st'(2) _ _ n [symmetric]] by simp
    qed
    then show ?thesis using Cons by (simp add: bindT_assoc)
  qed
qed

lemma update_leaf:
  assumes "wf_trie (TLeaf c u)" "nibs k" "subs (upd (TLeaf c u) k v) \<subseteq> U" "okT st"
  shows "does (update_kv_node env f (node_of env (TLeaf c u)) k v) st (node_of env (upd (TLeaf c u) k v))
    (\<lambda>m. kept env m (upd (TLeaf c u) k v))"
proof -
  obtain p rc rk where s: "c = p @ rc" "k = p @ rk" "lcp c k = length p"
    "\<And>x xs y ys. rc = x # xs \<Longrightarrow> rk = y # ys \<Longrightarrow> x \<noteq> y" by (rule lcp_split [of c k]) blast
  have n: "nibs c" "nibs p" "nibs rc" "nibs rk" using assms(1,2) s(1,2) by simp_all
  note u = upd_TLeaf [OF s(1-3), of u v]
  have d: "prefix_length c k = length p" "drop (length p) c = rc" "drop (length p) k = rk" "take (length p) c = p"
    using s(3) prefix_length_lcp [of c k] by (simp_all add: s(1,2))
  have body: "update_kv_node env f (node_of env (TLeaf c u)) k v =
      (if rk = [] \<and> rc = [] then bindT (encode_node env (RL [RB (packed True c), RB v]) False) (\<lambda>_. returnT (RL [RB (packed True c), RB v]))
       else if rc = [] then bindT (encode_leaf env (tl rk) (RB v)) (\<lambda>e. finish_kv_node env p (RL (blank_branch[16 := RB u, hd rk := e])) False)
       else bindT (bindT (liftT (pack_nibbles (adapt_terminator (tl rc) True))) (\<lambda>k. encode_node env (RL [RB k, RB u]) False)) (\<lambda>old.
         bindT (if rk = [] then returnT (RL (blank_branch[hd rc := old, 16 := RB v]))
                else bindT (encode_leaf env (tl rk) (RB v)) (\<lambda>e. returnT (RL (blank_branch[hd rc := old, hd rk := e])))) (\<lambda>new_node.
         finish_kv_node env p new_node False)))"
    using n(1) by (simp add: update_kv_node_def node_type_kv key_packed d Let_def del: drop_eq_Nil cong: if_cong)
  show ?thesis
  proof (cases rc)
    case rc: Nil
    show ?thesis
    proof (cases rk)
      case Nil
      have "TLeaf c v \<in> U" using assms(3) unfolding u by (simp add: rc Nil)
      then show ?thesis using does_encode_return [of "TLeaf c v" st] assms(4) unfolding body u by (simp add: rc Nil)
    next
      case (Cons y ys)
      let ?s = "TBranch (blanks[y := TLeaf ys v]) u"
      have y: "y < 16" "nibs ys" using n(4) Cons by simp_all
      have U: "subs (wrap p ?s) \<subseteq> U" using assms(3) unfolding u by (simp add: rc Cons split_branch_def)
      then have sU: "?s \<in> U" "wrap p ?s \<in> U" "TLeaf ys v \<in> U"
        using subs_wrapU [OF U] subs_branch_update [of y blanks "TLeaf ys v" u] y by auto
      have ns: "node_of env ?s = RL (blank_branch[16 := RB u, y := ref_of env (node_of env (TLeaf ys v))])"
        using y by (intro node_of_branch_update [OF _ _ node_of_blanks]) simp_all
      have "does (bindT (encode_leaf env ys (RB v)) (\<lambda>e. finish_kv_node env p (RL (blank_branch[16 := RB u, y := e])) False))
          st (node_of env (wrap p ?s)) (\<lambda>m. kept env m (wrap p ?s))"
        by (rule does_encode_leaf [OF sU(3) y(2) assms(4)], rule does_finish [OF sU(1,2) n(2) _ _ _ ns [symmetric]])
          (assumption, rule stored_blanks_update, simp_all)
      then show ?thesis unfolding body u by (simp add: rc Cons split_branch_def)
    qed
  next
    case (Cons x xs)
    let ?s = "split_branch (blanks[x := TLeaf xs u]) [] rk v"
    have x: "x < 16" "nibs xs" using n(3) Cons by simp_all
    have U: "subs (wrap p ?s) \<subseteq> U" using assms(3) unfolding u by (simp add: Cons)
    have leaf: "TLeaf xs u \<in> U" using subs_wrapU [OF U] subs_split [OF x(1) s(4) [OF Cons], where t = "TLeaf xs u" and v = v] by auto
    have "does (bindT (encode_node env (RL [RB (packed True xs), RB u]) False) (\<lambda>old.
         bindT (if rk = [] then returnT (RL (blank_branch[x := old, 16 := RB v]))
                else bindT (encode_leaf env (tl rk) (RB v)) (\<lambda>e. returnT (RL (blank_branch[x := old, hd rk := e])))) (\<lambda>new_node.
         finish_kv_node env p new_node False))) st (node_of env (wrap p ?s)) (\<lambda>m. kept env m (wrap p ?s))"
    proof (rule does_encode_bind [OF leaf assms(4)])
      fix st'
      assume st': "okT st'" "in_db env (dbm st') (TLeaf xs u)"
      have k: "kept env (dbm st') (TLeaf xs u)" using st'(2) by (simp add: kept_leaf)
      show "does (bindT (if rk = [] then returnT (RL (blank_branch[x := ref_of env (RL [RB (packed True xs), RB u]), 16 := RB v]))
          else bindT (encode_leaf env (tl rk) (RB v)) (\<lambda>e. returnT (RL (blank_branch[x := ref_of env (RL [RB (packed True xs), RB u]), hd rk := e]))))
          (\<lambda>new_node. finish_kv_node env p new_node False)) st' (node_of env (wrap p ?s)) (\<lambda>m. kept env m (wrap p ?s))"
        using does_split [OF k x(1) n(4) s(4) [OF Cons] U n(2) st'(1)] by (simp cong: if_cong)
    qed simp
    then show ?thesis unfolding body u using pack_leaf [OF x(2)] by (simp add: Cons adapt_terminator_def cong: if_cong)
  qed
qed

lemma update_ext:
  assumes "wf_trie (TExt c t)" "nibs k" "subs (TExt c t) \<subseteq> U" "subs (upd (TExt c t) k v) \<subseteq> U" "okT st" "stored env (dbm st) (TExt c t)"
    and IH: "\<And>r st. k = c @ r \<Longrightarrow> subs (upd t r v) \<subseteq> U \<Longrightarrow> okT st \<Longrightarrow> stored env (dbm st) t \<Longrightarrow>
      does (f (node_of env t) r v) st (node_of env (upd t r v)) (\<lambda>m. kept env m (upd t r v))"
  shows "does (update_kv_node env f (node_of env (TExt c t)) k v) st (node_of env (upd (TExt c t) k v))
    (\<lambda>m. kept env m (upd (TExt c t) k v))"
proof -
  obtain p rc rk where s: "c = p @ rc" "k = p @ rk" "lcp c k = length p"
    "\<And>x xs y ys. rc = x # xs \<Longrightarrow> rk = y # ys \<Longrightarrow> x \<noteq> y" by (rule lcp_split [of c k]) blast
  have n: "nibs c" "nibs p" "nibs rc" "nibs rk" "c \<noteq> []" using assms(1,2) s(1,2) by auto
  note u = upd_TExt [OF s(1-3), of t v]
  have d: "prefix_length c k = length p" "drop (length p) c = rc" "drop (length p) k = rk" "take (length p) c = p"
    using s(3) prefix_length_lcp [of c k] by (simp_all add: s(1,2))
  have tU: "t \<in> U" using assms(3) subs_self [of t] by auto
  have body: "update_kv_node env f (node_of env (TExt c t)) k v =
      (if rc = [] then
         bindT (decode_to_node env (ref_of env (node_of env t))) (\<lambda>child.
         bindT (update_and_delete_storage env f child rk v) (\<lambda>new_node. finish_kv_node env p new_node True))
       else bindT (if length rc = 1 then returnT (ref_of env (node_of env t))
                   else bindT (liftT (pack_nibbles (adapt_terminator (tl rc) False))) (\<lambda>k. encode_node env (RL [RB k, ref_of env (node_of env t)]) False)) (\<lambda>old.
         bindT (if rk = [] then returnT (RL (blank_branch[hd rc := old, 16 := RB v]))
                else bindT (encode_leaf env (tl rk) (RB v)) (\<lambda>e. returnT (RL (blank_branch[hd rc := old, hd rk := e])))) (\<lambda>new_node.
         finish_kv_node env p new_node False)))"
    using n(1,5) by (simp add: update_kv_node_def node_type_kv key_packed d Let_def del: drop_eq_Nil length_drop cong: if_cong)
  show ?thesis
  proof (cases rc)
    case Nil
    then have c: "c = p" "k = c @ rk" "upd (TExt c t) k v = TExt c (upd t rk v)" using s u by simp_all
    have w: "wrap p (upd t rk v) = TExt c (upd t rk v)" using n(5) c(1) by (simp add: wrap_def)
    have U: "upd t rk v \<in> U" "wrap p (upd t rk v) \<in> U" "subs (upd t rk v) \<subseteq> U"
      using assms(4) subs_self [of "upd t rk v"] unfolding c(3) w by auto
    have "does (bindT (decode_to_node env (ref_of env (node_of env t))) (\<lambda>child.
        bindT (update_and_delete_storage env f child rk v) (\<lambda>new_node. finish_kv_node env p new_node True)))
        st (node_of env (wrap p (upd t rk v))) (\<lambda>m. kept env m (wrap p (upd t rk v)))"
    proof (rule does_bind [OF does_decode [OF tU assms(5)]])
      show "in_db env (dbm st) t" using assms(6) by simp
      fix st1
      assume 1: "grows st st1" "okT st1"
      have "does (f (node_of env t) rk v) st1 (node_of env (upd t rk v)) (\<lambda>m. kept env m (upd t rk v))"
        using IH [OF c(2) U(3) 1(2)] stored_grows [OF _ 1(1)] assms(6) by simp
      then show "does (bindT (update_and_delete_storage env f (node_of env t) rk v) (\<lambda>new_node. finish_kv_node env p new_node True))
          st1 (node_of env (wrap p (upd t rk v))) (\<lambda>m. kept env m (wrap p (upd t rk v)))"
        unfolding update_and_delete_storage_def bindT_assoc
      proof (rule does_bind)
        fix st2
        assume 2: "okT st2" "kept env (dbm st2) (upd t rk v)"
        show "does (bindT (delete_node_storage env (node_of env t) False) (\<lambda>x. bindT (returnT (node_of env (upd t rk v)))
            (\<lambda>new_node. finish_kv_node env p new_node True))) st2 (node_of env (wrap p (upd t rk v))) (\<lambda>m. kept env m (wrap p (upd t rk v)))"
        proof (rule does_delete_bind [OF 2(1)])
          fix st3
          assume 3: "grows st2 st3" "okT st3"
          have "kept env (dbm st3) (upd t rk v)" by (rule kept_grows [OF 2(2) 3(1)])
          then show "does (bindT (returnT (node_of env (upd t rk v))) (\<lambda>new_node. finish_kv_node env p new_node True))
              st3 (node_of env (wrap p (upd t rk v))) (\<lambda>m. kept env m (wrap p (upd t rk v)))"
            using does_finish [OF U(1,2) n(2) 3(2), where encoded = True] by (simp add: kept_def)
        qed
      qed
    qed
    then show ?thesis unfolding body c(3) w [symmetric] using Nil by simp
  next
    case (Cons x xs)
    let ?s = "split_branch (blanks[x := wrap xs t]) [] rk v"
    have x: "x < 16" "nibs xs" using n(3) Cons by simp_all
    have U: "subs (wrap p ?s) \<subseteq> U" using assms(4) unfolding u by (simp add: Cons)
    have old: "does (if xs = [] then returnT (ref_of env (node_of env t))
          else bindT (liftT (pack_nibbles (adapt_terminator xs False))) (\<lambda>k. encode_node env (RL [RB k, ref_of env (node_of env t)]) False))
        st (ref_of env (node_of env (wrap xs t))) (\<lambda>m. kept env m (wrap xs t))"
    proof (cases "xs = []")
      case True
      then show ?thesis using assms(5,6) by (simp add: wrap_def does_return kept_def)
    next
      case False
      then have w: "wrap xs t = TExt xs t" "TExt xs t \<in> U"
        using subs_wrapU [OF U] subs_split [OF x(1) s(4) [OF Cons], where t = "wrap xs t" and v = v] by (auto simp: wrap_def)
      show ?thesis using False does_encode [OF w(2) assms(5) refl] pack_ext [OF x(2) False] adapt_ext [OF x(2)] assms(6)
        unfolding w(1) by (auto simp: does_def kept_def intro: stored_grows in_db_mono [OF _ grows_map])
    qed
    have "does (bindT (if xs = [] then returnT (ref_of env (node_of env t))
          else bindT (liftT (pack_nibbles (adapt_terminator xs False))) (\<lambda>k. encode_node env (RL [RB k, ref_of env (node_of env t)]) False)) (\<lambda>old.
         bindT (if rk = [] then returnT (RL (blank_branch[x := old, 16 := RB v]))
                else bindT (encode_leaf env (tl rk) (RB v)) (\<lambda>e. returnT (RL (blank_branch[x := old, hd rk := e])))) (\<lambda>new_node.
         finish_kv_node env p new_node False))) st (node_of env (wrap p ?s)) (\<lambda>m. kept env m (wrap p ?s))"
      by (rule does_bind [OF old]) (rule does_split [OF _ x(1) n(4) s(4) [OF Cons] U n(2)])
    then show ?thesis unfolding body u by (simp add: Cons cong: if_cong)
  qed
qed

lemma does_uds:
  assumes "does (f n k v) st x (\<lambda>m. kept env m t)" "okT st"
  shows "does (update_and_delete_storage env f n k v) st x (\<lambda>m. kept env m t)"
  unfolding update_and_delete_storage_def
proof (rule does_bind [OF assms(1)])
  fix st'
  assume "okT st'" "kept env (dbm st') t"
  then show "does (bindT (delete_node_storage env n False) (\<lambda>_. returnT x)) st' x (\<lambda>m. kept env m t)"
    using kept_grows by (intro does_delete_bind does_return)
qed

lemma stored_branch_update:
  "stored env m (TBranch ts u) \<Longrightarrow> kept env m s \<Longrightarrow> stored env m (TBranch (ts[i := s]) v)"
  unfolding stored_branch using set_update_subset_insert [of ts i s] by blast

text \<open>A branch gets a new child, which is stored.\<close>

lemma does_put_child:
  assumes "length ts = 16" "i < 16" "s \<in> U" "TBranch (ts[i := s]) u \<in> U" "okT st" "kept env (dbm st) s" "stored env (dbm st) (TBranch ts u)"
  shows "does (bindT (encode_node env (node_of env s) False) (\<lambda>e.
      bindT (liftT (py_setitem (node_of env (TBranch ts u)) i e)) (\<lambda>node'.
      bindT (delete_node_storage env (node_of env s) False) (\<lambda>_.
      bindT (encode_node env node' False) (\<lambda>_. returnT node'))))) st (node_of env (TBranch (ts[i := s]) u)) (\<lambda>m. kept env m (TBranch (ts[i := s]) u))"
proof (rule does_encode_bind [OF assms(3,5) refl])
  let ?b = "TBranch (ts[i := s]) u"
  fix st1
  assume 1: "grows st st1" "okT st1"
  have nb: "RL ((map (\<lambda>t. ref_of env (node_of env t)) ts @ [RB u])[i := ref_of env (node_of env s)]) = node_of env ?b"
    using assms(1,2) by (intro node_of_branch_update [symmetric]) simp_all
  have "does (bindT (delete_node_storage env (node_of env s) False) (\<lambda>_.
      bindT (encode_node env (node_of env ?b) False) (\<lambda>_. returnT (node_of env ?b)))) st1 (node_of env ?b) (\<lambda>m. kept env m ?b)"
  proof (rule does_delete_bind [OF 1(2)])
    fix st2
    assume 2: "grows st1 st2" "okT st2"
    have g: "grows st st2" by (rule grows_trans [OF 1(1) 2(1)])
    show "does (bindT (encode_node env (node_of env ?b) False) (\<lambda>_. returnT (node_of env ?b))) st2 (node_of env ?b) (\<lambda>m. kept env m ?b)"
      by (rule does_encode_return [OF assms(4) 2(2) stored_branch_update [OF stored_grows [OF assms(7) g] kept_grows [OF assms(6) g]] refl])
  qed
  then show "does (bindT (liftT (py_setitem (node_of env (TBranch ts u)) i (ref_of env (node_of env s)))) (\<lambda>node'.
      bindT (delete_node_storage env (node_of env s) False) (\<lambda>_.
      bindT (encode_node env node' False) (\<lambda>_. returnT node')))) st1 (node_of env ?b) (\<lambda>m. kept env m ?b)"
    using assms(1,2) nb by simp
qed

lemma update_branch:
  assumes "wf_trie (TBranch ts u)" "i < 16" "subs (TBranch ts u) \<subseteq> U" "subs (TBranch (ts[i := s]) u) \<subseteq> U" "okT st"
    "stored env (dbm st) (TBranch ts u)"
    and IH: "\<And>st. okT st \<Longrightarrow> stored env (dbm st) (ts ! i) \<Longrightarrow> does (f (node_of env (ts ! i)) r v) st (node_of env s) (\<lambda>m. kept env m s)"
  shows "does (bindT (decode_to_node env (ref_of env (node_of env (ts ! i)))) (\<lambda>sub_node.
      bindT (update_and_delete_storage env f sub_node r v) (\<lambda>new_node.
      bindT (encode_node env new_node False) (\<lambda>e.
      bindT (liftT (py_setitem (node_of env (TBranch ts u)) i e)) (\<lambda>node'.
      bindT (delete_node_storage env new_node False) (\<lambda>_.
      bindT (encode_node env node' False) (\<lambda>_. returnT node'))))))) st
    (node_of env (TBranch (ts[i := s]) u)) (\<lambda>m. kept env m (TBranch (ts[i := s]) u))"
proof -
  let ?b = "TBranch (ts[i := s]) u"
  have len: "length ts = 16" "ts ! i \<in> set ts" using assms(1,2) by auto
  have U: "ts ! i \<in> U" "?b \<in> U" "s \<in> U"
    using subs_self subsetD [OF order_trans [OF subs_child assms(3)]] subsetD [OF assms(4)]
      subsetD [OF order_trans [OF subs_branch_update assms(4)]] len assms(2) by simp_all
  have t: "in_db env (dbm st) (ts ! i)" "stored env (dbm st) (ts ! i)" using assms(6) len(2) by auto
  show ?thesis
  proof (rule does_bind [OF does_decode [OF U(1) assms(5) t(1)]])
    fix st1
    assume 1: "grows st st1" "okT st1"
    have d: "does (update_and_delete_storage env f (node_of env (ts ! i)) r v) st1 (node_of env s) (\<lambda>m. kept env m s)"
      by (rule does_uds [where f = f, OF IH [OF 1(2) stored_grows [OF t(2) 1(1)]] 1(2)])
    show "does (bindT (update_and_delete_storage env f (node_of env (ts ! i)) r v) (\<lambda>new_node.
        bindT (encode_node env new_node False) (\<lambda>e.
        bindT (liftT (py_setitem (node_of env (TBranch ts u)) i e)) (\<lambda>node'.
        bindT (delete_node_storage env new_node False) (\<lambda>_.
        bindT (encode_node env node' False) (\<lambda>_. returnT node')))))) st1 (node_of env ?b) (\<lambda>m. kept env m ?b)"
      by (rule does_bind [OF d], rule does_put_child [OF len(1) assms(2) U(3,2)])
        (assumption, assumption, rule stored_grows [OF stored_grows [OF assms(6) 1(1)]])
  qed
qed

lemma update_node_correct:
  "wf_trie t \<Longrightarrow> nibs k \<Longrightarrow> subs t \<subseteq> U \<Longrightarrow> subs (upd t k v) \<subseteq> U \<Longrightarrow> length k < n \<Longrightarrow> okT st \<Longrightarrow> stored env (dbm st) t \<Longrightarrow>
   does (update_node env n (node_of env t) k v) st (node_of env (upd t k v)) (\<lambda>m. kept env m (upd t k v))"
proof (induction t arbitrary: k n st)
  case TBlank
  then obtain n' where n: "n = Suc n'" by (cases n) auto
  show ?case using does_encode_return [of "TLeaf k v" st] TBlank by (simp add: n node_type_blank pack_leaf)
next
  case (TLeaf c u)
  then obtain n' where n: "n = Suc n'" by (cases n) auto
  have "update_node env n (node_of env (TLeaf c u)) k v = update_kv_node env (update_node env n') (node_of env (TLeaf c u)) k v"
    using TLeaf.prems(1) by (simp add: n node_type_kv is_key_value_type_def)
  then show ?case using update_leaf TLeaf.prems by simp
next
  case (TExt c t)
  then obtain n' where n: "n = Suc n'" by (cases n) auto
  have b: "update_node env n (node_of env (TExt c t)) k v = update_kv_node env (update_node env n') (node_of env (TExt c t)) k v"
    using TExt.prems(1) by (simp add: n node_type_kv is_key_value_type_def)
  show ?case unfolding b
  proof (rule update_ext [OF TExt.prems(1-4,6,7)])
    fix r st
    assume "k = c @ r" "subs (upd t r v) \<subseteq> U" "okT st" "stored env (dbm st) t"
    then show "does (update_node env n' (node_of env t) r v) st (node_of env (upd t r v)) (\<lambda>m. kept env m (upd t r v))"
      using TExt.prems(1-3,5) n by (intro TExt.IH) (auto simp flip: length_greater_0_conv)
  qed
next
  case (TBranch ts u)
  then obtain n' where n: "n = Suc n'" by (cases n) auto
  have len: "length ts = 16" using TBranch.prems(1) by simp
  show ?case
  proof (cases k)
    case Nil
    have "node_of env (TBranch ts v) = RL ((map (\<lambda>t. ref_of env (node_of env t)) ts @ [RB u])[16 := RB v])"
      using len by (intro node_of_branch_value) simp_all
    then show ?thesis using Nil len does_encode_return [of "TBranch ts v" st] TBranch.prems
      by (simp add: n node_type_branch list_update_append)
  next
    case (Cons i r)
    have i: "i < 16" "ts ! i \<in> set ts" "nibs r" "wf_trie (ts ! i)" using TBranch.prems(1,2) Cons len by auto
    have e: "upd (TBranch ts u) k v = TBranch (ts[i := upd (ts ! i) r v]) u" using Cons i len by simp
    have U: "subs (ts ! i) \<subseteq> U" "subs (upd (ts ! i) r v) \<subseteq> U"
      using order_trans [OF subs_child TBranch.prems(3)] order_trans [OF subs_branch_update TBranch.prems(4) [unfolded e]] i len
      by simp_all
    have body: "update_node env n (node_of env (TBranch ts u)) k v =
        bindT (decode_to_node env (ref_of env (node_of env (ts ! i)))) (\<lambda>sub_node.
        bindT (update_and_delete_storage env (update_node env n') sub_node r v) (\<lambda>new_node.
        bindT (encode_node env new_node False) (\<lambda>e.
        bindT (liftT (py_setitem (node_of env (TBranch ts u)) i e)) (\<lambda>node'.
        bindT (delete_node_storage env new_node False) (\<lambda>_.
        bindT (encode_node env node' False) (\<lambda>_. returnT node'))))))"
      using Cons i len by (simp add: n node_type_branch nth_append bindT_assoc)
    show ?thesis unfolding body e
      using TBranch.prems(5) i U Cons n
      by (intro update_branch [OF TBranch.prems(1) i(1) TBranch.prems(3) _ TBranch.prems(6,7)] TBranch.IH)
        (use TBranch.prems(4) e in auto)
  qed
qed

end

section \<open>Deletion\<close>

text \<open>The trees that the recursive calls of a deletion return, which are all stored.\<close>

fun del_trace :: "trie \<Rightarrow> nibbles \<Rightarrow> trie set" where
  "del_trace (TExt c t) k =
     (if prefix c k then insert (del (TExt c t) k) (del_trace t (drop (length c) k)) else {TExt c t})"
| "del_trace (TBranch ts v) (i # k) =
     (if i < length ts then insert (del (TBranch ts v) (i # k)) (del_trace (ts ! i) k) else {TBranch ts v})"
| "del_trace t k = {del t k}"

lemma del_in_trace: "del t k \<in> del_trace t k"
  by (cases "(t, k)" rule: del_trace.cases) auto

lemma distinct_singleton_list: "set xs = {x} \<Longrightarrow> distinct xs \<Longrightarrow> xs = [x]"
  by (cases xs; cases "tl xs") auto

lemma find_filter: "find P xs = (case filter P xs of [] \<Rightarrow> None | x # _ \<Rightarrow> Some x)"
  by (induction xs) auto

lemma fill_indices: "length (filter (\<lambda>i. ts ! i \<noteq> TBlank) [0..<length ts]) = length (filter (\<lambda>t. t \<noteq> TBlank) ts)"
proof -
  have "length (filter (\<lambda>t. t \<noteq> TBlank) (map ((!) ts) [0..<length ts])) = length (filter (\<lambda>i. ts ! i \<noteq> TBlank) [0..<length ts])"
    by (simp add: filter_map comp_def)
  then show ?thesis by (simp add: map_nth)
qed

context trie_storage
begin

lemma truthy_ref: "t \<in> U \<Longrightarrow> truthy (ref_of env (node_of env t)) \<longleftrightarrow> t \<noteq> TBlank"
  using hash_nonempty [of t] by (cases t) (auto simp: ref_of_def hash_key_def)

lemma not_blank_items:
  assumes "length ts = 16" "\<And>i. i < 16 \<Longrightarrow> ts ! i \<in> U"
  shows "filter (\<lambda>i. truthy ((map (\<lambda>t. ref_of env (node_of env t)) ts @ [RB v]) ! i)) [0..<17] =
    filter (\<lambda>i. ts ! i \<noteq> TBlank) [0..<length ts] @ (if v = [] then [] else [16])"
proof -
  have "[0..<17] = [0..<length ts] @ [16]" using assms(1) by (simp add: numeral_eq_Suc)
  then show ?thesis using assms by (auto simp: nth_append truthy_ref intro!: filter_cong)
qed

text \<open>A key is put in front of a leaf or an extension, or of a branch, which is held by an extension.\<close>

lemma does_join_kv:
  assumes "wf_trie s" "s \<noteq> TBlank" "\<not> is_branch s" "nibs c" "c \<noteq> []" "join c s \<in> U" "okT st" "stored env (dbm st) s"
  shows "does (bindT (liftT (py_getitem (node_of env s) 0)) (\<lambda>sub_key.
      bindT (liftT (unpack_item sub_key)) (\<lambda>nibbles.
      bindT (liftT (pack_nibbles (c @ nibbles))) (\<lambda>k.
      bindT (liftT (py_getitem (node_of env s) 1)) (\<lambda>v.
      bindT (encode_node env (RL [RB k, v]) False) (\<lambda>_. returnT (RL [RB k, v]))))))) st (node_of env (join c s)) (\<lambda>m. kept env m (join c s))"
proof (cases s)
  case (TLeaf k v)
  have "pack_nibbles (c @ k @ [NIBBLE_TERMINATOR]) = Inr (packed True (c @ k))"
    using pack_unpack(1) [of "c @ k" True] TLeaf assms(1,4) by simp
  then show ?thesis using TLeaf assms(1,6,7) does_encode_return [of "TLeaf (c @ k) v" st] by (simp add: key_packed)
next
  case (TExt k t)
  have "pack_nibbles (c @ k) = Inr (packed False (c @ k))" using TExt assms(1,4,5) by (simp add: pack_ext)
  then show ?thesis using TExt assms(1,6,7,8) does_encode_return [of "TExt (c @ k) t" st] by (simp add: key_packed)
qed (use assms in auto)

lemma kv_type: "wf_trie s \<Longrightarrow> s \<noteq> TBlank \<Longrightarrow>
    \<exists>ty. get_node_type (node_of env s) = Inr ty \<and> (is_branch s \<longrightarrow> ty = Some NODE_TYPE_BRANCH) \<and> (is_key_value_type ty \<longleftrightarrow> \<not> is_branch s)"
  by (cases s) (auto simp: node_type_kv node_type_branch is_key_value_type_def)

lemma does_collapse:
  assumes "wf_trie s" "s \<noteq> TBlank" "i < 16" "s \<in> U" "join [i] s \<in> U" "okT st" "kept env (dbm st) s"
  shows "does (collapse_branch env i (ref_of env (node_of env s))) st (node_of env (join [i] s)) (\<lambda>m. kept env m (join [i] s))"
proof -
  obtain ty where ty: "get_node_type (node_of env s) = Inr ty" "is_branch s \<longrightarrow> ty = Some NODE_TYPE_BRANCH" "is_key_value_type ty \<longleftrightarrow> \<not> is_branch s"
    using kv_type [OF assms(1,2)] by blast
  show ?thesis unfolding collapse_branch_def
  proof (rule does_bind [OF does_decode [OF assms(4,6)]])
    show "in_db env (dbm st) s" using assms(7) by (simp add: kept_def)
    fix st1
    assume 1: "grows st st1" "okT st1"
    have k: "kept env (dbm st1) s" by (rule kept_grows [OF assms(7) 1(1)])
    show "does (bindT (liftT (get_node_type (node_of env s))) (\<lambda>sub_node_type.
        if is_key_value_type sub_node_type then
          bindT (delete_node_storage env (node_of env s) False) (\<lambda>_.
          bindT (liftT (py_getitem (node_of env s) 0)) (\<lambda>sub_key.
          bindT (liftT (unpack_item sub_key)) (\<lambda>nibbles.
          bindT (liftT (pack_nibbles (i # nibbles))) (\<lambda>k.
          bindT (liftT (py_getitem (node_of env s) 1)) (\<lambda>v.
          bindT (encode_node env (RL [RB k, v]) False) (\<lambda>_. returnT (RL [RB k, v])))))))
        else if sub_node_type = Some NODE_TYPE_BRANCH then
          bindT (liftT (pack_nibbles [i])) (\<lambda>k.
          bindT (encode_node env (RL [RB k, ref_of env (node_of env s)]) False) (\<lambda>_. returnT (RL [RB k, ref_of env (node_of env s)])))
        else raiseT AssertionError)) st1 (node_of env (join [i] s)) (\<lambda>m. kept env m (join [i] s))"
    proof (cases "is_branch s")
      case True
      then obtain ts v where s: "s = TBranch ts v" by (cases s) auto
      show ?thesis using True ty k does_encode_return [of "TExt [i] s" st1] assms(3,5) 1(2) s
        by (simp add: pack_ext kept_def)
    next
      case False
      have "does (bindT (delete_node_storage env (node_of env s) False) (\<lambda>_.
          bindT (liftT (py_getitem (node_of env s) 0)) (\<lambda>sub_key.
          bindT (liftT (unpack_item sub_key)) (\<lambda>nibbles.
          bindT (liftT (pack_nibbles ([i] @ nibbles))) (\<lambda>k.
          bindT (liftT (py_getitem (node_of env s) 1)) (\<lambda>v.
          bindT (encode_node env (RL [RB k, v]) False) (\<lambda>_. returnT (RL [RB k, v])))))))) st1 (node_of env (join [i] s)) (\<lambda>m. kept env m (join [i] s))"
        using kept_grows [OF k] assms(3)
        by (intro does_delete_bind [OF 1(2)] does_join_kv [OF assms(1,2) False _ _ assms(5)]) (auto simp: kept_def)
      then show ?thesis using False ty by simp
    qed
  qed
qed

lemma does_normalize:
  assumes "length ts = 16" "\<forall>t \<in> set ts. wf_trie t" "fill ts v > 0" "\<And>i. i < 16 \<Longrightarrow> ts ! i \<in> U" "normal ts v \<in> U" "okT st"
    "stored env (dbm st) (TBranch ts v)"
  shows "does (normalize_branch_node env (node_of env (TBranch ts v))) st (node_of env (normal ts v)) (\<lambda>m. kept env m (normal ts v))"
proof -
  let ?nb = "filter (\<lambda>i. ts ! i \<noteq> TBlank) [0..<length ts]"
  have nb: "filter (\<lambda>i. truthy ((map (\<lambda>t. ref_of env (node_of env t)) ts @ [RB v]) ! i)) [0..<17] = ?nb @ (if v = [] then [] else [16])"
    by (rule not_blank_items [OF assms(1,4)])
  have len: "length (?nb @ (if v = [] then [] else [16])) = fill ts v" using fill_indices [of ts] by (simp add: fill_def)
  show ?thesis using assms(3)
  proof (cases rule: normal_cases)
    case full
    then show ?thesis using does_encode_return [of "TBranch ts v" st] assms(5-7) nb len
      by (auto simp: normalize_branch_node_def Let_def)
  next
    case val
    then have "?nb = []" by (auto simp: filter_empty_conv)
    then show ?thesis using val nb does_encode_return [of "TLeaf [] v" st] assms(1,5,6)
      by (simp add: normalize_branch_node_def Let_def pack_leaf nth_append)
  next
    case (child i)
    then have "set ?nb = {i}" "distinct ?nb" by (auto simp: nth_eq_iff_index_eq)
    then have "?nb = [i]" by (rule distinct_singleton_list)
    then show ?thesis using child nb does_collapse [of "ts ! i" i st] assms
      by (simp add: normalize_branch_node_def Let_def nth_append kept_def)
  qed
qed

lemma does_dds:
  assumes "does (f n k) st x (\<lambda>m. kept env m t)" "okT st"
  shows "does (delete_and_delete_storage env f n k) st x (\<lambda>m. kept env m t)"
  unfolding delete_and_delete_storage_def
proof (rule does_bind [OF assms(1)])
  fix st'
  assume "okT st'" "kept env (dbm st') t"
  then show "does (bindT (delete_node_storage env n False) (\<lambda>_. returnT x)) st' x (\<lambda>m. kept env m t)"
    using kept_grows by (intro does_delete_bind does_return)
qed

lemma does_collapse_ext:
  assumes "wf_trie s" "s \<noteq> TBlank" "nibs c" "c \<noteq> []" "s \<in> U" "join c s \<in> U" "okT st" "kept env (dbm st) s"
  shows "does (collapse_extension env c (node_of env s)) st (node_of env (join c s)) (\<lambda>m. kept env m (join c s))"
proof (cases s)
  case (TLeaf k v)
  have "pack_nibbles (c @ k @ [NIBBLE_TERMINATOR]) = Inr (packed True (c @ k))"
    using pack_unpack(1) [of "c @ k" True] TLeaf assms(1,3) by simp
  moreover have "does (bindT (delete_node_storage env (node_of env s) False) (\<lambda>_.
      bindT (encode_node env (node_of env (TLeaf (c @ k) v)) False) (\<lambda>_. returnT (node_of env (TLeaf (c @ k) v)))))
      st (node_of env (TLeaf (c @ k) v)) (\<lambda>m. kept env m (TLeaf (c @ k) v))"
    using assms(6) TLeaf by (intro does_delete_bind [OF assms(7)] does_encode_return) auto
  ultimately show ?thesis using TLeaf assms(1)
    by (simp add: collapse_extension_def node_type_kv is_key_value_type_def key_packed)
next
  case (TExt k t)
  have "pack_nibbles (c @ k) = Inr (packed False (c @ k))" using TExt assms(1,3,4) by (simp add: pack_ext)
  moreover have "does (bindT (delete_node_storage env (node_of env s) False) (\<lambda>_.
      bindT (encode_node env (node_of env (TExt (c @ k) t)) False) (\<lambda>_. returnT (node_of env (TExt (c @ k) t)))))
      st (node_of env (TExt (c @ k) t)) (\<lambda>m. kept env m (TExt (c @ k) t))"
    using assms(6) kept_grows [OF assms(8)] TExt
    by (intro does_delete_bind [OF assms(7)] does_encode_return) (auto simp: kept_def)
  ultimately show ?thesis using TExt assms(1)
    by (simp add: collapse_extension_def node_type_kv is_key_value_type_def key_packed)
next
  case (TBranch ts v)
  have "does (bindT (encode_node env (node_of env s) False) (\<lambda>e. bindT (delete_node_storage env (node_of env s) False) (\<lambda>_.
      bindT (encode_node env (RL [RB (packed False c), e]) False) (\<lambda>_. returnT (RL [RB (packed False c), e])))))
      st (node_of env (TExt c s)) (\<lambda>m. kept env m (TExt c s))"
  proof (intro does_encode_bind [OF assms(5,7) refl] does_delete_bind does_encode_return)
    fix st1 st2
    assume "grows st st1" "grows st1 st2"
    then show "stored env (dbm st2) (TExt c s)" using kept_grows [OF assms(8)] grows_trans by (simp add: kept_def)
  qed (use assms(6) TBranch in auto)
  then show ?thesis using TBranch assms(1,3,4)
    by (simp add: collapse_extension_def node_type_branch is_key_value_type_def pack_ext)
qed (use assms in auto)

lemma delete_ext:
  assumes "wf_trie (TExt c t)" "nibs k" "subs (TExt c t) \<subseteq> U" "\<And>s. s \<in> del_trace (TExt c t) k \<Longrightarrow> subs s \<subseteq> U" "okT st"
    "stored env (dbm st) (TExt c t)"
    and IH: "\<And>r st. k = c @ r \<Longrightarrow> okT st \<Longrightarrow> stored env (dbm st) t \<Longrightarrow> does (f (node_of env t) r) st (node_of env (del t r)) (\<lambda>m. kept env m (del t r))"
  shows "does (delete_kv_node env f (node_of env (TExt c t)) k) st (node_of env (del (TExt c t) k)) (\<lambda>m. kept env m (del (TExt c t) k))"
proof (cases "prefix c k")
  case False
  then show ?thesis using does_encode_return [of "TExt c t" st] assms(1,3,5,6)
    by (simp add: delete_kv_node_def node_type_kv key_packed is_key_value_type_def starts_with_prefix)
next
  case True
  then obtain r where r: "k = c @ r" by (auto simp: prefix_def)
  let ?s = "del t r"
  have c: "nibs c" "c \<noteq> []" "nibs r" "wf_trie t" "is_branch t" using assms(1,2) r by auto
  have s: "wf_trie ?s" "?s \<noteq> TBlank" using lookup_wf_del [OF c(4,3)] c(5) by auto
  have e: "del (TExt c t) k = join c ?s" using r by simp
  have "del t r \<in> del_trace (TExt c t) k" "join c ?s \<in> del_trace (TExt c t) k" using r del_in_trace [of t r] by simp_all
  then have U: "t \<in> U" "join c ?s \<in> U" "?s \<in> U"
    using assms(3) assms(4) [of ?s] assms(4) [of "join c ?s"] subs_self [of t] subs_self [of ?s] subs_self [of "join c ?s"] by auto
  have body: "delete_kv_node env f (node_of env (TExt c t)) k =
      bindT (decode_to_node env (ref_of env (node_of env t))) (\<lambda>sub_node.
      bindT (delete_and_delete_storage env f sub_node r) (collapse_extension env c))"
    using c r by (simp add: delete_kv_node_def node_type_kv key_packed is_key_value_type_def starts_with_prefix get_inner_node_from_extension_def)
  have t: "in_db env (dbm st) t" "stored env (dbm st) t" using assms(6) by simp_all
  show ?thesis unfolding body e
  proof (rule does_bind [OF does_decode [OF U(1) assms(5) t(1)]])
    fix st1
    assume 1: "grows st st1" "okT st1"
    have d: "does (delete_and_delete_storage env f (node_of env t) r) st1 (node_of env ?s) (\<lambda>m. kept env m ?s)"
      by (rule does_dds [where f = f, OF IH [OF r 1(2) stored_grows [OF t(2) 1(1)]] 1(2)])
    show "does (bindT (delete_and_delete_storage env f (node_of env t) r) (collapse_extension env c)) st1
        (node_of env (join c ?s)) (\<lambda>m. kept env m (join c ?s))"
      by (rule does_bind [OF d], rule does_collapse_ext [OF s c(1,2) U(3,2)])
  qed
qed

lemma ref_blank: "s \<in> U \<Longrightarrow> ref_of env (node_of env s) = BLANK_NODE \<longleftrightarrow> s = TBlank"
  using hash_nonempty [of s] by (cases s) (auto simp: ref_of_def hash_key_def)

lemma does_set_deleted:
  assumes "wf_trie (TBranch ts v)" "i < 16" "nibs r" "del (ts ! i) r \<in> U" "del (TBranch ts v) (i # r) \<in> U" "\<And>j. j < 16 \<Longrightarrow> ts ! j \<in> U"
    "okT st" "stored env (dbm st) (TBranch ts v)" "kept env (dbm st) (del (ts ! i) r)"
  shows "does (bindT (liftT (py_setitem (node_of env (TBranch ts v)) i (ref_of env (node_of env (del (ts ! i) r))))) (\<lambda>node'.
      if ref_of env (node_of env (del (ts ! i) r)) = BLANK_NODE then normalize_branch_node env node'
      else bindT (encode_node env node' False) (\<lambda>_. returnT node'))) st
    (node_of env (del (TBranch ts v) (i # r))) (\<lambda>m. kept env m (del (TBranch ts v) (i # r)))"
proof -
  let ?s = "del (ts ! i) r"
  let ?b = "TBranch (ts[i := ?s]) v"
  have len: "length ts = 16" "wf_trie (ts ! i)" using assms(1,2) by auto
  have nb: "RL ((map (\<lambda>t. ref_of env (node_of env t)) ts @ [RB v])[i := ref_of env (node_of env ?s)]) = node_of env ?b"
    using len(1) assms(2) by (intro node_of_branch_update [symmetric]) simp_all
  have st: "stored env (dbm st) ?b" by (rule stored_branch_update [OF assms(8,9)])
  have e: "del (TBranch ts v) (i # r) = (if ?s = TBlank then normal (ts[i := ?s]) v else ?b)"
    using len(1) assms(2) by (simp only: del.simps Let_def if_True)
  have f: "fill (ts[i := ?s]) v > 0" using fill_update [of i ts ?s v] len(1) assms(1,2) by (auto split: if_splits)
  have w: "\<forall>t \<in> set (ts[i := ?s]). wf_trie t"
    using assms(1) wf_del [OF len(2) assms(3)] set_update_subset_insert [of ts i ?s] by auto
  have U: "ts[i := ?s] ! j \<in> U" if "j < 16" for j using that assms(4,6) len(1) by (cases "j = i") simp_all
  have "does (if ?s = TBlank then normalize_branch_node env (node_of env ?b)
      else bindT (encode_node env (node_of env ?b) False) (\<lambda>_. returnT (node_of env ?b))) st
    (node_of env (del (TBranch ts v) (i # r))) (\<lambda>m. kept env m (del (TBranch ts v) (i # r)))"
  proof (cases "?s = TBlank")
    case True
    then have "normal (ts[i := ?s]) v \<in> U" using assms(5) e by simp
    then show ?thesis using True does_normalize [OF _ w f U _ assms(7) st] len(1) unfolding e by simp
  next
    case False
    then have "?b \<in> U" using assms(5) e by simp
    then show ?thesis using False does_encode_return [OF _ assms(7) st refl] unfolding e by simp
  qed
  moreover have "py_setitem (node_of env (TBranch ts v)) i (ref_of env (node_of env ?s)) = Inr (node_of env ?b)"
    using nb len(1) assms(2) by simp
  ultimately show ?thesis by (simp only: bindT_simps ref_blank [OF assms(4)])
qed

lemma delete_branch:
  assumes "wf_trie (TBranch ts v)" "i < 16" "nibs r" "subs (TBranch ts v) \<subseteq> U" "\<And>s. s \<in> del_trace (TBranch ts v) (i # r) \<Longrightarrow> subs s \<subseteq> U"
    "okT st" "stored env (dbm st) (TBranch ts v)"
    and IH: "\<And>st. okT st \<Longrightarrow> stored env (dbm st) (ts ! i) \<Longrightarrow>
      does (f (node_of env (ts ! i)) r) st (node_of env (del (ts ! i) r)) (\<lambda>m. kept env m (del (ts ! i) r))"
  shows "does (delete_branch_node env f (node_of env (TBranch ts v)) (i # r)) st
    (node_of env (del (TBranch ts v) (i # r))) (\<lambda>m. kept env m (del (TBranch ts v) (i # r)))"
proof -
  let ?t = "ts ! i" and ?s = "del (ts ! i) r" and ?d = "del (TBranch ts v) (i # r)"
  have len: "length ts = 16" "?t \<in> set ts" "wf_trie ?t" using assms(1,2) by auto
  have "?s \<in> del_trace (TBranch ts v) (i # r)" using del_in_trace [of ?t r] len(1) assms(2) by simp
  then have U: "?t \<in> U" "?s \<in> U" "?d \<in> U" "\<And>j. j < 16 \<Longrightarrow> ts ! j \<in> U"
    using subs_self subsetD [OF order_trans [OF subs_child assms(4)]] assms(5) [of ?s] assms(5) [OF del_in_trace] len assms(2) by auto
  have t: "in_db env (dbm st) ?t" "stored env (dbm st) ?t" using assms(7) len(2) by auto
  have body: "delete_branch_node env f (node_of env (TBranch ts v)) (i # r) =
      bindT (decode_to_node env (ref_of env (node_of env ?t))) (\<lambda>sub_node.
      bindT (delete_and_delete_storage env f sub_node r) (\<lambda>new_node.
      bindT (encode_node env new_node False) (\<lambda>e.
      bindT (delete_node_storage env new_node False) (\<lambda>_.
      bindT (liftT (py_setitem (node_of env (TBranch ts v)) i e)) (\<lambda>node'.
        if e = BLANK_NODE then normalize_branch_node env node'
        else bindT (encode_node env node' False) (\<lambda>_. returnT node'))))))"
    using len assms(2) by (simp add: delete_branch_node_def nth_append)
  show ?thesis unfolding body
  proof (rule does_bind [OF does_decode [OF U(1) assms(6) t(1)]])
    fix st1
    assume 1: "grows st st1" "okT st1"
    have d: "does (delete_and_delete_storage env f (node_of env ?t) r) st1 (node_of env ?s) (\<lambda>m. kept env m ?s)"
      by (rule does_dds [where f = f, OF IH [OF 1(2) stored_grows [OF t(2) 1(1)]] 1(2)])
    show "does (bindT (delete_and_delete_storage env f (node_of env ?t) r) (\<lambda>new_node.
      bindT (encode_node env new_node False) (\<lambda>e.
      bindT (delete_node_storage env new_node False) (\<lambda>_.
      bindT (liftT (py_setitem (node_of env (TBranch ts v)) i e)) (\<lambda>node'.
        if e = BLANK_NODE then normalize_branch_node env node'
        else bindT (encode_node env node' False) (\<lambda>_. returnT node')))))) st1 (node_of env ?d) (\<lambda>m. kept env m ?d)"
    proof (rule does_bind [OF d], intro does_encode_bind [OF U(2) _ refl] does_delete_bind)
      fix st2 st3 st4
      assume 2: "grows st1 st2" "okT st2" "kept env (dbm st2) ?s" "grows st2 st3" "grows st3 st4" "okT st4"
      have g: "grows st2 st4" "grows st st4" using grows_trans 1(1) 2 by blast+
      show "does (bindT (liftT (py_setitem (node_of env (TBranch ts v)) i (ref_of env (node_of env ?s)))) (\<lambda>node'.
          if ref_of env (node_of env ?s) = BLANK_NODE then normalize_branch_node env node'
          else bindT (encode_node env node' False) (\<lambda>_. returnT node'))) st4 (node_of env ?d) (\<lambda>m. kept env m ?d)"
        by (rule does_set_deleted [OF assms(1-3) U(2-4) 2(6) stored_grows [OF assms(7) g(2)] kept_grows [OF 2(3) g(1)]])
    qed
  qed
qed

lemma delete_node_correct:
  "wf_trie t \<Longrightarrow> nibs k \<Longrightarrow> subs t \<subseteq> U \<Longrightarrow> (\<And>s. s \<in> del_trace t k \<Longrightarrow> subs s \<subseteq> U) \<Longrightarrow> length k < n \<Longrightarrow> okT st \<Longrightarrow> stored env (dbm st) t \<Longrightarrow>
   does (delete_node env n (node_of env t) k) st (node_of env (del t k)) (\<lambda>m. kept env m (del t k))"
proof (induction t arbitrary: k n st)
  case TBlank
  then obtain n' where n: "n = Suc n'" by (cases n) auto
  show ?case using TBlank by (simp add: n node_type_blank does_return)
next
  case (TLeaf c u)
  then obtain n' where n: "n = Suc n'" by (cases n) auto
  show ?case using TLeaf.prems does_encode_return [of "TLeaf c u" st]
    by (simp add: n node_type_kv is_key_value_type_def delete_kv_node_def key_packed starts_with_prefix does_return)
next
  case (TExt c t)
  then obtain n' where n: "n = Suc n'" by (cases n) auto
  have b: "delete_node env n (node_of env (TExt c t)) k = delete_kv_node env (delete_node env n') (node_of env (TExt c t)) k"
    using TExt.prems(1) by (simp add: n node_type_kv is_key_value_type_def)
  show ?case unfolding b
  proof (rule delete_ext [OF TExt.prems(1-4,6,7)])
    fix r st
    assume r: "k = c @ r" and st: "okT st" "stored env (dbm st) t"
    have "subs s \<subseteq> U" if "s \<in> del_trace t r" for s using TExt.prems(4) [of s] that r by simp
    then show "does (delete_node env n' (node_of env t) r) st (node_of env (del t r)) (\<lambda>m. kept env m (del t r))"
      using TExt.prems(1-3,5) n r st by (intro TExt.IH) (auto simp flip: length_greater_0_conv)
  qed
next
  case (TBranch ts v)
  then obtain n' where n: "n = Suc n'" by (cases n) auto
  have len: "length ts = 16" "fill ts v > 1" using TBranch.prems(1) by simp_all
  have b: "delete_node env n (node_of env (TBranch ts v)) k = delete_branch_node env (delete_node env n') (node_of env (TBranch ts v)) k"
    using len by (simp add: n node_type_branch)
  show ?case
  proof (cases k)
    case Nil
    have f: "fill ts [] > 0" using len(2) fill_value [of ts v] by (auto split: if_splits)
    have nv: "node_of env (TBranch ts []) = RL ((map (\<lambda>t. ref_of env (node_of env t)) ts @ [RB v])[16 := RB []])"
      using len by (intro node_of_branch_value) simp_all
    have U: "ts ! j \<in> U" if "j < 16" for j using subsetD [OF order_trans [OF subs_child TBranch.prems(3)] subs_self] that len by simp
    have "normal ts [] \<in> U" using TBranch.prems(4) [of "normal ts []"] Nil subs_self [of "normal ts []"] by auto
    then show ?thesis using does_normalize [of ts "[]" st] TBranch.prems(1,6,7) f U nv len(1) unfolding b
      by (simp add: Nil delete_branch_node_def)
  next
    case (Cons i r)
    have i: "i < 16" "nibs r" "wf_trie (ts ! i)" "ts ! i \<in> set ts" using TBranch.prems(1,2) Cons len(1) by auto
    have "subs s \<subseteq> U" if "s \<in> del_trace (ts ! i) r" for s using TBranch.prems(4) [of s] that Cons i(1) len(1) by simp
    moreover have "subs (ts ! i) \<subseteq> U" using order_trans [OF subs_child TBranch.prems(3)] i(1) len(1) by simp
    ultimately have IH: "does (delete_node env n' (node_of env (ts ! i)) r) st (node_of env (del (ts ! i) r)) (\<lambda>m. kept env m (del (ts ! i) r))"
      if "okT st" "stored env (dbm st) (ts ! i)" for st
      using that TBranch.prems(5) i Cons n by (intro TBranch.IH) auto
    show ?thesis unfolding Cons b [unfolded Cons]
    proof (rule delete_branch [OF TBranch.prems(1) i(1,2) TBranch.prems(3)])
      show "subs s \<subseteq> U" if "s \<in> del_trace (TBranch ts v) (i # r)" for s using TBranch.prems(4) [of s] that Cons by simp
    qed (use TBranch.prems(6,7) IH in simp_all)
  qed
qed

end

end
