(* ===== verification/State_Trie.thy ===== *)
theory State_Trie
  imports Trie_Refinement
begin

text \<open>
  The public methods of the state trie over any key-value storage that keeps its contract: a
  history of updates and deletions, the contents it leaves, and the root hash.
\<close>

section \<open>Assumptions on the hash function and the codec\<close>

text \<open>\<^verbatim>\<open>rlp.decode\<close> inverts \<^verbatim>\<open>rlp.codec.encode_raw\<close> up to the length limit of the format.\<close>

definition codec_ok :: "(item \<Rightarrow> bytes) \<Rightarrow> (bytes \<Rightarrow> item result) \<Rightarrow> bool" where
  "codec_ok enc dec = (\<forall>x. pure_item x \<longrightarrow> length (enc x) < 256 ^ 8 \<longrightarrow> dec (enc x) = Inr x)"

text \<open>The nodes of a set of trees are short enough to encode, and their hashes have 32 bytes and differ.\<close>

definition hash_ok :: "'kv trie_env \<Rightarrow> trie set \<Rightarrow> bool" where
  "hash_ok env U =
     ((\<forall>t \<in> U. length (rlp_encode env (node_of env t)) < 256 ^ 8 \<and> length (hash_key env t) = 32) \<and>
      (\<forall>t \<in> U. \<forall>t' \<in> U. hash_key env t = hash_key env t' \<longrightarrow>
         rlp_encode env (node_of env t) = rlp_encode env (node_of env t')))"

lemma pure_node_of: "pure_item (node_of env t)"
  by (induction t) (auto simp: ref_of_def list_all_iff)

lemma hash_ok_subset: "hash_ok env U \<Longrightarrow> V \<subseteq> U \<Longrightarrow> hash_ok env V"
  unfolding hash_ok_def by blast

lemma PersistentDB_simps [simp]:
  "rlp_encode (PersistentDB ops enc dec H n) = enc"
  "rlp_lib_decode (PersistentDB ops enc dec H n) = dec"
  "sha3 (PersistentDB ops enc dec H n) = H"
  "db_get (PersistentDB ops enc dec H n) = kv_get ops"
  "inc_refcount (PersistentDB ops enc dec H n) = kv_put ops"
  "dec_refcount (PersistentDB ops enc dec H n) = (\<lambda>s _. s)"
  "recursion_limit (PersistentDB ops enc dec H n) = n"
  by (simp_all add: PersistentDB_def)

text \<open>The storage does not show in the nodes.\<close>

lemma PersistentDB_nodes:
  "node_of (PersistentDB ops enc dec H n) t = node_of (PersistentDB ops' enc dec H n) t"
  "hash_key (PersistentDB ops enc dec H n) t = hash_key (PersistentDB ops' enc dec H n) t"
  "BLANK_ROOT (PersistentDB ops enc dec H n) = BLANK_ROOT (PersistentDB ops' enc dec H n)"
proof -
  show "node_of (PersistentDB ops enc dec H n) t = node_of (PersistentDB ops' enc dec H n) t" for t
    by (induction t) (auto simp: ref_of_def)
  then show "hash_key (PersistentDB ops enc dec H n) t = hash_key (PersistentDB ops' enc dec H n) t"
    "BLANK_ROOT (PersistentDB ops enc dec H n) = BLANK_ROOT (PersistentDB ops' enc dec H n)"
    by (simp_all add: hash_key_def BLANK_ROOT_def)
qed

lemma hash_ok_PersistentDB: "hash_ok (PersistentDB ops enc dec H n) U \<Longrightarrow> hash_ok (PersistentDB ops' enc dec H n) U"
  unfolding hash_ok_def PersistentDB_nodes [where ops = ops and ops' = ops'] PersistentDB_simps .

lemma persistent_trie_storage:
  assumes "kv_storage ops kv_map kv_inv" "codec_ok enc dec" "hash_ok (PersistentDB ops enc dec H n) U"
  shows "trie_storage (PersistentDB ops enc dec H n) kv_map kv_inv U"
proof
  let ?env = "PersistentDB ops enc dec H n"
  fix s :: 'a and k v :: bytes
  assume i: "kv_inv s"
  show "db_get ?env s k = (case kv_map s k of None \<Rightarrow> Inl KeyError | Some v \<Rightarrow> Inr v)"
    using kv_storage.get_spec [OF assms(1) i] by simp
  show "kv_inv (inc_refcount ?env s k v)" "kv_map (inc_refcount ?env s k v) = (kv_map s)(k \<mapsto> v)"
    using kv_storage.put_inv [OF assms(1) i] kv_storage.put_map [OF assms(1) i] by simp_all
  show "kv_inv (dec_refcount ?env s k)" "kv_map (dec_refcount ?env s k) = kv_map s" using i by simp_all
next
  let ?env = "PersistentDB ops enc dec H n"
  fix t t'
  assume t: "t \<in> U"
  have l: "length (rlp_encode ?env (node_of ?env t)) < 256 ^ 8" "length (hash_key ?env t) = 32"
    using assms(3) t unfolding hash_ok_def by blast+
  show "rlp_lib_decode ?env (rlp_encode ?env (node_of ?env t)) = Inr (node_of ?env t)"
    using assms(2) l(1) pure_node_of [of ?env t] by (simp add: codec_ok_def)
  show "hash_key ?env t \<noteq> []" using l(2) by auto
  show "t' \<in> U \<Longrightarrow> hash_key ?env t = hash_key ?env t' \<Longrightarrow>
      rlp_encode ?env (node_of ?env t) = rlp_encode ?env (node_of ?env t')"
    using assms(3) t unfolding hash_ok_def by blast
qed

section \<open>Methods on a trie that represents a tree\<close>

context trie_storage
begin

definition represents :: "'kv Trie \<Rightarrow> trie \<Rightarrow> bool" where
  "represents st t =
     (okT st \<and> root_node st = node_of env t \<and> wf_trie t \<and> subs t \<subseteq> U \<and> stored env (dbm st) t \<and>
      (t = TBlank \<or> dbm st (hash_key env t) = Some (rlp_encode env (node_of env t))))"

lemma grows_frame: "grows st st' \<Longrightarrow> t_proof st' = t_proof st \<and> root_node st' = root_node st"
  unfolding grows_def by (cases st; cases st') auto

lemma does_root:
  assumes "okT st" "t \<in> U" "stored env (dbm st) t" "wf_trie t" "subs t \<subseteq> U"
  shows "\<exists>st'. bindT (modifyT (\<lambda>st. st\<lparr>root_node := node_of env t\<rparr>)) (\<lambda>_. replace_root_hash env old (node_of env t)) st = (Inr (), st') \<and>
    represents st' t \<and> dbm st \<subseteq>\<^sub>m dbm st' \<and> t_proof st' = t_proof st"
proof -
  let ?st = "st\<lparr>root_node := node_of env t\<rparr>"
  have ok: "okT ?st" using assms(1) by (simp add: okT_def)
  have "does (bindT (delete_node_storage env old True) (\<lambda>_. encode_node env (node_of env t) True)) ?st
      (if t = TBlank then BLANK_NODE else RB (hash_key env t))
      (\<lambda>m. t = TBlank \<or> m (hash_key env t) = Some (rlp_encode env (node_of env t)))"
  proof (rule does_delete_bind [OF ok])
    fix st'
    assume "okT st'"
    then show "does (encode_node env (node_of env t) True) st' (if t = TBlank then BLANK_NODE else RB (hash_key env t))
        (\<lambda>m. t = TBlank \<or> m (hash_key env t) = Some (rlp_encode env (node_of env t)))"
      using does_encode_root [OF assms(2), of st'] by (cases "t = TBlank") (auto simp: encode_node_def does_return)
  qed
  then obtain e st' where st': "bindT (delete_node_storage env old True) (\<lambda>_. encode_node env (node_of env t) True) ?st = (Inr e, st')"
    "grows ?st st'" "t = TBlank \<or> dbm st' (hash_key env t) = Some (rlp_encode env (node_of env t))"
    unfolding does_def by blast
  have s: "stored env (dbm st') t" using stored_grows [OF _ st'(2)] assms(3) by simp
  have r: "root_node st' = node_of env t" "t_proof st' = t_proof st" using grows_frame [OF st'(2)] by simp_all
  have "replace_root_hash env old (node_of env t) ?st = (Inr (), st'\<lparr>root_node := node_of env t\<rparr>)"
    using st'(1) unfolding replace_root_hash_def bindT_assoc [symmetric] by (simp add: bindT_app modifyT_def)
  moreover have "st'\<lparr>root_node := node_of env t\<rparr> = st'" using r(1) by (cases st') simp
  moreover have "represents st' t" using grows_ok [OF st'(2)] r s st'(3) assms(4,5) by (simp add: represents_def)
  ultimately show ?thesis using grows_map [OF st'(2)] r(2) by (intro exI [of _ st']) (simp add: bindT_def modifyT_def)
qed

lemma update_correct:
  assumes "represents st t" "subs (upd t (bin_to_nibbles key) v) \<subseteq> U" "v \<noteq> []" "2 * length key < recursion_limit env"
  shows "\<exists>st'. trie_update env key v st = (Inr (), st') \<and> represents st' (upd t (bin_to_nibbles key) v) \<and> dbm st \<subseteq>\<^sub>m dbm st' \<and> t_proof st' = t_proof st"
proof -
  let ?t = "upd t (bin_to_nibbles key) v"
  have r: "okT st" "root_node st = node_of env t" "wf_trie t" "subs t \<subseteq> U" "stored env (dbm st) t" using assms(1) by (simp_all add: represents_def)
  have "does (update_node env (recursion_limit env) (node_of env t) (bin_to_nibbles key) v) st (node_of env ?t) (\<lambda>m. kept env m ?t)"
    using r assms(2,4) by (intro update_node_correct) simp_all
  from does_uds [where f = "update_node env (recursion_limit env)", OF this r(1)]
  obtain st1 where 1: "update_and_delete_storage env (update_node env (recursion_limit env)) (node_of env t) (bin_to_nibbles key) v st = (Inr (node_of env ?t), st1)"
    "grows st st1" "kept env (dbm st1) ?t" unfolding does_def by blast
  have t: "stored env (dbm st1) ?t" "?t \<in> U" "wf_trie ?t"
    using 1(3) assms(2,3) subs_self [of ?t] wf_upd [OF r(3)] by (auto simp: kept_def)
  obtain st2 where 2: "bindT (modifyT (\<lambda>st. st\<lparr>root_node := node_of env ?t\<rparr>)) (\<lambda>_. replace_root_hash env (node_of env t) (node_of env ?t)) st1 = (Inr (), st2)"
    "represents st2 ?t" "dbm st1 \<subseteq>\<^sub>m dbm st2" "t_proof st2 = t_proof st1"
    using does_root [OF grows_ok [OF 1(2)] t(2,1,3) assms(2)] by blast
  have "trie_update env key v st = (Inr (), st2)"
    unfolding trie_update_def Let_def r(2) by (subst bindT_app, rule 1(1), rule 2(1))
  then show ?thesis using 2 map_le_trans [OF grows_map [OF 1(2)] 2(3)] grows_frame [OF 1(2)] by auto
qed

lemma delete_correct:
  assumes "represents st t" "\<And>s. s \<in> del_trace t (bin_to_nibbles key) \<Longrightarrow> subs s \<subseteq> U" "2 * length key < recursion_limit env"
  shows "\<exists>st'. trie_delete env key st = (Inr (), st') \<and> represents st' (del t (bin_to_nibbles key)) \<and> dbm st \<subseteq>\<^sub>m dbm st' \<and> t_proof st' = t_proof st"
proof -
  let ?t = "del t (bin_to_nibbles key)"
  have r: "okT st" "root_node st = node_of env t" "wf_trie t" "subs t \<subseteq> U" "stored env (dbm st) t" using assms(1) by (simp_all add: represents_def)
  have U: "subs ?t \<subseteq> U" "?t \<in> U" using assms(2) [OF del_in_trace] subs_self [of ?t] by auto
  have "does (delete_node env (recursion_limit env) (node_of env t) (bin_to_nibbles key)) st (node_of env ?t) (\<lambda>m. kept env m ?t)"
    using r assms(2,3) by (intro delete_node_correct) simp_all
  from does_dds [where f = "delete_node env (recursion_limit env)", OF this r(1)]
  obtain st1 where 1: "delete_and_delete_storage env (delete_node env (recursion_limit env)) (node_of env t) (bin_to_nibbles key) st = (Inr (node_of env ?t), st1)"
    "grows st st1" "kept env (dbm st1) ?t" unfolding does_def by blast
  have t: "stored env (dbm st1) ?t" "wf_trie ?t" using 1(3) wf_del [OF r(3)] by (auto simp: kept_def)
  obtain st2 where 2: "bindT (modifyT (\<lambda>st. st\<lparr>root_node := node_of env ?t\<rparr>)) (\<lambda>_. replace_root_hash env (node_of env t) (node_of env ?t)) st1 = (Inr (), st2)"
    "represents st2 ?t" "dbm st1 \<subseteq>\<^sub>m dbm st2" "t_proof st2 = t_proof st1"
    using does_root [OF grows_ok [OF 1(2)] U(2) t U(1)] by blast
  have "trie_delete env key st = (Inr (), st2)"
    unfolding trie_delete_def Let_def r(2) by (subst bindT_app, rule 1(1), rule 2(1))
  then show ?thesis using 2 map_le_trans [OF grows_map [OF 1(2)] 2(3)] grows_frame [OF 1(2)] by auto
qed

lemma get_correct:
  assumes "represents st t" "2 * length key < recursion_limit env"
  shows "trie_get env key st = (Inr (Some (RB (lookup t (bin_to_nibbles key)))), st)"
proof -
  have "kv_inv (t_db st)" "\<not> pc_proving (t_proof st)" using assms(1) by (simp_all add: represents_def okT_def)
  then show ?thesis using assms get_node_correct [of t "bin_to_nibbles key" "recursion_limit env" st] stored_path_stored [of env "dbm st" t "bin_to_nibbles key"]
    by (simp add: represents_def trie_get_def bindT_app [OF grab_all_not_proving] returnT_def)
qed

lemma root_hash_correct:
  assumes "represents st t"
  shows "get_root_hash env st = (Inr (if t = TBlank then BLANK_ROOT env else hash_key env t), st)"
proof -
  have "\<not> pc_proving (t_proof st)" "root_node st = node_of env t" using assms by (simp_all add: represents_def okT_def)
  then show ?thesis by (cases t) (auto simp: get_root_hash_def spv_grabbing_def bindT_def liftT_def returnT_def hash_key_def)
qed

end

section \<open>Histories\<close>

text \<open>A key with a value is an update, a key without one a deletion.\<close>

type_synonym history = "(bytes \<times> bytes option) list"

definition no_proof :: ProofConstructor where
  "no_proof = \<lparr>pc_proving = False, pc_mode = [], pc_nodes = [], pc_exempt = []\<rparr>"

definition mk_Trie :: "'kv \<Rightarrow> ProofConstructor \<Rightarrow> 'kv Trie" where
  "mk_Trie db p = \<lparr>t_db = db, root_node = BLANK_NODE, t_proof = p\<rparr>"

fun run_trie :: "'kv trie_env \<Rightarrow> history \<Rightarrow> ('kv, unit) tm" where
  "run_trie env [] = returnT ()"
| "run_trie env ((k, Some v) # h) = bindT (trie_update env k v) (\<lambda>_. run_trie env h)"
| "run_trie env ((k, None) # h) = bindT (trie_delete env k) (\<lambda>_. run_trie env h)"

definition contents :: "history \<Rightarrow> bytes \<Rightarrow> bytes" where
  "contents h = fold (\<lambda>(k, v) m. m(k := (case v of None \<Rightarrow> [] | Some v \<Rightarrow> v))) h (\<lambda>_. [])"

fun tree_after :: "trie \<Rightarrow> history \<Rightarrow> trie" where
  "tree_after t [] = t"
| "tree_after t ((k, Some v) # h) = tree_after (upd t (bin_to_nibbles k) v) h"
| "tree_after t ((k, None) # h) = tree_after (del t (bin_to_nibbles k)) h"

text \<open>The trees with a node that a history reads or writes.\<close>

fun history_trees :: "trie \<Rightarrow> history \<Rightarrow> trie set" where
  "history_trees t [] = subs t"
| "history_trees t ((k, Some v) # h) = subs t \<union> history_trees (upd t (bin_to_nibbles k) v) h"
| "history_trees t ((k, None) # h) =
     subs t \<union> (\<Union>s \<in> del_trace t (bin_to_nibbles k). subs s) \<union> history_trees (del t (bin_to_nibbles k)) h"

text \<open>
  A history without the empty value, and with keys for which the recursion limit is enough. The trie
  has the empty value for an absent key; \<^verbatim>\<open>update\<close> does not refuse it (the lines that would turn it
  into a deletion are commented out), but its callers in the repository never pass it: \<^verbatim>\<open>PruningState\<close>
  stores the encoding of a list.
\<close>

definition valid_history :: "'kv trie_env \<Rightarrow> history \<Rightarrow> bool" where
  "valid_history env h = list_all (\<lambda>(k, v). v \<noteq> Some [] \<and> 2 * length k < recursion_limit env) h"

lemma history_trees_self: "subs t \<subseteq> history_trees t h"
  by (induction h rule: history_trees.induct) auto

lemma tree_after_lookup:
  "valid_history env h \<Longrightarrow> wf_trie t \<Longrightarrow>
   wf_trie (tree_after t h) \<and>
   (\<forall>k. lookup (tree_after t h) k =
     (if \<exists>b. k = bin_to_nibbles b then fold (\<lambda>(k, v) m. m(k := (case v of None \<Rightarrow> [] | Some v \<Rightarrow> v))) h
        (\<lambda>b. lookup t (bin_to_nibbles b)) (THE b. k = bin_to_nibbles b) else lookup t k))"
proof (induction t h rule: tree_after.induct)
  case (1 t)
  have "(THE b. bin_to_nibbles c = bin_to_nibbles b) = c" for c using inj_bin_to_nibbles by blast
  then show ?case using 1 by auto
next
  case (2 t k v h)
  have "(\<lambda>b. lookup (upd t (bin_to_nibbles k) v) (bin_to_nibbles b)) = (\<lambda>b. lookup t (bin_to_nibbles b))(k := v)"
    using lookup_upd [OF 2(3) nibs_bin, of k v] inj_bin_to_nibbles by (auto simp: fun_eq_iff)
  moreover have "wf_trie (upd t (bin_to_nibbles k) v)" using wf_upd [OF 2(3)] 2(2) by (simp add: valid_history_def)
  moreover have "lookup (upd t (bin_to_nibbles k) v) k' = lookup t k'" if "\<nexists>b. k' = bin_to_nibbles b" for k'
    using lookup_upd [OF 2(3) nibs_bin, of k v] that by auto
  ultimately show ?case using 2(1,2) by (simp add: valid_history_def)
next
  case (3 t k h)
  have "(\<lambda>b. lookup (del t (bin_to_nibbles k)) (bin_to_nibbles b)) = (\<lambda>b. lookup t (bin_to_nibbles b))(k := [])"
    using lookup_del [OF 3(3) nibs_bin, of k] inj_bin_to_nibbles by (auto simp: fun_eq_iff)
  moreover have "wf_trie (del t (bin_to_nibbles k))" using wf_del [OF 3(3)] by simp
  moreover have "lookup (del t (bin_to_nibbles k)) k' = lookup t k'" if "\<nexists>b. k' = bin_to_nibbles b" for k'
    using lookup_del [OF 3(3) nibs_bin, of k] that by auto
  ultimately show ?case using 3(1,2) by (simp add: valid_history_def)
qed

lemma tree_after_contents:
  assumes "valid_history env h"
  shows "wf_trie (tree_after TBlank h)" "lookup (tree_after TBlank h) (bin_to_nibbles b) = contents h b"
    "(\<nexists>b. k = bin_to_nibbles b) \<Longrightarrow> lookup (tree_after TBlank h) k = []"
proof -
  have "(THE b'. bin_to_nibbles b = bin_to_nibbles b') = b" using inj_bin_to_nibbles by blast
  then show "wf_trie (tree_after TBlank h)" "lookup (tree_after TBlank h) (bin_to_nibbles b) = contents h b"
    "(\<nexists>b. k = bin_to_nibbles b) \<Longrightarrow> lookup (tree_after TBlank h) k = []"
    using tree_after_lookup [OF assms, of TBlank] by (auto simp: contents_def)
qed

lemma same_contents_same_tree:
  assumes "valid_history env h" "valid_history env' h'" "contents h = contents h'"
  shows "tree_after TBlank h = tree_after TBlank h'"
proof (rule contents_determine_trie)
  show "lookup (tree_after TBlank h) = lookup (tree_after TBlank h')"
  proof
    fix k
    show "lookup (tree_after TBlank h) k = lookup (tree_after TBlank h') k"
      using tree_after_contents [OF assms(1)] tree_after_contents [OF assms(2)] assms(3)
      by (cases "\<exists>b. k = bin_to_nibbles b") auto
  qed
qed (use tree_after_contents(1) assms in auto)

context trie_storage
begin

lemma run_correct:
  "represents st t \<Longrightarrow> valid_history env h \<Longrightarrow> history_trees t h \<subseteq> U \<Longrightarrow>
   \<exists>st'. run_trie env h st = (Inr (), st') \<and> represents st' (tree_after t h) \<and> dbm st \<subseteq>\<^sub>m dbm st' \<and> t_proof st' = t_proof st"
proof (induction t h arbitrary: st rule: tree_after.induct)
  case (1 t)
  then show ?case by (simp add: returnT_def)
next
  case (2 t k v h)
  have u: "subs (upd t (bin_to_nibbles k) v) \<subseteq> U"
    using history_trees_self [of "upd t (bin_to_nibbles k) v" h] 2(4) by auto
  obtain st1 where 1: "trie_update env k v st = (Inr (), st1)" "represents st1 (upd t (bin_to_nibbles k) v)" "dbm st \<subseteq>\<^sub>m dbm st1" "t_proof st1 = t_proof st"
    using update_correct [OF 2(2) u] 2(3) by (auto simp: valid_history_def)
  obtain st2 where 2: "run_trie env h st1 = (Inr (), st2)" "represents st2 (tree_after (upd t (bin_to_nibbles k) v) h)" "dbm st1 \<subseteq>\<^sub>m dbm st2" "t_proof st2 = t_proof st1"
    using 2(1) [OF 1(2)] 2(3,4) by (auto simp: valid_history_def)
  have "run_trie env ((k, Some v) # h) st = (Inr (), st2)" unfolding run_trie.simps by (subst bindT_app, rule 1(1), rule 2(1))
  then show ?case using 2 1(4) map_le_trans [OF 1(3) 2(3)] by auto
next
  case (3 t k h)
  have u: "subs s \<subseteq> U" if "s \<in> del_trace t (bin_to_nibbles k)" for s using 3(4) that by auto
  obtain st1 where 1: "trie_delete env k st = (Inr (), st1)" "represents st1 (del t (bin_to_nibbles k))" "dbm st \<subseteq>\<^sub>m dbm st1" "t_proof st1 = t_proof st"
    using delete_correct [OF 3(2) u] 3(3) by (auto simp: valid_history_def)
  obtain st2 where 2: "run_trie env h st1 = (Inr (), st2)" "represents st2 (tree_after (del t (bin_to_nibbles k)) h)" "dbm st1 \<subseteq>\<^sub>m dbm st2" "t_proof st2 = t_proof st1"
    using 3(1) [OF 1(2)] 3(3,4) by (auto simp: valid_history_def)
  have "run_trie env ((k, None) # h) st = (Inr (), st2)" unfolding run_trie.simps by (subst bindT_app, rule 1(1), rule 2(1))
  then show ?case using 2 1(4) map_le_trans [OF 1(3) 2(3)] by auto
qed

lemma blank_represents:
  "kv_inv db \<Longrightarrow> addressed (kv_map db) \<Longrightarrow> TBlank \<in> U \<Longrightarrow> \<not> pc_proving p \<Longrightarrow> represents (mk_Trie db p) TBlank"
  by (simp add: represents_def okT_def mk_Trie_def)

lemma addressed_empty: "addressed Map.empty"
  by (simp add: addressed_def)

end

section \<open>Properties\<close>

lemma TBlank_in_history: "TBlank \<in> history_trees TBlank h"
  using history_trees_self [of TBlank h] by simp

lemma history_run:
  assumes "kv_storage ops kv_map kv_inv" "codec_ok enc dec" "kv_inv db" "kv_map db = Map.empty"
    "env = PersistentDB ops enc dec H n" "hash_ok env (history_trees TBlank h)" "valid_history env h"
  obtains st where "run_trie env h (mk_Trie db no_proof) = (Inr (), st)"
    "trie_storage.represents env kv_map kv_inv (history_trees TBlank h) st (tree_after TBlank h)"
    "trie_storage env kv_map kv_inv (history_trees TBlank h)" "t_proof st = no_proof"
proof -
  have S: "trie_storage env kv_map kv_inv (history_trees TBlank h)"
    using persistent_trie_storage [OF assms(1,2)] assms(5,6) by simp
  have "trie_storage.represents env kv_map kv_inv (history_trees TBlank h) (mk_Trie db no_proof) TBlank"
    using trie_storage.blank_represents [OF S assms(3)] trie_storage.addressed_empty [OF S] assms(4) TBlank_in_history
    by (simp add: no_proof_def)
  from trie_storage.run_correct [OF S this assms(7) order_refl] show ?thesis
    using that S by (auto simp: mk_Trie_def)
qed

text \<open>
  C2: the state trie is a map: whatever updates to non-empty values and deletions follow on an empty
  trie over a storage that keeps its contract, all of them succeed, and reading any key gives the
  value that it has then, the empty value when it has none. Deletion, splitting and collapsing of
  nodes and their storage by hash do not show. Hashes of the nodes of the history must not collide,
  and a key is shorter than half of the recursion limit.
\<close>

theorem state_trie_is_map:
  assumes "kv_storage ops kv_map kv_inv" "codec_ok enc dec" "kv_inv db" "kv_map db = Map.empty"
    and "env = PersistentDB ops enc dec H n" "hash_ok env (history_trees TBlank h)" "valid_history env h"
  shows "\<exists>st. run_trie env h (mk_Trie db no_proof) = (Inr (), st) \<and>
    (\<forall>key. 2 * length key < n \<longrightarrow> trie_get env key st = (Inr (Some (RB (contents h key))), st))"
proof -
  obtain st where st: "run_trie env h (mk_Trie db no_proof) = (Inr (), st)"
    "trie_storage.represents env kv_map kv_inv (history_trees TBlank h) st (tree_after TBlank h)"
    "trie_storage env kv_map kv_inv (history_trees TBlank h)" by (rule history_run [OF assms])
  have "trie_get env key st = (Inr (Some (RB (contents h key))), st)" if "2 * length key < n" for key
    using trie_storage.get_correct [OF st(3,2), of key] that tree_after_contents(2) [OF assms(7)] by (simp add: assms(5))
  then show ?thesis using st(1) by blast
qed

text \<open>
  C3: the root hash depends on the contents only: two histories of updates to non-empty values and
  deletions, on storages of any kind, that leave the same value for every key leave the same root
  hash. Hashes must not collide and keys are short, as before.
\<close>

theorem root_hash_of_contents:
  assumes "kv_storage ops kv_map kv_inv" "codec_ok enc dec" "kv_inv db" "kv_map db = Map.empty"
    and "env = PersistentDB ops enc dec H n" "hash_ok env (history_trees TBlank h)" "valid_history env h"
    and "kv_storage ops' kv_map' kv_inv'" "kv_inv' db'" "kv_map' db' = Map.empty"
    and "env' = PersistentDB ops' enc dec H n" "hash_ok env' (history_trees TBlank h')" "valid_history env' h'"
    and "contents h = contents h'"
  shows "\<exists>root. fst (bindT (run_trie env h) (\<lambda>_. get_root_hash env) (mk_Trie db no_proof)) = Inr root \<and>
    fst (bindT (run_trie env' h') (\<lambda>_. get_root_hash env') (mk_Trie db' no_proof)) = Inr root"
proof -
  obtain st where st: "run_trie env h (mk_Trie db no_proof) = (Inr (), st)"
    "trie_storage.represents env kv_map kv_inv (history_trees TBlank h) st (tree_after TBlank h)"
    "trie_storage env kv_map kv_inv (history_trees TBlank h)" by (rule history_run [OF assms(1-7)])
  obtain st' where st': "run_trie env' h' (mk_Trie db' no_proof) = (Inr (), st')"
    "trie_storage.represents env' kv_map' kv_inv' (history_trees TBlank h') st' (tree_after TBlank h')"
    "trie_storage env' kv_map' kv_inv' (history_trees TBlank h')" by (rule history_run [OF assms(8,2,9-13)])
  have "hash_key env t = hash_key env' t" "BLANK_ROOT env = BLANK_ROOT env'" for t
    unfolding assms(5,11) by (rule PersistentDB_nodes)+
  moreover have "bindT (run_trie env h) (\<lambda>_. get_root_hash env) (mk_Trie db no_proof) = get_root_hash env st"
    "bindT (run_trie env' h') (\<lambda>_. get_root_hash env') (mk_Trie db' no_proof) = get_root_hash env' st'"
    by (rule bindT_app, rule st(1), rule bindT_app, rule st'(1))
  ultimately show ?thesis
    using same_contents_same_tree [OF assms(7,13,14)] trie_storage.root_hash_correct [OF st(3,2)] trie_storage.root_hash_correct [OF st'(3,2)]
    by simp
qed

text \<open>An instance: the in-memory storage, the format of \<^verbatim>\<open>Rlp\<close> and a function with 32-byte values.\<close>

definition demo_hash :: "bytes \<Rightarrow> bytes" where
  "demo_hash e = take 16 (e @ [1] @ replicate 16 0) @ take 16 (rev e @ [1] @ replicate 16 0)"

definition demo_trie_env :: "kvm trie_env" where
  "demo_trie_env = PersistentDB kvm_ops (encode_optimized be_bytes) (decode_optimized be_value) demo_hash 100"

definition demo_history :: history where
  "demo_history = [([18], Some (replicate 20 7)), ([18, 52], Some (replicate 20 8)), ([86], Some [9]), ([18], None)]"

definition demo_history2 :: history where
  "demo_history2 = [([86], Some [9]), ([18, 52], Some (replicate 20 8))]"

lemma be_codec_ok: "codec_ok (encode_optimized be_bytes) (decode_optimized be_value)"
  unfolding codec_ok_def using be.decode_enc by blast

lemma hash_okI:
  assumes "U \<subseteq> set us" "list_all (\<lambda>t. length (rlp_encode env (node_of env t)) < 256 ^ 8 \<and> length (hash_key env t) = 32) us"
    "distinct (map (hash_key env) us)"
  shows "hash_ok env U"
proof -
  have "inj_on (hash_key env) (set us)" using assms(3) by (simp add: distinct_map)
  then have "t \<in> U \<Longrightarrow> t' \<in> U \<Longrightarrow> hash_key env t = hash_key env t' \<Longrightarrow> t = t'" for t t' using assms(1) by (meson inj_onD subsetD)
  then show ?thesis using assms(1,2) unfolding hash_ok_def list_all_iff by blast
qed

definition demo_trees :: "trie list" where
  "demo_trees =
     (let v7 = replicate 20 7; v8 = replicate 20 8; b = TBranch (blanks[3 := TLeaf [4] v8]) v7 in
      [TBlank, TLeaf [1, 2] v7, TLeaf [4] v8, b, TExt [1, 2] b, TExt [2] b, TLeaf [6] [9],
       TBranch (blanks[1 := TExt [2] b, 5 := TLeaf [6] [9]]) [], TLeaf [3, 4] v8, TLeaf [2, 3, 4] v8,
       TBranch (blanks[1 := TLeaf [2, 3, 4] v8, 5 := TLeaf [6] [9]]) [], TLeaf [5, 6] [9]])"

lemma demo_trees_ok: "hash_ok demo_trie_env (set demo_trees)"
proof (rule hash_okI [OF order_refl])
  show "distinct (map (hash_key demo_trie_env) demo_trees)" by code_simp
  have "list_all (\<lambda>t. length (rlp_encode demo_trie_env (node_of demo_trie_env t)) < 100 \<and> length (hash_key demo_trie_env t) = 32) demo_trees"
    by code_simp
  then show "list_all (\<lambda>t. length (rlp_encode demo_trie_env (node_of demo_trie_env t)) < 256 ^ 8 \<and> length (hash_key demo_trie_env t) = 32) demo_trees"
    by (rule list.pred_mono_strong) simp
qed

lemma demo_hash_ok:
  "hash_ok demo_trie_env (history_trees TBlank demo_history)" "hash_ok demo_trie_env (history_trees TBlank demo_history2)"
  by (rule hash_ok_subset [OF demo_trees_ok], code_simp)+

lemma demo_valid: "valid_history demo_trie_env demo_history" "valid_history demo_trie_env demo_history2"
  by code_simp+

interpretation demo_trie: trie_storage demo_trie_env map_of "\<lambda>d. distinct (map fst d)" "set demo_trees"
  unfolding demo_trie_env_def
  by (rule persistent_trie_storage [OF kvm.kv_storage_axioms be_codec_ok demo_trees_ok [unfolded demo_trie_env_def]])

text \<open>
  The restriction to non-empty values is needed: an update with the empty value leaves a branch that
  a deletion then cannot normalize, and the same contents have another root hash.
\<close>

lemma empty_value_breaks_trie:
  "fst (run_trie demo_trie_env [([18], Some []), ([18, 52], Some [7]), ([18, 52], None)] (mk_Trie [] no_proof)) = Inl AssertionError"
  "contents [([18], Some [])] = contents []"
  "fst (bindT (run_trie demo_trie_env [([18], Some [])]) (\<lambda>_. get_root_hash demo_trie_env) (mk_Trie [] no_proof)) \<noteq>
   fst (bindT (run_trie demo_trie_env []) (\<lambda>_. get_root_hash demo_trie_env) (mk_Trie [] no_proof))"
proof -
  show "fst (run_trie demo_trie_env [([18], Some []), ([18, 52], Some [7]), ([18, 52], None)] (mk_Trie [] no_proof)) = Inl AssertionError"
    by code_simp
  show "contents [([18], Some [])] = contents []" by (simp add: contents_def fun_eq_iff)
  show "fst (bindT (run_trie demo_trie_env [([18], Some [])]) (\<lambda>_. get_root_hash demo_trie_env) (mk_Trie [] no_proof)) \<noteq>
   fst (bindT (run_trie demo_trie_env []) (\<lambda>_. get_root_hash demo_trie_env) (mk_Trie [] no_proof))" by code_simp
qed

theorem state_trie_is_map_witness:
  "\<exists>st. run_trie demo_trie_env demo_history (mk_Trie [] no_proof) = (Inr (), st) \<and>
    trie_get demo_trie_env [18, 52] st = (Inr (Some (RB (replicate 20 8))), st) \<and>
    trie_get demo_trie_env [18] st = (Inr (Some (RB [])), st)"
proof -
  have c: "contents demo_history [18, 52] = replicate 20 8" "contents demo_history [18] = []" by code_simp+
  show ?thesis
    using state_trie_is_map [OF kvm.kv_storage_axioms be_codec_ok _ _ demo_trie_env_def demo_hash_ok(1) demo_valid(1), of "[]"] c
    by auto
qed


lemma demo_same_contents: "contents demo_history = contents demo_history2"
  by (auto simp: contents_def demo_history_def demo_history2_def fun_eq_iff)

theorem root_hash_of_contents_witness:
  "\<exists>root. fst (bindT (run_trie demo_trie_env demo_history) (\<lambda>_. get_root_hash demo_trie_env) (mk_Trie [] no_proof)) = Inr root \<and>
    fst (bindT (run_trie demo_trie_env demo_history2) (\<lambda>_. get_root_hash demo_trie_env) (mk_Trie [] no_proof)) = Inr root"
  by (rule root_hash_of_contents [OF kvm.kv_storage_axioms be_codec_ok _ _ demo_trie_env_def demo_hash_ok(1) demo_valid(1)
        kvm.kv_storage_axioms _ _ demo_trie_env_def demo_hash_ok(2) demo_valid(2) demo_same_contents]) simp_all

end
