(* ===== verification/Trie_Proofs.thy ===== *)
theory Trie_Proofs
  imports State_Trie
begin

text \<open>
  State proofs (\<^verbatim>\<open>state/trie/pruning_trie.py\<close>). A proof for a key is the list of nodes that a look-up
  reads, with the root node at the end, plain or encoded. The verifier looks the key up in a trie
  that has only the nodes of the proof. Both use the proof constructor of the module, a stack
  that is part of the state: an exception between \<^verbatim>\<open>push\<close> and \<^verbatim>\<open>pop\<close> leaves it changed.
\<close>

section \<open>Definitions\<close>

definition get_at :: "'kv trie_env \<Rightarrow> item \<Rightarrow> bytes \<Rightarrow> ('kv, item option) tm" where
  "get_at env root key = trie_get_node env (recursion_limit env) root (bin_to_nibbles key)"

definition root_or_head :: "item option \<Rightarrow> 'kv Trie \<Rightarrow> item" where
  "root_or_head root st = (case root of None \<Rightarrow> root_node st | Some r \<Rightarrow> r)"

text \<open>The value is part of the result when it is asked for.\<close>

definition produce_spv_proof ::
  "'kv trie_env \<Rightarrow> bytes \<Rightarrow> item option \<Rightarrow> bool \<Rightarrow> ('kv, item list \<times> item option option) tm" where
  "produce_spv_proof env key root get_value st =
     bindT (modifyT (\<lambda>st. st\<lparr>t_proof := pc_push (rlp_encode env) RECORDING [] (t_proof st)\<rparr>)) (\<lambda>_.
     bindT (get_at env (root_or_head root st) key) (\<lambda>rv.
     bindT (get_nodelist env) (\<lambda>nodes.
     bindT (modifyT (\<lambda>st. st\<lparr>t_proof := pc_pop (t_proof st)\<rparr>)) (\<lambda>_.
     returnT (nodes, if get_value then Some (if rv = Some BLANK_NODE then None else rv) else None))))) st"

datatype state_proof = ProofNodes "item list" | ProofBytes bytes

definition serialize_proof :: "'kv trie_env \<Rightarrow> item list \<Rightarrow> bytes" where
  "serialize_proof env proof_nodes = rlp_encode env (RL proof_nodes)"

definition deserialize_proof :: "bytes \<Rightarrow> item result" where
  "deserialize_proof ser_proof = decode_optimized be_value ser_proof"

definition finish_state_proof ::
  "'kv trie_env \<Rightarrow> item option \<Rightarrow> bool \<Rightarrow> ('kv, item list \<times> 'v) tm \<Rightarrow> ('kv, state_proof \<times> 'v) tm" where
  "finish_state_proof env root serialize func st =
     bindT func (\<lambda>(pf, v).
       let pf' = pf @ [root_or_head root st] in
       returnT (if serialize then ProofBytes (serialize_proof env pf') else ProofNodes pf', v)) st"

definition generate_state_proof ::
  "'kv trie_env \<Rightarrow> bytes \<Rightarrow> item option \<Rightarrow> bool \<Rightarrow> bool \<Rightarrow> ('kv, state_proof \<times> item option option) tm" where
  "generate_state_proof env key root serialize get_value st =
     finish_state_proof env root serialize (produce_spv_proof env key (Some (root_or_head root st)) get_value) st"

text \<open>
  The verifiers have their own trie over an in-memory storage; the proof constructor is the state
  they share with the rest. An iteration over a byte string gives integers, which have no encoding:
  \<^verbatim>\<open>push\<close> raises then after it has pushed two of the three stacks.
\<close>

definition proof_items :: "item \<Rightarrow> item list result" where
  "proof_items x = (case x of RL xs \<Rightarrow> Inr xs | RB b \<Rightarrow> if b = [] then Inr [] else Inl EncodingError | RI _ \<Rightarrow> Inl TypeError)"

definition pc_push_fails :: "int \<Rightarrow> ProofConstructor \<Rightarrow> ProofConstructor" where
  "pc_push_fails mode p = p\<lparr>pc_proving := True, pc_mode := mode # pc_mode p, pc_exempt := [] # pc_exempt p\<rparr>"

definition get_new_trie_with_proof_nodes :: "kvm trie_env \<Rightarrow> item list \<Rightarrow> ProofConstructor \<Rightarrow> kvm Trie" where
  "get_new_trie_with_proof_nodes env proof_nodes p =
     (mk_Trie [] p)\<lparr>t_db := foldl (\<lambda>d node. let R = rlp_encode env node in kvm_put d (sha3 env R) R) [] proof_nodes\<rparr>"

definition with_proof_nodes ::
  "kvm trie_env \<Rightarrow> state_proof \<Rightarrow> (kvm Trie \<Rightarrow> bool \<times> kvm Trie) \<Rightarrow> ProofConstructor \<Rightarrow> bool result \<times> ProofConstructor" where
  "with_proof_nodes env proof_nodes check p =
     (case (case proof_nodes of ProofNodes ns \<Rightarrow> Inr (RL ns) | ProofBytes b \<Rightarrow> deserialize_proof b) of
        Inl e \<Rightarrow> (Inl e, p)
      | Inr x \<Rightarrow>
          (case proof_items x of
             Inl e \<Rightarrow> (Inl e, pc_push_fails VERIFYING p)
           | Inr nodes \<Rightarrow>
               (case check (get_new_trie_with_proof_nodes env nodes (pc_push (rlp_encode env) VERIFYING nodes p)) of
                  (ok, st) \<Rightarrow> (Inr ok, pc_pop (t_proof st)))))"

definition check_value :: "kvm trie_env \<Rightarrow> bytes \<Rightarrow> bytes \<Rightarrow> item option \<Rightarrow> kvm Trie \<Rightarrow> bool \<times> kvm Trie" where
  "check_value env root key value st =
     (case bindT (set_root_hash env root) (\<lambda>_. trie_get env key) st of
        (Inl e, st') \<Rightarrow> (False, st')
      | (Inr v, st') \<Rightarrow> (v = value, st'))"

definition verify_spv_proof ::
  "kvm trie_env \<Rightarrow> bytes \<Rightarrow> bytes \<Rightarrow> item option \<Rightarrow> state_proof \<Rightarrow> ProofConstructor \<Rightarrow> bool result \<times> ProofConstructor" where
  "verify_spv_proof env root key value proof_nodes = with_proof_nodes env proof_nodes (check_value env root key value)"

fun check_values :: "kvm trie_env \<Rightarrow> (bytes \<times> item option) list \<Rightarrow> kvm Trie \<Rightarrow> bool \<times> kvm Trie" where
  "check_values env [] st = (True, st)"
| "check_values env ((k, v) # key_values) st =
     (case trie_get env k st of
        (Inl e, st') \<Rightarrow> (False, st')
      | (Inr w, st') \<Rightarrow> if v \<noteq> w then (False, st') else check_values env key_values st')"

definition verify_spv_proof_multi ::
  "kvm trie_env \<Rightarrow> bytes \<Rightarrow> (bytes \<times> item option) list \<Rightarrow> state_proof \<Rightarrow> ProofConstructor \<Rightarrow> bool result \<times> ProofConstructor" where
  "verify_spv_proof_multi env root key_values proof_nodes =
     with_proof_nodes env proof_nodes (\<lambda>st.
       case set_root_hash env root st of
         (Inl e, st') \<Rightarrow> (False, st')
       | (Inr _, st') \<Rightarrow> check_values env key_values st')"

section \<open>The nodes of a proof\<close>

lemma hashed_sub: "n \<in> set (hashed env t) \<Longrightarrow> n = node_of env t"
  by (simp add: hashed_def split: if_splits)

lemma path_nodes_sub: "n \<in> set (path_nodes env t k) \<Longrightarrow> \<exists>s \<in> subs t. n = node_of env s"
proof (induction t arbitrary: k)
  case (TExt c t)
  then show ?case using hashed_sub [of n env t] subs_self [of t] by (auto split: if_splits)
next
  case (TBranch ts v)
  then obtain i r where k: "k = i # r" "i < length ts" "n \<in> set (hashed env (ts ! i)) \<or> n \<in> set (path_nodes env (ts ! i) r)"
    by (cases k) (auto split: if_splits)
  have "\<exists>s \<in> subs (ts ! i). n = node_of env s"
    using k(3) TBranch.IH [OF nth_mem [OF k(2)], of r] hashed_sub [of n env "ts ! i"] subs_self [of "ts ! i"] by blast
  then show ?case using nth_mem [OF k(2)] by auto
qed simp_all

definition proof_db :: "(item \<Rightarrow> bytes) \<Rightarrow> (bytes \<Rightarrow> bytes) \<Rightarrow> kvm \<Rightarrow> item list \<Rightarrow> kvm" where
  "proof_db enc H d ns = foldl (\<lambda>d node. let R = enc node in kvm_put d (H R) R) d ns"

lemma proof_db_lookup:
  "map_of (proof_db enc H d ns) k = Some e \<Longrightarrow> map_of d k = Some e \<or> (\<exists>n \<in> set ns. e = enc n \<and> k = H e)"
proof (induction ns arbitrary: d)
  case (Cons n ns)
  from Cons.IH [of "kvm_put d (H (enc n)) (enc n)"] Cons.prems show ?case
    by (simp add: proof_db_def Let_def kvm_put_def update_conv' split: if_splits) blast+
qed (simp add: proof_db_def)

lemma proof_db_dom: "dom (map_of (proof_db enc H d ns)) = dom (map_of d) \<union> (\<lambda>n. H (enc n)) ` set ns"
  by (induction ns arbitrary: d) (auto simp: proof_db_def Let_def kvm_put_def update_conv')

lemma proof_db_distinct: "distinct (map fst d) \<Longrightarrow> distinct (map fst (proof_db enc H d ns))"
  by (induction ns arbitrary: d) (auto simp: proof_db_def Let_def kvm_put_def distinct_update)

lemma proof_db_has:
  assumes "n \<in> set ns" "\<And>m. m \<in> set ns \<Longrightarrow> H (enc m) = H (enc n) \<Longrightarrow> enc m = enc n"
  shows "map_of (proof_db enc H [] ns) (H (enc n)) = Some (enc n)"
proof -
  obtain e where e: "map_of (proof_db enc H [] ns) (H (enc n)) = Some e"
    using proof_db_dom [of enc H "[]" ns] assms(1) by (auto simp: dom_def set_eq_iff)
  from proof_db_lookup [OF this] obtain m where "m \<in> set ns" "e = enc m" "H (enc n) = H e" by auto
  then show ?thesis using e assms(2) [of m] by simp
qed

lemma grab_verifying:
  assumes "hd (pc_mode (t_proof st)) = VERIFYING" "pc_nodes (t_proof st) = es # rest" "rlp_encode env ` set ns \<subseteq> set es"
  shows "grab_all env ns st = (Inr (), st)"
  using assms(3)
proof (induction ns)
  case (Cons n ns)
  have "spv_grabbing env n st = (Inr (), st)" using assms(1,2) Cons.prems by (simp add: spv_grabbing_def Let_def VERIFYING_def RECORDING_def)
  then show ?case using Cons by (simp add: bindT_app)
qed (simp add: returnT_def)

definition recorded :: "bytes list \<Rightarrow> (item \<Rightarrow> bytes) \<Rightarrow> item list \<Rightarrow> bytes list" where
  "recorded es enc ns = foldl (\<lambda>es n. List.insert (enc n) es) es ns"

lemma set_recorded: "set (recorded es enc ns) = set es \<union> enc ` set ns"
  by (induction ns arbitrary: es) (auto simp: recorded_def)

lemma grab_recording:
  assumes "pc_proving (t_proof st)" "pc_mode (t_proof st) = RECORDING # ms" "pc_nodes (t_proof st) = es # rest" "pc_exempt (t_proof st) = [] # xs"
  shows "grab_all env ns st = (Inr (), st\<lparr>t_proof := (t_proof st)\<lparr>pc_nodes := recorded es (rlp_encode env) ns # rest\<rparr>\<rparr>)"
  using assms
proof (induction ns arbitrary: st es)
  case Nil
  then show ?case by (cases st; cases "t_proof st") (auto simp: returnT_def recorded_def)
next
  case (Cons n ns)
  let ?st = "st\<lparr>t_proof := (t_proof st)\<lparr>pc_nodes := List.insert (rlp_encode env n) es # rest\<rparr>\<rparr>"
  have 1: "spv_grabbing env n st = (Inr (), ?st)" using Cons.prems by (simp add: spv_grabbing_def add_node_def Let_def)
  show ?case using Cons.IH [of ?st "List.insert (rlp_encode env n) es"] Cons.prems
    by (simp add: bindT_def 1 recorded_def)
qed

lemma mapE_decodes:
  assumes "\<And>e. e \<in> set es \<Longrightarrow> \<exists>n \<in> N. e = enc n" "\<And>n. n \<in> N \<Longrightarrow> dec (enc n) = Inr n"
  shows "\<exists>ns. mapE dec es = Inr ns \<and> map enc ns = es \<and> set ns \<subseteq> N"
  using assms(1)
proof (induction es)
  case (Cons e es)
  obtain n where "n \<in> N" "e = enc n" using Cons.prems [of e] by auto
  moreover obtain ns where "mapE dec es = Inr ns" "map enc ns = es" "set ns \<subseteq> N" using Cons by (meson list.set_intros(2))
  ultimately show ?case using assms(2) [of n] by auto
qed simp

lemma bindT_InrE:
  assumes "bindT m f st = (Inr r, st')"
  obtains x st1 where "m st = (Inr x, st1)" "f x st1 = (Inr r, st')"
  using assms by (auto simp: bindT_def split: prod.splits sum.splits)

lemma spv_grabbing_root: "root_node (snd (spv_grabbing env n st)) = root_node st"
  by (simp add: spv_grabbing_def Let_def split: list.split)

section \<open>Production\<close>

context trie_storage
begin

lemma node_inj: "s \<in> U \<Longrightarrow> s' \<in> U \<Longrightarrow> rlp_encode env (node_of env s) = rlp_encode env (node_of env s') \<Longrightarrow> node_of env s = node_of env s'"
proof -
  assume s: "s \<in> U" "s' \<in> U" and e: "rlp_encode env (node_of env s) = rlp_encode env (node_of env s')"
  have "Inr (node_of env s) = rlp_lib_decode env (rlp_encode env (node_of env s'))" by (subst e [symmetric], rule codec [OF s(1), symmetric])
  also have "\<dots> = Inr (node_of env s')" by (rule codec [OF s(2)])
  finally show ?thesis by (rule sum.inject(2) [THEN iffD1])
qed

text \<open>A walk between \<^verbatim>\<open>push\<close> and \<^verbatim>\<open>pop\<close> gives the nodes it read and leaves the state as it was.\<close>

lemma record_correct:
  assumes "t_proof st = no_proof" "set ps \<subseteq> node_of env ` U"
    and walk: "m (st\<lparr>t_proof := pc_push (rlp_encode env) RECORDING [] no_proof\<rparr>) =
      bindT (grab_all env ps) (\<lambda>_. returnT x) (st\<lparr>t_proof := pc_push (rlp_encode env) RECORDING [] no_proof\<rparr>)"
  shows "\<exists>ns. set ns = set ps \<and>
    bindT (modifyT (\<lambda>st. st\<lparr>t_proof := pc_push (rlp_encode env) RECORDING [] (t_proof st)\<rparr>)) (\<lambda>_. bindT m (\<lambda>rv. bindT (get_nodelist env) (\<lambda>nodes.
      bindT (modifyT (\<lambda>st. st\<lparr>t_proof := pc_pop (t_proof st)\<rparr>)) (\<lambda>_. f nodes rv)))) st = f ns x st"
proof -
  let ?enc = "rlp_encode env" and ?p = "pc_push (rlp_encode env) RECORDING [] no_proof"
  let ?st1 = "st\<lparr>t_proof := ?p\<rparr>" and ?st2 = "st\<lparr>t_proof := ?p\<lparr>pc_nodes := [recorded [] ?enc ps]\<rparr>\<rparr>"
  have p: "pc_proving ?p" "pc_mode ?p = [RECORDING]" "pc_nodes ?p = [[]]" "pc_exempt ?p = [[]]"
    by (simp_all add: pc_push_def no_proof_def RECORDING_def VERIFYING_def)
  have "grab_all env ps ?st1 = (Inr (), ?st2)"
    using grab_recording [of ?st1 "[]" "[]" "[]" "[]" env ps] p by simp
  then have 1: "m ?st1 = (Inr x, ?st2)" unfolding walk by (simp add: bindT_def returnT_def)
  obtain ns where ns: "mapE (rlp_lib_decode env) (recorded [] ?enc ps) = Inr ns" "map ?enc ns = recorded [] ?enc ps" "set ns \<subseteq> set ps"
    using mapE_decodes [of "recorded [] ?enc ps" "set ps" ?enc "rlp_lib_decode env"] assms(2) codec by (auto simp: set_recorded)
  have "n \<in> set ns" if n: "n \<in> set ps" for n
  proof -
    have "?enc n \<in> set (map ?enc ns)" using n by (simp add: ns(2) set_recorded)
    then obtain m where m: "m \<in> set ns" "?enc m = ?enc n" by auto
    obtain s s' where "s \<in> U" "n = node_of env s" "s' \<in> U" "m = node_of env s'" using n m(1) ns(3) assms(2) by blast
    then show ?thesis using m node_inj [of s' s] by simp
  qed
  then have "set ns = set ps" using ns(3) by blast
  moreover have "get_nodelist env ?st2 = (Inr ns, ?st2)" by (simp add: get_nodelist_def liftT_def ns(1))
  moreover have "pc_pop (?p\<lparr>pc_nodes := [recorded [] ?enc ps]\<rparr>) = no_proof"
    by (simp add: pc_pop_def pc_push_def no_proof_def)
  moreover have e: "st\<lparr>t_proof := no_proof\<rparr> = st" using assms(1) by (cases st) simp
  ultimately show ?thesis using 1
    by (intro exI [of _ ns] conjI) (simp_all add: bindT_def modifyT_def returnT_def assms(1) e)
qed

lemma path_nodes_U: "subs t \<subseteq> U \<Longrightarrow> set (path_nodes env t k) \<subseteq> node_of env ` U"
  using path_nodes_sub [of _ env t k] by blast

lemma produce_spv_proof_correct:
  assumes "okT st" "t_proof st = no_proof" "wf_trie t" "subs t \<subseteq> U" "stored env (dbm st) t" "2 * length key < recursion_limit env"
    and "root_or_head root st = node_of env t"
  shows "\<exists>ns. produce_spv_proof env key root gv st =
      (Inr (ns, if gv then Some (if lookup t (bin_to_nibbles key) = [] then None else Some (RB (lookup t (bin_to_nibbles key)))) else None), st) \<and>
    set ns = set (path_nodes env t (bin_to_nibbles key))"
proof -
  let ?k = "bin_to_nibbles key" and ?st1 = "st\<lparr>t_proof := pc_push (rlp_encode env) RECORDING [] no_proof\<rparr>"
  have "get_at env (node_of env t) key ?st1 = bindT (grab_all env (path_nodes env t ?k)) (\<lambda>_. returnT (Some (RB (lookup t ?k)))) ?st1"
    unfolding get_at_def using assms stored_path_stored [OF assms(5)] by (intro get_node_correct) (simp_all add: okT_def)
  from record_correct [where m = "get_at env (node_of env t) key" and f = "\<lambda>nodes rv. returnT (nodes, if gv then Some (if rv = Some BLANK_NODE then None else rv) else None)",
      OF assms(2) path_nodes_U [OF assms(4)] this]
  show ?thesis unfolding produce_spv_proof_def assms(7) by (auto simp: returnT_def)
qed

end

section \<open>Verification\<close>

lemma VERIFYING_neq [simp]: "VERIFYING \<noteq> RECORDING"
  by (simp add: VERIFYING_def RECORDING_def)

abbreviation proof_trie :: "kvm trie_env \<Rightarrow> item list \<Rightarrow> ProofConstructor \<Rightarrow> kvm Trie" where
  "proof_trie env ns p \<equiv> get_new_trie_with_proof_nodes env ns (pc_push (rlp_encode env) VERIFYING ns p)"

lemma proof_trie_simps [simp]:
  "t_db (proof_trie env ns p) = proof_db (rlp_encode env) (sha3 env) [] ns"
  "pc_proving (t_proof (proof_trie env ns p))"
  "pc_mode (t_proof (proof_trie env ns p)) = VERIFYING # pc_mode p"
  "pc_nodes (t_proof (proof_trie env ns p)) = remdups (map (rlp_encode env) ns) # pc_nodes p"
  "pc_pop (t_proof (proof_trie env ns p)) = p\<lparr>pc_proving := pc_mode p \<noteq> []\<rparr>"
  by (simp_all add: get_new_trie_with_proof_nodes_def proof_db_def mk_Trie_def pc_push_def pc_pop_def Let_def)

text \<open>The nodes that a proof has, if it has the form of one.\<close>

definition proof_nodes_of :: "state_proof \<Rightarrow> item list" where
  "proof_nodes_of pf =
     (case pf of ProofNodes ns \<Rightarrow> ns | ProofBytes b \<Rightarrow> (case deserialize_proof b of Inr (RL ns) \<Rightarrow> ns | _ \<Rightarrow> []))"

lemma with_proof_nodes_True:
  assumes "fst (with_proof_nodes env pf check p) = Inr True"
  shows "fst (check (proof_trie env (proof_nodes_of pf) p))"
  using assms by (auto simp: with_proof_nodes_def proof_items_def proof_nodes_of_def split: state_proof.splits sum.splits prod.splits item.splits if_splits)

lemma check_value_single: "verify_spv_proof env root key value pf p = verify_spv_proof_multi env root [(key, value)] pf p"
  unfolding verify_spv_proof_def verify_spv_proof_multi_def with_proof_nodes_def check_value_def
  by (auto simp: bindT_def fun_eq_iff split: prod.splits sum.splits state_proof.splits)

locale hashed_storage = trie_storage +
  assumes blank_U: "TBlank \<in> U" and hash_len: "t \<in> U \<Longrightarrow> length (hash_key env t) = 32"
begin

lemma blank_root: "BLANK_ROOT env = hash_key env TBlank"
  by (simp add: BLANK_ROOT_def hash_key_def)

lemma root_not_blank:
  assumes "t \<in> U" "t \<noteq> TBlank"
  shows "hash_key env t \<noteq> BLANK_ROOT env"
proof
  assume "hash_key env t = BLANK_ROOT env"
  then have "rlp_encode env (node_of env t) = rlp_encode env (node_of env TBlank)"
    using hash_inj [OF assms(1) blank_U] blank_root by simp
  from node_inj [OF assms(1) blank_U this] show False using assms(2) by simp
qed

lemma set_root_hash_spec:
  assumes "t \<in> U"
  shows "set_root_hash env (hash_key env t) =
    (if t = TBlank then modifyT (\<lambda>st. st\<lparr>root_node := BLANK_NODE\<rparr>)
     else bindT (decode_to_node env (RB (hash_key env t))) (\<lambda>node. modifyT (\<lambda>st. st\<lparr>root_node := node\<rparr>)))"
  using root_not_blank [OF assms] hash_len [OF assms] blank_root by (simp add: set_root_hash_def)

end

locale proof_storage =
  hashed_storage env "map_of :: kvm \<Rightarrow> bytes \<rightharpoonup> bytes" "\<lambda>d. distinct (map fst d)" U for env :: "kvm trie_env" and U
begin

lemma proof_db_stored:
  assumes "set ns \<subseteq> node_of env ` U" "n \<in> set ns"
  shows "map_of (proof_db (rlp_encode env) (sha3 env) [] ns) (sha3 env (rlp_encode env n)) = Some (rlp_encode env n)"
proof (rule proof_db_has [OF assms(2)])
  fix m
  assume m: "m \<in> set ns" "sha3 env (rlp_encode env m) = sha3 env (rlp_encode env n)"
  obtain s s' where "s \<in> U" "m = node_of env s" "s' \<in> U" "n = node_of env s'" using assms m(1) by blast
  then show "rlp_encode env m = rlp_encode env n" using m(2) hash_inj [of s s'] by (simp add: hash_key_def)
qed

lemma set_root_complete:
  assumes t: "wf_trie t" "subs t \<subseteq> U"
    and nodes: "node_of env t \<in> set ns" "set ns \<subseteq> node_of env ` U"
  shows "set_root_hash env (hash_key env t) (proof_trie env ns p) = (Inr (), (proof_trie env ns p)\<lparr>root_node := node_of env t\<rparr>)"
proof (cases "t = TBlank")
  case False
  let ?st = "proof_trie env ns p"
  have U: "t \<in> U" using t(2) subs_self by blast
  have "db_get env (t_db ?st) (hash_key env t) = Inr (rlp_encode env (node_of env t))"
    using get_spec [of "t_db ?st"] proof_db_stored [OF nodes(2,1)] proof_db_distinct [of "[]"] by (simp add: hash_key_def)
  moreover have "grab_all env [node_of env t] ?st = (Inr (), ?st)" using nodes(1) by (intro grab_verifying [where es = "remdups (map (rlp_encode env) ns)" and rest = "pc_nodes p"]) auto
  then have "spv_grabbing env (node_of env t) ?st = (Inr (), ?st)"
    by (auto simp: bindT_def returnT_def split: prod.splits sum.splits)
  ultimately have "decode_to_node env (RB (hash_key env t)) ?st = (Inr (node_of env t), ?st)"
    using hash_nonempty [OF U] codec [OF U] by (simp add: bindT_def liftT_def returnT_def)
  then show ?thesis using False by (simp add: set_root_hash_spec [OF U] bindT_def modifyT_def)
qed (simp add: set_root_hash_spec [OF blank_U] modifyT_def)

lemma get_complete:
  assumes t: "wf_trie t" "subs t \<subseteq> U" "2 * length key < recursion_limit env"
    and nodes: "set (path_nodes env t (bin_to_nibbles key)) \<subseteq> set ns" "set ns \<subseteq> node_of env ` U"
    and st: "st = (proof_trie env ns p)\<lparr>root_node := node_of env t\<rparr>"
  shows "trie_get env key st = (Inr (Some (RB (lookup t (bin_to_nibbles key)))), st)"
proof -
  let ?k = "bin_to_nibbles key"
  have "path_stored env (map_of (t_db st)) t ?k"
    using proof_db_stored [OF nodes(2)] nodes(1) unfolding path_stored_def st by auto
  moreover have "distinct (map fst (t_db st))" using proof_db_distinct [of "[]"] by (simp add: st)
  ultimately have "trie_get_node env (recursion_limit env) (node_of env t) ?k st =
      bindT (grab_all env (path_nodes env t ?k)) (\<lambda>_. returnT (Some (RB (lookup t ?k)))) st"
    using t by (intro get_node_correct) simp_all
  moreover have "grab_all env (path_nodes env t ?k) st = (Inr (), st)" using nodes(1) by (intro grab_verifying [where es = "remdups (map (rlp_encode env) ns)" and rest = "pc_nodes p"]) (auto simp: st)
  ultimately show ?thesis by (simp add: trie_get_def st bindT_def returnT_def)
qed

lemma decode_sound:
  assumes "t \<in> U" "distinct (map fst (t_db st))" "addressed (map_of (t_db st))" "decode_to_node env (RB (hash_key env t)) st = (Inr n, st')"
  shows "n = node_of env t \<and> t_db st' = t_db st \<and> root_node st' = root_node st"
proof -
  obtain e where e: "map_of (t_db st) (hash_key env t) = Some e"
    using assms(4) hash_nonempty [OF assms(1)] get_spec [OF assms(2), of "hash_key env t"]
    by (cases "map_of (t_db st) (hash_key env t)") (simp_all add: bindT_def liftT_def)
  then have "map_of (t_db st) (hash_key env t) = Some (rlp_encode env (node_of env t))" using assms(1,3) by (simp add: addressed_def)
  then have d: "db_get env (t_db st) (hash_key env t) = Inr (rlp_encode env (node_of env t))" using get_spec [OF assms(2)] by simp
  have "decode_to_node env (RB (hash_key env t)) st = bindT (spv_grabbing env (node_of env t)) (\<lambda>_. returnT (node_of env t)) st"
    using hash_nonempty [OF assms(1)] codec [OF assms(1)] d by (simp add: bindT_app liftT_def)
  from trans [OF this [symmetric] assms(4)] show ?thesis using spv_grabbing_db [of env "node_of env t" st] spv_grabbing_root [of env "node_of env t" st]
    by (auto simp: bindT_def returnT_def split: prod.splits sum.splits)
qed

lemma decode_ref_sound:
  assumes "t \<in> U" "distinct (map fst (t_db st))" "addressed (map_of (t_db st))"
    "decode_to_node env (ref_of env (node_of env t)) st = (Inr n, st')"
  shows "n = node_of env t \<and> t_db st' = t_db st \<and> root_node st' = root_node st"
proof (cases "t = TBlank \<or> length (rlp_encode env (node_of env t)) < 32")
  case True
  then have "decode_to_node env (ref_of env (node_of env t)) = returnT (node_of env t)"
    by (cases t) (auto simp: ref_of_def)
  then have "returnT (node_of env t) st = (Inr n, st')" using assms(4) by (simp only:)
  then show ?thesis by (simp add: returnT_def)
next
  case False
  then have "ref_of env (node_of env t) = RB (hash_key env t)" by (simp add: ref_of_def hash_key_def)
  then show ?thesis using decode_sound [OF assms(1-3), of n st'] assms(4) by (simp only:)
qed

lemma get_node_sound:
  "wf_trie t \<Longrightarrow> nibs k \<Longrightarrow> subs t \<subseteq> U \<Longrightarrow> distinct (map fst (t_db st)) \<Longrightarrow> addressed (map_of (t_db st)) \<Longrightarrow>
   trie_get_node env n (node_of env t) k st = (Inr r, st') \<Longrightarrow> r = Some (RB (lookup t k)) \<and> t_db st' = t_db st \<and> root_node st' = root_node st"
proof (induction t arbitrary: k n st)
  case TBlank
  then obtain n' where n: "n = Suc n'" by (cases n) (auto simp: raiseT_def)
  show ?case using TBlank.prems(6) unfolding n get_node_steps by (simp add: returnT_def)
next
  case (TLeaf c v)
  then obtain n' where n: "n = Suc n'" by (cases n) (auto simp: raiseT_def)
  have "nibs c" using TLeaf.prems(1) by simp
  then show ?case using TLeaf.prems(6) unfolding n by (simp only: get_node_steps) (simp add: returnT_def)
next
  case (TExt c t)
  then obtain n' where n: "n = Suc n'" by (cases n) (auto simp: raiseT_def)
  have c: "nibs c" "c \<noteq> []" "wf_trie t" "subs t \<subseteq> U" using TExt.prems(1,3) by auto
  have U: "t \<in> U" using c(4) subs_self by blast
  have run: "(if prefix c k then bindT (decode_to_node env (ref_of env (node_of env t))) (\<lambda>s. trie_get_node env n' s (drop (length c) k))
      else returnT (Some BLANK_NODE)) st = (Inr r, st')"
    using TExt.prems(6) unfolding n by (simp only: get_node_steps c simp_thms)
  show ?case
  proof (cases "prefix c k")
    case True
    then obtain s st1 where 1: "decode_to_node env (ref_of env (node_of env t)) st = (Inr s, st1)"
      "trie_get_node env n' s (drop (length c) k) st1 = (Inr r, st')"
      using run by (auto elim: bindT_InrE)
    have "s = node_of env t \<and> t_db st1 = t_db st \<and> root_node st1 = root_node st" by (rule decode_ref_sound [OF U TExt.prems(4,5) 1(1)])
    moreover have "nibs (drop (length c) k)" using TExt.prems(2) by simp
    ultimately show ?thesis using TExt.IH [OF c(3) _ c(4), of "drop (length c) k" st1 n'] 1(2) TExt.prems(4,5) True
      by (auto simp: prefix_def)
  next
    case False
    then show ?thesis using run by (simp add: returnT_def)
  qed
next
  case (TBranch ts v)
  then obtain n' where n: "n = Suc n'" by (cases n) (auto simp: raiseT_def)
  have len: "length ts = 16" using TBranch.prems(1) by simp
  show ?case
  proof (cases k)
    case Nil
    then show ?thesis using TBranch.prems(6) unfolding n by (simp only: get_node_steps len) (simp add: returnT_def)
  next
    case (Cons i q)
    have i: "i < 16" "ts ! i \<in> set ts" "nibs q" using TBranch.prems(2) Cons len by auto
    have t: "wf_trie (ts ! i)" "subs (ts ! i) \<subseteq> U" using TBranch.prems(1,3) i UN_upper [OF i(2), of subs] by auto
    have U: "ts ! i \<in> U" using t(2) subs_self by blast
    have "bindT (decode_to_node env (ref_of env (node_of env (ts ! i)))) (\<lambda>s. trie_get_node env n' s q) st = (Inr r, st')"
      using TBranch.prems(6) unfolding n Cons by (simp only: get_node_steps len i)
    then obtain s st1 where 1: "decode_to_node env (ref_of env (node_of env (ts ! i))) st = (Inr s, st1)"
      "trie_get_node env n' s q st1 = (Inr r, st')" by (rule bindT_InrE)
    have "s = node_of env (ts ! i) \<and> t_db st1 = t_db st \<and> root_node st1 = root_node st" by (rule decode_ref_sound [OF U TBranch.prems(4,5) 1(1)])
    then show ?thesis using TBranch.IH [OF i(2) t(1) i(3) t(2), of st1 n'] 1(2) TBranch.prems(4,5) i len Cons by simp
  qed
qed

lemma set_root_sound:
  assumes "t \<in> U" "distinct (map fst (t_db st))" "addressed (map_of (t_db st))" "set_root_hash env (hash_key env t) st = (Inr u, st')"
  shows "root_node st' = node_of env t \<and> t_db st' = t_db st"
proof (cases "t = TBlank")
  case True
  then show ?thesis using assms(4) by (auto simp: set_root_hash_spec [OF blank_U] modifyT_def)
next
  case False
  then have "bindT (decode_to_node env (RB (hash_key env t))) (\<lambda>node. modifyT (\<lambda>st. st\<lparr>root_node := node\<rparr>)) st = (Inr u, st')"
    using assms(4) by (simp only: set_root_hash_spec [OF assms(1)] if_False)
  then obtain s st1 where 1: "decode_to_node env (RB (hash_key env t)) st = (Inr s, st1)" "modifyT (\<lambda>st. st\<lparr>root_node := s\<rparr>) st1 = (Inr u, st')"
    by (rule bindT_InrE)
  show ?thesis using decode_sound [OF assms(1-3) 1(1)] 1(2) by (auto simp: modifyT_def)
qed

definition no_collision :: "item list \<Rightarrow> bool" where
  "no_collision ns = (\<forall>n \<in> set ns. \<forall>t \<in> U. sha3 env (rlp_encode env n) = hash_key env t \<longrightarrow> rlp_encode env n = rlp_encode env (node_of env t))"

lemma proof_db_addressed: "no_collision ns \<Longrightarrow> addressed (map_of (proof_db (rlp_encode env) (sha3 env) [] ns))"
  unfolding addressed_def no_collision_def using proof_db_lookup [of "rlp_encode env" "sha3 env" "[]" ns] by fastforce

lemma check_values_sound:
  "wf_trie t \<Longrightarrow> subs t \<subseteq> U \<Longrightarrow> root_node st = node_of env t \<Longrightarrow> distinct (map fst (t_db st)) \<Longrightarrow> addressed (map_of (t_db st)) \<Longrightarrow>
   fst (check_values env kvs st) \<Longrightarrow> (k, v) \<in> set kvs \<Longrightarrow> v = Some (RB (lookup t (bin_to_nibbles k)))"
proof (induction kvs arbitrary: st)
  case (Cons kv kvs)
  obtain k' v' where kv: "kv = (k', v')" by (cases kv)
  obtain w st1 where w: "trie_get env k' st = (Inr w, st1)" "v' = w" "fst (check_values env kvs st1)"
    using Cons.prems(6) unfolding kv by (auto split: prod.splits sum.splits if_splits)
  have 1: "w = Some (RB (lookup t (bin_to_nibbles k'))) \<and> t_db st1 = t_db st \<and> root_node st1 = root_node st"
    using w(1) Cons.prems(3) by (intro get_node_sound [OF Cons.prems(1) nibs_bin Cons.prems(2,4,5)]) (simp add: trie_get_def)
  show ?case
  proof (cases "(k, v) = kv")
    case True
    then show ?thesis using 1 w(2) by (simp add: kv)
  next
    case False
    then show ?thesis using Cons.IH [of st1] Cons.prems 1 w(3) by auto
  qed
qed simp

lemma verify_sound:
  assumes t: "wf_trie t" "subs t \<subseteq> U" and nc: "no_collision (proof_nodes_of pf)"
    and ok: "fst (verify_spv_proof_multi env (hash_key env t) kvs pf p) = Inr True" and kv: "(k, v) \<in> set kvs"
  shows "v = Some (RB (lookup t (bin_to_nibbles k)))"
proof -
  let ?st = "proof_trie env (proof_nodes_of pf) p"
  have a: "distinct (map fst (t_db ?st))" "addressed (map_of (t_db ?st))"
    using proof_db_distinct [of "[]"] proof_db_addressed [OF nc] by simp_all
  obtain u st1 where 1: "set_root_hash env (hash_key env t) ?st = (Inr u, st1)" "fst (check_values env kvs st1)"
    using with_proof_nodes_True [OF ok [unfolded verify_spv_proof_multi_def]] by (auto split: prod.splits sum.splits)
  have "t \<in> U" using t(2) subs_self by blast
  from set_root_sound [OF this a 1(1)] a show ?thesis using check_values_sound [OF t _ _ _ 1(2) kv] by simp
qed

lemma verify_complete:
  assumes t: "wf_trie t" "subs t \<subseteq> U" and nodes: "node_of env t \<in> set ns" "set ns \<subseteq> node_of env ` U"
    and kvs: "\<And>k v. (k, v) \<in> set kvs \<Longrightarrow> 2 * length k < recursion_limit env \<and> v = Some (RB (lookup t (bin_to_nibbles k))) \<and>
      set (path_nodes env t (bin_to_nibbles k)) \<subseteq> set ns"
    and pf: "pf = ProofNodes ns \<or> (\<exists>b. pf = ProofBytes b \<and> deserialize_proof b = Inr (RL ns))"
  shows "verify_spv_proof_multi env (hash_key env t) kvs pf p = (Inr True, p\<lparr>pc_proving := pc_mode p \<noteq> []\<rparr>)"
proof -
  let ?st = "proof_trie env ns p"
  have "check_values env kvs (?st\<lparr>root_node := node_of env t\<rparr>) = (True, ?st\<lparr>root_node := node_of env t\<rparr>)"
    using kvs
  proof (induction kvs)
    case (Cons kv kvs)
    obtain k v where kv: "kv = (k, v)" by (cases kv)
    have "trie_get env k (?st\<lparr>root_node := node_of env t\<rparr>) = (Inr v, ?st\<lparr>root_node := node_of env t\<rparr>)"
      using Cons.prems [of k v] get_complete [OF t _ _ nodes(2) refl, of k p] by (simp add: kv)
    moreover have "check_values env kvs (?st\<lparr>root_node := node_of env t\<rparr>) = (True, ?st\<lparr>root_node := node_of env t\<rparr>)"
      by (rule Cons.IH) (use Cons.prems in auto)
    ultimately show ?case by (simp add: kv)
  qed simp
  then show ?thesis using set_root_complete [OF t nodes, of p] pf
    by (auto simp: verify_spv_proof_multi_def with_proof_nodes_def proof_items_def)
qed

end

section \<open>Properties\<close>

text \<open>\<^verbatim>\<open>rlp.codec.encode_raw\<close> writes the format that \<^verbatim>\<open>fast_rlp.py\<close> reads.\<close>

definition writes_rlp :: "(item \<Rightarrow> bytes) \<Rightarrow> bool" where
  "writes_rlp enc = (\<forall>x. pure_item x \<longrightarrow> enc x = encode_optimized be_bytes x)"

lemma deserialize_serialize:
  assumes "writes_rlp enc" "rlp_encode env = enc" "list_all pure_item ns" "length (serialize_proof env ns) < 256 ^ 8"
  shows "deserialize_proof (serialize_proof env ns) = Inr (RL ns)"
  using be.decode_enc [of "RL ns"] assms by (simp add: deserialize_proof_def serialize_proof_def writes_rlp_def)

lemma path_nodes_PersistentDB:
  "path_nodes (PersistentDB ops enc dec H n) t k = path_nodes (PersistentDB ops' enc dec H n) t k"
  by (induction "PersistentDB ops enc dec H n" t k rule: path_nodes.induct)
     (auto simp: hashed_def PersistentDB_nodes [where ops = ops and ops' = ops'])

lemma history_proof_storage:
  assumes "codec_ok enc dec" "hash_ok (PersistentDB ops enc dec H n) (history_trees TBlank h)"
  shows "proof_storage (PersistentDB kvm_ops enc dec H n) (history_trees TBlank h)"
proof -
  have h: "hash_ok (PersistentDB kvm_ops enc dec H n) (history_trees TBlank h)" by (rule hash_ok_PersistentDB [OF assms(2)])
  show ?thesis
    unfolding proof_storage_def hashed_storage_def hashed_storage_axioms_def
    using persistent_trie_storage [OF kvm.kv_storage_axioms assms(1) h] h TBlank_in_history [of h] by (auto simp: hash_ok_def)
qed

text \<open>
  C21: state proofs are complete: after any history of updates and deletions the trie makes, for
  every key, a proof with the value of the key (none when it has none). The proof is accepted
  against the root hash for that value, the empty one when there is none, in plain and in encoded
  form, and neither side leaves a trace in the state.
\<close>

theorem state_proof_complete:
  assumes "kv_storage ops kv_map kv_inv" "codec_ok enc dec" "kv_inv db" "kv_map db = Map.empty"
    and "env = PersistentDB ops enc dec H n" "hash_ok env (history_trees TBlank h)" "valid_history env h"
    and "writes_rlp enc" "2 * length key < n"
  shows "\<exists>st root pf. run_trie env h (mk_Trie db no_proof) = (Inr (), st) \<and> get_root_hash env st = (Inr root, st) \<and>
    generate_state_proof env key None serialize True st =
      (Inr (pf, Some (if contents h key = [] then None else Some (RB (contents h key)))), st) \<and>
    ((\<forall>b. pf = ProofBytes b \<longrightarrow> length b < 256 ^ 8) \<longrightarrow>
      verify_spv_proof (PersistentDB kvm_ops enc dec H n) root key (Some (RB (contents h key))) pf no_proof = (Inr True, no_proof))"
proof -
  let ?t = "tree_after TBlank h" and ?U = "history_trees TBlank h" and ?k = "bin_to_nibbles key" and ?kenv = "PersistentDB kvm_ops enc dec H n"
  obtain st where st: "run_trie env h (mk_Trie db no_proof) = (Inr (), st)"
    "trie_storage.represents env kv_map kv_inv ?U st ?t" "trie_storage env kv_map kv_inv ?U" "t_proof st = no_proof"
    by (rule history_run [OF assms(1-7)])
  have r: "trie_storage.okT env kv_map kv_inv ?U st" "root_node st = node_of env ?t" "wf_trie ?t" "subs ?t \<subseteq> ?U" "stored env (kv_map (t_db st)) ?t"
    using st(2) by (simp_all add: trie_storage.represents_def [OF st(3)])
  have c: "lookup ?t ?k = contents h key" by (rule tree_after_contents(2) [OF assms(7)])
  have root: "get_root_hash env st = (Inr (hash_key env ?t), st)"
    using trie_storage.root_hash_correct [OF st(3,2)] by (simp add: BLANK_ROOT_def hash_key_def)
  obtain ns where ns: "produce_spv_proof env key (Some (node_of env ?t)) True st = (Inr (ns, Some (if contents h key = [] then None else Some (RB (contents h key)))), st)"
    "set ns = set (path_nodes env ?t ?k)"
    using trie_storage.produce_spv_proof_correct [OF st(3) r(1) st(4) r(3-5), of key "Some (node_of env ?t)" True] assms(5,9) c
    by (auto simp: root_or_head_def)
  let ?ns = "ns @ [node_of env ?t]"
  let ?pf = "if serialize then ProofBytes (serialize_proof env ?ns) else ProofNodes ?ns"
  have gen: "generate_state_proof env key None serialize True st =
      (Inr (?pf, Some (if contents h key = [] then None else Some (RB (contents h key)))), st)"
    unfolding generate_state_proof_def finish_state_proof_def
    by (simp add: bindT_def root_or_head_def r(2) ns(1) Let_def returnT_def)
  have "\<exists>s \<in> subs ?t. x = node_of env s" if "x \<in> set ?ns" for x
    using that path_nodes_sub [of x env ?t ?k] ns(2) subs_self [of ?t] by auto
  then have N: "set ?ns \<subseteq> node_of env ` ?U" using r(4) by blast
  have e: "node_of ?kenv s = node_of env s" "hash_key ?kenv s = hash_key env s" "path_nodes ?kenv s k = path_nodes env s k"
      "node_of ?kenv ` V = node_of env ` V" for s k V
    unfolding assms(5) by (rule PersistentDB_nodes path_nodes_PersistentDB image_cong refl)+
  have "verify_spv_proof ?kenv (hash_key env ?t) key (Some (RB (contents h key))) ?pf no_proof = (Inr True, no_proof)"
    if len: "\<forall>b. ?pf = ProofBytes b \<longrightarrow> length b < 256 ^ 8"
  proof -
    have "list_all pure_item ?ns" using N by (auto simp: list_all_iff pure_node_of)
    then have "serialize \<Longrightarrow> deserialize_proof (serialize_proof env ?ns) = Inr (RL ?ns)"
      using len by (intro deserialize_serialize [OF assms(8)]) (simp_all add: assms(5))
    then have "?pf = ProofNodes ?ns \<or> (\<exists>b. ?pf = ProofBytes b \<and> deserialize_proof b = Inr (RL ?ns))" by simp
    moreover have "recursion_limit ?kenv = n" by simp
    ultimately have "verify_spv_proof_multi ?kenv (hash_key ?kenv ?t) [(key, Some (RB (contents h key)))] ?pf no_proof =
        (Inr True, no_proof\<lparr>pc_proving := pc_mode no_proof \<noteq> []\<rparr>)"
      using N ns(2) assms(9) c
      by (intro proof_storage.verify_complete [OF history_proof_storage [OF assms(2) assms(6) [unfolded assms(5)]] r(3,4), where ns = ?ns])
        (simp_all only: e, simp_all add: subset_insertI)
    then show ?thesis by (simp add: check_value_single e no_proof_def)
  qed
  then show ?thesis using st(1) root gen by blast
qed

text \<open>
  C5: state proofs are sound: whatever list of nodes or bytes is presented as a proof, if it is
  accepted against the root hash of the trie for some keys and values, then these are the values of
  the keys. No node presented may collide in its hash with a node of the trie.
\<close>

theorem state_proof_sound:
  assumes "kv_storage ops kv_map kv_inv" "codec_ok enc dec" "kv_inv db" "kv_map db = Map.empty"
    and "env = PersistentDB ops enc dec H n" "hash_ok env (history_trees TBlank h)" "valid_history env h"
    and "fst (bindT (run_trie env h) (\<lambda>_. get_root_hash env) (mk_Trie db no_proof)) = Inr root"
    and "\<forall>m \<in> set (proof_nodes_of pf). \<forall>t \<in> history_trees TBlank h. H (enc m) = hash_key env t \<longrightarrow> enc m = enc (node_of env t)"
    and "fst (verify_spv_proof_multi (PersistentDB kvm_ops enc dec H n) root key_values pf p) = Inr True" "(key, value) \<in> set key_values"
  shows "value = Some (RB (contents h key))"
proof -
  let ?t = "tree_after TBlank h" and ?U = "history_trees TBlank h" and ?kenv = "PersistentDB kvm_ops enc dec H n"
  obtain st where st: "run_trie env h (mk_Trie db no_proof) = (Inr (), st)"
    "trie_storage.represents env kv_map kv_inv ?U st ?t" "trie_storage env kv_map kv_inv ?U"
    by (rule history_run [OF assms(1-7)])
  have t: "wf_trie ?t" "subs ?t \<subseteq> ?U" using st(2) by (simp_all add: trie_storage.represents_def [OF st(3)])
  have S: "proof_storage ?kenv ?U" by (rule history_proof_storage [OF assms(2) assms(6) [unfolded assms(5)]])
  have "root = hash_key env ?t"
    using assms(8) trie_storage.root_hash_correct [OF st(3,2)] by (simp add: bindT_def st(1) BLANK_ROOT_def hash_key_def split: if_splits)
  then have "root = hash_key ?kenv ?t" unfolding assms(5) by (simp only: PersistentDB_nodes(2) [where ops = ops and ops' = kvm_ops])
  moreover have "proof_storage.no_collision ?kenv ?U (proof_nodes_of pf)"
    using assms(9) unfolding proof_storage.no_collision_def [OF S] assms(5) PersistentDB_simps PersistentDB_nodes [where ops = ops and ops' = kvm_ops] .
  ultimately show ?thesis
    using proof_storage.verify_sound [OF S t _ _ assms(11)] assms(10) tree_after_contents(2) [OF assms(7)] by simp
qed

text \<open>
  C39: a proof whose bytes decode to a byte string instead of a list makes the verifier raise, and
  the module's proof constructor stays in verifying mode: from then on reading any stored node of
  any trie raises.
\<close>

theorem malformed_proof_blocks_reads:
  assumes "deserialize_proof b = Inr (RB (x # xs))"
  shows "\<exists>p. verify_spv_proof env root key value (ProofBytes b) no_proof = (Inl EncodingError, p) \<and>
    (\<forall>env' st k node. t_proof st = p \<longrightarrow> k \<noteq> [] \<longrightarrow> bindE (db_get env' (t_db st) k) (rlp_lib_decode env') = Inr node \<longrightarrow>
       decode_to_node env' (RB k) st = (Inl IndexError, st))"
  using assms
  by (auto simp: verify_spv_proof_def with_proof_nodes_def proof_items_def pc_push_fails_def no_proof_def spv_grabbing_def
      bindT_def bindE_def liftT_def Let_def split: sum.splits)

section \<open>Instances\<close>

interpretation demo_proofs: proof_storage demo_trie_env "set demo_trees"
proof unfold_locales
  show "TBlank \<in> set demo_trees" by (simp add: demo_trees_def Let_def)
  show "length (hash_key demo_trie_env t) = 32" if "t \<in> set demo_trees" for t
    using demo_trees_ok that by (simp add: hash_ok_def)
qed

lemma be_writes_rlp: "writes_rlp (encode_optimized be_bytes)"
  by (simp add: writes_rlp_def)

lemma generate_plain:
  "generate_state_proof env key root False gv st = (Inr (pf, v), st') \<Longrightarrow> \<exists>ns. pf = ProofNodes ns"
  by (auto simp: generate_state_proof_def finish_state_proof_def bindT_def returnT_def Let_def split: prod.splits sum.splits)

theorem state_proof_complete_witness:
  "\<exists>st root pf. run_trie demo_trie_env demo_history (mk_Trie [] no_proof) = (Inr (), st) \<and> get_root_hash demo_trie_env st = (Inr root, st) \<and>
    generate_state_proof demo_trie_env [18, 52] None False True st = (Inr (pf, Some (Some (RB (replicate 20 8)))), st) \<and>
    verify_spv_proof demo_trie_env root [18, 52] (Some (RB (replicate 20 8))) pf no_proof = (Inr True, no_proof)"
proof -
  have c: "contents demo_history [18, 52] = replicate 20 8" "replicate 20 (8 :: byte) \<noteq> []" by code_simp+
  show ?thesis
    using state_proof_complete [OF kvm.kv_storage_axioms be_codec_ok _ _ demo_trie_env_def demo_hash_ok(1) demo_valid(1) be_writes_rlp,
        of "[]" "[18, 52]" False] generate_plain c
    by (fastforce simp flip: demo_trie_env_def)
qed

definition demo_proof :: state_proof where
  "demo_proof = ProofNodes [node_of demo_trie_env (tree_after TBlank demo_history)]"

lemma demo_tree_after: "tree_after TBlank demo_history \<in> history_trees TBlank demo_history"
  by code_simp

theorem state_proof_sound_witness:
  "\<exists>root. fst (bindT (run_trie demo_trie_env demo_history) (\<lambda>_. get_root_hash demo_trie_env) (mk_Trie [] no_proof)) = Inr root \<and>
    fst (verify_spv_proof_multi demo_trie_env root [([18, 52], Some (RB (replicate 20 8)))] demo_proof no_proof) = Inr True \<and>
    Some (RB (replicate 20 8)) = Some (RB (contents demo_history [18, 52]))"
proof -
  let ?root = "hash_key demo_trie_env (tree_after TBlank demo_history)"
  have 1: "fst (bindT (run_trie demo_trie_env demo_history) (\<lambda>_. get_root_hash demo_trie_env) (mk_Trie [] no_proof)) = Inr ?root" by code_simp
  have 2: "fst (verify_spv_proof_multi demo_trie_env ?root [([18, 52], Some (RB (replicate 20 8)))] demo_proof no_proof) = Inr True" by code_simp
  have 3: "\<forall>m \<in> set (proof_nodes_of demo_proof). \<forall>t \<in> history_trees TBlank demo_history.
      demo_hash (encode_optimized be_bytes m) = hash_key demo_trie_env t \<longrightarrow> encode_optimized be_bytes m = encode_optimized be_bytes (node_of demo_trie_env t)"
    using demo_hash_ok(1) demo_tree_after unfolding hash_ok_def demo_proof_def proof_nodes_of_def
    by (simp add: hash_key_def demo_trie_env_def)
  show ?thesis
    by (intro exI [of _ ?root] conjI 1 2 state_proof_sound [OF kvm.kv_storage_axioms be_codec_ok _ _ demo_trie_env_def demo_hash_ok(1) demo_valid(1) 1 3,
        where p = no_proof and key_values = "[([18, 52], Some (RB (replicate 20 8)))]"]) (simp_all add: 2 flip: demo_trie_env_def)
qed

theorem malformed_proof_blocks_reads_witness:
  "\<exists>p. verify_spv_proof demo_trie_env (replicate 32 0) [18] None (ProofBytes [130, 1, 2]) no_proof = (Inl EncodingError, p) \<and>
    decode_to_node demo_trie_env (RB (replicate 32 5)) \<lparr>t_db = [(replicate 32 5, [195, 1, 2, 3])], root_node = BLANK_NODE, t_proof = p\<rparr> =
      (Inl IndexError, \<lparr>t_db = [(replicate 32 5, [195, 1, 2, 3])], root_node = BLANK_NODE, t_proof = p\<rparr>)"
proof -
  have 1: "deserialize_proof [130, 1, 2] = Inr (RB [1, 2])" by code_simp
  have 2: "bindE (db_get demo_trie_env [(replicate 32 5, [195, 1, 2, 3])] (replicate 32 5)) (rlp_lib_decode demo_trie_env) = Inr (RL [RB [1], RB [2], RB [3]])"
    by code_simp
  obtain p where p: "verify_spv_proof demo_trie_env (replicate 32 0) [18] None (ProofBytes [130, 1, 2]) no_proof = (Inl EncodingError, p)"
    "\<And>(env' :: kvm trie_env) st k node. t_proof st = p \<Longrightarrow> k \<noteq> [] \<Longrightarrow> bindE (db_get env' (t_db st) k) (rlp_lib_decode env') = Inr node \<Longrightarrow>
       decode_to_node env' (RB k) st = (Inl IndexError, st)"
    using malformed_proof_blocks_reads [OF 1, of demo_trie_env "replicate 32 0" "[18]" None] by blast
  have "decode_to_node demo_trie_env (RB (replicate 32 5)) \<lparr>t_db = [(replicate 32 5, [195, 1, 2, 3])], root_node = BLANK_NODE, t_proof = p\<rparr> =
      (Inl IndexError, \<lparr>t_db = [(replicate 32 5, [195, 1, 2, 3])], root_node = BLANK_NODE, t_proof = p\<rparr>)"
    by (rule p(2)) (use 2 in simp_all)
  then show ?thesis using p(1) by blast
qed

end
