(* ===== verification/Trie_Dict.thy ===== *)
theory Trie_Dict
  imports Trie_Proofs
begin

text \<open>
  Walks over the whole state trie (\<^verbatim>\<open>state/trie/pruning_trie.py\<close>): the dictionary of all keys, the
  number of keys, proofs for all keys with a prefix, and the neighbours of a key. While it is
  built, a dictionary has keys that are the decimal nibbles of a path joined by \<^verbatim>\<open>+\<close>; the byte
  strings for them are strings here.
\<close>

section \<open>Dictionaries\<close>

type_synonym 'k item_dict = "('k \<times> item) list"

definition nibble_str :: "nat \<Rightarrow> string" where "nibble_str x = py_str (int x)"

definition add_prefixed :: "string \<Rightarrow> string item_dict \<Rightarrow> string item_dict \<Rightarrow> string item_dict" where
  "add_prefixed key sub_dict res =
     foldl (\<lambda>res (sub_key, sub_value). AList.update (py_strip CHR ''+'' (key @ CHR ''+'' # sub_key)) sub_value res) res sub_dict"

definition items_of :: "'a option \<Rightarrow> 'a result" where
  "items_of d = (case d of None \<Rightarrow> Inl AttributeError | Some x \<Rightarrow> Inr x)"

fun branch_dict ::
  "'kv trie_env \<Rightarrow> (item \<Rightarrow> ('kv, string item_dict option) tm) \<Rightarrow> item \<Rightarrow> nat list \<Rightarrow> string item_dict \<Rightarrow> ('kv, string item_dict) tm" where
  "branch_dict env walk node [] res = returnT res"
| "branch_dict env walk node (i # is) res =
     bindT (liftT (py_getitem node i)) (\<lambda>child.
     bindT (decode_to_node env child) (\<lambda>sub_node.
     bindT (walk sub_node) (\<lambda>d.
     bindT (liftT (items_of d)) (\<lambda>sub_dict.
     branch_dict env walk node is (add_prefixed (nibble_str i) sub_dict res)))))"

fun to_dict_node :: "'kv trie_env \<Rightarrow> nat \<Rightarrow> item \<Rightarrow> ('kv, string item_dict option) tm" where
  "to_dict_node env 0 node = raiseT RecursionError"
| "to_dict_node env (Suc n) node =
     (if node = BLANK_NODE then returnT (Some [])
      else
        bindT (liftT (get_node_type node)) (\<lambda>ty.
          if is_key_value_type ty then
            bindT (liftT (key_nibbles_from_key_value_node node)) (\<lambda>nibbles.
            bindT
              (if ty = Some NODE_TYPE_EXTENSION then bindT (get_inner_node_from_extension env node) (to_dict_node env n)
               else bindT (liftT (py_getitem node 1)) (\<lambda>v. returnT (Some [(nibble_str NIBBLE_TERMINATOR, v)]))) (\<lambda>d.
            bindT (liftT (items_of d)) (\<lambda>sub_dict.
            returnT (Some (add_prefixed (py_join CHR ''+'' (map nibble_str nibbles)) sub_dict [])))))
          else if ty = Some NODE_TYPE_BRANCH then
            bindT (branch_dict env (to_dict_node env n) node [0..<16] []) (\<lambda>res.
            bindT (liftT (py_getitem node 16)) (\<lambda>v.
            returnT (Some (if truthy v then AList.update (nibble_str NIBBLE_TERMINATOR) v res else res))))
          else returnT None))"

definition int_of_str :: "string \<Rightarrow> nat result" where
  "int_of_str s = (if isdigit s then Inr (py_int s) else Inl ValueError)"

definition nibble_key_str_to_bin :: "string \<Rightarrow> bytes result" where
  "nibble_key_str_to_bin key_str =
     bindE (if key_str \<noteq> [] then mapE int_of_str (py_split CHR ''+'' key_str) else Inr []) (\<lambda>nibbles.
     nibbles_to_bin (without_terminator_and_flags nibbles))"

text \<open>\<^verbatim>\<open>node or self.root_node\<close>: the blank node counts as no node.\<close>

definition to_dict :: "'kv trie_env \<Rightarrow> item option \<Rightarrow> ('kv, bytes item_dict) tm" where
  "to_dict env node st =
     bindT (to_dict_node env (recursion_limit env) (case node of Some n \<Rightarrow> if truthy n then n else root_node st | None \<Rightarrow> root_node st)) (\<lambda>d.
     bindT (liftT (items_of d)) (\<lambda>d.
     liftT (foldE (\<lambda>res (key_str, value). bindE (nibble_key_str_to_bin key_str) (\<lambda>key. Inr (AList.update key value res))) [] d))) st"

section \<open>Size\<close>

fun get_size :: "'kv trie_env \<Rightarrow> nat \<Rightarrow> item \<Rightarrow> ('kv, nat) tm" where
  "get_size env 0 node = raiseT RecursionError"
| "get_size env (Suc n) node =
     (if node = BLANK_NODE then returnT 0
      else
        bindT (liftT (get_node_type node)) (\<lambda>ty.
          if is_key_value_type ty then
            (if ty = Some NODE_TYPE_EXTENSION then bindT (get_inner_node_from_extension env node) (get_size env n)
             else returnT 1)
          else if ty = Some NODE_TYPE_BRANCH then
            bindT (mapT (\<lambda>x. bindT (liftT (py_getitem node x)) (\<lambda>child.
                     bindT (decode_to_node env child) (get_size env n))) [0..<16]) (\<lambda>sizes.
            bindT (liftT (py_getitem node 16)) (\<lambda>v.
            returnT (sum_list sizes + (if truthy v then 1 else 0))))
          else raiseT TypeError))"

definition trie_len :: "'kv trie_env \<Rightarrow> ('kv, nat) tm" where
  "trie_len env st = get_size env (recursion_limit env) (root_node st) st"

definition trie_contains :: "'kv trie_env \<Rightarrow> bytes \<Rightarrow> ('kv, bool) tm" where
  "trie_contains env key = bindT (trie_get env key) (\<lambda>v. returnT (v \<noteq> Some BLANK_NODE))"

section \<open>Proofs for a prefix\<close>

text \<open>The second component is \<^verbatim>\<open>seen_prfx\<close>, which the source extends in place.\<close>

fun get_last_node_for_prfx ::
  "'kv trie_env \<Rightarrow> nat \<Rightarrow> item \<Rightarrow> nibbles \<Rightarrow> nibbles \<Rightarrow> ('kv, item option \<times> nibbles) tm" where
  "get_last_node_for_prfx env 0 node key_prfx seen_prfx = raiseT RecursionError"
| "get_last_node_for_prfx env (Suc n) node key_prfx seen_prfx =
     bindT (liftT (get_node_type node)) (\<lambda>ty.
       if ty = Some NODE_TYPE_BLANK then returnT (Some BLANK_NODE, seen_prfx)
       else if ty = Some NODE_TYPE_BRANCH then
         (case key_prfx of
            [] \<Rightarrow> returnT (Some node, seen_prfx)
          | x # rest \<Rightarrow>
              bindT (liftT (py_getitem node x)) (\<lambda>child.
              bindT (decode_to_node env child) (\<lambda>sub_node.
              get_last_node_for_prfx env n sub_node rest (seen_prfx @ [x]))))
       else
         bindT (liftT (key_nibbles_from_key_value_node node)) (\<lambda>curr_key.
           if ty = Some NODE_TYPE_LEAF then
             returnT (Some (if starts_with curr_key key_prfx then node else BLANK_NODE), seen_prfx)
           else if ty = Some NODE_TYPE_EXTENSION then
             (if length key_prfx > length curr_key then
                (if starts_with key_prfx curr_key then
                   bindT (get_inner_node_from_extension env node) (\<lambda>sub_node.
                   get_last_node_for_prfx env n sub_node (drop (length curr_key) key_prfx) (seen_prfx @ curr_key))
                 else returnT (Some BLANK_NODE, seen_prfx))
              else returnT (Some (if starts_with curr_key key_prfx then node else BLANK_NODE), seen_prfx))
           else returnT (None, seen_prfx)))"

definition full_keys :: "nibbles \<Rightarrow> string item_dict \<Rightarrow> bytes item_dict result" where
  "full_keys seen_prfx d =
     foldE (\<lambda>new_rv (k, v).
       bindE (mapE int_of_str (py_split CHR ''+'' k)) (\<lambda>ks.
       bindE (nibbles_to_bin (without_terminator_and_flags (seen_prfx @ ks))) (\<lambda>key.
       Inr (AList.update key v new_rv)))) [] d"

definition produce_spv_proof_for_keys_with_prefix ::
  "'kv trie_env \<Rightarrow> bytes \<Rightarrow> item option \<Rightarrow> bool \<Rightarrow> ('kv, item list \<times> bytes item_dict option) tm" where
  "produce_spv_proof_for_keys_with_prefix env key_prfx root get_value st =
     bindT (modifyT (\<lambda>st. st\<lparr>t_proof := pc_push (rlp_encode env) RECORDING [] (t_proof st)\<rparr>)) (\<lambda>_.
     bindT (get_last_node_for_prfx env (recursion_limit env) (root_or_head root st) (bin_to_nibbles key_prfx) []) (\<lambda>(prefix_node, seen_prfx).
     bindT (case prefix_node of None \<Rightarrow> raiseT TypeError | Some node \<Rightarrow> to_dict_node env (recursion_limit env) node) (\<lambda>rv.
     bindT (if get_value then bindT (liftT (items_of rv)) (\<lambda>d. bindT (liftT (full_keys seen_prfx d)) (\<lambda>d. returnT (Some d))) else returnT None) (\<lambda>rv.
     bindT (get_nodelist env) (\<lambda>nodes.
     bindT (modifyT (\<lambda>st. st\<lparr>t_proof := pc_pop (t_proof st)\<rparr>)) (\<lambda>_.
     returnT (nodes, rv))))))) st"

definition generate_state_proof_for_keys_with_prefix ::
  "'kv trie_env \<Rightarrow> bytes \<Rightarrow> item option \<Rightarrow> bool \<Rightarrow> bool \<Rightarrow> ('kv, state_proof \<times> bytes item_dict option) tm" where
  "generate_state_proof_for_keys_with_prefix env key_prfx root serialize get_value st =
     finish_state_proof env root serialize (produce_spv_proof_for_keys_with_prefix env key_prfx (Some (root_or_head root st)) get_value) st"

section \<open>Clearing and listing\<close>

fun delete_child_storage :: "'kv trie_env \<Rightarrow> nat \<Rightarrow> item \<Rightarrow> ('kv, unit) tm" where
  "delete_child_storage env 0 node = raiseT RecursionError"
| "delete_child_storage env (Suc n) node =
     bindT (liftT (get_node_type node)) (\<lambda>ty.
       if ty = Some NODE_TYPE_BRANCH then
         bindT (mapT (\<lambda>i. bindT (liftT (py_getitem node i)) (\<lambda>item.
                  bindT (decode_to_node env item) (delete_child_storage env n))) [0..<16]) (\<lambda>_. returnT ())
       else if ty = Some NODE_TYPE_EXTENSION then bindT (get_inner_node_from_extension env node) (delete_child_storage env n)
       else returnT ())"

definition trie_clear :: "'kv trie_env \<Rightarrow> ('kv, unit) tm" where
  "trie_clear env st =
     bindT (delete_child_storage env (recursion_limit env) (root_node st)) (\<lambda>_.
     bindT (delete_node_storage env (root_node st) False) (\<lambda>_.
     modifyT (\<lambda>st. st\<lparr>root_node := BLANK_NODE\<rparr>))) st"

fun clear_all_node :: "'kv trie_env \<Rightarrow> nat \<Rightarrow> item \<Rightarrow> ('kv, unit) tm" where
  "clear_all_node env 0 node = raiseT RecursionError"
| "clear_all_node env (Suc n) node =
     (if node = BLANK_NODE then returnT ()
      else
        bindT (liftT (get_node_type node)) (\<lambda>ty.
        bindT (delete_node_storage env node False) (\<lambda>_.
          if ty = Some NODE_TYPE_EXTENSION then
            bindT (liftT (py_getitem node 1)) (\<lambda>item. bindT (decode_to_node env item) (clear_all_node env n))
          else if ty = Some NODE_TYPE_BRANCH then
            bindT (mapT (\<lambda>i. bindT (liftT (py_getitem node i)) (\<lambda>item.
                     bindT (decode_to_node env item) (clear_all_node env n))) [0..<16]) (\<lambda>_. returnT ())
          else returnT ())))"

definition clear_all :: "'kv trie_env \<Rightarrow> ('kv, unit) tm" where
  "clear_all env st =
     bindT (delete_node_storage env (root_node st) False) (\<lambda>_. clear_all_node env (recursion_limit env) (root_node st)) st"

definition root_hash_valid :: "'kv trie_env \<Rightarrow> ('kv, bool) tm" where
  "root_hash_valid env =
     bindT (get_root_hash env) (\<lambda>root_hash.
       if root_hash = BLANK_ROOT env then returnT True
       else bindT (get_root_hash env) (\<lambda>root_hash st.
         (case db_get env (t_db st) root_hash of
            Inr _ \<Rightarrow> (Inr True, st)
          | Inl e \<Rightarrow> (if e = KeyError then Inr False else Inl e, st))))"

definition all_nodes :: "'kv trie_env \<Rightarrow> ('kv, item list) tm" where
  "all_nodes env =
     bindT (modifyT (\<lambda>st. st\<lparr>t_proof := pc_push (rlp_encode env) RECORDING [] (t_proof st)\<rparr>)) (\<lambda>_.
     bindT (get_root_hash env) (\<lambda>_.
     bindT (to_dict env None) (\<lambda>_.
     bindT (get_nodelist env) (\<lambda>nodes.
     bindT (modifyT (\<lambda>st. st\<lparr>t_proof := pc_pop (t_proof st)\<rparr>)) (\<lambda>_. returnT nodes)))))"

section \<open>Keys of the dictionaries\<close>

lemma nibble_str [simp]:
  "nibble_str x \<noteq> []" "CHR ''+'' \<notin> set (nibble_str x)" "int_of_str (nibble_str x) = Inr x"
proof -
  show "nibble_str x \<noteq> []" by (simp add: nibble_str_def py_str_def dec_digits_nonempty)
  show "CHR ''+'' \<notin> set (nibble_str x)"
  proof
    assume "CHR ''+'' \<in> set (nibble_str x)"
    then obtain d :: nat where "d < 10" "CHR ''+'' = char_of (48 + d)" using py_str_char unfolding nibble_str_def by blast
    then have "(of_char CHR ''+'' :: nat) = 48 + d" by simp
    then show False by simp
  qed
  show "int_of_str (nibble_str x) = Inr x" by (simp add: int_of_str_def nibble_str_def isdigit_py_str py_int_py_str)
qed

definition path_str :: "nibbles \<Rightarrow> string" where
  "path_str k = py_join CHR ''+'' (map nibble_str (k @ [NIBBLE_TERMINATOR]))"

lemma path_str_split: "py_split CHR ''+'' (path_str k) = map nibble_str (k @ [NIBBLE_TERMINATOR])"
  unfolding path_str_def by (rule py_split_join) auto

lemma mapE_path_str: "mapE int_of_str (py_split CHR ''+'' (path_str k)) = Inr (k @ [NIBBLE_TERMINATOR])"
  unfolding path_str_split by (induction k) simp_all

lemma path_str_inj [simp]: "path_str k = path_str k' \<longleftrightarrow> k = k'"
proof
  assume "path_str k = path_str k'"
  then have "(Inr (k @ [NIBBLE_TERMINATOR]) :: nat list result) = Inr (k' @ [NIBBLE_TERMINATOR])"
    unfolding mapE_path_str [symmetric] by (rule arg_cong)
  then show "k = k'" by simp
qed simp

lemma path_str_ends: "path_str k \<noteq> [] \<and> hd (path_str k) \<noteq> CHR ''+'' \<and> last (path_str k) \<noteq> CHR ''+''"
  unfolding path_str_def by (rule py_join_hd_last) auto

lemma strip_path: "py_strip CHR ''+'' (py_join CHR ''+'' (map nibble_str ns) @ CHR ''+'' # path_str k) = path_str (ns @ k)"
proof (cases "ns = []")
  case True
  then show ?thesis using py_strip_id path_str_ends [of k] by simp
next
  case False
  then have "py_join CHR ''+'' (map nibble_str ns) @ CHR ''+'' # path_str k = path_str (ns @ k)"
    using py_join_append [of "map nibble_str ns" "map nibble_str (k @ [NIBBLE_TERMINATOR])"] by (simp add: path_str_def)
  then show ?thesis using py_strip_id path_str_ends [of "ns @ k"] by simp
qed

lemma without_terminator_bin: "without_terminator_and_flags (bin_to_nibbles b @ [NIBBLE_TERMINATOR]) = bin_to_nibbles b"
  by (simp add: without_terminator_and_flags_def without_terminator_def Let_def)

lemma nibble_key_path_str: "nibble_key_str_to_bin (path_str (bin_to_nibbles b)) = Inr b"
  using path_str_ends [of "bin_to_nibbles b"]
  by (simp add: nibble_key_str_to_bin_def mapE_path_str without_terminator_bin nibbles_to_bin_bin)

section \<open>Entries of a tree\<close>

fun entries :: "trie \<Rightarrow> (nibbles \<times> bytes) list" where
  "entries TBlank = []"
| "entries (TLeaf c v) = [(c, v)]"
| "entries (TExt c t) = map (\<lambda>(k, v). (c @ k, v)) (entries t)"
| "entries (TBranch ts v) =
     concat (map (\<lambda>i. map (\<lambda>(k, v). (i # k, v)) (entries (ts ! i))) [0..<length ts]) @ (if v = [] then [] else [([], v)])"

fun height :: "trie \<Rightarrow> nat" where
  "height TBlank = 0"
| "height (TLeaf c v) = 0"
| "height (TExt c t) = Suc (height t)"
| "height (TBranch ts v) = Suc (Max (set (map height ts) \<union> {0}))"

lemma entries_iff: "wf_trie t \<Longrightarrow> (k, v) \<in> set (entries t) \<longleftrightarrow> v \<noteq> [] \<and> lookup t k = v"
proof (induction t arbitrary: k v)
  case (TExt c t)
  have 1: "(k, v) \<in> set (entries (TExt c t)) \<longleftrightarrow> (\<exists>r. k = c @ r \<and> (r, v) \<in> set (entries t))" by force
  have "wf_trie t" using TExt.prems by simp
  from TExt.IH [OF this] show ?case unfolding 1 by (auto simp: prefix_def)
next
  case (TBranch ts u)
  have IH: "(k, v) \<in> set (entries (ts ! i)) \<longleftrightarrow> v \<noteq> [] \<and> lookup (ts ! i) k = v" if "i < length ts" for i k v
    using TBranch.IH [OF nth_mem [OF that]] TBranch.prems nth_mem [OF that] by simp
  show ?case
  proof (cases k)
    case (Cons a r)
    have "(k, v) \<in> set (entries (TBranch ts u)) \<longleftrightarrow> a < length ts \<and> (r, v) \<in> set (entries (ts ! a))"
      unfolding Cons by force
    then show ?thesis unfolding Cons using IH [of a r v] by auto
  qed auto
qed auto

lemma distinct_entries: "wf_trie t \<Longrightarrow> distinct (map fst (entries t))"
proof (induction t)
  case (TExt c t)
  have "map fst (entries (TExt c t)) = map ((@) c) (map fst (entries t))" by (simp add: case_prod_unfold comp_def)
  then show ?case using TExt by (simp add: distinct_map inj_on_def)
next
  case (TBranch ts v)
  let ?f = "\<lambda>i. map ((#) i) (map fst (entries (ts ! i)))"
  have m: "map fst (entries (TBranch ts v)) = concat (map ?f [0..<length ts]) @ (if v = [] then [] else [[]])"
    by (simp add: map_concat comp_def case_prod_unfold)
  have "distinct (?f i)" if "i < length ts" for i
    using TBranch.IH [OF nth_mem [OF that]] TBranch.prems nth_mem [OF that] by (simp add: distinct_map inj_on_def)
  then have "distinct (concat (map ?f [0..<n]))" if "n \<le> length ts" for n
    using that by (induction n) auto
  then show ?case unfolding m by auto
qed auto

lemma map_of_entries:
  assumes "wf_trie t"
  shows "map_of (entries t) k = (if lookup t k = [] then None else Some (lookup t k))"
proof (cases "lookup t k = []")
  case True
  then have "k \<notin> fst ` set (entries t)" using entries_iff [OF assms] by auto
  then show ?thesis using True by (simp add: map_of_eq_None_iff)
next
  case False
  then have "(k, lookup t k) \<in> set (entries t)" using entries_iff [OF assms] by blast
  then show ?thesis using False map_of_is_SomeI [OF distinct_entries [OF assms]] by simp
qed

definition dict_of :: "nibbles \<Rightarrow> (nibbles \<times> bytes) list \<Rightarrow> string item_dict" where
  "dict_of ns es = map (\<lambda>(k, v). (path_str (ns @ k), RB v)) es"

lemma dict_of_simps [simp]:
  "dict_of ns [] = []" "dict_of ns ((k, v) # es) = (path_str (ns @ k), RB v) # dict_of ns es"
  "dict_of ns (es @ fs) = dict_of ns es @ dict_of ns fs"
  by (simp_all add: dict_of_def)

lemma dict_of_map: "dict_of [] (map (\<lambda>(k, v). (ns @ k, v)) es) = dict_of ns es"
  by (simp add: dict_of_def case_prod_unfold)

lemma fst_dict_of: "fst ` set (dict_of ns es) = (\<lambda>k. path_str (ns @ k)) ` fst ` set es"
  by (simp add: dict_of_def case_prod_unfold image_image)

lemma update_new: "k \<notin> fst ` set d \<Longrightarrow> AList.update k v d = d @ [(k, v)]"
  by (induction d) auto

lemma add_prefixed_dict:
  "distinct (map fst es) \<Longrightarrow> (\<forall>k \<in> fst ` set es. path_str (ns @ k) \<notin> fst ` set res) \<Longrightarrow>
   add_prefixed (py_join CHR ''+'' (map nibble_str ns)) (dict_of [] es) res = res @ dict_of ns es"
proof (induction es arbitrary: res)
  case (Cons e es)
  obtain k v where e: "e = (k, v)" by (cases e)
  let ?res = "res @ [(path_str (ns @ k), RB v)]"
  have "add_prefixed (py_join CHR ''+'' (map nibble_str ns)) (dict_of [] es) ?res = ?res @ dict_of ns es"
    using Cons.prems by (intro Cons.IH) (auto simp: e)
  moreover have "AList.update (path_str (ns @ k)) (RB v) res = ?res" using Cons.prems(2) by (intro update_new) (simp add: e)
  ultimately show ?case by (simp add: e add_prefixed_def strip_path)
qed (simp add: add_prefixed_def)

lemma dict_of_branch:
  assumes "length ts = 16"
  shows "(let es = concat (map (\<lambda>i. dict_of [i] (entries (ts ! i))) [0..<16]) in
      if v \<noteq> [] then AList.update (nibble_str NIBBLE_TERMINATOR) (RB v) es else es) = dict_of [] (entries (TBranch ts v))"
proof -
  let ?es = "concat (map (\<lambda>i. dict_of [i] (entries (ts ! i))) [0..<16])"
  have "dict_of [] (concat (map f is)) = concat (map (\<lambda>i. dict_of [] (f i)) is)" for f :: "nat \<Rightarrow> (nibbles \<times> bytes) list" and "is"
    by (induction "is") simp_all
  then have 1: "dict_of [] (concat (map (\<lambda>i. map (\<lambda>(k, v). (i # k, v)) (entries (ts ! i))) [0..<16])) = ?es"
    using dict_of_map [of "[i]" for i] by simp
  have "nibble_str NIBBLE_TERMINATOR = path_str []" by (simp add: path_str_def)
  moreover have "path_str [] \<notin> fst ` set ?es" by (auto simp: dict_of_def image_iff split_beta)
  then have "AList.update (path_str []) (RB v) ?es = ?es @ [(path_str [], RB v)]" by (rule update_new)
  ultimately have "AList.update (nibble_str NIBBLE_TERMINATOR) (RB v) ?es = ?es @ [(path_str [], RB v)]" by (simp only:)
  then show ?thesis using 1 assms by (simp add: Let_def)
qed

section \<open>The dictionary of a stored tree\<close>

text \<open>The nodes below a tree that are stored by hash, in the order of the walk.\<close>

fun tree_nodes :: "'kv trie_env \<Rightarrow> trie \<Rightarrow> item list" where
  "tree_nodes env TBlank = []"
| "tree_nodes env (TLeaf c v) = []"
| "tree_nodes env (TExt c t) = hashed env t @ tree_nodes env t"
| "tree_nodes env (TBranch ts v) = concat (map (\<lambda>i. hashed env (ts ! i) @ tree_nodes env (ts ! i)) [0..<length ts])"

lemma to_dict_node_steps:
  "to_dict_node env (Suc n) (node_of env TBlank) = returnT (Some [])"
  "nibs c \<Longrightarrow> to_dict_node env (Suc n) (node_of env (TLeaf c v)) = returnT (Some [(path_str c, RB v)])"
  "nibs c \<Longrightarrow> c \<noteq> [] \<Longrightarrow> to_dict_node env (Suc n) (node_of env (TExt c t)) =
     bindT (decode_to_node env (ref_of env (node_of env t))) (\<lambda>s. bindT (to_dict_node env n s) (\<lambda>d.
     bindT (liftT (items_of d)) (\<lambda>sub. returnT (Some (add_prefixed (py_join CHR ''+'' (map nibble_str c)) sub [])))))"
  "length ts = 16 \<Longrightarrow> to_dict_node env (Suc n) (node_of env (TBranch ts v)) =
     bindT (branch_dict env (to_dict_node env n) (node_of env (TBranch ts v)) [0..<16] []) (\<lambda>res.
     returnT (Some (if v \<noteq> [] then AList.update (nibble_str NIBBLE_TERMINATOR) (RB v) res else res)))"
proof -
  have "items_of (Some x) = Inr x" for x :: "string item_dict" by (simp add: items_of_def)
  moreover have "add_prefixed (py_join CHR ''+'' (map nibble_str c)) [(nibble_str NIBBLE_TERMINATOR, RB v)] [] = [(path_str c, RB v)]" for c
    using add_prefixed_dict [of "[([], v)]" c "[]"] by (simp add: path_str_def)
  ultimately show "nibs c \<Longrightarrow> to_dict_node env (Suc n) (node_of env (TLeaf c v)) = returnT (Some [(path_str c, RB v)])"
    by (simp add: node_type_kv key_packed is_key_value_type_def)
  show "nibs c \<Longrightarrow> c \<noteq> [] \<Longrightarrow> to_dict_node env (Suc n) (node_of env (TExt c t)) =
     bindT (decode_to_node env (ref_of env (node_of env t))) (\<lambda>s. bindT (to_dict_node env n s) (\<lambda>d.
     bindT (liftT (items_of d)) (\<lambda>sub. returnT (Some (add_prefixed (py_join CHR ''+'' (map nibble_str c)) sub [])))))"
    by (simp add: node_type_kv key_packed is_key_value_type_def get_inner_node_from_extension_def bindT_assoc)
  show "length ts = 16 \<Longrightarrow> to_dict_node env (Suc n) (node_of env (TBranch ts v)) =
     bindT (branch_dict env (to_dict_node env n) (node_of env (TBranch ts v)) [0..<16] []) (\<lambda>res.
     returnT (Some (if v \<noteq> [] then AList.update (nibble_str NIBBLE_TERMINATOR) (RB v) res else res)))"
    by (simp add: node_type_branch is_key_value_type_def nth_append)
qed simp

lemma bindT_grabbed:
  assumes "m st = bindT (grab_all env ns) (\<lambda>_. returnT x) st"
  shows "bindT m f st = bindT (grab_all env ns) (\<lambda>_. f x) st"
proof -
  have "bindT m f st = bindT (bindT (grab_all env ns) (\<lambda>_. returnT x)) f st" by (rule bindT_cong_app, rule assms)
  then show ?thesis by (simp add: bindT_assoc)
qed

lemma grab_all_bind: "bindT (grab_all env (ns @ ms)) f = bindT (grab_all env ns) (\<lambda>_. bindT (grab_all env ms) f)"
  by (simp add: grab_all_append bindT_assoc)

context trie_storage
begin

lemma bind_decode_then:
  assumes "t \<in> U" "kv_inv (t_db st)" "in_db env (dbm st) t"
    and "\<And>st' :: 'kv Trie. t_db st' = t_db st \<Longrightarrow> g (node_of env t) st' = bindT (grab_all env ns) f st'"
  shows "bindT (decode_to_node env (ref_of env (node_of env t))) g st = bindT (grab_all env (hashed env t @ ns)) f st"
proof -
  have "bindT (grab_all env (hashed env t)) (\<lambda>_. g (node_of env t)) st = bindT (grab_all env (hashed env t)) (\<lambda>_. bindT (grab_all env ns) f) st"
    using assms(4) by (intro bindT_grab)
  then show ?thesis using bind_decode_ref [OF assms(1-3), of g] by (simp add: grab_all_bind)
qed

lemma bind_walk:
  assumes "t \<in> U" "kv_inv (t_db st)" "in_db env (dbm st) t"
    and walk: "\<And>st' :: 'kv Trie. t_db st' = t_db st \<Longrightarrow> walk (node_of env t) st' = bindT (grab_all env ns) (\<lambda>_. returnT d) st'"
  shows "bindT (decode_to_node env (ref_of env (node_of env t))) (\<lambda>s. bindT (walk s) f) st = bindT (grab_all env (hashed env t @ ns)) (\<lambda>_. f d) st"
  by (rule bind_decode_then [OF assms(1-3)], rule bindT_grabbed, rule walk)

lemma stored_child:
  assumes "wf_trie (TBranch ts v)" "subs (TBranch ts v) \<subseteq> U" "height (TBranch ts v) < Suc n" "stored env m (TBranch ts v)" "i < 16"
  shows "ts ! i \<in> set ts" "wf_trie (ts ! i)" "subs (ts ! i) \<subseteq> U" "ts ! i \<in> U" "height (ts ! i) < n" "in_db env m (ts ! i)" "stored env m (ts ! i)"
proof -
  show i: "ts ! i \<in> set ts" using assms(1,5) by simp
  show "wf_trie (ts ! i)" "in_db env m (ts ! i)" "stored env m (ts ! i)" using i assms(1,4) by auto
  show u: "subs (ts ! i) \<subseteq> U" using assms(2) UN_upper [OF i, of subs] by auto
  show "ts ! i \<in> U" using u subs_self by blast
  show "height (ts ! i) < n" using assms(3) i by simp
qed

lemma branch_dict_correct:
  assumes len: "length ts = 16" and kv: "kv_inv (t_db st)"
    and step: "\<And>i (st' :: 'kv Trie). i \<in> set is \<Longrightarrow> t_db st' = t_db st \<Longrightarrow>
      walk (node_of env (ts ! i)) st' = bindT (grab_all env (tree_nodes env (ts ! i))) (\<lambda>_. returnT (Some (dict_of [] (entries (ts ! i))))) st'"
    and ok: "distinct is" "\<And>i. i \<in> set is \<Longrightarrow> i < 16 \<and> ts ! i \<in> U \<and> wf_trie (ts ! i) \<and> in_db env (dbm st) (ts ! i)"
    and res: "\<And>i k. i \<in> set is \<Longrightarrow> path_str (i # k) \<notin> fst ` set res"
  shows "branch_dict env walk (node_of env (TBranch ts v)) is res st =
    bindT (grab_all env (concat (map (\<lambda>i. hashed env (ts ! i) @ tree_nodes env (ts ! i)) is)))
      (\<lambda>_. returnT (res @ concat (map (\<lambda>i. dict_of [i] (entries (ts ! i))) is))) st"
  using kv step ok res
proof (induction "is" arbitrary: res st)
  case (Cons i js)
  let ?t = "ts ! i" and ?res = "res @ dict_of [i] (entries (ts ! i))" and ?node = "node_of env (TBranch ts v)"
  have i: "i < 16" "?t \<in> U" "wf_trie ?t" "in_db env (dbm st) ?t" using Cons.prems(4) [of i] by simp_all
  have a: "add_prefixed (nibble_str i) (dict_of [] (entries ?t)) res = ?res"
    using add_prefixed_dict [of "entries ?t" "[i]" res] distinct_entries [OF i(3)] Cons.prems(5) [of i] by simp
  have rest: "branch_dict env walk ?node js ?res st' =
      bindT (grab_all env (concat (map (\<lambda>i. hashed env (ts ! i) @ tree_nodes env (ts ! i)) js)))
        (\<lambda>_. returnT (?res @ concat (map (\<lambda>i. dict_of [i] (entries (ts ! i))) js))) st'" if "t_db st' = t_db st" for st' :: "'kv Trie"
  proof (rule Cons.IH)
    show "path_str (l # k) \<notin> fst ` set ?res" if "l \<in> set js" for l k
      using that Cons.prems(3,5) by (auto simp: fst_dict_of image_Un)
  qed (use Cons.prems that in auto)
  have "branch_dict env walk ?node (i # js) res st =
      bindT (decode_to_node env (ref_of env (node_of env ?t))) (\<lambda>s. bindT (walk s) (\<lambda>d. bindT (liftT (items_of d)) (\<lambda>sub.
        branch_dict env walk ?node js (add_prefixed (nibble_str i) sub res)))) st"
    using i(1) len by (simp add: nth_append)
  also have "\<dots> = bindT (grab_all env (hashed env ?t @ tree_nodes env ?t)) (\<lambda>_. branch_dict env walk ?node js ?res) st"
    by (subst bind_walk [OF i(2) Cons.prems(1) i(4), where d = "Some (dict_of [] (entries ?t))" and ns = "tree_nodes env ?t"])
      (use Cons.prems(2) in \<open>simp_all add: items_of_def a\<close>)
  also have "\<dots> = bindT (grab_all env (hashed env ?t @ tree_nodes env ?t)) (\<lambda>_.
      bindT (grab_all env (concat (map (\<lambda>i. hashed env (ts ! i) @ tree_nodes env (ts ! i)) js)))
        (\<lambda>_. returnT (?res @ concat (map (\<lambda>i. dict_of [i] (entries (ts ! i))) js)))) st"
    by (rule bindT_grab, rule rest)
  finally show ?case by (simp add: grab_all_bind)
qed simp

lemma to_dict_node_correct:
  "wf_trie t \<Longrightarrow> subs t \<subseteq> U \<Longrightarrow> height t < n \<Longrightarrow> kv_inv (t_db st) \<Longrightarrow> stored env (dbm st) t \<Longrightarrow>
   to_dict_node env n (node_of env t) st = bindT (grab_all env (tree_nodes env t)) (\<lambda>_. returnT (Some (dict_of [] (entries t)))) st"
proof (induction t arbitrary: n st)
  case TBlank
  then obtain n' where n: "n = Suc n'" by (cases n) auto
  show ?case unfolding n to_dict_node_steps by simp
next
  case (TLeaf c v)
  then obtain n' where n: "n = Suc n'" by (cases n) auto
  have "nibs c" using TLeaf.prems(1) by simp
  then show ?case unfolding n by (simp only: to_dict_node_steps) (simp add: dict_of_def)
next
  case (TExt c t)
  then obtain n' where n: "n = Suc n'" by (cases n) auto
  have c: "nibs c" "c \<noteq> []" "wf_trie t" "subs t \<subseteq> U" "height t < n'" "in_db env (dbm st) t" "stored env (dbm st) t"
    using TExt.prems by (auto simp: n)
  have U: "t \<in> U" using c(4) subs_self by blast
  have "add_prefixed (py_join CHR ''+'' (map nibble_str c)) (dict_of [] (entries t)) [] = dict_of c (entries t)"
    using add_prefixed_dict [of "entries t" c "[]"] distinct_entries [OF c(3)] by simp
  then show ?case unfolding n to_dict_node_steps(3) [OF c(1,2)]
    by (subst bind_walk [OF U TExt.prems(4) c(6), where d = "Some (dict_of [] (entries t))" and ns = "tree_nodes env t"])
      (use TExt.IH [OF c(3-5)] TExt.prems(4) c(7) in \<open>simp_all add: items_of_def dict_of_map\<close>)
next
  case (TBranch ts v)
  then obtain n' where n: "n = Suc n'" by (cases n) auto
  have len: "length ts = 16" using TBranch.prems(1) by simp
  note t = stored_child [OF TBranch.prems(1,2) TBranch.prems(3) [unfolded n] TBranch.prems(5)]
  let ?es = "concat (map (\<lambda>i. dict_of [i] (entries (ts ! i))) [0..<16])"
  have "branch_dict env (to_dict_node env n') (node_of env (TBranch ts v)) [0..<16] [] st =
      bindT (grab_all env (tree_nodes env (TBranch ts v))) (\<lambda>_. returnT ?es) st"
    using branch_dict_correct [OF len TBranch.prems(4), of "[0..<16]" "to_dict_node env n'" "[]" v] t TBranch.prems(4) TBranch.IH len by simp
  then show ?case unfolding n to_dict_node_steps(4) [OF len] dict_of_branch [OF len, symmetric] Let_def by (rule bindT_grabbed)
qed

end

section \<open>Depth and size\<close>

lemma branch_highest_child:
  assumes "wf_trie (TBranch ts v)"
  shows "\<exists>i < length ts. ts ! i \<noteq> TBlank \<and> height (TBranch ts v) = Suc (height (ts ! i))"
proof -
  let ?M = "Max (set (map height ts) \<union> {0})"
  have "length (filter (\<lambda>t. t \<noteq> TBlank) ts) \<noteq> 0" using assms by (auto simp: fill_def split: if_splits)
  then obtain t where t: "t \<in> set ts" "t \<noteq> TBlank" by (auto simp: filter_empty_conv)
  have "\<exists>s \<in> set ts. s \<noteq> TBlank \<and> height s = ?M"
  proof (cases "?M = 0")
    case True
    have "height t \<le> ?M" using t(1) by (intro Max_ge) auto
    then have "height t = ?M" unfolding True by (simp only: le_zero_eq)
    then show ?thesis using t by blast
  next
    case False
    have "?M \<in> set (map height ts) \<union> {0}" by (rule Max_in) auto
    then obtain s where "s \<in> set ts" "height s = ?M" using False by auto
    then show ?thesis using False by (intro bexI [of _ s]) auto
  qed
  then obtain i where "i < length ts" "ts ! i \<noteq> TBlank" "height (ts ! i) = ?M" by (metis in_set_conv_nth)
  then show ?thesis by (intro exI [of _ i]) (simp only: height.simps simp_thms)
qed

lemma height_key: "wf_trie t \<Longrightarrow> t \<noteq> TBlank \<Longrightarrow> \<exists>k. lookup t k \<noteq> [] \<and> height t \<le> length k"
proof (induction t)
  case (TExt c t)
  then obtain k where "lookup t k \<noteq> []" "height t \<le> length k" by (cases t) auto
  moreover have "c \<noteq> []" using TExt.prems(1) by simp
  ultimately show ?case by (intro exI [of _ "c @ k"]) (cases c, auto)
next
  case (TBranch ts v)
  obtain i where i: "i < length ts" "ts ! i \<noteq> TBlank" "height (TBranch ts v) = Suc (height (ts ! i))"
    using branch_highest_child [OF TBranch.prems(1)] by blast
  then obtain k where "lookup (ts ! i) k \<noteq> []" "height (ts ! i) \<le> length k"
    using TBranch.IH [OF nth_mem [OF i(1)]] TBranch.prems(1) by auto
  then show ?case using i by (intro exI [of _ "i # k"]) simp
qed auto

lemma contents_in_history: "contents h b \<noteq> [] \<Longrightarrow> \<exists>v. (b, Some v) \<in> set h"
proof -
  have "fold (\<lambda>(k, v) m. m(k := (case v of None \<Rightarrow> [] | Some v \<Rightarrow> v))) h m b \<noteq> [] \<Longrightarrow> m b \<noteq> [] \<or> (\<exists>v. (b, Some v) \<in> set h)"
    for m :: "bytes \<Rightarrow> bytes"
  proof (induction h arbitrary: m)
    case (Cons e h)
    obtain k v where e: "e = (k, v)" by (cases e)
    from Cons.IH [of "m(k := (case v of None \<Rightarrow> [] | Some v \<Rightarrow> v))"] Cons.prems show ?case
      by (auto simp: e split: if_splits option.splits)
  qed simp
  then show "contents h b \<noteq> [] \<Longrightarrow> \<exists>v. (b, Some v) \<in> set h" by (fastforce simp: contents_def)
qed

lemma history_height:
  assumes "valid_history env h" "0 < recursion_limit env"
  shows "height (tree_after TBlank h) < recursion_limit env"
proof (cases "tree_after TBlank h = TBlank")
  case False
  obtain k where k: "lookup (tree_after TBlank h) k \<noteq> []" "height (tree_after TBlank h) \<le> length k"
    using height_key [OF tree_after_contents(1) [OF assms(1)] False] by blast
  then obtain b where b: "k = bin_to_nibbles b" using tree_after_contents(3) [OF assms(1), of k] by blast
  then have "contents h b \<noteq> []" using k(1) tree_after_contents(2) [OF assms(1), of b] by simp
  then obtain v where "(b, Some v) \<in> set h" using contents_in_history by blast
  then have "2 * length b < recursion_limit env" using assms(1) by (auto simp: valid_history_def list_all_iff)
  then show ?thesis using k(2) b by simp
qed (use assms in simp)

lemma get_size_steps:
  "get_size env (Suc n) (node_of env TBlank) = returnT 0"
  "nibs c \<Longrightarrow> get_size env (Suc n) (node_of env (TLeaf c v)) = returnT 1"
  "nibs c \<Longrightarrow> c \<noteq> [] \<Longrightarrow> get_size env (Suc n) (node_of env (TExt c t)) =
     bindT (decode_to_node env (ref_of env (node_of env t))) (\<lambda>s. bindT (get_size env n s) returnT)"
  "length ts = 16 \<Longrightarrow> get_size env (Suc n) (node_of env (TBranch ts v)) =
     bindT (mapT (\<lambda>x. bindT (liftT (py_getitem (node_of env (TBranch ts v)) x)) (\<lambda>child.
       bindT (decode_to_node env child) (get_size env n))) [0..<16]) (\<lambda>sizes.
     returnT (sum_list sizes + (if v = [] then 0 else 1)))"
proof -
  have r: "bindT m returnT = m" for m :: "('kv, nat) tm"
    by (auto simp: bindT_def returnT_def fun_eq_iff split: prod.splits sum.splits)
  show "nibs c \<Longrightarrow> c \<noteq> [] \<Longrightarrow> get_size env (Suc n) (node_of env (TExt c t)) =
     bindT (decode_to_node env (ref_of env (node_of env t))) (\<lambda>s. bindT (get_size env n s) returnT)"
    by (simp add: node_type_kv is_key_value_type_def get_inner_node_from_extension_def r)
  show "length ts = 16 \<Longrightarrow> get_size env (Suc n) (node_of env (TBranch ts v)) =
     bindT (mapT (\<lambda>x. bindT (liftT (py_getitem (node_of env (TBranch ts v)) x)) (\<lambda>child.
       bindT (decode_to_node env child) (get_size env n))) [0..<16]) (\<lambda>sizes.
     returnT (sum_list sizes + (if v = [] then 0 else 1)))"
    by (cases "v = []") (simp_all add: node_type_branch is_key_value_type_def nth_append)
qed (simp_all add: node_type_kv is_key_value_type_def)

context trie_storage
begin

lemma mapT_correct:
  assumes "length ts = 16" "kv_inv (t_db st)"
    and "\<And>i (st' :: 'kv Trie). i \<in> set is \<Longrightarrow> t_db st' = t_db st \<Longrightarrow>
      walk (node_of env (ts ! i)) st' = bindT (grab_all env (tree_nodes env (ts ! i))) (\<lambda>_. returnT (x i)) st'"
    and "\<And>i. i \<in> set is \<Longrightarrow> i < 16 \<and> ts ! i \<in> U \<and> in_db env (dbm st) (ts ! i)"
  shows "mapT (\<lambda>j. bindT (liftT (py_getitem (node_of env (TBranch ts v)) j)) (\<lambda>child. bindT (decode_to_node env child) walk)) is st =
    bindT (grab_all env (concat (map (\<lambda>i. hashed env (ts ! i) @ tree_nodes env (ts ! i)) is))) (\<lambda>_. returnT (map x is)) st"
  using assms(2-4)
proof (induction "is" arbitrary: st)
  case (Cons i js)
  let ?t = "ts ! i" and ?m = "\<lambda>js. mapT (\<lambda>j. bindT (liftT (py_getitem (node_of env (TBranch ts v)) j)) (\<lambda>child. bindT (decode_to_node env child) walk)) js"
  have i: "i < 16" "?t \<in> U" "in_db env (dbm st) ?t" using Cons.prems(3) [of i] by simp_all
  have rest: "?m js st' = bindT (grab_all env (concat (map (\<lambda>i. hashed env (ts ! i) @ tree_nodes env (ts ! i)) js))) (\<lambda>_. returnT (map x js)) st'"
    if "t_db st' = t_db st" for st' :: "'kv Trie"
    using that Cons.prems by (intro Cons.IH) auto
  have "?m (i # js) st = bindT (decode_to_node env (ref_of env (node_of env ?t))) (\<lambda>s. bindT (walk s) (\<lambda>y. bindT (?m js) (\<lambda>ys. returnT (y # ys)))) st"
    using i(1) assms(1) by (simp add: nth_append bindT_assoc)
  also have "\<dots> = bindT (grab_all env (hashed env ?t @ tree_nodes env ?t)) (\<lambda>_. bindT (?m js) (\<lambda>ys. returnT (x i # ys))) st"
    by (rule bind_walk [OF i(2) Cons.prems(1) i(3)], rule Cons.prems(2)) simp_all
  also have "\<dots> = bindT (grab_all env (hashed env ?t @ tree_nodes env ?t)) (\<lambda>_.
      bindT (grab_all env (concat (map (\<lambda>i. hashed env (ts ! i) @ tree_nodes env (ts ! i)) js))) (\<lambda>_. returnT (x i # map x js))) st"
    by (rule bindT_grab, rule bindT_grabbed, rule rest)
  finally show ?case by (simp add: grab_all_bind)
qed simp

lemma get_size_correct:
  "wf_trie t \<Longrightarrow> subs t \<subseteq> U \<Longrightarrow> height t < n \<Longrightarrow> kv_inv (t_db st) \<Longrightarrow> stored env (dbm st) t \<Longrightarrow>
   get_size env n (node_of env t) st = bindT (grab_all env (tree_nodes env t)) (\<lambda>_. returnT (length (entries t))) st"
proof (induction t arbitrary: n st)
  case TBlank
  then obtain n' where n: "n = Suc n'" by (cases n) auto
  show ?case unfolding n get_size_steps by simp
next
  case (TLeaf c v)
  then obtain n' where n: "n = Suc n'" by (cases n) auto
  have "nibs c" using TLeaf.prems(1) by simp
  then show ?case unfolding n by (simp only: get_size_steps) simp
next
  case (TExt c t)
  then obtain n' where n: "n = Suc n'" by (cases n) auto
  have c: "nibs c" "c \<noteq> []" "wf_trie t" "subs t \<subseteq> U" "height t < n'" "in_db env (dbm st) t" "stored env (dbm st) t"
    using TExt.prems by (auto simp: n)
  have U: "t \<in> U" using c(4) subs_self by blast
  show ?case unfolding n get_size_steps(3) [OF c(1,2)]
    by (subst bind_walk [OF U TExt.prems(4) c(6), where d = "length (entries t)" and ns = "tree_nodes env t"])
      (use TExt.IH [OF c(3-5)] TExt.prems(4) c(7) in simp_all)
next
  case (TBranch ts v)
  then obtain n' where n: "n = Suc n'" by (cases n) auto
  have len: "length ts = 16" using TBranch.prems(1) by simp
  note t = stored_child [OF TBranch.prems(1,2) TBranch.prems(3) [unfolded n] TBranch.prems(5)]
  have "mapT (\<lambda>x. bindT (liftT (py_getitem (node_of env (TBranch ts v)) x)) (\<lambda>child. bindT (decode_to_node env child) (get_size env n'))) [0..<16] st =
      bindT (grab_all env (tree_nodes env (TBranch ts v))) (\<lambda>_. returnT (map (\<lambda>i. length (entries (ts ! i))) [0..<16])) st"
    using mapT_correct [OF len TBranch.prems(4), of "[0..<16]" "get_size env n'" "\<lambda>i. length (entries (ts ! i))" v] t TBranch.prems(4) TBranch.IH len by simp
  moreover have "length (entries (TBranch ts v)) = sum_list (map (\<lambda>i. length (entries (ts ! i))) [0..<16]) + (if v = [] then 0 else 1)"
    by (simp add: length_concat comp_def len)
  ultimately show ?case unfolding n get_size_steps(4) [OF len] by (simp only:, intro bindT_grabbed)
qed

end

section \<open>Subtree of a prefix\<close>

fun prefix_tree :: "trie \<Rightarrow> nibbles \<Rightarrow> trie \<times> nibbles" where
  "prefix_tree TBlank p = (TBlank, [])"
| "prefix_tree (TLeaf c v) p = (if prefix p c then TLeaf c v else TBlank, [])"
| "prefix_tree (TExt c t) p =
     (if length p > length c then
        (if prefix c p then (case prefix_tree t (drop (length c) p) of (s, q) \<Rightarrow> (s, c @ q)) else (TBlank, []))
      else (if prefix p c then TExt c t else TBlank, []))"
| "prefix_tree (TBranch ts v) [] = (TBranch ts v, [])"
| "prefix_tree (TBranch ts v) (i # p) = (if i < length ts then (case prefix_tree (ts ! i) p of (s, q) \<Rightarrow> (s, i # q)) else (TBlank, []))"

fun prefix_nodes :: "'kv trie_env \<Rightarrow> trie \<Rightarrow> nibbles \<Rightarrow> item list" where
  "prefix_nodes env (TExt c t) p =
     (if length p > length c \<and> prefix c p then hashed env t @ prefix_nodes env t (drop (length c) p) else [])"
| "prefix_nodes env (TBranch ts v) (i # p) = (if i < length ts then hashed env (ts ! i) @ prefix_nodes env (ts ! i) p else [])"
| "prefix_nodes env _ _ = []"

lemma prefix_tree_sub:
  "prefix_tree t p = (s, q) \<Longrightarrow> s = TBlank \<or> s \<in> subs t"
proof (induction t arbitrary: p s q)
  case (TExt c t)
  then show ?case by (fastforce split: if_splits prod.splits)
next
  case (TBranch ts v)
  then show ?case by (cases p) (fastforce split: if_splits prod.splits dest: nth_mem)+
qed (auto split: if_splits)

lemma sub_wf: "s \<in> subs t \<Longrightarrow> wf_trie t \<Longrightarrow> wf_trie s \<and> height s \<le> height t \<and> subs s \<subseteq> subs t"
proof (induction t)
  case (TExt c t)
  then show ?case by fastforce
next
  case (TBranch ts v)
  have "wf_trie s \<and> height s \<le> height t \<and> subs s \<subseteq> subs t" if "s \<in> subs t" "t \<in> set ts" for t
    using TBranch.IH [OF that(2,1)] TBranch.prems(2) that(2) by simp
  moreover have "height t \<le> height (TBranch ts v)" if "t \<in> set ts" for t
  proof -
    have "height t \<le> Max (set (map height ts) \<union> {0})" using that by (intro Max_ge) auto
    then show ?thesis by (simp only: height.simps)
  qed
  ultimately show ?case using TBranch.prems by fastforce
qed auto

lemma sub_stored: "s \<in> subs t \<Longrightarrow> stored env m t \<Longrightarrow> stored env m s"
  by (induction t) auto

lemma prefix_tree_lookup:
  "wf_trie t \<Longrightarrow> prefix_tree t p = (s, q) \<Longrightarrow>
   prefix q p \<and> (\<forall>k. lookup s k \<noteq> [] \<longrightarrow> prefix p (q @ k) \<and> lookup t (q @ k) = lookup s k) \<and>
   (\<forall>k. lookup t k \<noteq> [] \<longrightarrow> prefix p k \<longrightarrow> (\<exists>r. k = q @ r \<and> lookup s r = lookup t k))"
proof (induction t arbitrary: p s q)
  case (TExt c t)
  show ?case
  proof (cases "length p > length c \<and> prefix c p")
    case True
    then obtain p' where p: "p = c @ p'" by (auto simp: prefix_def)
    obtain s' q' where s': "prefix_tree t p' = (s', q')" by (cases "prefix_tree t p'")
    have "s = s'" "q = c @ q'" using TExt.prems(2) True p s' by auto
    moreover have "wf_trie t" using TExt.prems(1) by simp
    moreover have "\<exists>k'. k = c @ k' \<and> prefix p' k'" if "prefix (c @ p') k" for k using that by (auto simp: prefix_def)
    ultimately show ?thesis using TExt.IH [OF _ s'] unfolding p by (fastforce simp del: lookup.simps simp: lookup_append)
  next
    case False
    show ?thesis
    proof (cases "length p \<le> length c \<and> prefix p c")
      case True
      then have "s = TExt c t" "q = []" using TExt.prems(2) by simp_all
      then show ?thesis using True by (auto intro: prefix_order.trans split: if_splits)
    next
      case False
      then have s: "s = TBlank" "q = []" using TExt.prems(2) \<open>\<not> (length p > length c \<and> prefix c p)\<close> by (auto split: if_splits)
      have "\<not> prefix p k" if "prefix c k" for k
        using prefix_same_cases [OF that, of p] False \<open>\<not> (length p > length c \<and> prefix c p)\<close> by (auto dest: prefix_length_le simp: prefix_def)
      then show ?thesis using s by auto
    qed
  qed
next
  case (TBranch ts v)
  have k: "\<exists>k'. k = i # k' \<and> prefix p' k'" if "prefix (i # p') k" for i p' k using that by (cases k) auto
  show ?case
  proof (cases p)
    case Nil
    then show ?thesis using TBranch.prems(2) by auto
  next
    case (Cons i p')
    show ?thesis
    proof (cases "i < length ts")
      case True
      obtain s' q' where s': "prefix_tree (ts ! i) p' = (s', q')" by (cases "prefix_tree (ts ! i) p'")
      have "s = s'" "q = i # q'" using TBranch.prems(2) True Cons s' by auto
      moreover have "wf_trie (ts ! i)" using TBranch.prems(1) True by simp
      ultimately show ?thesis using TBranch.IH [OF nth_mem [OF True] _ s'] True unfolding Cons by (auto dest!: k)
    next
      case False
      then show ?thesis using TBranch.prems(2) Cons by (auto dest!: k)
    qed
  qed
qed (auto split: if_splits)

lemma path_in_tree: "set (path_nodes env t k) \<subseteq> set (tree_nodes env t)"
proof (induction t arbitrary: k)
  case (TBranch ts v)
  show ?case
  proof (cases k)
    case (Cons i r)
    then show ?thesis using TBranch.IH [of "ts ! i" r] by (cases "i < length ts") auto
  qed simp
qed auto

lemma path_in_prefix:
  "wf_trie t \<Longrightarrow> prefix_tree t p = (s, q) \<Longrightarrow> prefix p (q @ k) \<Longrightarrow> s \<noteq> TBlank \<Longrightarrow>
   set (path_nodes env t (q @ k)) \<subseteq> set (prefix_nodes env t p) \<union> set (tree_nodes env s)"
proof (induction t arbitrary: p q)
  case (TExt c t)
  show ?case
  proof (cases "length p > length c")
    case True
    then have cp: "prefix c p" using TExt.prems(2,4) by (auto split: if_splits)
    obtain s' q' where s': "prefix_tree t (drop (length c) p) = (s', q')" by (cases "prefix_tree t (drop (length c) p)")
    have q: "s = s'" "q = c @ q'" using TExt.prems(2) True cp s' by auto
    have "prefix (drop (length c) p) (q' @ k)" using TExt.prems(3) cp unfolding q by (auto simp: prefix_def)
    then show ?thesis using TExt.IH [of "drop (length c) p" q'] TExt.prems(1,4) s' True cp by (auto simp: q)
  next
    case False
    then have "s = TExt c t" "q = []" using TExt.prems(2,4) by (auto split: if_splits)
    then show ?thesis using path_in_tree [of env "TExt c t" k] by auto
  qed
next
  case (TBranch ts v)
  show ?case
  proof (cases p)
    case Nil
    then have "s = TBranch ts v" "q = []" using TBranch.prems(2) by auto
    then show ?thesis using path_in_tree [of env "TBranch ts v" k] by (simp only: append_Nil le_supI2)
  next
    case (Cons i p')
    then have i: "i < length ts" using TBranch.prems(2,4) by (auto split: if_splits)
    obtain s' q' where s': "prefix_tree (ts ! i) p' = (s', q')" by (cases "prefix_tree (ts ! i) p'")
    have "s = s'" "q = i # q'" using TBranch.prems(2) i Cons s' by auto
    then show ?thesis using TBranch.IH [OF nth_mem [OF i], of p' q'] TBranch.prems i s' Cons by auto
  qed
qed auto

lemma last_node_steps:
  "get_last_node_for_prfx env (Suc n) (node_of env TBlank) p seen = returnT (Some BLANK_NODE, seen)"
  "nibs c \<Longrightarrow> get_last_node_for_prfx env (Suc n) (node_of env (TLeaf c v)) p seen =
     returnT (Some (node_of env (if prefix p c then TLeaf c v else TBlank)), seen)"
  "nibs c \<Longrightarrow> c \<noteq> [] \<Longrightarrow> get_last_node_for_prfx env (Suc n) (node_of env (TExt c t)) p seen =
     (if length p > length c then
        (if prefix c p then
           bindT (decode_to_node env (ref_of env (node_of env t))) (\<lambda>s. get_last_node_for_prfx env n s (drop (length c) p) (seen @ c))
         else returnT (Some BLANK_NODE, seen))
      else returnT (Some (node_of env (if prefix p c then TExt c t else TBlank)), seen))"
  "length ts = 16 \<Longrightarrow> get_last_node_for_prfx env (Suc n) (node_of env (TBranch ts v)) [] seen = returnT (Some (node_of env (TBranch ts v)), seen)"
  "length ts = 16 \<Longrightarrow> i < 16 \<Longrightarrow> get_last_node_for_prfx env (Suc n) (node_of env (TBranch ts v)) (i # p) seen =
     bindT (decode_to_node env (ref_of env (node_of env (ts ! i)))) (\<lambda>s. get_last_node_for_prfx env n s p (seen @ [i]))"
  by (simp_all add: node_type_kv key_packed starts_with_prefix get_inner_node_from_extension_def node_type_branch node_type_blank nth_append)

context trie_storage
begin

lemma last_node_correct:
  "wf_trie t \<Longrightarrow> nibs p \<Longrightarrow> subs t \<subseteq> U \<Longrightarrow> length p < n \<Longrightarrow> kv_inv (t_db st) \<Longrightarrow> stored env (dbm st) t \<Longrightarrow> prefix_tree t p = (s, q) \<Longrightarrow>
   get_last_node_for_prfx env n (node_of env t) p seen st =
     bindT (grab_all env (prefix_nodes env t p)) (\<lambda>_. returnT (Some (node_of env s), seen @ q)) st"
proof (induction t arbitrary: p q n st seen)
  case TBlank
  then obtain n' where n: "n = Suc n'" by (cases n) auto
  show ?case using TBlank.prems(7) unfolding n last_node_steps by auto
next
  case (TLeaf c v)
  then obtain n' where n: "n = Suc n'" by (cases n) auto
  have "nibs c" using TLeaf.prems(1) by simp
  then show ?case using TLeaf.prems(7) unfolding n by (auto simp: last_node_steps simp del: get_last_node_for_prfx.simps node_of.simps split: if_splits)
next
  case (TExt c t)
  then obtain n' where n: "n = Suc n'" by (cases n) auto
  have c: "nibs c" "c \<noteq> []" "wf_trie t" "subs t \<subseteq> U" "in_db env (dbm st) t" "stored env (dbm st) t" using TExt.prems by auto
  have U: "t \<in> U" using c(4) subs_self by blast
  show ?case
  proof (cases "length p > length c \<and> prefix c p")
    case True
    then have cp: "prefix c p" by simp
    obtain s' q' where s': "prefix_tree t (drop (length c) p) = (s', q')" by (cases "prefix_tree t (drop (length c) p)")
    have q: "s' = s" "q = c @ q'" using TExt.prems(7) True cp s' by auto
    have "get_last_node_for_prfx env n' (node_of env t) (drop (length c) p) (seen @ c) st' =
        bindT (grab_all env (prefix_nodes env t (drop (length c) p))) (\<lambda>_. returnT (Some (node_of env s), seen @ q)) st'"
      if "t_db st' = t_db st" for st' :: "'kv Trie"
      using TExt.IH [OF c(3) _ c(4) _ _ _ s' [unfolded q(1)], of n' st' "seen @ c"] TExt.prems(2,4,5) c(2,6) True that by (cases c) (auto simp: n q(2))
    from bind_decode_then [where g = "\<lambda>s. get_last_node_for_prfx env n' s (drop (length c) p) (seen @ c)", OF U TExt.prems(5) c(5) this]
    show ?thesis unfolding n last_node_steps(3) [OF c(1,2)] using True cp by simp
  next
    case False
    then show ?thesis using TExt.prems(7) unfolding n last_node_steps(3) [OF c(1,2)] by (auto simp del: node_of.simps(2-) split: if_splits)
  qed
next
  case (TBranch ts v)
  then obtain n' where n: "n = Suc n'" by (cases n) auto
  have len: "length ts = 16" using TBranch.prems(1) by simp
  show ?case
  proof (cases p)
    case Nil
    then have "s = TBranch ts v" "q = []" using TBranch.prems(7) by simp_all
    then show ?thesis unfolding n Nil last_node_steps(4) [OF len] by (simp del: node_of.simps)
  next
    case (Cons i p')
    have i: "i < 16" "nibs p'" using TBranch.prems(2) Cons by auto
    have t: "ts ! i \<in> set ts" "wf_trie (ts ! i)" "in_db env (dbm st) (ts ! i)" "stored env (dbm st) (ts ! i)" "subs (ts ! i) \<subseteq> U"
      using TBranch.prems(1,3,6) i len UN_upper [of "ts ! i" "set ts" subs] by auto
    have U: "ts ! i \<in> U" using t(5) subs_self by blast
    obtain s' q' where s': "prefix_tree (ts ! i) p' = (s', q')" by (cases "prefix_tree (ts ! i) p'")
    have q: "s' = s" "q = i # q'" using TBranch.prems(7) i len Cons s' by auto
    have "get_last_node_for_prfx env n' (node_of env (ts ! i)) p' (seen @ [i]) st' =
        bindT (grab_all env (prefix_nodes env (ts ! i) p')) (\<lambda>_. returnT (Some (node_of env s), seen @ q)) st'"
      if "t_db st' = t_db st" for st' :: "'kv Trie"
      using TBranch.IH [OF t(1,2) i(2) t(5) _ _ _ s' [unfolded q(1)], of n' st' "seen @ [i]"] TBranch.prems(4,5) t(4) that Cons by (auto simp: n q(2))
    from bind_decode_then [where g = "\<lambda>s. get_last_node_for_prfx env n' s p' (seen @ [i])", OF U TBranch.prems(5) t(3) this]
    show ?thesis unfolding n Cons last_node_steps(5) [OF len i(1)] using i len by simp
  qed
qed

lemma hashed_U: "subs t \<subseteq> U \<Longrightarrow> set (hashed env t) \<subseteq> node_of env ` U"
  using subsetD [OF _ subs_self [of t], of U] unfolding hashed_def by auto

lemma child_U: "subs (TBranch ts v) \<subseteq> U \<Longrightarrow> i < length ts \<Longrightarrow> subs (ts ! i) \<subseteq> U"
  using UN_upper [OF nth_mem, of i ts subs] by auto

lemma tree_nodes_U: "subs t \<subseteq> U \<Longrightarrow> set (tree_nodes env t) \<subseteq> node_of env ` U"
proof (induction t)
  case (TExt c t)
  then show ?case using hashed_U [of t] by simp
next
  case (TBranch ts v)
  have "set (hashed env (ts ! i)) \<union> set (tree_nodes env (ts ! i)) \<subseteq> node_of env ` U" if "i < length ts" for i
    using TBranch.IH [OF nth_mem [OF that]] hashed_U [of "ts ! i"] child_U [OF TBranch.prems that] by simp
  then have "(\<Union>i \<in> {0..<length ts}. set (hashed env (ts ! i)) \<union> set (tree_nodes env (ts ! i))) \<subseteq> node_of env ` U" by (intro UN_least) simp
  then show ?case by simp
qed simp_all

lemma prefix_nodes_U: "subs t \<subseteq> U \<Longrightarrow> set (prefix_nodes env t p) \<subseteq> node_of env ` U"
proof (induction t arbitrary: p)
  case (TExt c t)
  then show ?case using hashed_U [of t] by (cases "length p > length c \<and> prefix c p") (simp, auto)
next
  case (TBranch ts v)
  show ?case
  proof (cases p)
    case (Cons i p')
    then show ?thesis using TBranch.IH [OF nth_mem, of i p'] hashed_U [of "ts ! i"] child_U [OF TBranch.prems, of i] by (cases "i < length ts") simp_all
  qed simp
qed simp_all

end

section \<open>Keys as bytes\<close>

definition bytes_dict :: "(bytes \<times> bytes) list \<Rightarrow> bytes item_dict" where
  "bytes_dict es = map (\<lambda>(b, v). (b, RB v)) es"

lemma bytes_dict_simps [simp]:
  "map fst (bytes_dict es) = map fst es" "length (bytes_dict es) = length es" "map_of (bytes_dict es) b = map_option RB (map_of es b)"
  by (induction es) (auto simp: bytes_dict_def)

lemma foldE_dict:
  "distinct (map fst es) \<Longrightarrow> (\<forall>b \<in> fst ` set es. g (f b) = Inr b \<and> b \<notin> fst ` set res) \<Longrightarrow>
   foldE (\<lambda>res (k, v). bindE (g k) (\<lambda>key. Inr (AList.update key v res))) res (map (\<lambda>(b, v). (f b, RB v)) es) = Inr (res @ bytes_dict es)"
proof (induction es arbitrary: res)
  case (Cons e es)
  obtain b v where e: "e = (b, v)" by (cases e)
  have u: "AList.update b (RB v) res = res @ [(b, RB v)]" using Cons.prems(2) by (intro update_new) (simp add: e)
  have "foldE (\<lambda>res (k, v). bindE (g k) (\<lambda>key. Inr (AList.update key v res))) (res @ [(b, RB v)]) (map (\<lambda>(b, v). (f b, RB v)) es) =
      Inr ((res @ [(b, RB v)]) @ bytes_dict es)"
    using Cons.prems by (intro Cons.IH) (auto simp: e)
  then show ?case using Cons.prems(2) by (simp add: e u bytes_dict_def)
qed (simp add: bytes_dict_def)

lemma entries_bytes:
  assumes "wf_trie s" "\<And>k. lookup s k \<noteq> [] \<Longrightarrow> \<exists>b. q @ k = bin_to_nibbles b"
  obtains es where "entries s = map (\<lambda>(b, v). (drop (length q) (bin_to_nibbles b), v)) es" "distinct (map fst es)"
    "\<forall>b \<in> fst ` set es. prefix q (bin_to_nibbles b)"
    "\<forall>b r. q @ r = bin_to_nibbles b \<longrightarrow> map_of es b = (if lookup s r = [] then None else Some (lookup s r))"
    "\<forall>b. \<not> prefix q (bin_to_nibbles b) \<longrightarrow> map_of es b = None"
proof -
  let ?k = "\<lambda>b. drop (length q) (bin_to_nibbles b)"
  have "\<forall>k \<in> fst ` set xs. \<exists>b. q @ k = bin_to_nibbles b \<Longrightarrow>
      \<exists>es. xs = map (\<lambda>(b, v). (?k b, v)) es \<and> (\<forall>b \<in> fst ` set es. prefix q (bin_to_nibbles b))" for xs :: "(nibbles \<times> bytes) list"
  proof (induction xs)
    case (Cons x xs)
    then obtain es b where es: "xs = map (\<lambda>(b, v). (?k b, v)) es" "\<forall>b \<in> fst ` set es. prefix q (bin_to_nibbles b)" "q @ fst x = bin_to_nibbles b" by auto
    then show ?case by (intro exI [of _ "(b, snd x) # es"]) (auto simp flip: es(3))
  qed simp
  moreover have "\<forall>k \<in> fst ` set (entries s). \<exists>b. q @ k = bin_to_nibbles b" using entries_iff [OF assms(1)] assms(2) by auto
  ultimately obtain es where es: "entries s = map (\<lambda>(b, v). (?k b, v)) es" "\<forall>b \<in> fst ` set es. prefix q (bin_to_nibbles b)" by blast
  have "map fst (entries s) = map ?k (map fst es)" unfolding es(1) by (simp add: case_prod_unfold)
  then have d: "distinct (map fst es)" using distinct_entries [OF assms(1)] by (metis distinct_map)
  have mem: "(c, v) \<in> set es \<longleftrightarrow> v \<noteq> [] \<and> lookup s r = v" if r: "q @ r = bin_to_nibbles c" for c r v
  proof -
    have "(?k c, v) \<in> set (entries s)" if "(c, v) \<in> set es" using that unfolding es(1) by force
    then have "(r, v) \<in> set (entries s)" if "(c, v) \<in> set es" using that by (simp flip: r)
    moreover have "(c, v) \<in> set es" if rv: "(r, v) \<in> set (entries s)"
    proof -
      obtain b where b: "(b, v) \<in> set es" "r = ?k b" using rv unfolding es(1) by auto
      have "prefix q (bin_to_nibbles b)" using es(2) b(1) by force
      then have "bin_to_nibbles b = bin_to_nibbles c" using b(2) r by (auto simp: prefix_def)
      then have "b = c" by (rule inj_bin_to_nibbles)
      then show ?thesis using b(1) by simp
    qed
    ultimately show ?thesis using entries_iff [OF assms(1)] by blast
  qed
  have 4: "map_of es c = (if lookup s r = [] then None else Some (lookup s r))" if r: "q @ r = bin_to_nibbles c" for c r
  proof (cases "lookup s r = []")
    case True
    have "(c, v) \<notin> set es" for v using mem [OF r, of v] True by auto
    then have "c \<notin> fst ` set es" by auto
    then show ?thesis using True by (simp add: map_of_eq_None_iff)
  next
    case False
    then show ?thesis using mem [OF r] map_of_is_SomeI [OF d] by simp
  qed
  have "map_of es c = None" if "\<not> prefix q (bin_to_nibbles c)" for c
    using es(2) that by (auto simp: map_of_eq_None_iff)
  with that [OF es(1) d es(2)] 4 show ?thesis by blast
qed

lemma mapE_full_key:
  "q @ k = bin_to_nibbles b \<Longrightarrow> bindE (mapE int_of_str (py_split CHR ''+'' (path_str k))) (\<lambda>ks. nibbles_to_bin (without_terminator_and_flags (q @ ks))) = Inr b"
  using without_terminator_bin [of b] by (simp add: mapE_path_str nibbles_to_bin_bin flip: append_assoc)

lemma full_keys_alt:
  "full_keys q d = foldE (\<lambda>res (k, v). bindE (bindE (mapE int_of_str (py_split CHR ''+'' k)) (\<lambda>ks. nibbles_to_bin (without_terminator_and_flags (q @ ks))))
     (\<lambda>key. Inr (AList.update key v res))) [] d"
  by (simp add: full_keys_def bindE_assoc)

definition prefix_dict :: "'kv trie_env \<Rightarrow> item \<Rightarrow> bytes \<Rightarrow> ('kv, bytes item_dict option) tm" where
  "prefix_dict env root p =
     bindT (get_last_node_for_prfx env (recursion_limit env) root (bin_to_nibbles p) []) (\<lambda>(prefix_node, seen_prfx).
     bindT (case prefix_node of None \<Rightarrow> raiseT TypeError | Some node \<Rightarrow> to_dict_node env (recursion_limit env) node) (\<lambda>rv.
     bindT (liftT (items_of rv)) (\<lambda>d. bindT (liftT (full_keys seen_prfx d)) (\<lambda>d. returnT (Some d)))))"

lemma produce_prefix_alt:
  "produce_spv_proof_for_keys_with_prefix env p root True st =
     bindT (modifyT (\<lambda>st. st\<lparr>t_proof := pc_push (rlp_encode env) RECORDING [] (t_proof st)\<rparr>)) (\<lambda>_.
     bindT (prefix_dict env (root_or_head root st) p) (\<lambda>rv. bindT (get_nodelist env) (\<lambda>nodes.
     bindT (modifyT (\<lambda>st. st\<lparr>t_proof := pc_pop (t_proof st)\<rparr>)) (\<lambda>_. returnT (nodes, rv))))) st"
  by (simp add: produce_spv_proof_for_keys_with_prefix_def prefix_dict_def bindT_assoc case_prod_unfold)

context trie_storage
begin

lemma to_dict_correct:
  assumes "represents st t" "height t < recursion_limit env" "\<And>k. lookup t k \<noteq> [] \<Longrightarrow> \<exists>b. k = bin_to_nibbles b"
  shows "\<exists>es. to_dict env None st = (Inr (bytes_dict es), st) \<and> trie_len env st = (Inr (length es), st) \<and> distinct (map fst es) \<and>
    (\<forall>b. map_of es b = (if lookup t (bin_to_nibbles b) = [] then None else Some (lookup t (bin_to_nibbles b))))"
proof -
  have r: "okT st" "root_node st = node_of env t" "wf_trie t" "subs t \<subseteq> U" "stored env (dbm st) t" using assms(1) by (simp_all add: represents_def)
  have o: "kv_inv (t_db st)" "\<not> pc_proving (t_proof st)" using r(1) by (simp_all add: okT_def)
  have kb: "\<exists>b. [] @ k = bin_to_nibbles b" if "lookup t k \<noteq> []" for k using assms(3) [OF that] by simp
  obtain es where es: "entries t = map (\<lambda>(b, v). (drop (length ([] :: nibbles)) (bin_to_nibbles b), v)) es" "distinct (map fst es)"
    "\<forall>b r. [] @ r = bin_to_nibbles b \<longrightarrow> map_of es b = (if lookup t r = [] then None else Some (lookup t r))"
    by (rule entries_bytes [OF r(3) kb]) blast
  have d: "dict_of [] (entries t) = map (\<lambda>(b, v). (path_str (bin_to_nibbles b), RB v)) es"
    unfolding es(1) by (simp add: dict_of_def case_prod_unfold)
  have "foldE (\<lambda>res (k, v). bindE (nibble_key_str_to_bin k) (\<lambda>key. Inr (AList.update key v res))) [] (dict_of [] (entries t)) = Inr ([] @ bytes_dict es)"
    unfolding d by (rule foldE_dict [OF es(2)]) (simp add: nibble_key_path_str)
  then have "to_dict env None st = (Inr (bytes_dict es), st)"
    using to_dict_node_correct [OF r(3,4) assms(2) o(1) r(5)] grab_all_not_proving [OF o(2), of env "tree_nodes env t"]
    by (simp add: to_dict_def r(2) bindT_def liftT_def returnT_def items_of_def)
  moreover have "length (entries t) = length es" unfolding es(1) by simp
  then have "trie_len env st = (Inr (length es), st)"
    using get_size_correct [OF r(3,4) assms(2) o(1) r(5)] grab_all_not_proving [OF o(2), of env "tree_nodes env t"]
    by (simp add: trie_len_def r(2) bindT_def returnT_def)
  ultimately show ?thesis using es(2,3) by auto
qed

lemma prefix_walk:
  assumes "okT st" "wf_trie t" "subs t \<subseteq> U" "stored env (dbm st) t" "height t < recursion_limit env" "2 * length p < recursion_limit env"
    and sq: "prefix_tree t (bin_to_nibbles p) = (s, q)" and keys: "full_keys q (dict_of [] (entries s)) = Inr d"
  shows "prefix_dict env (node_of env t) p (st\<lparr>t_proof := pr\<rparr>) =
    bindT (grab_all env (prefix_nodes env t (bin_to_nibbles p) @ tree_nodes env s)) (\<lambda>_. returnT (Some d)) (st\<lparr>t_proof := pr\<rparr>)"
proof -
  let ?n = "recursion_limit env" and ?st = "st\<lparr>t_proof := pr\<rparr>" and ?p = "bin_to_nibbles p"
  have kv: "kv_inv (t_db st)" using assms(1) by (simp add: okT_def)
  have walk: "to_dict_node env ?n (node_of env s) st' = bindT (grab_all env (tree_nodes env s)) (\<lambda>_. returnT (Some (dict_of [] (entries s)))) st'"
    if "t_db st' = t_db st" for st' :: "'kv Trie"
  proof (cases "s = TBlank")
    case True
    obtain m where "?n = Suc m" using assms(5) by (cases ?n) auto
    then show ?thesis using True by simp
  next
    case False
    then have "s \<in> subs t" using prefix_tree_sub [OF sq] by simp
    then have "wf_trie s" "height s \<le> height t" "subs s \<subseteq> U" "stored env (dbm st) s"
      using sub_wf [of s t] sub_stored [of s t] assms(2-4) by auto
    then show ?thesis using kv that assms(5) by (intro to_dict_node_correct) simp_all
  qed
  have "get_last_node_for_prfx env ?n (node_of env t) ?p [] ?st =
      bindT (grab_all env (prefix_nodes env t ?p)) (\<lambda>_. returnT (Some (node_of env s), [] @ q)) ?st"
    using assms(2-6) kv by (intro last_node_correct [OF _ _ _ _ _ _ sq]) simp_all
  then show ?thesis unfolding prefix_dict_def grab_all_bind
  proof (subst bindT_grabbed)
    let ?G = "\<lambda>rv. bindT (liftT (items_of rv)) (\<lambda>d. bindT (liftT (full_keys q d)) (\<lambda>d. returnT (Some d)))"
    have "bindT (to_dict_node env ?n (node_of env s)) ?G st' = bindT (grab_all env (tree_nodes env s)) (\<lambda>_. returnT (Some d)) st'"
      if "t_db st' = t_db st" for st' :: "'kv Trie"
      by (subst bindT_grabbed, rule walk [OF that]) (simp add: items_of_def keys)
    then show "bindT (grab_all env (prefix_nodes env t ?p)) (\<lambda>_. case (Some (node_of env s), [] @ q) of (prefix_node, seen_prfx) \<Rightarrow>
        bindT (case prefix_node of None \<Rightarrow> raiseT TypeError | Some node \<Rightarrow> to_dict_node env ?n node) (\<lambda>rv.
        bindT (liftT (items_of rv)) (\<lambda>d. bindT (liftT (full_keys seen_prfx d)) (\<lambda>d. returnT (Some d))))) ?st =
      bindT (grab_all env (prefix_nodes env t ?p)) (\<lambda>_. bindT (grab_all env (tree_nodes env s)) (\<lambda>_. returnT (Some d))) ?st"
      by (intro bindT_grab) simp
  qed
qed

lemma prefix_map_of:
  assumes "prefix q p \<and> (\<forall>k. lookup s k \<noteq> [] \<longrightarrow> prefix p (q @ k) \<and> lookup t (q @ k) = lookup s k) \<and>
      (\<forall>k. lookup t k \<noteq> [] \<longrightarrow> prefix p k \<longrightarrow> (\<exists>r. k = q @ r \<and> lookup s r = lookup t k))"
    and "\<And>b r. q @ r = bin_to_nibbles b \<Longrightarrow> map_of es b = (if lookup s r = [] then None else Some (lookup s r))"
    and "\<And>b. \<not> prefix q (bin_to_nibbles b) \<Longrightarrow> map_of es b = None"
  shows "map_of es b = (if prefix p (bin_to_nibbles b) \<and> lookup t (bin_to_nibbles b) \<noteq> [] then Some (lookup t (bin_to_nibbles b)) else None)"
proof (cases "prefix q (bin_to_nibbles b)")
  case True
  then obtain r where r: "q @ r = bin_to_nibbles b" by (auto simp: prefix_def)
  have "lookup s r \<noteq> [] \<longleftrightarrow> prefix p (q @ r) \<and> lookup t (q @ r) \<noteq> []" "lookup s r \<noteq> [] \<Longrightarrow> lookup t (q @ r) = lookup s r"
    using assms(1) by fastforce+
  then show ?thesis using assms(2) [OF r] r by auto
next
  case False
  then show ?thesis using assms(3) [OF False] assms(1) by (auto simp: prefix_def)
qed

lemma produce_prefix_correct:
  assumes "okT st" "t_proof st = no_proof" "wf_trie t" "subs t \<subseteq> U" "stored env (dbm st) t" "height t < recursion_limit env"
    and "2 * length p < recursion_limit env" "root_or_head root st = node_of env t" "\<And>k. lookup t k \<noteq> [] \<Longrightarrow> \<exists>b. k = bin_to_nibbles b"
  shows "\<exists>ns es s q. produce_spv_proof_for_keys_with_prefix env p root True st = (Inr (ns, Some (bytes_dict es)), st) \<and>
    distinct (map fst es) \<and> prefix_tree t (bin_to_nibbles p) = (s, q) \<and>
    set ns = set (prefix_nodes env t (bin_to_nibbles p)) \<union> set (tree_nodes env s) \<and> set ns \<subseteq> node_of env ` U \<and>
    (\<forall>b. map_of es b = (if prefix (bin_to_nibbles p) (bin_to_nibbles b) \<and> lookup t (bin_to_nibbles b) \<noteq> [] then Some (lookup t (bin_to_nibbles b)) else None))"
proof -
  let ?p = "bin_to_nibbles p" and ?st1 = "st\<lparr>t_proof := pc_push (rlp_encode env) RECORDING [] no_proof\<rparr>"
  obtain s q where sq: "prefix_tree t ?p = (s, q)" by (cases "prefix_tree t ?p")
  note L = prefix_tree_lookup [OF assms(3) sq]
  have s: "wf_trie s" using prefix_tree_sub [OF sq] sub_wf [of s t] assms(3) by auto
  have kb: "\<exists>b. q @ k = bin_to_nibbles b" if "lookup s k \<noteq> []" for k using L assms(9) that by auto
  obtain es where es: "entries s = map (\<lambda>(b, v). (drop (length q) (bin_to_nibbles b), v)) es" "distinct (map fst es)"
    "\<forall>b \<in> fst ` set es. prefix q (bin_to_nibbles b)"
    "\<forall>b r. q @ r = bin_to_nibbles b \<longrightarrow> map_of es b = (if lookup s r = [] then None else Some (lookup s r))"
    "\<forall>b. \<not> prefix q (bin_to_nibbles b) \<longrightarrow> map_of es b = None"
    by (rule entries_bytes [OF s kb])
  have "dict_of [] (entries s) = map (\<lambda>(b, v). (path_str (drop (length q) (bin_to_nibbles b)), RB v)) es"
    unfolding es(1) by (simp add: dict_of_def case_prod_unfold)
  moreover have "foldE (\<lambda>res (k, v). bindE (bindE (mapE int_of_str (py_split CHR ''+'' k)) (\<lambda>ks. nibbles_to_bin (without_terminator_and_flags (q @ ks))))
      (\<lambda>key. Inr (AList.update key v res))) [] (map (\<lambda>(b, v). (path_str (drop (length q) (bin_to_nibbles b)), RB v)) es) = Inr ([] @ bytes_dict es)"
  proof (rule foldE_dict [OF es(2)], rule ballI)
    fix b
    assume "b \<in> fst ` set es"
    then have "q @ drop (length q) (bin_to_nibbles b) = bin_to_nibbles b" using es(3) by (auto simp: prefix_def)
    from mapE_full_key [OF this] show "bindE (mapE int_of_str (py_split CHR ''+'' (path_str (drop (length q) (bin_to_nibbles b)))))
        (\<lambda>ks. nibbles_to_bin (without_terminator_and_flags (q @ ks))) = Inr b \<and> b \<notin> fst ` set []" by simp
  qed
  ultimately have keys: "full_keys q (dict_of [] (entries s)) = Inr (bytes_dict es)" unfolding full_keys_alt by simp
  have N: "set (prefix_nodes env t ?p @ tree_nodes env s) \<subseteq> node_of env ` U"
    using prefix_nodes_U [OF assms(4), of ?p] prefix_tree_sub [OF sq] sub_wf [of s t] tree_nodes_U [of s] assms(3,4) by auto
  from record_correct [where m = "prefix_dict env (node_of env t) p" and f = "\<lambda>nodes rv. returnT (nodes, rv)", OF assms(2) N prefix_walk [OF assms(1,3-7) sq keys]]
  obtain ns where ns: "set ns = set (prefix_nodes env t ?p @ tree_nodes env s)"
    "produce_spv_proof_for_keys_with_prefix env p root True st = (Inr (ns, Some (bytes_dict es)), st)"
    unfolding produce_prefix_alt assms(8) by (auto simp: returnT_def)
  have "map_of es b = (if prefix ?p (bin_to_nibbles b) \<and> lookup t (bin_to_nibbles b) \<noteq> [] then Some (lookup t (bin_to_nibbles b)) else None)" for b
    by (rule prefix_map_of [OF L es(4,5) [rule_format]])
  then show ?thesis using ns es(2) sq N by (intro exI [of _ ns] exI [of _ es] exI [of _ s] exI [of _ q]) simp
qed

end

section \<open>Properties\<close>

lemma history_keys:
  assumes "valid_history env h" "lookup (tree_after TBlank h) k \<noteq> []"
  shows "\<exists>b. k = bin_to_nibbles b"
  using tree_after_contents(3) [OF assms(1), of k] assms(2) by blast

lemma prefix_bin: "prefix (bin_to_nibbles p) (bin_to_nibbles b) \<longleftrightarrow> prefix p b"
proof (induction p arbitrary: b)
  case (Cons x p)
  show ?case
  proof (cases b)
    case (Cons y c)
    have "x = y" if "bin_to_nibbles [x] = bin_to_nibbles [y]" using inj_bin_to_nibbles [OF that] by simp
    then show ?thesis using Cons.IH [of c] Cons by auto
  qed simp
qed simp

text \<open>
  C23: the dictionary and the length of the trie are those of its contents: after any history of
  updates and deletions \<^verbatim>\<open>to_dict\<close> has exactly the keys that have a value, each once and with its value, and
  \<^verbatim>\<open>len\<close> is their number.
\<close>

theorem to_dict_is_contents:
  assumes "kv_storage ops kv_map kv_inv" "codec_ok enc dec" "kv_inv db" "kv_map db = Map.empty"
    and "env = PersistentDB ops enc dec H n" "hash_ok env (history_trees TBlank h)" "valid_history env h" "0 < n"
  shows "\<exists>st d. run_trie env h (mk_Trie db no_proof) = (Inr (), st) \<and> to_dict env None st = (Inr d, st) \<and>
    distinct (map fst d) \<and> (\<forall>key. map_of d key = (if contents h key = [] then None else Some (RB (contents h key)))) \<and>
    trie_len env st = (Inr (length d), st)"
proof -
  let ?t = "tree_after TBlank h" and ?U = "history_trees TBlank h"
  obtain st where st: "run_trie env h (mk_Trie db no_proof) = (Inr (), st)"
    "trie_storage.represents env kv_map kv_inv ?U st ?t" "trie_storage env kv_map kv_inv ?U"
    by (rule history_run [OF assms(1-7)])
  have "height ?t < recursion_limit env" using history_height [OF assms(7)] assms(5,8) by simp
  then obtain es where es: "to_dict env None st = (Inr (bytes_dict es), st)" "trie_len env st = (Inr (length es), st)" "distinct (map fst es)"
    "\<forall>b. map_of es b = (if lookup ?t (bin_to_nibbles b) = [] then None else Some (lookup ?t (bin_to_nibbles b)))"
    using trie_storage.to_dict_correct [OF st(3,2)] history_keys [OF assms(7)] by metis
  then show ?thesis using st(1) es tree_after_contents(2) [OF assms(7)]
    by (intro exI [of _ st] exI [of _ "bytes_dict es"]) simp
qed

lemma history_path:
  assumes "valid_history env h" "prefix_tree (tree_after TBlank h) (bin_to_nibbles p) = (s, q)" "prefix p k" "contents h k \<noteq> []"
  shows "2 * length k < recursion_limit env \<and>
    set (path_nodes env (tree_after TBlank h) (bin_to_nibbles k)) \<subseteq> set (prefix_nodes env (tree_after TBlank h) (bin_to_nibbles p)) \<union> set (tree_nodes env s)"
proof
  show "2 * length k < recursion_limit env"
    using contents_in_history [OF assms(4)] assms(1) by (auto simp: valid_history_def list_all_iff)
  have l: "lookup (tree_after TBlank h) (bin_to_nibbles k) \<noteq> []" using tree_after_contents(2) [OF assms(1), of k] assms(4) by simp
  have p: "prefix (bin_to_nibbles p) (bin_to_nibbles k)" using assms(3) by (simp add: prefix_bin)
  obtain r where r: "bin_to_nibbles k = q @ r" "lookup s r = lookup (tree_after TBlank h) (bin_to_nibbles k)"
    using prefix_tree_lookup [OF tree_after_contents(1) [OF assms(1)] assms(2)] l p by blast
  then have "s \<noteq> TBlank" using l by auto
  then show "set (path_nodes env (tree_after TBlank h) (bin_to_nibbles k)) \<subseteq>
      set (prefix_nodes env (tree_after TBlank h) (bin_to_nibbles p)) \<union> set (tree_nodes env s)"
    using path_in_prefix [OF tree_after_contents(1) [OF assms(1)] assms(2), of r env] p unfolding r(1) by simp
qed

text \<open>
  C22: a proof for a prefix is complete: it comes with exactly the keys that start with the prefix and
  have a value, with their values, and the verifier accepts all of them together against the
  root hash.
\<close>

theorem prefix_proof_complete:
  assumes "kv_storage ops kv_map kv_inv" "codec_ok enc dec" "kv_inv db" "kv_map db = Map.empty"
    and "env = PersistentDB ops enc dec H n" "hash_ok env (history_trees TBlank h)" "valid_history env h"
    and "2 * length p < n"
  shows "\<exists>st root pf d. run_trie env h (mk_Trie db no_proof) = (Inr (), st) \<and> get_root_hash env st = (Inr root, st) \<and>
    generate_state_proof_for_keys_with_prefix env p None False True st = (Inr (pf, Some d), st) \<and> distinct (map fst d) \<and>
    (\<forall>key. map_of d key = (if prefix p key \<and> contents h key \<noteq> [] then Some (RB (contents h key)) else None)) \<and>
    verify_spv_proof_multi (PersistentDB kvm_ops enc dec H n) root (map (\<lambda>(k, v). (k, Some v)) d) pf no_proof = (Inr True, no_proof)"
proof -
  let ?t = "tree_after TBlank h" and ?U = "history_trees TBlank h" and ?p = "bin_to_nibbles p" and ?kenv = "PersistentDB kvm_ops enc dec H n"
  obtain st where st: "run_trie env h (mk_Trie db no_proof) = (Inr (), st)"
    "trie_storage.represents env kv_map kv_inv ?U st ?t" "trie_storage env kv_map kv_inv ?U" "t_proof st = no_proof"
    by (rule history_run [OF assms(1-7)])
  have r: "trie_storage.okT env kv_map kv_inv ?U st" "root_node st = node_of env ?t" "wf_trie ?t" "subs ?t \<subseteq> ?U" "stored env (kv_map (t_db st)) ?t"
    using st(2) by (simp_all add: trie_storage.represents_def [OF st(3)])
  have root: "get_root_hash env st = (Inr (hash_key env ?t), st)"
    using trie_storage.root_hash_correct [OF st(3,2)] by (simp add: BLANK_ROOT_def hash_key_def)
  have l: "height ?t < recursion_limit env" "2 * length p < recursion_limit env"
    using history_height [OF assms(7)] assms(5,8) by simp_all
  have ro: "root_or_head (Some (root_or_head None st)) st = node_of env ?t" by (simp add: root_or_head_def r(2))
  obtain ns es s q where ns: "produce_spv_proof_for_keys_with_prefix env p (Some (root_or_head None st)) True st = (Inr (ns, Some (bytes_dict es)), st)"
    "distinct (map fst es)" "prefix_tree ?t ?p = (s, q)" "set ns = set (prefix_nodes env ?t ?p) \<union> set (tree_nodes env s)"
    "set ns \<subseteq> node_of env ` ?U" "\<forall>b. map_of es b = (if prefix ?p (bin_to_nibbles b) \<and> lookup ?t (bin_to_nibbles b) \<noteq> [] then Some (lookup ?t (bin_to_nibbles b)) else None)"
    using trie_storage.produce_prefix_correct [OF st(3) r(1) st(4) r(3-5) l ro] history_keys [OF assms(7)] by metis
  let ?ns = "ns @ [node_of env ?t]"
  have gen: "generate_state_proof_for_keys_with_prefix env p None False True st = (Inr (ProofNodes ?ns, Some (bytes_dict es)), st)"
    using ns(1) by (simp add: generate_state_proof_for_keys_with_prefix_def finish_state_proof_def bindT_def returnT_def root_or_head_def r(2))
  have m: "map_of es b = (if prefix p b \<and> contents h b \<noteq> [] then Some (contents h b) else None)" for b
    using ns(6) tree_after_contents(2) [OF assms(7)] by (simp add: prefix_bin)
  have e: "node_of ?kenv s = node_of env s" "hash_key ?kenv s = hash_key env s" "path_nodes ?kenv s k = path_nodes env s k"
      "node_of ?kenv ` V = node_of env ` V" for s k V
    unfolding assms(5) by (rule PersistentDB_nodes path_nodes_PersistentDB image_cong refl)+
  have "verify_spv_proof_multi ?kenv (hash_key ?kenv ?t) (map (\<lambda>(k, v). (k, Some v)) (bytes_dict es)) (ProofNodes ?ns) no_proof =
      (Inr True, no_proof\<lparr>pc_proving := pc_mode no_proof \<noteq> []\<rparr>)"
  proof (rule proof_storage.verify_complete [OF history_proof_storage [OF assms(2) assms(6) [unfolded assms(5)]] r(3,4), where ns = ?ns])
    show "set ?ns \<subseteq> node_of ?kenv ` ?U" unfolding e
      using ns(5) subsetD [OF r(4) subs_self] by simp
    fix k v
    assume "(k, v) \<in> set (map (\<lambda>(k, v). (k, Some v)) (bytes_dict es))"
    then obtain w where w: "(k, w) \<in> set es" "v = Some (RB w)" by (auto simp: bytes_dict_def)
    then have k: "prefix p k" "contents h k \<noteq> []" "w = contents h k" using m [of k] map_of_is_SomeI [OF ns(2) w(1)] by (auto split: if_splits)
    show "2 * length k < recursion_limit ?kenv \<and> v = Some (RB (lookup ?t (bin_to_nibbles k))) \<and> set (path_nodes ?kenv ?t (bin_to_nibbles k)) \<subseteq> set ?ns"
      unfolding e using w(2) k history_path [OF assms(7) ns(3) k(1,2)] ns(4) tree_after_contents(2) [OF assms(7)] assms(5) by auto
  qed (simp_all add: e)
  then show ?thesis using st(1) root gen ns(2) m
    by (intro exI [of _ st] exI [of _ "hash_key env ?t"] exI [of _ "ProofNodes ?ns"] exI [of _ "bytes_dict es"]) (simp add: e no_proof_def)
qed

text \<open>
  Asked for the dictionary at the blank node, which stands for an empty trie, the trie
  gives the dictionary of its current root instead.
\<close>

theorem to_dict_of_blank_node: "to_dict env (Some BLANK_NODE) = to_dict env None"
  by (rule ext) (simp add: to_dict_def)

theorem to_dict_is_contents_witness:
  "\<exists>st d. run_trie demo_trie_env demo_history (mk_Trie [] no_proof) = (Inr (), st) \<and> to_dict demo_trie_env None st = (Inr d, st) \<and>
    map_of d [18, 52] = Some (RB (replicate 20 8)) \<and> map_of d [18] = None \<and> trie_len demo_trie_env st = (Inr (length d), st)"
proof -
  have c: "contents demo_history [18, 52] = replicate 20 8" "contents demo_history [18] = []" by code_simp+
  show ?thesis
    using to_dict_is_contents [OF kvm.kv_storage_axioms be_codec_ok _ _ demo_trie_env_def demo_hash_ok(1) demo_valid(1), of "[]"] c by force
qed

theorem prefix_proof_complete_witness:
  "\<exists>st root pf d. run_trie demo_trie_env demo_history (mk_Trie [] no_proof) = (Inr (), st) \<and> get_root_hash demo_trie_env st = (Inr root, st) \<and>
    generate_state_proof_for_keys_with_prefix demo_trie_env [18] None False True st = (Inr (pf, Some d), st) \<and>
    map_of d [18, 52] = Some (RB (replicate 20 8)) \<and> map_of d [86] = None \<and>
    verify_spv_proof_multi demo_trie_env root (map (\<lambda>(k, v). (k, Some v)) d) pf no_proof = (Inr True, no_proof)"
proof -
  have c: "contents demo_history [18, 52] = replicate 20 8" "prefix [18] [18, 52 :: byte]" "\<not> prefix [18] [86 :: byte]" by code_simp+
  show ?thesis
    using prefix_proof_complete [OF kvm.kv_storage_axioms be_codec_ok _ _ demo_trie_env_def demo_hash_ok(1) demo_valid(1), of "[]" "[18]"] c
    by (force simp flip: demo_trie_env_def)
qed

end
