(* ===== verification/Pruning_State.thy ===== *)
theory Pruning_State
  imports Trie_Dict
begin

text \<open>
  \<^verbatim>\<open>state/pruning_state.py\<close>: the state of a ledger. It has a trie over a key-value storage and, in
  the same storage under a key of its own, the root hash that was committed last. Reads are of the
  committed state or of the head. Values are encoded before they go into the trie.

  The storage and the trie share their state; the hash to revert to is always given by the callers.
  A storage takes byte strings only: putting anything else raises.
\<close>

section \<open>Definitions\<close>

definition rootHashKey :: bytes where
  "rootHashKey = [136, 200, 136, 32, 154, 167, 137, 27]"

definition kv_putT :: "'kv KeyValueStorage \<Rightarrow> bytes \<Rightarrow> bytes \<Rightarrow> ('kv, unit) tm" where
  "kv_putT ops key value = modifyT (\<lambda>st. st\<lparr>t_db := kv_put ops (t_db st) key value\<rparr>)"

definition committedHeadHash :: "'kv KeyValueStorage \<Rightarrow> ('kv, bytes) tm" where
  "committedHeadHash ops st = liftT (kv_get ops (t_db st) rootHashKey) st"

definition init_PruningState :: "'kv KeyValueStorage \<Rightarrow> 'kv trie_env \<Rightarrow> ('kv, unit) tm" where
  "init_PruningState ops env =
     bindT (\<lambda>st. liftT (has_key ops (t_db st) rootHashKey) st) (\<lambda>present.
     bindT
       (if present then committedHeadHash ops
        else bindT (kv_putT ops rootHashKey (BLANK_ROOT env)) (\<lambda>_. returnT (BLANK_ROOT env))) (\<lambda>rootHash.
     set_root_hash env rootHash))"

definition mk_PruningState :: "'kv KeyValueStorage \<Rightarrow> 'kv trie_env \<Rightarrow> 'kv \<Rightarrow> ProofConstructor \<Rightarrow> unit result \<times> 'kv Trie" where
  "mk_PruningState ops env kv p = init_PruningState ops env (mk_Trie kv p)"

definition hash_to_node :: "'kv trie_env \<Rightarrow> bytes \<Rightarrow> ('kv, item) tm" where
  "hash_to_node env node_hash = (if node_hash = BLANK_ROOT env then returnT BLANK_NODE else decode_to_node env (RB node_hash))"

definition committedHead :: "'kv KeyValueStorage \<Rightarrow> 'kv trie_env \<Rightarrow> ('kv, item) tm" where
  "committedHead ops env = bindT (committedHeadHash ops) (hash_to_node env)"

definition get_head_by_hash :: "'kv trie_env \<Rightarrow> bytes \<Rightarrow> ('kv, item) tm" where
  "get_head_by_hash env root_hash = hash_to_node env root_hash"

definition headHash :: "'kv trie_env \<Rightarrow> ('kv, bytes) tm" where
  "headHash env = get_root_hash env"

definition isEmpty :: "'kv KeyValueStorage \<Rightarrow> 'kv trie_env \<Rightarrow> ('kv, bool) tm" where
  "isEmpty ops env = bindT (committedHeadHash ops) (\<lambda>h. returnT (h = BLANK_ROOT env))"

definition state_set :: "'kv trie_env \<Rightarrow> bytes \<Rightarrow> bytes \<Rightarrow> ('kv, unit) tm" where
  "state_set env key value = trie_update env key (rlp_encode env (RL [RB value]))"

definition get_decoded :: "bytes \<Rightarrow> item result" where
  "get_decoded encoded = bindE (decode_optimized be_value encoded) (\<lambda>x. py_getitem x 0)"

definition decode_val :: "item option \<Rightarrow> item option result" where
  "decode_val val =
     (case val of
        None \<Rightarrow> Inr None
      | Some v \<Rightarrow>
          if \<not> truthy v then Inr None
          else (case v of RB b \<Rightarrow> bindE (get_decoded b) (\<lambda>x. Inr (Some x)) | _ \<Rightarrow> Inl TypeError))"

definition state_get :: "'kv KeyValueStorage \<Rightarrow> 'kv trie_env \<Rightarrow> bytes \<Rightarrow> bool \<Rightarrow> ('kv, item option) tm" where
  "state_get ops env key isCommitted =
     bindT
       (if \<not> isCommitted then trie_get env key
        else bindT (committedHead ops env) (\<lambda>head. trie_get_node env (recursion_limit env) head (bin_to_nibbles key))) (\<lambda>val.
     liftT (decode_val val))"

definition get_for_root_hash :: "'kv trie_env \<Rightarrow> bytes \<Rightarrow> bytes \<Rightarrow> ('kv, item option) tm" where
  "get_for_root_hash env root_hash key =
     bindT (hash_to_node env root_hash) (\<lambda>root.
     bindT (trie_get_node env (recursion_limit env) root (bin_to_nibbles key)) (\<lambda>val.
     liftT (decode_val val)))"

definition get_all_leaves_for_root_hash :: "'kv trie_env \<Rightarrow> bytes \<Rightarrow> ('kv, bytes item_dict) tm" where
  "get_all_leaves_for_root_hash env root_hash =
     bindT (hash_to_node env root_hash) (\<lambda>node. to_dict env (Some node))"

definition as_dict :: "'kv trie_env \<Rightarrow> ('kv, bytes item_dict) tm" where
  "as_dict env =
     bindT (to_dict env None) (\<lambda>d.
     liftT (mapE (\<lambda>(k, v). bindE (case v of RB b \<Rightarrow> get_decoded b | _ \<Rightarrow> Inl TypeError) (\<lambda>x. Inr (k, x))) d))"

definition state_remove :: "'kv trie_env \<Rightarrow> bytes \<Rightarrow> ('kv, unit) tm" where
  "state_remove env key = trie_delete env key"

definition hex_value :: "byte \<Rightarrow> nat option" where
  "hex_value c =
     (if 48 \<le> c \<and> c \<le> 57 then Some (unat c - 48)
      else if 97 \<le> c \<and> c \<le> 102 then Some (unat c - 87)
      else if 65 \<le> c \<and> c \<le> 70 then Some (unat c - 55)
      else None)"

definition isHex :: "bytes \<Rightarrow> bool" where
  "isHex val = list_all (\<lambda>c. hex_value c \<noteq> None) val"

fun unhexlify :: "bytes \<Rightarrow> bytes result" where
  "unhexlify [] = Inr []"
| "unhexlify [c] = Inl ValueError"
| "unhexlify (c # d # rest) =
     (case (hex_value c, hex_value d) of
        (Some x, Some y) \<Rightarrow> bindE (unhexlify rest) (\<lambda>bs. Inr (of_nat (16 * x + y) # bs))
      | _ \<Rightarrow> Inl ValueError)"

definition state_commit :: "'kv KeyValueStorage \<Rightarrow> 'kv trie_env \<Rightarrow> bytes option \<Rightarrow> item option \<Rightarrow> ('kv, unit) tm" where
  "state_commit ops env rootHash rootNode =
     bindT
       (if rootNode \<noteq> None \<and> truthy (the rootNode) then encode_node env (the rootNode) False
        else
          (case rootHash of
             Some h \<Rightarrow>
               if h \<noteq> [] \<and> isHex h then bindT (liftT (unhexlify h)) (\<lambda>h'. returnT (RB h'))
               else if h \<noteq> [] then returnT (RB h)
               else bindT (headHash env) (\<lambda>h. returnT (RB h))
           | None \<Rightarrow> bindT (headHash env) (\<lambda>h. returnT (RB h)))) (\<lambda>root.
     case root of RB h \<Rightarrow> kv_putT ops rootHashKey h | _ \<Rightarrow> raiseT TypeError)"

definition revertToHead :: "'kv trie_env \<Rightarrow> bytes \<Rightarrow> ('kv, unit) tm" where
  "revertToHead env head_hash =
     bindT (hash_to_node env head_hash) (\<lambda>head st. replace_root_hash env (root_node st) head st)"

definition encode_kv_for_verification :: "'kv trie_env \<Rightarrow> bytes \<Rightarrow> bytes option \<Rightarrow> bytes \<times> item option" where
  "encode_kv_for_verification env key value =
     (key, Some (RB (case value of Some v \<Rightarrow> rlp_encode env (RL [RB v]) | None \<Rightarrow> [])))"

definition verify_state_proof ::
  "kvm trie_env \<Rightarrow> bytes \<Rightarrow> bytes \<Rightarrow> bytes option \<Rightarrow> state_proof \<Rightarrow> ProofConstructor \<Rightarrow> bool result \<times> ProofConstructor" where
  "verify_state_proof env root key value proof_nodes p =
     (case encode_kv_for_verification env key value of (k, v) \<Rightarrow> verify_spv_proof env root k v proof_nodes p)"

definition verify_state_proof_multi ::
  "kvm trie_env \<Rightarrow> bytes \<Rightarrow> (bytes \<times> bytes option) list \<Rightarrow> state_proof \<Rightarrow> ProofConstructor \<Rightarrow> bool result \<times> ProofConstructor" where
  "verify_state_proof_multi env root key_values proof_nodes p =
     verify_spv_proof_multi env root (map (\<lambda>(k, v). encode_kv_for_verification env k v) key_values) proof_nodes p"

section \<open>Two versions in one storage\<close>

lemma replace_root_frame: "replace_root_hash env old new (st\<lparr>root_node := x\<rparr>) = replace_root_hash env old new st"
  by (simp add: replace_root_hash_def delete_node_storage_def encode_node_def bindT_def modifyT_def returnT_def Let_def)

lemma stored_cong:
  "(\<And>s. s \<in> subs t \<Longrightarrow> m (hash_key env s) = m' (hash_key env s)) \<Longrightarrow> stored env m t = stored env m' t"
proof (induction t)
  case (TExt c t)
  have "in_db env m t = in_db env m' t" using TExt.prems [of t] by (simp add: in_db_def)
  then show ?case using TExt by simp
next
  case (TBranch ts v)
  have "in_db env m t = in_db env m' t \<and> stored env m t = stored env m' t" if "t \<in> set ts" for t
  proof
    have "t \<in> subs (TBranch ts v)" using that subs_self [of t] unfolding subs.simps by blast
    then show "in_db env m t = in_db env m' t" using TBranch.prems [of t] by (simp add: in_db_def)
    show "stored env m t = stored env m' t" using that TBranch.prems by (intro TBranch.IH) auto
  qed
  then show ?case by auto
qed simp_all

lemma rootHashKey_length: "length rootHashKey = 8"
  by (simp add: rootHashKey_def)

locale state_storage = hashed_storage env kv_map kv_inv U + kv: kv_storage ops kv_map kv_inv
  for env :: "'kv trie_env" and kv_map kv_inv U and ops :: "'kv KeyValueStorage" +
  assumes rlp: "writes_rlp (rlp_encode env)"
begin

text \<open>A tree is the state of some root hash when its nodes and its root are in the storage.\<close>

definition saved :: "(bytes \<rightharpoonup> bytes) \<Rightarrow> trie \<Rightarrow> bool" where
  "saved m t = (wf_trie t \<and> subs t \<subseteq> U \<and> stored env m t \<and> (t = TBlank \<or> m (hash_key env t) = Some (rlp_encode env (node_of env t))))"

definition state_rep :: "'kv Trie \<Rightarrow> trie \<Rightarrow> trie \<Rightarrow> bool" where
  "state_rep st head committed =
     (represents st head \<and> t_proof st = no_proof \<and> saved (dbm st) committed \<and> dbm st rootHashKey = Some (hash_key env committed))"

lemma represents_saved: "represents st t \<longleftrightarrow> okT st \<and> root_node st = node_of env t \<and> saved (dbm st) t"
  by (auto simp: represents_def saved_def)

lemma saved_mono: "saved m t \<Longrightarrow> m \<subseteq>\<^sub>m m' \<Longrightarrow> saved m' t"
  using stored_mono [of env m t m'] by (auto simp: saved_def map_le_def dom_def)

lemma saved_U: "saved m t \<Longrightarrow> t \<in> U"
  using subs_self [of t] by (auto simp: saved_def)

lemma key_neq: "t \<in> U \<Longrightarrow> hash_key env t \<noteq> rootHashKey"
  using hash_len [of t] rootHashKey_length by auto

lemma root_key_same: "subs t \<subseteq> U \<Longrightarrow> s \<in> subs t \<Longrightarrow> (m(rootHashKey \<mapsto> h)) (hash_key env s) = m (hash_key env s)"
  using key_neq [of s] by auto

lemma saved_root_key: "saved (m(rootHashKey \<mapsto> h)) t = saved m t"
proof (cases "subs t \<subseteq> U")
  case True
  have "stored env (m(rootHashKey \<mapsto> h)) t = stored env m t" by (rule stored_cong) (rule root_key_same [OF True])
  then show ?thesis using root_key_same [OF True subs_self, of m h] unfolding saved_def by presburger
qed (simp add: saved_def)

lemma addressed_root_key: "addressed (m(rootHashKey \<mapsto> h)) = addressed m"
  using key_neq by (auto simp: addressed_def)

lemma hash_to_node_correct:
  assumes "okT st" "saved (dbm st) t"
  shows "hash_to_node env (hash_key env t) st = (Inr (node_of env t), st)"
proof (cases "t = TBlank")
  case True
  then show ?thesis by (simp add: hash_to_node_def blank_root returnT_def)
next
  case False
  have U: "t \<in> U" by (rule saved_U [OF assms(2)])
  have "db_get env (t_db st) (hash_key env t) = Inr (rlp_encode env (node_of env t))"
    using get_spec [of "t_db st" "hash_key env t"] assms False by (simp add: okT_def saved_def)
  moreover have "spv_grabbing env n st = (Inr (), st)" for n using assms(1) by (simp add: spv_grabbing_def okT_def)
  ultimately show ?thesis using root_not_blank [OF U False] hash_nonempty [OF U] codec [OF U]
    by (simp add: hash_to_node_def bindT_def liftT_def returnT_def)
qed

lemma committed_correct:
  assumes "state_rep st head committed"
  shows "committedHeadHash ops st = (Inr (hash_key env committed), st)" "committedHead ops env st = (Inr (node_of env committed), st)"
proof -
  have o: "okT st" "saved (dbm st) committed" "dbm st rootHashKey = Some (hash_key env committed)" using assms by (simp_all add: state_rep_def represents_def)
  then show 1: "committedHeadHash ops st = (Inr (hash_key env committed), st)"
    using kv.get_spec [of "t_db st" rootHashKey] by (simp add: committedHeadHash_def liftT_def okT_def)
  show "committedHead ops env st = (Inr (node_of env committed), st)"
    using hash_to_node_correct [OF o(1,2)] by (simp add: committedHead_def bindT_def 1)
qed

lemma decode_encoded:
  assumes "length (rlp_encode env (RL [RB v])) < 256 ^ 8"
  shows "decode_val (Some (RB (rlp_encode env (RL [RB v])))) = Inr (Some (RB v))"
proof -
  have e: "rlp_encode env (RL [RB v]) = encode_optimized be_bytes (RL [RB v])" using rlp by (simp add: writes_rlp_def)
  then have "decode_optimized be_value (rlp_encode env (RL [RB v])) = Inr (RL [RB v])" using be.decode_enc [of "RL [RB v]"] assms by simp
  moreover have "encode_optimized be_bytes (RL [RB v]) \<noteq> []" by (auto simp: length_prefix_def Let_def)
  ultimately show ?thesis by (simp add: decode_val_def get_decoded_def e)
qed

lemma get_correct_at:
  assumes "okT st" "saved (dbm st) t" "2 * length key < recursion_limit env"
  shows "trie_get_node env (recursion_limit env) (node_of env t) (bin_to_nibbles key) st = (Inr (Some (RB (lookup t (bin_to_nibbles key)))), st)"
proof -
  have "kv_inv (t_db st)" "\<not> pc_proving (t_proof st)" using assms(1) by (simp_all add: okT_def)
  then show ?thesis using assms get_node_correct [of t "bin_to_nibbles key" "recursion_limit env" st] stored_path_stored [of env "dbm st" t "bin_to_nibbles key"]
    by (simp add: saved_def bindT_app [OF grab_all_not_proving] returnT_def)
qed

lemma state_get_correct:
  assumes "state_rep st head committed" "2 * length key < recursion_limit env"
  shows "state_get ops env key c st = (decode_val (Some (RB (lookup (if c then committed else head) (bin_to_nibbles key)))), st)"
proof -
  have r: "okT st" "root_node st = node_of env head" "saved (dbm st) head" "saved (dbm st) committed"
    using assms(1) by (simp_all add: state_rep_def represents_saved)
  show ?thesis
    using get_correct_at [OF r(1,3) assms(2)] get_correct_at [OF r(1,4) assms(2)] committed_correct(2) [OF assms(1)]
    by (cases c) (simp_all add: state_get_def bindT_def liftT_def trie_get_def r(2))
qed

lemma set_correct:
  assumes "state_rep st head committed" "subs (upd head (bin_to_nibbles key) (rlp_encode env (RL [RB v]))) \<subseteq> U" "2 * length key < recursion_limit env"
  shows "\<exists>st'. state_set env key v st = (Inr (), st') \<and> state_rep st' (upd head (bin_to_nibbles key) (rlp_encode env (RL [RB v]))) committed"
proof -
  have "rlp_encode env (RL [RB v]) \<noteq> []" using rlp by (auto simp: writes_rlp_def length_prefix_def Let_def)
  then obtain st' where st': "state_set env key v st = (Inr (), st')" "represents st' (upd head (bin_to_nibbles key) (rlp_encode env (RL [RB v])))"
    "dbm st \<subseteq>\<^sub>m dbm st'" "t_proof st' = t_proof st"
    using update_correct [OF _ assms(2)] assms(1,3) unfolding state_set_def state_rep_def by blast
  then show ?thesis using assms(1) saved_mono [OF _ st'(3)] by (auto simp: state_rep_def map_le_def dom_def)
qed

lemma remove_correct:
  assumes "state_rep st head committed" "\<And>s. s \<in> del_trace head (bin_to_nibbles key) \<Longrightarrow> subs s \<subseteq> U" "2 * length key < recursion_limit env"
  shows "\<exists>st'. state_remove env key st = (Inr (), st') \<and> state_rep st' (del head (bin_to_nibbles key)) committed"
proof -
  obtain st' where st': "state_remove env key st = (Inr (), st')" "represents st' (del head (bin_to_nibbles key))"
    "dbm st \<subseteq>\<^sub>m dbm st'" "t_proof st' = t_proof st"
    using delete_correct [OF _ assms(2,3)] assms(1) unfolding state_remove_def state_rep_def by blast
  then show ?thesis using assms(1) saved_mono [OF _ st'(3)] by (auto simp: state_rep_def map_le_def dom_def)
qed

lemma commit_correct:
  assumes "state_rep st head committed"
  shows "\<exists>st'. state_commit ops env None None st = (Inr (), st') \<and> state_rep st' head head"
proof -
  let ?st = "st\<lparr>t_db := kv_put ops (t_db st) rootHashKey (hash_key env head)\<rparr>"
  have r: "represents st head" "kv_inv (t_db st)" using assms unfolding state_rep_def by (simp, simp add: represents_def okT_def)
  have "get_root_hash env st = (Inr (hash_key env head), st)" using root_hash_correct [OF r(1)] by (simp add: blank_root)
  then have "state_commit ops env None None st = (Inr (), ?st)"
    by (simp add: state_commit_def headHash_def bindT_def returnT_def kv_putT_def modifyT_def)
  moreover have "state_rep ?st head head"
    using assms r kv.put_inv [OF r(2)] kv.put_map [OF r(2)]
    by (simp add: state_rep_def represents_saved saved_root_key okT_def addressed_root_key no_proof_def del: fun_upd_apply) simp
  ultimately show ?thesis by blast
qed

lemma revert_correct:
  assumes "state_rep st head committed"
  shows "\<exists>st'. revertToHead env (hash_key env committed) st = (Inr (), st') \<and> state_rep st' committed committed"
proof -
  have r: "okT st" "saved (dbm st) committed" "t_proof st = no_proof" "dbm st rootHashKey = Some (hash_key env committed)"
    using assms by (simp_all add: state_rep_def represents_def)
  have s: "stored env (dbm st) committed" "wf_trie committed" "subs committed \<subseteq> U" using r(2) by (simp_all add: saved_def)
  obtain st' where st': "bindT (modifyT (\<lambda>st. st\<lparr>root_node := node_of env committed\<rparr>)) (\<lambda>_. replace_root_hash env (root_node st) (node_of env committed)) st = (Inr (), st')"
    "represents st' committed" "dbm st \<subseteq>\<^sub>m dbm st'" "t_proof st' = t_proof st"
    using does_root [OF r(1) saved_U [OF r(2)] s, of "root_node st"] by blast
  have "revertToHead env (hash_key env committed) st = (Inr (), st')"
    using st'(1) hash_to_node_correct [OF r(1,2)] by (simp add: revertToHead_def bindT_def modifyT_def replace_root_frame)
  then show ?thesis using st'(2-4) r saved_mono [OF r(2) st'(3)] by (auto simp: state_rep_def map_le_def dom_def)
qed

lemma set_root_correct:
  assumes "okT st" "saved (dbm st) t"
  shows "set_root_hash env (hash_key env t) st = (Inr (), st\<lparr>root_node := node_of env t\<rparr>)"
proof -
  have "set_root_hash env (hash_key env t) = bindT (hash_to_node env (hash_key env t)) (\<lambda>node. modifyT (\<lambda>st. st\<lparr>root_node := node\<rparr>))"
    using set_root_hash_spec [OF saved_U [OF assms(2)]] root_not_blank [OF saved_U [OF assms(2)]] by (cases "t = TBlank") (simp_all add: hash_to_node_def blank_root)
  then show ?thesis using hash_to_node_correct [OF assms] by (simp add: bindT_def modifyT_def)
qed

lemma restart_correct:
  assumes "state_rep st head committed"
  shows "\<exists>st'. mk_PruningState ops env (t_db st) no_proof = (Inr (), st') \<and> state_rep st' committed committed"
proof -
  let ?st = "mk_Trie (t_db st) no_proof"
  have r: "okT st" "saved (dbm st) committed" "dbm st rootHashKey = Some (hash_key env committed)"
    using assms by (simp_all add: state_rep_def represents_def)
  have o: "okT ?st" "dbm ?st = dbm st" using r(1) by (simp_all add: okT_def mk_Trie_def no_proof_def)
  have kvi: "kv_inv (t_db st)" using r(1) by (simp add: okT_def)
  have "committedHeadHash ops ?st = (Inr (hash_key env committed), ?st)"
    using kv.get_spec [OF kvi, of rootHashKey] r(3) by (simp add: committedHeadHash_def liftT_def mk_Trie_def)
  then have "mk_PruningState ops env (t_db st) no_proof = (Inr (), ?st\<lparr>root_node := node_of env committed\<rparr>)"
    using kv.has_key_spec [OF kvi, of rootHashKey] r(3) set_root_correct [OF o(1), of committed] r(2) o(2)
    by (simp add: mk_PruningState_def init_PruningState_def bindT_def liftT_def mk_Trie_def)
  moreover have "state_rep (?st\<lparr>root_node := node_of env committed\<rparr>) committed committed"
    using r o by (simp add: state_rep_def represents_saved okT_def) (simp add: mk_Trie_def)
  ultimately show ?thesis by blast
qed

lemma create_correct:
  assumes "kv_inv kv" "kv_map kv = Map.empty"
  shows "\<exists>st. mk_PruningState ops env kv no_proof = (Inr (), st) \<and> state_rep st TBlank TBlank"
proof -
  let ?kv = "kv_put ops kv rootHashKey (BLANK_ROOT env)"
  let ?st = "mk_Trie ?kv no_proof"
  have m: "kv_inv ?kv" "kv_map ?kv = [rootHashKey \<mapsto> BLANK_ROOT env]" using kv.put_inv [OF assms(1)] kv.put_map [OF assms(1)] assms(2) by simp_all
  have "addressed (kv_map ?kv)" unfolding m(2) addressed_root_key by (simp add: addressed_def)
  then have o: "okT ?st" "saved (dbm ?st) TBlank" using m blank_U by (simp_all add: okT_def mk_Trie_def no_proof_def saved_def)
  have "mk_PruningState ops env kv no_proof = (Inr (), ?st\<lparr>root_node := node_of env TBlank\<rparr>)"
    using kv.has_key_spec [OF assms(1), of rootHashKey] assms(2) set_root_correct [OF o]
    by (simp add: mk_PruningState_def init_PruningState_def bindT_def liftT_def kv_putT_def modifyT_def returnT_def mk_Trie_def flip: blank_root)
  moreover have "state_rep (?st\<lparr>root_node := node_of env TBlank\<rparr>) TBlank TBlank"
    using o m by (simp add: state_rep_def represents_saved okT_def blank_root) (simp add: mk_Trie_def)
  ultimately show ?thesis by blast
qed

end

section \<open>Histories of a state\<close>

datatype state_op = OpSet bytes bytes | OpRemove bytes | OpCommit | OpRevert | OpRestart

text \<open>
  A batch that is applied sets and removes; an ordered batch is committed; a rejected one is reverted
  to the committed hash; after a crash the state is made again from its storage.
\<close>

fun run_op :: "'kv KeyValueStorage \<Rightarrow> 'kv trie_env \<Rightarrow> state_op \<Rightarrow> ('kv, unit) tm" where
  "run_op ops env (OpSet k v) = state_set env k v"
| "run_op ops env (OpRemove k) = state_remove env k"
| "run_op ops env OpCommit = state_commit ops env None None"
| "run_op ops env OpRevert = bindT (committedHeadHash ops) (revertToHead env)"
| "run_op ops env OpRestart = (\<lambda>st. mk_PruningState ops env (t_db st) no_proof)"

fun run_ops :: "'kv KeyValueStorage \<Rightarrow> 'kv trie_env \<Rightarrow> state_op list \<Rightarrow> ('kv, unit) tm" where
  "run_ops ops env [] = returnT ()"
| "run_ops ops env (x # xs) = bindT (run_op ops env x) (\<lambda>_. run_ops ops env xs)"

text \<open>The specification: a map for the head and a map for the committed state.\<close>

type_synonym two_maps = "(bytes \<rightharpoonup> bytes) \<times> (bytes \<rightharpoonup> bytes)"

fun spec_op :: "state_op \<Rightarrow> two_maps \<Rightarrow> two_maps" where
  "spec_op (OpSet k v) (head, committed) = (head(k \<mapsto> v), committed)"
| "spec_op (OpRemove k) (head, committed) = (head(k := None), committed)"
| "spec_op OpCommit (head, committed) = (head, head)"
| "spec_op OpRevert (head, committed) = (committed, committed)"
| "spec_op OpRestart (head, committed) = (committed, committed)"

fun tree_op :: "(item \<Rightarrow> bytes) \<Rightarrow> state_op \<Rightarrow> trie \<times> trie \<Rightarrow> trie \<times> trie" where
  "tree_op enc (OpSet k v) (h, c) = (upd h (bin_to_nibbles k) (enc (RL [RB v])), c)"
| "tree_op enc (OpRemove k) (h, c) = (del h (bin_to_nibbles k), c)"
| "tree_op enc OpCommit (h, c) = (h, h)"
| "tree_op enc OpRevert (h, c) = (c, c)"
| "tree_op enc OpRestart (h, c) = (c, c)"

definition op_trees :: "state_op \<Rightarrow> trie \<Rightarrow> trie set" where
  "op_trees x h = (case x of OpRemove k \<Rightarrow> (\<Union>s \<in> del_trace h (bin_to_nibbles k). subs s) | _ \<Rightarrow> {})"

fun state_trees :: "(item \<Rightarrow> bytes) \<Rightarrow> trie \<times> trie \<Rightarrow> state_op list \<Rightarrow> trie set" where
  "state_trees enc hc [] = subs (fst hc)"
| "state_trees enc hc (x # xs) = subs (fst hc) \<union> op_trees x (fst hc) \<union> state_trees enc (tree_op enc x hc) xs"

definition valid_op :: "'kv trie_env \<Rightarrow> state_op \<Rightarrow> bool" where
  "valid_op env x =
     (case x of
        OpSet k v \<Rightarrow> 2 * length k < recursion_limit env \<and> length (rlp_encode env (RL [RB v])) < 256 ^ 8
      | OpRemove k \<Rightarrow> 2 * length k < recursion_limit env
      | _ \<Rightarrow> True)"

text \<open>A tree holds a map when the encoded values of the map are what it has under their keys.\<close>

definition holds_map :: "(item \<Rightarrow> bytes) \<Rightarrow> trie \<Rightarrow> (bytes \<rightharpoonup> bytes) \<Rightarrow> bool" where
  "holds_map enc t m =
     (wf_trie t \<and>
      (\<forall>key. lookup t (bin_to_nibbles key) = (case m key of None \<Rightarrow> [] | Some v \<Rightarrow> enc (RL [RB v]))) \<and>
      (\<forall>v \<in> ran m. length (enc (RL [RB v])) < 256 ^ 8))"

lemma state_trees_self: "subs (fst hc) \<subseteq> state_trees enc hc xs"
  by (cases xs) auto

lemma holds_map_upd:
  assumes "holds_map enc t m" "length (enc (RL [RB v])) < 256 ^ 8" "enc (RL [RB v]) \<noteq> []"
  shows "holds_map enc (upd t (bin_to_nibbles k) (enc (RL [RB v]))) (m(k \<mapsto> v))"
  using assms inj_bin_to_nibbles unfolding holds_map_def
  by (auto simp: lookup_upd [OF _ nibs_bin] wf_upd [OF _ nibs_bin] ran_def)

lemma holds_map_del:
  assumes "holds_map enc t m"
  shows "holds_map enc (del t (bin_to_nibbles k)) (m(k := None))"
  using assms inj_bin_to_nibbles unfolding holds_map_def
  by (auto simp: lookup_del [OF _ nibs_bin] wf_del [OF _ nibs_bin] ran_def)

lemma rlp_nonempty: "writes_rlp enc \<Longrightarrow> enc (RL [RB v]) \<noteq> []"
  by (auto simp: writes_rlp_def length_prefix_def Let_def)

lemma tree_op_holds:
  assumes "writes_rlp (rlp_encode env)" "valid_op env x" "holds_map (rlp_encode env) h m" "holds_map (rlp_encode env) c mc"
    "tree_op (rlp_encode env) x (h, c) = (h', c')" "spec_op x (m, mc) = (m', mc')"
  shows "holds_map (rlp_encode env) h' m' \<and> holds_map (rlp_encode env) c' mc'"
  using assms holds_map_upd [OF assms(3)] holds_map_del [OF assms(3)] rlp_nonempty [OF assms(1)]
  by (cases x) (auto simp: valid_op_def)

context state_storage
begin

lemma run_op_correct:
  assumes "state_rep st h c" "valid_op env x" "op_trees x h \<subseteq> U" "tree_op (rlp_encode env) x (h, c) = (h', c')" "subs h' \<subseteq> U"
  shows "\<exists>st'. run_op ops env x st = (Inr (), st') \<and> state_rep st' h' c'"
proof (cases x)
  case (OpSet k v)
  then show ?thesis using set_correct [OF assms(1), of k v] assms(2,4,5) by (auto simp: valid_op_def)
next
  case (OpRemove k)
  then show ?thesis using remove_correct [OF assms(1), of k] assms(2-4) by (auto simp: valid_op_def op_trees_def)
next
  case OpRevert
  then show ?thesis using revert_correct [OF assms(1)] committed_correct(1) [OF assms(1)] assms(4) by (auto simp: bindT_def)
qed (use commit_correct [OF assms(1)] restart_correct [OF assms(1)] assms(4) in auto)

lemma run_ops_correct:
  "state_rep st h c \<Longrightarrow> list_all (valid_op env) xs \<Longrightarrow> state_trees (rlp_encode env) (h, c) xs \<subseteq> U \<Longrightarrow>
   holds_map (rlp_encode env) h m \<Longrightarrow> holds_map (rlp_encode env) c mc \<Longrightarrow>
   \<exists>st' h' c'. run_ops ops env xs st = (Inr (), st') \<and> state_rep st' h' c' \<and>
     holds_map (rlp_encode env) h' (fst (fold spec_op xs (m, mc))) \<and> holds_map (rlp_encode env) c' (snd (fold spec_op xs (m, mc)))"
proof (induction xs arbitrary: st h c m mc)
  case Nil
  then show ?case by (auto simp: returnT_def)
next
  case (Cons x xs)
  obtain h1 c1 where t: "tree_op (rlp_encode env) x (h, c) = (h1, c1)" by fastforce
  obtain m1 mc1 where m: "spec_op x (m, mc) = (m1, mc1)" by fastforce
  have v: "valid_op env x" "list_all (valid_op env) xs" using Cons.prems(2) by simp_all
  have U: "op_trees x h \<subseteq> U" "state_trees (rlp_encode env) (h1, c1) xs \<subseteq> U" "subs h1 \<subseteq> U"
    using Cons.prems(3) state_trees_self [of "(h1, c1)" "rlp_encode env" xs] by (auto simp: t)
  obtain st1 where st1: "run_op ops env x st = (Inr (), st1)" "state_rep st1 h1 c1"
    using run_op_correct [OF Cons.prems(1) v(1) U(1) t U(3)] by blast
  have "holds_map (rlp_encode env) h1 m1" "holds_map (rlp_encode env) c1 mc1"
    using tree_op_holds [OF rlp v(1) Cons.prems(4,5) t m] by simp_all
  from Cons.IH [OF st1(2) v(2) U(2) this] show ?case by (simp add: bindT_def st1(1) m)
qed

lemma get_holds:
  assumes "state_rep st h c" "holds_map (rlp_encode env) h m" "holds_map (rlp_encode env) c mc" "2 * length key < recursion_limit env"
  shows "state_get ops env key b st = (Inr (map_option RB ((if b then mc else m) key)), st)"
proof -
  have "decode_val (Some (RB (lookup t (bin_to_nibbles key)))) = Inr (map_option RB (f key))" if "holds_map (rlp_encode env) t f" for t f
  proof (cases "f key")
    case None
    then show ?thesis using that by (simp add: holds_map_def decode_val_def)
  next
    case (Some v)
    then have "length (rlp_encode env (RL [RB v])) < 256 ^ 8" using that by (auto simp: holds_map_def ran_def)
    then show ?thesis using that Some decode_encoded [of v] by (simp add: holds_map_def)
  qed
  from this [OF assms(2)] this [OF assms(3)] show ?thesis using state_get_correct [OF assms(1,4), of b] by simp
qed

end

section \<open>Properties\<close>

lemma state_history_storage:
  assumes "kv_storage ops kv_map kv_inv" "codec_ok enc dec" "env = PersistentDB ops enc dec H n"
    "hash_ok env (state_trees enc (TBlank, TBlank) xs)" "writes_rlp enc"
  shows "state_storage env kv_map kv_inv (state_trees enc (TBlank, TBlank) xs) ops"
proof -
  have S: "trie_storage env kv_map kv_inv (state_trees enc (TBlank, TBlank) xs)"
    using persistent_trie_storage [OF assms(1,2)] assms(3,4) by simp
  have "TBlank \<in> state_trees enc (TBlank, TBlank) xs" using state_trees_self [of "(TBlank, TBlank)" enc xs] by simp
  then show ?thesis
    using S assms by (auto simp: state_storage_def hashed_storage_def hashed_storage_axioms_def state_storage_axioms_def hash_ok_def)
qed

text \<open>
  C4: a ledger's state keeps two versions: whatever is set, removed, committed, reverted and
  restarted, in any order from an empty storage, every operation succeeds, an uncommitted read
  gives the value at the head and a committed read the value at the last commit. Reverting and
  restarting make the head the committed version.
\<close>

theorem pruning_state_two_versions:
  assumes "kv_storage ops kv_map kv_inv" "codec_ok enc dec" "writes_rlp enc" "kv_inv db" "kv_map db = Map.empty"
    and "env = PersistentDB ops enc dec H n" "hash_ok env (state_trees enc (TBlank, TBlank) xs)" "list_all (valid_op env) xs"
  shows "\<exists>st head committed. bindT (init_PruningState ops env) (\<lambda>_. run_ops ops env xs) (mk_Trie db no_proof) = (Inr (), st) \<and>
    fold spec_op xs (Map.empty, Map.empty) = (head, committed) \<and>
    (\<forall>key b. 2 * length key < n \<longrightarrow> state_get ops env key b st = (Inr (map_option RB ((if b then committed else head) key)), st))"
proof -
  have S: "state_storage env kv_map kv_inv (state_trees enc (TBlank, TBlank) xs) ops" by (rule state_history_storage [OF assms(1,2,6,7,3)])
  have e: "rlp_encode env = enc" "recursion_limit env = n" using assms(6) by simp_all
  have empty: "holds_map enc TBlank Map.empty" by (simp add: holds_map_def)
  obtain st0 where 0: "init_PruningState ops env (mk_Trie db no_proof) = (Inr (), st0)"
    "state_storage.state_rep env kv_map kv_inv (state_trees enc (TBlank, TBlank) xs) st0 TBlank TBlank"
    using state_storage.create_correct [OF S assms(4,5)] by (auto simp: mk_PruningState_def)
  obtain st h c where 1: "run_ops ops env xs st0 = (Inr (), st)" "state_storage.state_rep env kv_map kv_inv (state_trees enc (TBlank, TBlank) xs) st h c"
    "holds_map enc h (fst (fold spec_op xs (Map.empty, Map.empty)))" "holds_map enc c (snd (fold spec_op xs (Map.empty, Map.empty)))"
    using state_storage.run_ops_correct [OF S 0(2) assms(8), unfolded e, OF order_refl empty empty] by blast
  have "state_get ops env key b st = (Inr (map_option RB ((if b then snd (fold spec_op xs (Map.empty, Map.empty)) else fst (fold spec_op xs (Map.empty, Map.empty))) key)), st)"
    if "2 * length key < n" for key b
    by (rule state_storage.get_holds [OF S 1(2)]) (use 1(3,4) that in \<open>simp_all add: e\<close>)
  moreover have "bindT (init_PruningState ops env) (\<lambda>_. run_ops ops env xs) (mk_Trie db no_proof) = (Inr (), st)"
    by (simp add: bindT_def 0(1) 1(1))
  ultimately show ?thesis by (metis (no_types) prod.collapse)
qed

definition demo_ops :: "state_op list" where
  "demo_ops = [OpSet [18] [7], OpSet [86] [9], OpCommit, OpSet [18] [8], OpRemove [86], OpRestart, OpSet [18] [5], OpRevert, OpRemove [86]]"

definition demo_state_trees :: "trie list" where
  "demo_state_trees =
     (let v = (\<lambda>b. [193, b]); pair = (\<lambda>b. TBranch (blanks[1 := TLeaf [2] (v b), 5 := TLeaf [6] (v 9)]) []) in
      [TBlank, TLeaf [1, 2] (v 7), TLeaf [2] (v 7), TLeaf [6] (v 9), pair 7, TLeaf [2] (v 8), pair 8, TLeaf [1, 2] (v 8),
       TLeaf [2] (v 5), pair 5])"

lemma demo_state_trees_ok: "hash_ok demo_trie_env (set demo_state_trees)"
proof (rule hash_okI [OF order_refl])
  show "distinct (map (hash_key demo_trie_env) demo_state_trees)" by code_simp
  have "list_all (\<lambda>t. length (rlp_encode demo_trie_env (node_of demo_trie_env t)) < 100 \<and> length (hash_key demo_trie_env t) = 32) demo_state_trees"
    by code_simp
  then show "list_all (\<lambda>t. length (rlp_encode demo_trie_env (node_of demo_trie_env t)) < 256 ^ 8 \<and> length (hash_key demo_trie_env t) = 32) demo_state_trees"
    by (rule list.pred_mono_strong) simp
qed

lemma demo_ops_ok:
  "hash_ok demo_trie_env (state_trees (encode_optimized be_bytes) (TBlank, TBlank) demo_ops)" "list_all (valid_op demo_trie_env) demo_ops"
proof -
  have "state_trees (encode_optimized be_bytes) (TBlank, TBlank) demo_ops \<subseteq> set demo_state_trees" by code_simp
  then show "hash_ok demo_trie_env (state_trees (encode_optimized be_bytes) (TBlank, TBlank) demo_ops)" by (rule hash_ok_subset [OF demo_state_trees_ok])
  have "list_all (\<lambda>x. case x of OpSet k v \<Rightarrow> 2 * length k < 100 \<and> length (encode_optimized be_bytes (RL [RB v])) < 10 | OpRemove k \<Rightarrow> 2 * length k < 100 | _ \<Rightarrow> True) demo_ops"
    by code_simp
  then show "list_all (valid_op demo_trie_env) demo_ops"
    by (rule list.pred_mono_strong) (auto simp: valid_op_def demo_trie_env_def split: state_op.splits)
qed

interpretation demo_state: state_storage demo_trie_env map_of "\<lambda>d. distinct (map fst d)"
  "state_trees (encode_optimized be_bytes) (TBlank, TBlank) demo_ops" kvm_ops
  by (rule state_history_storage [OF kvm.kv_storage_axioms be_codec_ok demo_trie_env_def demo_ops_ok(1) be_writes_rlp])

theorem pruning_state_two_versions_witness:
  "\<exists>st. bindT (init_PruningState kvm_ops demo_trie_env) (\<lambda>_. run_ops kvm_ops demo_trie_env demo_ops) (mk_Trie [] no_proof) = (Inr (), st) \<and>
    state_get kvm_ops demo_trie_env [18] False st = (Inr (Some (RB [7])), st) \<and>
    state_get kvm_ops demo_trie_env [86] False st = (Inr None, st) \<and>
    state_get kvm_ops demo_trie_env [86] True st = (Inr (Some (RB [9])), st)"
proof -
  obtain st head committed where st: "bindT (init_PruningState kvm_ops demo_trie_env) (\<lambda>_. run_ops kvm_ops demo_trie_env demo_ops) (mk_Trie [] no_proof) = (Inr (), st)"
    "fold spec_op demo_ops (Map.empty, Map.empty) = (head, committed)"
    "\<forall>key b. 2 * length key < 100 \<longrightarrow> state_get kvm_ops demo_trie_env key b st = (Inr (map_option RB ((if b then committed else head) key)), st)"
    using pruning_state_two_versions [OF kvm.kv_storage_axioms be_codec_ok be_writes_rlp _ _ demo_trie_env_def demo_ops_ok, of "[]"] by fastforce
  have "head [18] = Some [7]" "head [86] = None" "committed [86] = Some [9]" using st(2) by (auto simp: demo_ops_def)
  then show ?thesis using st(1,3) by simp
qed

end
