(* ===== verification/Py_Values.thy ===== *)
theory Py_Values
  imports Prelude
begin

text \<open>
  The Python values a message is made of before it is validated, as they come out of the
  deserializers, and what the validators use of the language and its standard library on them:
  \<^verbatim>\<open>isinstance\<close>, truth values, \<^verbatim>\<open>len\<close>, dictionaries, \<^verbatim>\<open>int(s, base)\<close> and
  \<^verbatim>\<open>ipaddress.ip_address\<close>. A named tuple is a tuple with names for its elements; a message
  object has a type name and fields. Floating point numbers are left out; a character of a string
  is one of the first 256.
\<close>

section \<open>Values\<close>

datatype pyval =
    PNone
  | PBool bool
  | PInt int
  | PStr string
  | PBytes bytes
  | PList "pyval list"
  | PTuple "pyval list"
  | PNamed string "(string \<times> pyval) list"
  | PDict "(pyval \<times> pyval) list"
  | PMsg string "(string \<times> pyval) list"

datatype pytype = T_object | T_none | T_bool | T_int | T_str | T_bytes | T_list | T_tuple | T_dict

text \<open>A Boolean is an integer.\<close>

fun isinstance :: "pyval \<Rightarrow> pytype \<Rightarrow> bool" where
  "isinstance v T_object = True"
| "isinstance PNone t = (t = T_none)"
| "isinstance (PBool b) t = (t = T_bool \<or> t = T_int)"
| "isinstance (PInt i) t = (t = T_int)"
| "isinstance (PStr s) t = (t = T_str)"
| "isinstance (PBytes b) t = (t = T_bytes)"
| "isinstance (PList vs) t = (t = T_list)"
| "isinstance (PTuple vs) t = (t = T_tuple)"
| "isinstance (PNamed n fs) t = (t = T_tuple)"
| "isinstance (PDict d) t = (t = T_dict)"
| "isinstance (PMsg n fs) t = False"

fun is_true :: "pyval \<Rightarrow> bool" where
  "is_true PNone = False"
| "is_true (PBool b) = b"
| "is_true (PInt i) = (i \<noteq> 0)"
| "is_true (PStr s) = (s \<noteq> [])"
| "is_true (PBytes b) = (b \<noteq> [])"
| "is_true (PList vs) = (vs \<noteq> [])"
| "is_true (PTuple vs) = (vs \<noteq> [])"
| "is_true (PNamed n fs) = (fs \<noteq> [])"
| "is_true (PDict d) = (d \<noteq> [])"
| "is_true (PMsg n fs) = (fs \<noteq> [])"

fun as_int :: "pyval \<Rightarrow> int option" where
  "as_int (PInt i) = Some i"
| "as_int (PBool b) = Some (if b then 1 else 0)"
| "as_int _ = None"

fun as_str :: "pyval \<Rightarrow> string option" where
  "as_str (PStr s) = Some s"
| "as_str _ = None"

text \<open>The elements of a list or tuple, what a \<^verbatim>\<open>for\<close> loop over it sees.\<close>

fun elements :: "pyval \<Rightarrow> pyval list option" where
  "elements (PList vs) = Some vs"
| "elements (PTuple vs) = Some vs"
| "elements (PNamed n fs) = Some (map snd fs)"
| "elements _ = None"

fun hashable :: "pyval \<Rightarrow> bool" where
  "hashable (PList vs) = False"
| "hashable (PDict d) = False"
| "hashable (PTuple vs) = (\<forall>v \<in> set vs. hashable v)"
| "hashable (PNamed n fs) = (\<forall>(x, v) \<in> set fs. hashable v)"
| "hashable (PMsg n fs) = (\<forall>(x, v) \<in> set fs. hashable v)"
| "hashable _ = True"

definition dict_get :: "(pyval \<times> pyval) list \<Rightarrow> string \<Rightarrow> pyval option" where
  "dict_get d k = map_of d (PStr k)"

definition has_key_str :: "(pyval \<times> pyval) list \<Rightarrow> string \<Rightarrow> bool" where
  "has_key_str d k = (PStr k \<in> fst ` set d)"

lemma as_int_isinstance: "isinstance v T_int \<longleftrightarrow> (\<exists>i. as_int v = Some i)"
  by (cases v) auto

lemma as_str_isinstance: "isinstance v T_str \<longleftrightarrow> (\<exists>s. v = PStr s)"
  by (cases v) auto

lemma elements_isinstance: "isinstance v T_list \<or> isinstance v T_tuple \<longleftrightarrow> (\<exists>xs. elements v = Some xs)"
  by (cases v) auto

lemma dict_isinstance: "isinstance v T_dict \<longleftrightarrow> (\<exists>d. v = PDict d)"
  by (cases v) auto

lemma dict_get_None: "dict_get d k = None \<longleftrightarrow> \<not> has_key_str d k"
  by (simp add: dict_get_def has_key_str_def map_of_eq_None_iff)

section \<open>Numbers in strings\<close>

definition char_digit :: "nat \<Rightarrow> char \<Rightarrow> nat option" where
  "char_digit base c =
     (let n = (of_char c :: nat);
          d = (if 48 \<le> n \<and> n \<le> 57 then n - 48 else if 97 \<le> n \<and> n \<le> 122 then n - 87 else if 65 \<le> n \<and> n \<le> 90 then n - 55 else base) in
      if d < base then Some d else None)"

text \<open>Digits may be separated by single underscores.\<close>

fun int_digits :: "nat \<Rightarrow> nat \<Rightarrow> string \<Rightarrow> nat option" where
  "int_digits base acc [] = Some acc"
| "int_digits base acc (c # cs) =
     (case char_digit base c of
        Some d \<Rightarrow> int_digits base (base * acc + d) cs
      | None \<Rightarrow>
          if c \<noteq> CHR ''_'' then None
          else (case cs of
                  [] \<Rightarrow> None
                | c' # cs' \<Rightarrow> (case char_digit base c' of None \<Rightarrow> None | Some d \<Rightarrow> int_digits base (base * acc + d) cs')))"

definition int_space :: "string \<Rightarrow> char \<Rightarrow> bool" where
  "int_space s c =
     (let n = (of_char c :: nat) in
      if list_all (\<lambda>c. (of_char c :: nat) < 128) s then 9 \<le> n \<and> n \<le> 13 \<or> n = 32
      else 9 \<le> n \<and> n \<le> 13 \<or> 28 \<le> n \<and> n \<le> 32 \<or> n = 133 \<or> n = 160)"

definition unsigned_of_str :: "nat \<Rightarrow> string \<Rightarrow> nat option" where
  "unsigned_of_str base s =
     (let s' =
        (if base = 16 \<and> 2 \<le> length s \<and> s ! 0 = CHR ''0'' \<and> (s ! 1 = CHR ''x'' \<or> s ! 1 = CHR ''X'')
         then (if 2 < length s \<and> s ! 2 = CHR ''_'' then drop 3 s else drop 2 s)
         else s) in
      case s' of
        [] \<Rightarrow> None
      | c # cs \<Rightarrow> (case char_digit base c of None \<Rightarrow> None | Some d \<Rightarrow> int_digits base d cs))"

definition int_of_string :: "nat \<Rightarrow> string \<Rightarrow> int result" where
  "int_of_string base s =
     (let s1 = rev (dropWhile (int_space s) (rev (dropWhile (int_space s) s)));
          neg = (s1 \<noteq> [] \<and> hd s1 = CHR ''-'');
          s2 = (if s1 \<noteq> [] \<and> (hd s1 = CHR ''-'' \<or> hd s1 = CHR ''+'') then tl s1 else s1) in
      case unsigned_of_str base s2 of
        None \<Rightarrow> Inl ValueError
      | Some n \<Rightarrow> Inr (if neg then - int n else int n))"

section \<open>Network addresses\<close>

definition ip_octet :: "string \<Rightarrow> bool" where
  "ip_octet s = (isdigit s \<and> length s \<le> 3 \<and> (s = ''0'' \<or> hd s \<noteq> CHR ''0'') \<and> py_int s \<le> 255)"

definition ipv4_address :: "string \<Rightarrow> bool" where
  "ipv4_address s = (let parts = py_split (CHR ''.'') s in length parts = 4 \<and> list_all ip_octet parts)"

definition hextet :: "string \<Rightarrow> bool" where
  "hextet s = (s \<noteq> [] \<and> length s \<le> 4 \<and> list_all (\<lambda>c. char_digit 16 c \<noteq> None) s)"

text \<open>An address of version 4 at the end counts as two groups.\<close>

definition ipv6_parts :: "string \<Rightarrow> string list option" where
  "ipv6_parts s =
     (let parts = py_split (CHR '':'') s in
      if length parts < 3 then None
      else if CHR ''.'' \<in> set (last parts)
           then (if ipv4_address (last parts) then Some (butlast parts @ [''0'', ''0'']) else None)
           else Some parts)"

definition ipv6_groups :: "string list \<Rightarrow> bool" where
  "ipv6_groups parts =
     (let n = length parts; skips = filter (\<lambda>i. parts ! i = []) [1..<n - 1] in
      if n > 9 then False
      else
        (case skips of
           [] \<Rightarrow> n = 8 \<and> list_all hextet parts
         | [i] \<Rightarrow>
             let hi = (if parts ! 0 = [] then i - 1 else i);
                 lo = (if last parts = [] then n - i - 2 else n - i - 1) in
             (parts ! 0 = [] \<longrightarrow> hi = 0) \<and> (last parts = [] \<longrightarrow> lo = 0) \<and> hi + lo < 8 \<and>
             list_all hextet (take hi parts) \<and> list_all hextet (drop (n - lo) parts)
         | _ \<Rightarrow> False))"

definition ipv6_address :: "string \<Rightarrow> bool" where
  "ipv6_address s =
     (let split = py_split (CHR ''%'') s in
      (case split of
         [addr] \<Rightarrow> True
       | [addr, scope_id] \<Rightarrow> scope_id \<noteq> []
       | _ \<Rightarrow> False) \<and>
      (case ipv6_parts (hd split) of None \<Rightarrow> False | Some parts \<Rightarrow> ipv6_groups parts))"

definition ip_address :: "string \<Rightarrow> bool" where
  "ip_address s = (CHR ''/'' \<notin> set s \<and> (ipv4_address s \<or> ipv6_address s))"

end
