(* ===== verification/Message_Fields.thy ===== *)
theory Message_Fields
  imports Py_Values
begin

text \<open>
  \<^verbatim>\<open>plenum/common/messages/fields.py\<close>: the validators of the fields of messages and requests. A
  validator is a value of \<open>field\<close> with the parameters of its constructor; \<open>validate\<close> returns no
  error, an error, or raises. The text of an error message is a constructor of \<open>field_error\<close> with
  the numbers in it. All messages are non-empty, so that an error is true where the code tests it.

  The alphabet and the decoder of base 58 and the parser of dates are libraries and are given by the
  environment, as are the ledgers of plugins. \<^verbatim>\<open>JsonField\<close> and \<^verbatim>\<open>MessageField\<close>, which no schema
  has, and the versions other than \<^verbatim>\<open>GenericVersion\<close> are left out.
\<close>

section \<open>Errors\<close>

datatype pyconst = CStr string | CInt int

datatype field_error =
    WrongType
  | EmptyString
  | LongerThan nat
  | InvalidDatetime
  | ShouldHaveLength nat
  | EmptySignature
  | NegativeValue
  | HasToBeEqual pyconst
  | LengthAtLeast nat
  | LengthAtMost nat
  | PortOutOfRange
  | InvalidIpAddress
  | ExpectedOneOf "pyconst list"
  | InvalidChars
  | B58Length nat
  | IdentifierNotPresent
  | AnyOfThem
  | ShouldStartWithTilde
  | NeitherVerkey field_error field_error
  | InvalidHexNumber
  | TooOld
  | EmptySerialized
  | VersionSpaces
  | VersionChars
  | SmallerThanOne
  | NotSha256
  | NotStringifiedInt
  | ShouldHaveSize nat
  | NoParticipants
  | UnknownProtocolVersion
  | OtherProtocolVersion
  | IncorrectListOfFields

type_synonym check = "field_error option result"

record field_env =
  b58_alphabet :: string
  b58decode :: "string \<Rightarrow> bytes"
  parse_datetime :: "string \<Rightarrow> bool"
  plugin_ledger_ids :: "int list"

text \<open>The first error of a sequence of checks; a check that raises ends it, too.\<close>

fun first_error :: "check list \<Rightarrow> check" where
  "first_error [] = Inr None"
| "first_error (c # cs) = (case c of Inr None \<Rightarrow> first_error cs | _ \<Rightarrow> c)"

definition error_if :: "bool \<Rightarrow> field_error \<Rightarrow> check" where
  "error_if b e = Inr (if b then Some e else None)"

lemma error_if_None [simp]: "error_if b e = Inr None \<longleftrightarrow> \<not> b"
  by (simp add: error_if_def)

lemma first_error_None [simp]: "first_error cs = Inr None \<longleftrightarrow> (\<forall>c \<in> set cs. c = Inr None)"
  by (induction cs) (auto split: sum.splits option.splits)

declare first_error.simps [simp del]

section \<open>Checks of the fields\<close>

definition type_check :: "pytype list option \<Rightarrow> pyval \<Rightarrow> field_error option" where
  "type_check base_types val =
     (case base_types of
        None \<Rightarrow> None
      | Some ts \<Rightarrow> if list_ex (isinstance val) ts then None else Some WrongType)"

definition FieldBase_validate :: "pytype list option \<Rightarrow> bool \<Rightarrow> (pyval \<Rightarrow> check) \<Rightarrow> pyval \<Rightarrow> check" where
  "FieldBase_validate base_types nullable specific_validation val =
     (if nullable \<and> val = PNone then Inr None
      else (case type_check base_types val of
              Some e \<Rightarrow> Inr (Some e)
            | None \<Rightarrow> specific_validation val))"

text \<open>What the specific checks do with a string or a number; on another type the operations raise.\<close>

definition on_str :: "(string \<Rightarrow> check) \<Rightarrow> pyval \<Rightarrow> check" where
  "on_str f val = (case as_str val of Some s \<Rightarrow> f s | None \<Rightarrow> Inl TypeError)"

definition on_int :: "(int \<Rightarrow> check) \<Rightarrow> pyval \<Rightarrow> check" where
  "on_int f val = (case as_int val of Some i \<Rightarrow> f i | None \<Rightarrow> Inl TypeError)"

definition on_elements :: "(pyval list \<Rightarrow> check) \<Rightarrow> pyval \<Rightarrow> check" where
  "on_elements f val = (case elements val of Some vs \<Rightarrow> f vs | None \<Rightarrow> Inl TypeError)"

fun equals_const :: "pyconst \<Rightarrow> pyval \<Rightarrow> bool" where
  "equals_const (CStr s) v = (v = PStr s)"
| "equals_const (CInt i) v = (as_int v = Some i)"

definition NonEmptyStringField_check :: "string \<Rightarrow> check" where
  "NonEmptyStringField_check s = error_if (s = []) EmptyString"

definition LimitedLengthStringField_check :: "nat \<Rightarrow> bool \<Rightarrow> string \<Rightarrow> check" where
  "LimitedLengthStringField_check max_length can_be_empty s =
     (if s = [] \<and> \<not> can_be_empty then Inr (Some EmptyString)
      else error_if (s \<noteq> [] \<and> length s > max_length) (LongerThan max_length))"

abbreviation DATETIME_LIMIT :: nat where
  "DATETIME_LIMIT \<equiv> 35"

definition DatetimeStringField_check :: "field_env \<Rightarrow> string list \<Rightarrow> string \<Rightarrow> check" where
  "DatetimeStringField_check env exceptional_values s =
     (if length s > DATETIME_LIMIT then Inr (Some (LongerThan DATETIME_LIMIT))
      else error_if (s \<notin> set exceptional_values \<and> \<not> parse_datetime env s) InvalidDatetime)"

definition FixedLengthField_check :: "nat \<Rightarrow> string \<Rightarrow> check" where
  "FixedLengthField_check len s = error_if (length s \<noteq> len) (ShouldHaveLength len)"

definition SignatureField_check :: "nat \<Rightarrow> bool \<Rightarrow> pyval \<Rightarrow> check" where
  "SignatureField_check max_length can_be_empty val =
     (if val = PNone then Inr None
      else on_str (\<lambda>s. if s = [] then Inr (Some EmptySignature) else LimitedLengthStringField_check max_length can_be_empty s) val)"

definition NonNegativeNumberField_check :: "int \<Rightarrow> check" where
  "NonNegativeNumberField_check i = error_if (i < 0) NegativeValue"

definition ConstantField_check :: "pyconst \<Rightarrow> pyval \<Rightarrow> check" where
  "ConstantField_check value val = error_if (\<not> equals_const value val) (HasToBeEqual value)"

definition IterableField_check :: "nat option \<Rightarrow> nat option \<Rightarrow> (pyval \<Rightarrow> check) \<Rightarrow> pyval list \<Rightarrow> check" where
  "IterableField_check min_length max_length inner_validate vs =
     (if min_length \<noteq> None \<and> length vs < the min_length then Inr (Some (LengthAtLeast (the min_length)))
      else if max_length \<noteq> None \<and> length vs > the max_length then Inr (Some (LengthAtMost (the max_length)))
      else first_error (map inner_validate vs))"

definition MapField_check :: "(pyval \<Rightarrow> check) \<Rightarrow> (pyval \<Rightarrow> check) \<Rightarrow> pyval \<Rightarrow> check" where
  "MapField_check key_validate value_validate val =
     (case val of
        PDict d \<Rightarrow> first_error (concat (map (\<lambda>(k, v). [key_validate k, value_validate v]) d))
      | _ \<Rightarrow> Inl AttributeError)"

definition NetworkPortField_check :: "int \<Rightarrow> check" where
  "NetworkPortField_check i = error_if (i \<le> 0 \<or> i > 65535) PortOutOfRange"

definition NetworkIpAddressField_check :: "string \<Rightarrow> check" where
  "NetworkIpAddressField_check s =
     error_if (\<not> ip_address s \<or> s \<in> set [''0.0.0.0'', ''0:0:0:0:0:0:0:0'', ''::'']) InvalidIpAddress"

text \<open>A set of values compares by hash first, which raises on an unhashable value.\<close>

definition ChooseField_check :: "pyconst list \<Rightarrow> bool \<Rightarrow> pyval \<Rightarrow> check" where
  "ChooseField_check possible_values is_set val =
     (if is_set \<and> \<not> hashable val then Inl TypeError
      else error_if (\<not> list_ex (\<lambda>c. equals_const c val) possible_values) (ExpectedOneOf possible_values))"

definition VALID_LEDGER_IDS :: "int list" where
  "VALID_LEDGER_IDS = [0, 1, 2, 3]"

definition update_with_plugin_ledger_ids :: "field_env \<Rightarrow> pyconst list" where
  "update_with_plugin_ledger_ids env = map CInt (VALID_LEDGER_IDS @ plugin_ledger_ids env)"

definition Base58Field_check :: "field_env \<Rightarrow> nat list option \<Rightarrow> string \<Rightarrow> check" where
  "Base58Field_check env byte_lengths s =
     (if \<not> set s \<subseteq> set (b58_alphabet env) then Inr (Some InvalidChars)
      else (case byte_lengths of
              None \<Rightarrow> Inr None
            | Some ls \<Rightarrow> let b58len = length (b58decode env s) in error_if (b58len \<notin> set ls) (B58Length b58len)))"

definition TimestampField_check :: "int \<Rightarrow> check" where
  "TimestampField_check i = error_if (i < 1499906902) TooOld"

definition TxnSeqNoField_check :: "int \<Rightarrow> check" where
  "TxnSeqNoField_check i = error_if (i < 1) SmallerThanOne"

text \<open>Validators that other validators call, with the default parameters.\<close>

definition str_field :: "(string \<Rightarrow> check) \<Rightarrow> pyval \<Rightarrow> check" where
  "str_field f = FieldBase_validate (Some [T_str]) False (on_str f)"

definition int_field :: "(int \<Rightarrow> check) \<Rightarrow> pyval \<Rightarrow> check" where
  "int_field f = FieldBase_validate (Some [T_int]) False (on_int f)"

definition NonNegativeNumberField_validate :: "pyval \<Rightarrow> check" where
  "NonNegativeNumberField_validate = int_field NonNegativeNumberField_check"

definition IdentifierField_validate :: "field_env \<Rightarrow> pyval \<Rightarrow> check" where
  "IdentifierField_validate env = str_field (Base58Field_check env (Some [16, 32]))"

definition MerkleRootField_validate :: "field_env \<Rightarrow> pyval \<Rightarrow> check" where
  "MerkleRootField_validate env = str_field (Base58Field_check env (Some [32]))"

definition LedgerIdField_validate :: "field_env \<Rightarrow> pyval \<Rightarrow> check" where
  "LedgerIdField_validate env = FieldBase_validate (Some [T_int]) False (ChooseField_check (update_with_plugin_ledger_ids env) False)"

text \<open>The error of \<^verbatim>\<open>any\<close> is the value true, not a message.\<close>

definition RequestIdentifierField_check :: "field_env \<Rightarrow> pyval list \<Rightarrow> check" where
  "RequestIdentifierField_check env vs =
     (if length vs \<noteq> 2 then Inr (Some (ShouldHaveLength 2))
      else (case vs ! 0 of
              PStr s \<Rightarrow>
                if list_ex (\<lambda>i. IdentifierField_validate env (PStr i) \<noteq> Inr None) (py_split (CHR '','') s) then Inr (Some AnyOfThem)
                else NonNegativeNumberField_validate (vs ! 1)
            | _ \<Rightarrow> Inr (Some IdentifierNotPresent)))"

definition TieAmongField_check :: "nat \<Rightarrow> pyval list \<Rightarrow> check" where
  "TieAmongField_check max_length vs =
     (if length vs \<noteq> 2 then Inr (Some (ShouldHaveLength 2))
      else first_error [str_field (LimitedLengthStringField_check max_length False) (vs ! 0), NonNegativeNumberField_validate (vs ! 1)])"

definition FullVerkeyField_check :: "field_env \<Rightarrow> string \<Rightarrow> check" where
  "FullVerkeyField_check env s = str_field (Base58Field_check env (Some [32])) (PStr s)"

definition AbbreviatedVerkeyField_check :: "field_env \<Rightarrow> string \<Rightarrow> check" where
  "AbbreviatedVerkeyField_check env s =
     (if s = [] \<or> hd s \<noteq> CHR ''~'' then Inr (Some ShouldStartWithTilde)
      else str_field (Base58Field_check env (Some [16])) (PStr (tl s)))"

definition VerkeyField_check :: "field_env \<Rightarrow> string \<Rightarrow> check" where
  "VerkeyField_check env s =
     (case (str_field (AbbreviatedVerkeyField_check env) (PStr s), str_field (FullVerkeyField_check env) (PStr s)) of
        (Inr (Some err_ab), Inr (Some err_fl)) \<Rightarrow> Inr (Some (NeitherVerkey err_ab err_fl))
      | (Inl e, _) \<Rightarrow> Inl e
      | (_, Inl e) \<Rightarrow> Inl e
      | _ \<Rightarrow> Inr None)"

definition HexField_check :: "nat option \<Rightarrow> string \<Rightarrow> check" where
  "HexField_check len s =
     (case int_of_string 16 s of
        Inl e \<Rightarrow> Inr (Some InvalidHexNumber)
      | Inr _ \<Rightarrow> error_if (len \<noteq> None \<and> length s \<noteq> the len) (ShouldHaveLength (the len)))"

definition SerializedValueField_check :: "bool \<Rightarrow> pyval \<Rightarrow> check" where
  "SerializedValueField_check nullable val = error_if (\<not> is_true val \<and> \<not> nullable) EmptySerialized"

definition py_space :: "char \<Rightarrow> bool" where
  "py_space c = (let n = (of_char c :: nat) in 9 \<le> n \<and> n \<le> 13 \<or> 28 \<le> n \<and> n \<le> 32 \<or> n = 133 \<or> n = 160)"

definition generic_version_char :: "char \<Rightarrow> bool" where
  "generic_version_char c =
     (let n = (of_char c :: nat) in 48 \<le> n \<and> n \<le> 57 \<or> 97 \<le> n \<and> n \<le> 122 \<or> 65 \<le> n \<and> n \<le> 90 \<or> c \<in> set ''.-+!'')"

definition GenericVersion_init :: "string \<Rightarrow> field_error option" where
  "GenericVersion_init version =
     (if version \<noteq> [] \<and> (py_space (hd version) \<or> py_space (last version)) then Some VersionSpaces
      else if version = [] \<or> \<not> list_all generic_version_char version then Some VersionChars
      else None)"

definition VersionField_check :: "nat \<Rightarrow> bool \<Rightarrow> string \<Rightarrow> check" where
  "VersionField_check max_length can_be_empty s =
     first_error [LimitedLengthStringField_check max_length can_be_empty s, Inr (GenericVersion_init s)]"

text \<open>The end of the regular expression also matches before a line feed at the end.\<close>

definition Sha256HexField_check :: "string \<Rightarrow> check" where
  "Sha256HexField_check s =
     error_if (\<not> (list_all (\<lambda>c. char_digit 16 c \<noteq> None) (take 64 s) \<and> length (take 64 s) = 64 \<and> drop 64 s \<in> {[], [CHR 0x0A]})) NotSha256"

definition StringifiedNonNegativeNumberField_check :: "pyval \<Rightarrow> check" where
  "StringifiedNonNegativeNumberField_check val =
     (case val of
        PStr s \<Rightarrow>
          (case int_of_string 10 s of Inl e \<Rightarrow> Inr (Some NotStringifiedInt) | Inr i \<Rightarrow> NonNegativeNumberField_validate (PInt i))
      | _ \<Rightarrow> on_int (\<lambda>i. NonNegativeNumberField_validate (PInt i)) val)"

definition LedgerInfoField_check :: "field_env \<Rightarrow> pyval list \<Rightarrow> check" where
  "LedgerInfoField_check env vs =
     (if length vs \<noteq> 3 then Inr (Some (ShouldHaveSize 3))
      else first_error [LedgerIdField_validate env (vs ! 0), NonNegativeNumberField_validate (vs ! 1), MerkleRootField_validate env (vs ! 2)])"

definition MultiSignatureValue_init :: "pyval list \<Rightarrow> unit result" where
  "MultiSignatureValue_init vs =
     (if length vs \<noteq> 5 then Inl TypeError
      else assertE PlenumTypeError
        (isinstance (vs ! 0) T_int \<and> isinstance (vs ! 1) T_str \<and> isinstance (vs ! 2) T_str \<and>
         isinstance (vs ! 3) T_str \<and> isinstance (vs ! 4) T_int))"

definition BlsMultiSignatureValueField_check :: "field_env \<Rightarrow> pyval list \<Rightarrow> check" where
  "BlsMultiSignatureValueField_check env vs =
     bindE (MultiSignatureValue_init vs) (\<lambda>_.
       first_error
         [LedgerIdField_validate env (vs ! 0), MerkleRootField_validate env (vs ! 1), MerkleRootField_validate env (vs ! 2),
          MerkleRootField_validate env (vs ! 3), int_field TimestampField_check (vs ! 4)])"

abbreviation BLS_MULTI_SIG_LIMIT :: nat where
  "BLS_MULTI_SIG_LIMIT \<equiv> 512"

definition list_field :: "(pyval list \<Rightarrow> check) \<Rightarrow> pyval \<Rightarrow> check" where
  "list_field f = FieldBase_validate (Some [T_list, T_tuple]) False (on_elements f)"

definition BlsMultiSignatureField_check :: "field_env \<Rightarrow> pyval list \<Rightarrow> check" where
  "BlsMultiSignatureField_check env vs =
     (case vs of
        [sig, participants, multi_sig_value] \<Rightarrow>
          first_error
            [list_field (BlsMultiSignatureValueField_check env) multi_sig_value,
             str_field (LimitedLengthStringField_check BLS_MULTI_SIG_LIMIT False) sig,
             list_field (IterableField_check None None (str_field NonEmptyStringField_check)) participants,
             on_elements (\<lambda>ps. error_if (ps = []) NoParticipants) participants]
      | _ \<Rightarrow> Inl ValueError)"

definition CURRENT_PROTOCOL_VERSION :: int where
  "CURRENT_PROTOCOL_VERSION = 2"

definition PlenumProtocolVersion_has_value :: "pyval \<Rightarrow> bool" where
  "PlenumProtocolVersion_has_value val = (as_int val = Some 1 \<or> as_int val = Some 2)"

definition ProtocolVersionField_check :: "pyval \<Rightarrow> check" where
  "ProtocolVersionField_check val =
     (if \<not> PlenumProtocolVersion_has_value val then Inr (Some UnknownProtocolVersion)
      else error_if (as_int val \<noteq> Some CURRENT_PROTOCOL_VERSION) OtherProtocolVersion)"

definition BatchID_fields :: "string list" where
  "BatchID_fields = [''view_no'', ''pp_view_no'', ''pp_seq_no'', ''pp_digest'']"

definition BatchID_of :: "pyval \<Rightarrow> pyval list result" where
  "BatchID_of val =
     (case val of
        PDict d \<Rightarrow> mapE (\<lambda>n. case dict_get d n of None \<Rightarrow> Inl TypeError | Some v \<Rightarrow> Inr v) BatchID_fields
      | _ \<Rightarrow> (case elements val of Some vs \<Rightarrow> Inr vs | None \<Rightarrow> Inl TypeError))"

definition BatchIDField_check :: "pyval \<Rightarrow> check" where
  "BatchIDField_check val =
     (if (case val of PDict d \<Rightarrow> length d \<noteq> 4 | _ \<Rightarrow> map_option length (elements val) \<noteq> Some 4) then Inr (Some (ShouldHaveSize 4))
      else if (case val of PDict d \<Rightarrow> list_ex (\<lambda>(k, v). k \<notin> PStr ` set BatchID_fields) d | _ \<Rightarrow> False) then Inr (Some IncorrectListOfFields)
      else bindE (BatchID_of val) (\<lambda>bid.
             first_error
               [NonNegativeNumberField_validate (bid ! 0), NonNegativeNumberField_validate (bid ! 1),
                NonNegativeNumberField_validate (bid ! 2), str_field NonEmptyStringField_check (bid ! 3)]))"

abbreviation DIGEST_FIELD_LIMIT :: nat where
  "DIGEST_FIELD_LIMIT \<equiv> 512"

definition ViewChangeField_check :: "pyval list \<Rightarrow> check" where
  "ViewChangeField_check vs =
     (if length vs \<noteq> 2 then Inr (Some (ShouldHaveSize 2))
      else first_error [str_field NonEmptyStringField_check (vs ! 0), str_field (LimitedLengthStringField_check DIGEST_FIELD_LIMIT False) (vs ! 1)])"

section \<open>Classes of fields\<close>

datatype kind =
    AnyField
  | BooleanField
  | IntegerField
  | NonEmptyStringField
  | LimitedLengthStringField nat bool
  | DatetimeStringField "string list"
  | FixedLengthField nat
  | SignatureField nat bool
  | RoleField
  | NonNegativeNumberField
  | ConstantField pyconst
  | AnyMapField
  | NetworkPortField
  | NetworkIpAddressField
  | ChooseField "pyconst list" bool
  | LedgerIdField
  | Base58Field "nat list option"
  | RequestIdentifierField
  | TieAmongField nat
  | FullVerkeyField
  | AbbreviatedVerkeyField
  | VerkeyField
  | HexField "nat option"
  | TimestampField
  | SerializedValueField
  | VersionField nat bool
  | TxnSeqNoField
  | Sha256HexField
  | AnyValueField
  | StringifiedNonNegativeNumberField
  | LedgerInfoField
  | BlsMultiSignatureValueField
  | BlsMultiSignatureField
  | ProtocolVersionField
  | BatchIDField
  | ViewChangeField

definition IdentifierField :: kind where
  "IdentifierField = Base58Field (Some [16, 32])"

definition DestNodeField :: kind where
  "DestNodeField = Base58Field (Some [16, 32])"

definition DestNymField :: kind where
  "DestNymField = Base58Field (Some [16, 32])"

definition MerkleRootField :: kind where
  "MerkleRootField = Base58Field (Some [32])"

fun base_types :: "kind \<Rightarrow> pytype list option" where
  "base_types AnyField = Some [T_object]"
| "base_types BooleanField = Some [T_bool]"
| "base_types IntegerField = Some [T_int]"
| "base_types (SignatureField _ _) = Some [T_str, T_none]"
| "base_types RoleField = Some [T_str, T_none]"
| "base_types NonNegativeNumberField = Some [T_int]"
| "base_types (ConstantField _) = None"
| "base_types AnyMapField = Some [T_dict]"
| "base_types NetworkPortField = Some [T_int]"
| "base_types (ChooseField _ _) = None"
| "base_types LedgerIdField = Some [T_int]"
| "base_types RequestIdentifierField = Some [T_list, T_tuple]"
| "base_types (TieAmongField _) = Some [T_list, T_tuple]"
| "base_types TimestampField = Some [T_int]"
| "base_types SerializedValueField = Some [T_bytes, T_str]"
| "base_types TxnSeqNoField = Some [T_int]"
| "base_types AnyValueField = None"
| "base_types StringifiedNonNegativeNumberField = Some [T_str, T_int]"
| "base_types LedgerInfoField = Some [T_list, T_tuple]"
| "base_types BlsMultiSignatureValueField = Some [T_list, T_tuple]"
| "base_types BlsMultiSignatureField = Some [T_list, T_tuple]"
| "base_types ProtocolVersionField = Some [T_int, T_none]"
| "base_types BatchIDField = Some [T_list, T_tuple, T_dict]"
| "base_types ViewChangeField = Some [T_list, T_tuple]"
| "base_types _ = Some [T_str]"

fun specific_validation :: "field_env \<Rightarrow> kind \<Rightarrow> bool \<Rightarrow> pyval \<Rightarrow> check" where
  "specific_validation env NonEmptyStringField nullable = on_str NonEmptyStringField_check"
| "specific_validation env (LimitedLengthStringField m e) nullable = on_str (LimitedLengthStringField_check m e)"
| "specific_validation env (DatetimeStringField xs) nullable = on_str (DatetimeStringField_check env xs)"
| "specific_validation env (FixedLengthField n) nullable = on_str (FixedLengthField_check n)"
| "specific_validation env (SignatureField m e) nullable = SignatureField_check m e"
| "specific_validation env NonNegativeNumberField nullable = on_int NonNegativeNumberField_check"
| "specific_validation env (ConstantField c) nullable = ConstantField_check c"
| "specific_validation env NetworkPortField nullable = on_int NetworkPortField_check"
| "specific_validation env NetworkIpAddressField nullable = on_str NetworkIpAddressField_check"
| "specific_validation env (ChooseField cs is_set) nullable = ChooseField_check cs is_set"
| "specific_validation env LedgerIdField nullable = ChooseField_check (update_with_plugin_ledger_ids env) False"
| "specific_validation env (Base58Field ls) nullable = on_str (Base58Field_check env ls)"
| "specific_validation env RequestIdentifierField nullable = on_elements (RequestIdentifierField_check env)"
| "specific_validation env (TieAmongField m) nullable = on_elements (TieAmongField_check m)"
| "specific_validation env FullVerkeyField nullable = on_str (FullVerkeyField_check env)"
| "specific_validation env AbbreviatedVerkeyField nullable = on_str (AbbreviatedVerkeyField_check env)"
| "specific_validation env VerkeyField nullable = on_str (VerkeyField_check env)"
| "specific_validation env (HexField n) nullable = on_str (HexField_check n)"
| "specific_validation env TimestampField nullable = on_int TimestampField_check"
| "specific_validation env SerializedValueField nullable = SerializedValueField_check nullable"
| "specific_validation env (VersionField m e) nullable = on_str (VersionField_check m e)"
| "specific_validation env TxnSeqNoField nullable = on_int TxnSeqNoField_check"
| "specific_validation env Sha256HexField nullable = on_str Sha256HexField_check"
| "specific_validation env StringifiedNonNegativeNumberField nullable = StringifiedNonNegativeNumberField_check"
| "specific_validation env LedgerInfoField nullable = on_elements (LedgerInfoField_check env)"
| "specific_validation env BlsMultiSignatureValueField nullable = on_elements (BlsMultiSignatureValueField_check env)"
| "specific_validation env BlsMultiSignatureField nullable = on_elements (BlsMultiSignatureField_check env)"
| "specific_validation env ProtocolVersionField nullable = ProtocolVersionField_check"
| "specific_validation env BatchIDField nullable = BatchIDField_check"
| "specific_validation env ViewChangeField nullable = on_elements ViewChangeField_check"
| "specific_validation env _ nullable = (\<lambda>_. Inr None)"

definition kind_validate :: "field_env \<Rightarrow> kind \<Rightarrow> bool \<Rightarrow> pyval \<Rightarrow> check" where
  "kind_validate env k nullable = FieldBase_validate (base_types k) nullable (specific_validation env k nullable)"

section \<open>The values a field describes\<close>

definition is_nat :: "pyval \<Rightarrow> bool" where
  "is_nat v = (\<exists>i \<ge> 0. as_int v = Some i)"

definition is_str :: "(string \<Rightarrow> bool) \<Rightarrow> pyval \<Rightarrow> bool" where
  "is_str P v = (\<exists>s. v = PStr s \<and> P s)"

definition is_time :: "pyval \<Rightarrow> bool" where
  "is_time v = (\<exists>i \<ge> 1499906902. as_int v = Some i)"

definition is_b58 :: "field_env \<Rightarrow> nat list \<Rightarrow> string \<Rightarrow> bool" where
  "is_b58 env ls s = (set s \<subseteq> set (b58_alphabet env) \<and> length (b58decode env s) \<in> set ls)"

definition is_ledger_id :: "field_env \<Rightarrow> pyval \<Rightarrow> bool" where
  "is_ledger_id env v = (\<exists>i \<in> {0, 1, 2, 3} \<union> set (plugin_ledger_ids env). as_int v = Some i)"

definition is_sha256 :: "string \<Rightarrow> bool" where
  "is_sha256 s = (\<exists>h. (s = h \<or> s = h @ [CHR 0x0A]) \<and> length h = 64 \<and> (\<forall>c \<in> set h. char_digit 16 c \<noteq> None))"

definition is_multi_sig_value :: "field_env \<Rightarrow> pyval \<Rightarrow> bool" where
  "is_multi_sig_value env v =
     (\<exists>l s p t ts. elements v = Some [l, s, p, t, ts] \<and> is_ledger_id env l \<and> is_str (is_b58 env [32]) s \<and>
        is_str (is_b58 env [32]) p \<and> is_str (is_b58 env [32]) t \<and> is_time ts)"

definition is_multi_sig :: "field_env \<Rightarrow> pyval \<Rightarrow> bool" where
  "is_multi_sig env v =
     (\<exists>sig ps val xs. elements v = Some [sig, ps, val] \<and> is_str (\<lambda>s. s \<noteq> [] \<and> length s \<le> 512) sig \<and>
        elements ps = Some xs \<and> xs \<noteq> [] \<and> (\<forall>x \<in> set xs. is_str (\<lambda>s. s \<noteq> []) x) \<and> is_multi_sig_value env val)"

definition batch_id_values :: "pyval list \<Rightarrow> bool" where
  "batch_id_values vs = (\<exists>a b c d. vs = [a, b, c, d] \<and> is_nat a \<and> is_nat b \<and> is_nat c \<and> is_str (\<lambda>s. s \<noteq> []) d)"

definition batch_id_dict :: "(pyval \<times> pyval) list \<Rightarrow> bool" where
  "batch_id_dict m =
     (length m = 4 \<and> fst ` set m \<subseteq> PStr ` set BatchID_fields \<and> (\<exists>bid. map (dict_get m) BatchID_fields = map Some bid \<and> batch_id_values bid))"

definition is_batch_id :: "pyval \<Rightarrow> bool" where
  "is_batch_id v = ((\<exists>vs. elements v = Some vs \<and> batch_id_values vs) \<or> (\<exists>m. v = PDict m \<and> batch_id_dict m))"

fun kind_type :: "field_env \<Rightarrow> kind \<Rightarrow> bool \<Rightarrow> pyval \<Rightarrow> bool" where
  "kind_type env AnyField nullable v = True"
| "kind_type env BooleanField nullable v = (\<exists>b. v = PBool b)"
| "kind_type env IntegerField nullable v = (\<exists>i. as_int v = Some i)"
| "kind_type env NonEmptyStringField nullable v = is_str (\<lambda>s. s \<noteq> []) v"
| "kind_type env (LimitedLengthStringField m e) nullable v = is_str (\<lambda>s. length s \<le> m \<and> (s \<noteq> [] \<or> e)) v"
| "kind_type env (DatetimeStringField xs) nullable v = is_str (\<lambda>s. length s \<le> 35 \<and> (s \<in> set xs \<or> parse_datetime env s)) v"
| "kind_type env (FixedLengthField n) nullable v = is_str (\<lambda>s. length s = n) v"
| "kind_type env (SignatureField m e) nullable v = (v = PNone \<or> is_str (\<lambda>s. length s \<le> m \<and> s \<noteq> []) v)"
| "kind_type env RoleField nullable v = (v = PNone \<or> is_str (\<lambda>s. True) v)"
| "kind_type env NonNegativeNumberField nullable v = is_nat v"
| "kind_type env (ConstantField c) nullable v = equals_const c v"
| "kind_type env AnyMapField nullable v = (\<exists>d. v = PDict d)"
| "kind_type env NetworkPortField nullable v = (\<exists>i \<in> {1..65535}. as_int v = Some i)"
| "kind_type env NetworkIpAddressField nullable v =
     is_str (\<lambda>s. ip_address s \<and> s \<notin> {''0.0.0.0'', ''0:0:0:0:0:0:0:0'', ''::''}) v"
| "kind_type env (ChooseField cs is_set) nullable v = (\<exists>c \<in> set cs. equals_const c v)"
| "kind_type env LedgerIdField nullable v = is_ledger_id env v"
| "kind_type env (Base58Field ls) nullable v =
     is_str (\<lambda>s. set s \<subseteq> set (b58_alphabet env) \<and> (\<forall>l. ls = Some l \<longrightarrow> length (b58decode env s) \<in> set l)) v"
| "kind_type env RequestIdentifierField nullable v =
     (\<exists>s r. elements v = Some [PStr s, r] \<and> (\<forall>i \<in> set (py_split (CHR '','') s). is_b58 env [16, 32] i) \<and> is_nat r)"
| "kind_type env (TieAmongField m) nullable v =
     (\<exists>a r. elements v = Some [a, r] \<and> is_str (\<lambda>s. length s \<le> m \<and> s \<noteq> []) a \<and> is_nat r)"
| "kind_type env FullVerkeyField nullable v = is_str (is_b58 env [32]) v"
| "kind_type env AbbreviatedVerkeyField nullable v = is_str (\<lambda>s. \<exists>t. s = CHR ''~'' # t \<and> is_b58 env [16] t) v"
| "kind_type env VerkeyField nullable v = is_str (\<lambda>s. is_b58 env [32] s \<or> (\<exists>t. s = CHR ''~'' # t \<and> is_b58 env [16] t)) v"
| "kind_type env (HexField n) nullable v = is_str (\<lambda>s. (\<exists>i. int_of_string 16 s = Inr i) \<and> (\<forall>l. n = Some l \<longrightarrow> length s = l)) v"
| "kind_type env TimestampField nullable v = is_time v"
| "kind_type env SerializedValueField nullable v = ((\<exists>b. v = PBytes b \<and> (b \<noteq> [] \<or> nullable)) \<or> is_str (\<lambda>s. s \<noteq> [] \<or> nullable) v)"
| "kind_type env (VersionField m e) nullable v = is_str (\<lambda>s. length s \<le> m \<and> s \<noteq> [] \<and> (\<forall>c \<in> set s. generic_version_char c)) v"
| "kind_type env TxnSeqNoField nullable v = (\<exists>i \<ge> 1. as_int v = Some i)"
| "kind_type env Sha256HexField nullable v = is_str is_sha256 v"
| "kind_type env AnyValueField nullable v = True"
| "kind_type env StringifiedNonNegativeNumberField nullable v = (is_nat v \<or> is_str (\<lambda>s. \<exists>i \<ge> 0. int_of_string 10 s = Inr i) v)"
| "kind_type env LedgerInfoField nullable v =
     (\<exists>a b c. elements v = Some [a, b, c] \<and> is_ledger_id env a \<and> is_nat b \<and> is_str (is_b58 env [32]) c)"
| "kind_type env BlsMultiSignatureValueField nullable v = is_multi_sig_value env v"
| "kind_type env BlsMultiSignatureField nullable v = is_multi_sig env v"
| "kind_type env ProtocolVersionField nullable v = (as_int v = Some 2)"
| "kind_type env BatchIDField nullable v = is_batch_id v"
| "kind_type env ViewChangeField nullable v =
     (\<exists>a b. elements v = Some [a, b] \<and> is_str (\<lambda>s. s \<noteq> []) a \<and> is_str (\<lambda>s. length s \<le> 512 \<and> s \<noteq> []) b)"

section \<open>Validation decides the type\<close>

named_theorems field_iff

lemma FieldBase_str:
  "FieldBase_validate (Some [T_str]) n (on_str f) v = Inr None \<longleftrightarrow> n \<and> v = PNone \<or> is_str (\<lambda>s. f s = Inr None) v"
  by (cases v) (auto simp: FieldBase_validate_def type_check_def on_str_def is_str_def)

lemma FieldBase_int:
  "FieldBase_validate (Some [T_int]) n (on_int f) v = Inr None \<longleftrightarrow> n \<and> v = PNone \<or> (\<exists>i. as_int v = Some i \<and> f i = Inr None)"
  by (cases v) (auto simp: FieldBase_validate_def type_check_def on_int_def)

lemma FieldBase_elements:
  "FieldBase_validate (Some [T_list, T_tuple]) n (on_elements f) v = Inr None \<longleftrightarrow>
   n \<and> v = PNone \<or> (\<exists>vs. elements v = Some vs \<and> f vs = Inr None)"
  by (cases v) (auto simp: FieldBase_validate_def type_check_def on_elements_def)

lemma str_field_iff [field_iff]: "str_field f v = Inr None \<longleftrightarrow> is_str (\<lambda>s. f s = Inr None) v"
  by (simp add: str_field_def FieldBase_str)

lemma int_field_iff [field_iff]: "int_field f v = Inr None \<longleftrightarrow> (\<exists>i. as_int v = Some i \<and> f i = Inr None)"
  by (simp add: int_field_def FieldBase_int)

lemma list_field_iff [field_iff]: "list_field f v = Inr None \<longleftrightarrow> (\<exists>vs. elements v = Some vs \<and> f vs = Inr None)"
  by (simp add: list_field_def FieldBase_elements)

lemma NonEmptyString_iff [field_iff]: "NonEmptyStringField_check s = Inr None \<longleftrightarrow> s \<noteq> []"
  by (simp add: NonEmptyStringField_check_def)

lemma LimitedLength_iff [field_iff]: "LimitedLengthStringField_check m e s = Inr None \<longleftrightarrow> length s \<le> m \<and> (s \<noteq> [] \<or> e)"
  by (auto simp: LimitedLengthStringField_check_def)

lemma NonNegative_iff [field_iff]: "NonNegativeNumberField_validate v = Inr None \<longleftrightarrow> is_nat v"
  by (auto simp: NonNegativeNumberField_validate_def NonNegativeNumberField_check_def int_field_iff is_nat_def)

lemma Base58_iff [field_iff]:
  "Base58Field_check env ls s = Inr None \<longleftrightarrow> set s \<subseteq> set (b58_alphabet env) \<and> (\<forall>l. ls = Some l \<longrightarrow> length (b58decode env s) \<in> set l)"
  by (auto simp: Base58Field_check_def Let_def split: option.splits)

lemma Identifier_iff [field_iff]: "IdentifierField_validate env v = Inr None \<longleftrightarrow> is_str (is_b58 env [16, 32]) v"
  by (simp add: IdentifierField_validate_def field_iff is_str_def is_b58_def)

lemma MerkleRoot_iff [field_iff]: "MerkleRootField_validate env v = Inr None \<longleftrightarrow> is_str (is_b58 env [32]) v"
  by (simp add: MerkleRootField_validate_def field_iff is_str_def is_b58_def)

lemma Choose_iff [field_iff]: "ChooseField_check cs is_set v = Inr None \<longleftrightarrow> (\<exists>c \<in> set cs. equals_const c v)"
proof -
  have "hashable v" if "equals_const c v" for c using that by (cases c; cases v) auto
  then show ?thesis by (auto simp: ChooseField_check_def list_ex_iff)
qed

lemma ledger_ids: "(\<exists>c \<in> set (update_with_plugin_ledger_ids env). equals_const c v) \<longleftrightarrow> is_ledger_id env v"
  by (auto simp: update_with_plugin_ledger_ids_def VALID_LEDGER_IDS_def is_ledger_id_def)

lemma is_ledger_id_int: "is_ledger_id env v \<Longrightarrow> isinstance v T_int"
  unfolding as_int_isinstance by (auto simp: is_ledger_id_def)

lemma LedgerId_iff [field_iff]: "LedgerIdField_validate env v = Inr None \<longleftrightarrow> is_ledger_id env v"
  using is_ledger_id_int [of env v] by (auto simp: LedgerIdField_validate_def FieldBase_validate_def type_check_def Choose_iff ledger_ids)

lemma Timestamp_iff [field_iff]: "(\<exists>i. as_int v = Some i \<and> TimestampField_check i = Inr None) \<longleftrightarrow> is_time v"
  by (auto simp: TimestampField_check_def is_time_def)

lemma list2_iff: "length vs = 2 \<longleftrightarrow> (\<exists>a b. vs = [a, b])"
  by (auto simp: length_Suc_conv numeral_2_eq_2)

lemma list3_iff: "length vs = 3 \<longleftrightarrow> (\<exists>a b c. vs = [a, b, c])"
  by (auto simp: length_Suc_conv numeral_3_eq_3)

lemma list4_iff: "length vs = 4 \<longleftrightarrow> (\<exists>a b c d. vs = [a, b, c, d])"
  by (auto simp: length_Suc_conv eval_nat_numeral)

lemma list5_iff: "length vs = 5 \<longleftrightarrow> (\<exists>a b c d e. vs = [a, b, c, d, e])"
  by (auto simp: length_Suc_conv eval_nat_numeral)

lemma RequestIdentifier_iff [field_iff]:
  "RequestIdentifierField_check env vs = Inr None \<longleftrightarrow>
   (\<exists>s r. vs = [PStr s, r] \<and> (\<forall>i \<in> set (py_split (CHR '','') s). is_b58 env [16, 32] i) \<and> is_nat r)"
proof (cases "length vs = 2")
  case True
  then obtain a b where "vs = [a, b]" by (auto simp: list2_iff)
  then show ?thesis by (cases a) (auto simp: RequestIdentifierField_check_def field_iff list_ex_iff is_str_def)
qed (auto simp: RequestIdentifierField_check_def)

lemma TieAmong_iff [field_iff]:
  "TieAmongField_check m vs = Inr None \<longleftrightarrow> (\<exists>a r. vs = [a, r] \<and> is_str (\<lambda>s. length s \<le> m \<and> s \<noteq> []) a \<and> is_nat r)"
proof (cases "length vs = 2")
  case True
  then obtain a b where "vs = [a, b]" by (auto simp: list2_iff)
  then show ?thesis by (simp add: TieAmongField_check_def field_iff)
qed (auto simp: TieAmongField_check_def)

lemma FullVerkey_iff [field_iff]: "FullVerkeyField_check env s = Inr None \<longleftrightarrow> is_b58 env [32] s"
  by (simp add: FullVerkeyField_check_def field_iff is_str_def is_b58_def)

lemma AbbreviatedVerkey_iff [field_iff]: "AbbreviatedVerkeyField_check env s = Inr None \<longleftrightarrow> (\<exists>t. s = CHR ''~'' # t \<and> is_b58 env [16] t)"
  by (cases s) (auto simp: AbbreviatedVerkeyField_check_def field_iff is_str_def is_b58_def)

lemma str_field_PStr [simp]: "str_field f (PStr s) = f s"
  by (simp add: str_field_def FieldBase_validate_def type_check_def on_str_def)

lemma Base58_returns: "\<exists>e. Base58Field_check env ls s = Inr e"
  by (auto simp: Base58Field_check_def error_if_def Let_def split: option.splits)

lemma Verkey_iff [field_iff]:
  "VerkeyField_check env s = Inr None \<longleftrightarrow> is_b58 env [32] s \<or> (\<exists>t. s = CHR ''~'' # t \<and> is_b58 env [16] t)"
proof -
  obtain e where e: "FullVerkeyField_check env s = Inr e"
    using Base58_returns [of env "Some [32]" s] by (auto simp: FullVerkeyField_check_def)
  obtain e' where e': "AbbreviatedVerkeyField_check env s = Inr e'"
    using Base58_returns [of env "Some [16]" "tl s"] by (cases "s = [] \<or> hd s \<noteq> CHR ''~''") (auto simp: AbbreviatedVerkeyField_check_def)
  have "VerkeyField_check env s = Inr None \<longleftrightarrow> e = None \<or> e' = None"
    by (cases e; cases e') (simp_all add: VerkeyField_check_def e e')
  then show ?thesis using FullVerkey_iff [of env s] AbbreviatedVerkey_iff [of env s] e e' by simp
qed

lemma version_char_no_space: "generic_version_char c \<Longrightarrow> \<not> py_space c"
  by (auto simp: generic_version_char_def py_space_def Let_def)

lemma Version_iff [field_iff]:
  "VersionField_check m e s = Inr None \<longleftrightarrow> length s \<le> m \<and> s \<noteq> [] \<and> (\<forall>c \<in> set s. generic_version_char c)"
  using version_char_no_space [of "hd s"] version_char_no_space [of "last s"]
  by (auto simp: VersionField_check_def field_iff GenericVersion_init_def list_all_iff)

lemma Sha256_iff [field_iff]: "Sha256HexField_check s = Inr None \<longleftrightarrow> is_sha256 s"
proof
  assume "Sha256HexField_check s = Inr None"
  then have "drop 64 s = [] \<or> drop 64 s = [CHR 0x0A]" "length (take 64 s) = 64" "\<forall>c \<in> set (take 64 s). char_digit 16 c \<noteq> None"
    by (auto simp: Sha256HexField_check_def list_all_iff)
  moreover have "s = take 64 s @ drop 64 s" by simp
  ultimately show "is_sha256 s" unfolding is_sha256_def by (metis append_Nil2)
qed (auto simp: is_sha256_def Sha256HexField_check_def list_all_iff)

lemma Stringified_iff:
  "FieldBase_validate (Some [T_str, T_int]) n StringifiedNonNegativeNumberField_check v = Inr None \<longleftrightarrow>
   n \<and> v = PNone \<or> is_nat v \<or> is_str (\<lambda>s. \<exists>i \<ge> 0. int_of_string 10 s = Inr i) v"
  by (cases v)
    (auto simp: FieldBase_validate_def type_check_def StringifiedNonNegativeNumberField_check_def NonNegative_iff is_nat_def is_str_def on_int_def
      split: sum.splits)

lemma LedgerInfo_iff [field_iff]:
  "LedgerInfoField_check env vs = Inr None \<longleftrightarrow> (\<exists>a b c. vs = [a, b, c] \<and> is_ledger_id env a \<and> is_nat b \<and> is_str (is_b58 env [32]) c)"
proof (cases "length vs = 3")
  case True
  then obtain a b c where "vs = [a, b, c]" by (auto simp: list3_iff)
  then show ?thesis by (simp add: LedgerInfoField_check_def field_iff)
qed (auto simp: LedgerInfoField_check_def)

lemma is_time_int: "is_time v \<Longrightarrow> isinstance v T_int"
  unfolding as_int_isinstance by (auto simp: is_time_def)

lemma is_str_str: "is_str P v \<Longrightarrow> isinstance v T_str"
  by (auto simp: is_str_def)

lemma MultiSignatureValue_iff [field_iff]:
  "BlsMultiSignatureValueField_check env vs = Inr None \<longleftrightarrow>
   (\<exists>l s p t ts. vs = [l, s, p, t, ts] \<and> is_ledger_id env l \<and> is_str (is_b58 env [32]) s \<and>
      is_str (is_b58 env [32]) p \<and> is_str (is_b58 env [32]) t \<and> is_time ts)"
proof (cases "length vs = 5")
  case True
  then obtain l s p t ts where vs: "vs = [l, s, p, t, ts]" by (auto simp: list5_iff)
  have "BlsMultiSignatureValueField_check env vs = Inr None \<longleftrightarrow>
      isinstance l T_int \<and> isinstance s T_str \<and> isinstance p T_str \<and> isinstance t T_str \<and> isinstance ts T_int \<and>
      is_ledger_id env l \<and> is_str (is_b58 env [32]) s \<and> is_str (is_b58 env [32]) p \<and> is_str (is_b58 env [32]) t \<and> is_time ts"
    by (simp add: BlsMultiSignatureValueField_check_def MultiSignatureValue_init_def vs field_iff bindE_eq_Inr)
  then show ?thesis using is_ledger_id_int is_time_int is_str_str vs by blast
qed (auto simp: BlsMultiSignatureValueField_check_def MultiSignatureValue_init_def)

lemma Iterable_iff [field_iff]:
  "IterableField_check mn mx f vs = Inr None \<longleftrightarrow>
   (\<forall>m. mn = Some m \<longrightarrow> m \<le> length vs) \<and> (\<forall>m. mx = Some m \<longrightarrow> length vs \<le> m) \<and> (\<forall>v \<in> set vs. f v = Inr None)"
  by (cases mn; cases mx) (auto simp: IterableField_check_def)

lemma MultiSignature_iff [field_iff]:
  "BlsMultiSignatureField_check env vs = Inr None \<longleftrightarrow>
   (\<exists>sig ps val xs. vs = [sig, ps, val] \<and> is_str (\<lambda>s. s \<noteq> [] \<and> length s \<le> 512) sig \<and>
      elements ps = Some xs \<and> xs \<noteq> [] \<and> (\<forall>x \<in> set xs. is_str (\<lambda>s. s \<noteq> []) x) \<and> is_multi_sig_value env val)"
proof (cases "length vs = 3")
  case True
  then obtain sig ps val where vs: "vs = [sig, ps, val]" by (auto simp: list3_iff)
  show ?thesis
    by (auto simp: BlsMultiSignatureField_check_def vs field_iff on_elements_def is_multi_sig_value_def is_str_def)
qed (auto simp: BlsMultiSignatureField_check_def split: list.splits)

lemma ViewChange_iff [field_iff]:
  "ViewChangeField_check vs = Inr None \<longleftrightarrow>
   (\<exists>a b. vs = [a, b] \<and> is_str (\<lambda>s. s \<noteq> []) a \<and> is_str (\<lambda>s. length s \<le> 512 \<and> s \<noteq> []) b)"
proof (cases "length vs = 2")
  case True
  then obtain a b where "vs = [a, b]" by (auto simp: list2_iff)
  then show ?thesis by (simp add: ViewChangeField_check_def field_iff)
qed (auto simp: ViewChangeField_check_def)

lemma mapE_option: "mapE (\<lambda>n. case g n of None \<Rightarrow> Inl e | Some v \<Rightarrow> Inr v) ns = Inr vs \<longleftrightarrow> map g ns = map Some vs"
proof (induction ns arbitrary: vs)
  case (Cons n ns)
  then show ?case by (cases vs) (auto simp: bindE_eq_Inr split: option.splits)
qed auto

lemma BatchID_of_dict: "BatchID_of (PDict m) = Inr bid \<longleftrightarrow> map (dict_get m) BatchID_fields = map Some bid"
  by (simp add: BatchID_of_def mapE_option)

lemma BatchID_values:
  "length bid = 4 \<Longrightarrow>
   first_error [NonNegativeNumberField_validate (bid ! 0), NonNegativeNumberField_validate (bid ! 1),
     NonNegativeNumberField_validate (bid ! 2), str_field NonEmptyStringField_check (bid ! 3)] = Inr None \<longleftrightarrow> batch_id_values bid"
  by (auto simp: list4_iff field_iff batch_id_values_def)

lemma BatchID_dict_iff: "BatchIDField_check (PDict m) = Inr None \<longleftrightarrow> batch_id_dict m"
proof -
  have len: "length bid = 4" if "map (dict_get m) BatchID_fields = map Some bid" for bid
    using that map_eq_imp_length_eq [OF that] by (simp add: BatchID_fields_def)
  have ex: "list_ex (\<lambda>(k, v). k \<notin> PStr ` set BatchID_fields) m \<longleftrightarrow> \<not> fst ` set m \<subseteq> PStr ` set BatchID_fields"
    unfolding list_ex_iff by fastforce
  have "bindE (BatchID_of (PDict m)) (\<lambda>bid. first_error [NonNegativeNumberField_validate (bid ! 0), NonNegativeNumberField_validate (bid ! 1),
      NonNegativeNumberField_validate (bid ! 2), str_field NonEmptyStringField_check (bid ! 3)]) = Inr None \<longleftrightarrow>
    (\<exists>bid. map (dict_get m) BatchID_fields = map Some bid \<and> batch_id_values bid)"
    unfolding bindE_eq_Inr BatchID_of_dict using len BatchID_values by blast
  then show ?thesis unfolding BatchIDField_check_def pyval.case ex batch_id_dict_def by simp
qed

lemma BatchID_elements_iff:
  assumes "elements v = Some vs"
  shows "BatchIDField_check v = Inr None \<longleftrightarrow> batch_id_values vs"
proof (cases "length vs = 4")
  case True
  have "BatchIDField_check v = bindE (Inr vs) (\<lambda>bid. first_error [NonNegativeNumberField_validate (bid ! 0), NonNegativeNumberField_validate (bid ! 1),
     NonNegativeNumberField_validate (bid ! 2), str_field NonEmptyStringField_check (bid ! 3)])"
    using assms True by (cases v) (simp_all add: BatchIDField_check_def BatchID_of_def)
  then show ?thesis using BatchID_values [OF True] by simp
next
  case False
  then show ?thesis using assms by (cases v) (auto simp: BatchIDField_check_def batch_id_values_def)
qed

lemma BatchID_iff:
  "FieldBase_validate (Some [T_list, T_tuple, T_dict]) n BatchIDField_check v = Inr None \<longleftrightarrow> n \<and> v = PNone \<or> is_batch_id v"
proof (cases v)
  case (PDict m)
  then show ?thesis by (simp add: BatchID_dict_iff FieldBase_validate_def type_check_def is_batch_id_def)
qed (simp_all add: FieldBase_validate_def type_check_def is_batch_id_def BatchID_elements_iff)

lemma SerializedValue_iff:
  "FieldBase_validate (Some [T_bytes, T_str]) n (SerializedValueField_check n) v = Inr None \<longleftrightarrow>
   n \<and> v = PNone \<or> (\<exists>b. v = PBytes b \<and> (b \<noteq> [] \<or> n)) \<or> is_str (\<lambda>s. s \<noteq> [] \<or> n) v"
  by (cases v) (auto simp: FieldBase_validate_def type_check_def SerializedValueField_check_def is_str_def)

lemma Signature_iff:
  "FieldBase_validate (Some [T_str, T_none]) n (SignatureField_check m e) v = Inr None \<longleftrightarrow>
   n \<and> v = PNone \<or> v = PNone \<or> is_str (\<lambda>s. length s \<le> m \<and> s \<noteq> []) v"
  by (cases v) (auto simp: FieldBase_validate_def type_check_def SignatureField_check_def on_str_def is_str_def field_iff)

lemma Protocol_iff:
  "FieldBase_validate (Some [T_int, T_none]) n ProtocolVersionField_check v = Inr None \<longleftrightarrow> n \<and> v = PNone \<or> as_int v = Some 2"
  by (cases v) (auto simp: FieldBase_validate_def type_check_def ProtocolVersionField_check_def PlenumProtocolVersion_has_value_def
      CURRENT_PROTOCOL_VERSION_def)

lemma int_bound_iff:
  "(\<exists>i. as_int v = Some i \<and> NonNegativeNumberField_check i = Inr None) \<longleftrightarrow> is_nat v"
  "(\<exists>i. as_int v = Some i \<and> NetworkPortField_check i = Inr None) \<longleftrightarrow> (\<exists>i \<in> {1..65535}. as_int v = Some i)"
  "(\<exists>i. as_int v = Some i \<and> TxnSeqNoField_check i = Inr None) \<longleftrightarrow> (\<exists>i \<ge> 1. as_int v = Some i)"
  by (auto simp: is_nat_def NonNegativeNumberField_check_def NetworkPortField_check_def TxnSeqNoField_check_def)

lemma str_check_iff [field_iff]:
  "DatetimeStringField_check env xs s = Inr None \<longleftrightarrow> length s \<le> 35 \<and> (s \<in> set xs \<or> parse_datetime env s)"
  "FixedLengthField_check n s = Inr None \<longleftrightarrow> length s = n"
  "NetworkIpAddressField_check s = Inr None \<longleftrightarrow> ip_address s \<and> s \<notin> {''0.0.0.0'', ''0:0:0:0:0:0:0:0'', ''::''}"
  by (auto simp: DatetimeStringField_check_def FixedLengthField_check_def NetworkIpAddressField_check_def)

lemma Hex_iff [field_iff]: "HexField_check l s = Inr None \<longleftrightarrow> (\<exists>i. int_of_string 16 s = Inr i) \<and> (\<forall>k. l = Some k \<longrightarrow> length s = k)"
  by (cases l) (auto simp: HexField_check_def split: sum.splits)

lemma any_type_iff:
  "FieldBase_validate None n f v = Inr None \<longleftrightarrow> n \<and> v = PNone \<or> f v = Inr None"
  "FieldBase_validate (Some [T_object]) n (\<lambda>_. Inr None) v = Inr None"
  "FieldBase_validate (Some [T_bool]) n (\<lambda>_. Inr None) v = Inr None \<longleftrightarrow> n \<and> v = PNone \<or> (\<exists>b. v = PBool b)"
  "FieldBase_validate (Some [T_int]) n (\<lambda>_. Inr None) v = Inr None \<longleftrightarrow> n \<and> v = PNone \<or> (\<exists>i. as_int v = Some i)"
  "FieldBase_validate (Some [T_dict]) n (\<lambda>_. Inr None) v = Inr None \<longleftrightarrow> n \<and> v = PNone \<or> (\<exists>d. v = PDict d)"
  "FieldBase_validate (Some [T_str, T_none]) n (\<lambda>_. Inr None) v = Inr None \<longleftrightarrow> n \<and> v = PNone \<or> v = PNone \<or> is_str (\<lambda>s. True) v"
  by (cases v; auto simp: FieldBase_validate_def type_check_def is_str_def)+

lemma LedgerId_nullable_iff:
  "FieldBase_validate (Some [T_int]) n (ChooseField_check (update_with_plugin_ledger_ids env) False) v = Inr None \<longleftrightarrow> n \<and> v = PNone \<or> is_ledger_id env v"
  using is_ledger_id_int [of env v] by (auto simp: FieldBase_validate_def type_check_def Choose_iff ledger_ids)

lemma kind_validate_iff: "kind_validate env k n v = Inr None \<longleftrightarrow> n \<and> v = PNone \<or> kind_type env k n v"
proof (cases k)
  case BlsMultiSignatureValueField
  then show ?thesis by (simp add: kind_validate_def FieldBase_elements field_iff is_multi_sig_value_def) blast
next
  case BlsMultiSignatureField
  then show ?thesis by (simp add: kind_validate_def FieldBase_elements field_iff is_multi_sig_def) blast
next
  case RequestIdentifierField
  then show ?thesis by (simp add: kind_validate_def FieldBase_elements field_iff) blast
next
  case (TieAmongField m)
  then show ?thesis by (simp add: kind_validate_def FieldBase_elements field_iff) blast
next
  case LedgerInfoField
  then show ?thesis by (simp add: kind_validate_def FieldBase_elements field_iff) blast
next
  case ViewChangeField
  then show ?thesis by (simp add: kind_validate_def FieldBase_elements field_iff) blast
qed (simp_all add: kind_validate_def FieldBase_str FieldBase_int field_iff SerializedValue_iff Signature_iff Protocol_iff int_bound_iff
      Stringified_iff any_type_iff LedgerId_nullable_iff BatchID_iff ConstantField_check_def)

end
