(* ===== verification/Message_Schema.thy ===== *)
theory Message_Schema
  imports Message_Fields
begin

text \<open>
  \<^verbatim>\<open>plenum/common/messages/message_base.py\<close> and \<^verbatim>\<open>client_request.py\<close>: the validation of a message or
  a client request against its schema, an ordered list of named fields. A schema validator is itself
  a field of other schemas. It returns nothing or raises; an error of a field is raised as
  \<open>TypeError\<close>.
\<close>

section \<open>Validators\<close>

datatype message_check = NoMessageCheck | NodeDataCheck | ClientMessageCheck

text \<open>
  The last argument of a validator is \<^verbatim>\<open>optional\<close>, after \<^verbatim>\<open>nullable\<close> where the class has it. A
  schema validator has its schema, whether it is strict, and what it checks of the whole message.
\<close>

datatype field =
    Field kind bool bool
  | IterableField field "nat option" "nat option" bool bool
  | MapField field field bool bool
  | MessageValidator "(string \<times> field) list" bool message_check bool
  | ClientOperationField "(string \<times> (string \<times> field) list \<times> bool \<times> message_check) list" bool

type_synonym schema = "(string \<times> field) list"

fun is_optional :: "field \<Rightarrow> bool" where
  "is_optional (Field k n opt) = opt"
| "is_optional (IterableField f mn mx n opt) = opt"
| "is_optional (MapField kf vf n opt) = opt"
| "is_optional (MessageValidator s strict mc opt) = opt"
| "is_optional (ClientOperationField ops opt) = opt"

definition raise_missed_fields :: "string list \<Rightarrow> py_error" where
  "raise_missed_fields names = (if ''protocolVersion'' \<in> set names then MissingProtocolVersionError else TypeError)"

definition required_ha_fields :: "string list" where
  "required_ha_fields = [''node_ip'', ''node_port'', ''client_ip'', ''client_port'']"

definition ClientNodeOperationData_validate_message :: "(pyval \<times> pyval) list \<Rightarrow> unit result" where
  "ClientNodeOperationData_validate_message dct =
     (let ha_fields = filter (has_key_str dct) required_ha_fields in
      if ha_fields \<noteq> [] \<and> length ha_fields \<noteq> length required_ha_fields
      then Inl (raise_missed_fields (filter (\<lambda>n. \<not> has_key_str dct n) required_ha_fields))
      else Inr ())"

definition get_or_none :: "(pyval \<times> pyval) list \<Rightarrow> string \<Rightarrow> pyval" where
  "get_or_none dct n = (case dict_get dct n of None \<Rightarrow> PNone | Some v \<Rightarrow> v)"

definition in_dict :: "pyval \<Rightarrow> pyval \<Rightarrow> bool result" where
  "in_dict x v = (case v of PDict d \<Rightarrow> if hashable x then Inr (x \<in> fst ` set d) else Inl TypeError | _ \<Rightarrow> Inl TypeError)"

definition raise_invalid_message_if :: "bool \<Rightarrow> unit result" where
  "raise_invalid_message_if b = (if b then Inl TypeError else Inr ())"

text \<open>\<^verbatim>\<open>not signatures or x not in signatures\<close>\<close>

definition not_signed_by :: "pyval \<Rightarrow> pyval \<Rightarrow> bool result" where
  "not_signed_by signatures x = (if \<not> is_true signatures then Inr True else bindE (in_dict x signatures) (\<lambda>b. Inr (\<not> b)))"

definition ClientMessageValidator_validate :: "(pyval \<times> pyval) list \<Rightarrow> unit result" where
  "ClientMessageValidator_validate dct =
     (let identifier = get_or_none dct ''identifier'';
          signatures = get_or_none dct ''signatures'';
          signature = get_or_none dct ''signature'';
          endorser = get_or_none dct ''endorser'' in
      bindE (raise_invalid_message_if (is_true signatures \<and> is_true signature)) (\<lambda>_.
      bindE
        (if endorser = PNone then Inr ()
         else
           bindE (not_signed_by signatures endorser) (\<lambda>b.
           bindE (raise_invalid_message_if b) (\<lambda>_.
           bindE (raise_invalid_message_if (identifier = PNone)) (\<lambda>_.
           bindE (not_signed_by signatures identifier) raise_invalid_message_if)))) (\<lambda>_.
      bindE
        (if is_true identifier \<and> is_true signatures
         then bindE (in_dict identifier signatures) (\<lambda>b. raise_invalid_message_if (\<not> b))
         else Inr ()) (\<lambda>_.
      raise_invalid_message_if (\<not> (is_true identifier \<or> is_true signatures))))))"

fun validate_message :: "message_check \<Rightarrow> (pyval \<times> pyval) list \<Rightarrow> unit result" where
  "validate_message NoMessageCheck dct = Inr ()"
| "validate_message NodeDataCheck dct = ClientNodeOperationData_validate_message dct"
| "validate_message ClientMessageCheck dct = ClientMessageValidator_validate dct"

text \<open>The field of a key in the dictionary of a schema; of equal names the last counts.\<close>

definition schema_field :: "schema \<Rightarrow> pyval \<Rightarrow> field option" where
  "schema_field s k = (case k of PStr n \<Rightarrow> map_of (rev s) n | _ \<Rightarrow> None)"

definition missed_required_fields :: "schema \<Rightarrow> (pyval \<times> pyval) list \<Rightarrow> string list" where
  "missed_required_fields s dct = filter (\<lambda>n. \<not> has_key_str dct n) (map fst (filter (\<lambda>(n, f). \<not> is_optional f) s))"

definition validate_fields_with_schema :: "(field \<Rightarrow> pyval \<Rightarrow> check) \<Rightarrow> schema \<Rightarrow> bool \<Rightarrow> (pyval \<times> pyval) list \<Rightarrow> unit result" where
  "validate_fields_with_schema field_validate s strict d =
     (if missed_required_fields s d \<noteq> [] then Inl (raise_missed_fields (missed_required_fields s d))
      else
        bindE
          (mapE (\<lambda>(k, v).
             case schema_field s k of
               None \<Rightarrow> if strict then Inl TypeError else Inr ()
             | Some f \<Rightarrow> bindE (field_validate f v) (\<lambda>err. if err = None then Inr () else Inl TypeError)) d)
          (\<lambda>_. Inr ()))"

definition MessageValidator_validate :: "(field \<Rightarrow> pyval \<Rightarrow> check) \<Rightarrow> schema \<Rightarrow> bool \<Rightarrow> message_check \<Rightarrow> pyval \<Rightarrow> unit result" where
  "MessageValidator_validate field_validate s strict mc dct =
     (case dct of
        PDict d \<Rightarrow> bindE (validate_fields_with_schema field_validate s strict d) (\<lambda>_. validate_message mc d)
      | _ \<Rightarrow> Inl TypeError)"

lemma schema_field_in: "schema_field s k = Some f \<Longrightarrow> f \<in> snd ` set s"
  by (auto simp: schema_field_def dest!: map_of_SomeD split: pyval.splits) force

lemma MessageValidator_validate_cong [fundef_cong]:
  assumes "s = s'" "strict = strict'" "mc = mc'" "dct = dct'" "\<And>f v. f \<in> snd ` set s' \<Longrightarrow> g f v = g' f v"
  shows "MessageValidator_validate g s strict mc dct = MessageValidator_validate g' s' strict' mc' dct'"
proof -
  have "(\<lambda>(k, v). case schema_field s' k of None \<Rightarrow> if strict' then Inl TypeError else Inr ()
         | Some f \<Rightarrow> bindE (g f v) (\<lambda>err. if err = None then Inr () else Inl TypeError)) =
        (\<lambda>(k, v). case schema_field s' k of None \<Rightarrow> if strict' then Inl TypeError else Inr ()
         | Some f \<Rightarrow> bindE (g' f v) (\<lambda>err. if err = None then Inr () else Inl TypeError))"
    using assms(5) schema_field_in [of s'] by (intro ext) (simp split: prod.splits option.splits)
  then show ?thesis unfolding assms(1-4) MessageValidator_validate_def validate_fields_with_schema_def by (simp only:)
qed

lemma schema_size: "(n, f) \<in> set s \<Longrightarrow> size f < Suc (size_list (size_prod (\<lambda>_. 0) size) s)"
proof -
  assume "(n, f) \<in> set s"
  then have "size_prod (\<lambda>_. 0) size (n, f) \<le> size_list (size_prod (\<lambda>_. 0) size) s" by (intro size_list_estimation') auto
  then show ?thesis by simp
qed

lemma operation_size:
  assumes "map_of ops t = Some (s, strict, mc)" "(n, f) \<in> set s"
  shows "size f < Suc (size_list (size_prod (\<lambda>_. 0) (size_prod (size_list (size_prod (\<lambda>_. 0) size)) (\<lambda>_. 0))) ops)"
proof -
  let ?sz = "size_prod (\<lambda>_. 0) (size_prod (size_list (size_prod (\<lambda>_. 0) size)) (\<lambda>_. 0))"
  have "?sz (t, s, strict, mc) \<le> size_list ?sz ops" using map_of_SomeD [OF assms(1)] by (intro size_list_estimation') auto
  then show ?thesis using schema_size [OF assms(2)] by simp
qed

function (sequential) validate :: "field_env \<Rightarrow> field \<Rightarrow> pyval \<Rightarrow> check" where
  "validate env (Field k nullable opt) val = kind_validate env k nullable val"
| "validate env (IterableField inner mn mx nullable opt) val =
     FieldBase_validate (Some [T_list, T_tuple]) nullable (on_elements (IterableField_check mn mx (\<lambda>v. validate env inner v))) val"
| "validate env (MapField key_field value_field nullable opt) val =
     FieldBase_validate (Some [T_dict]) nullable
       (MapField_check (\<lambda>k. validate env key_field k) (\<lambda>v. validate env value_field v)) val"
| "validate env (MessageValidator s strict mc opt) dct =
     bindE (MessageValidator_validate (\<lambda>f v. validate env f v) s strict mc dct) (\<lambda>_. Inr None)"
| "validate env (ClientOperationField operations opt) dct =
     (case dct of
        PDict d \<Rightarrow>
          (let txn_type = get_or_none d ''type'' in
           if txn_type = PNone then Inl (raise_missed_fields [''type''])
           else if \<not> hashable txn_type then Inl TypeError
           else (case as_str txn_type of
                   None \<Rightarrow> Inr None
                 | Some n \<Rightarrow>
                     (case map_of operations n of
                        Some (s, strict, mc) \<Rightarrow>
                          bindE (MessageValidator_validate (\<lambda>f v. validate env f v) s strict mc dct) (\<lambda>_. Inr None)
                      | None \<Rightarrow> Inr None)))
      | _ \<Rightarrow> Inl TypeError)"
  by pat_completeness auto
termination
  by (relation "measure (\<lambda>(env, f, v). size f)") (auto intro: schema_size operation_size)

section \<open>The values a schema describes\<close>

definition node_data_ok :: "(pyval \<times> pyval) list \<Rightarrow> bool" where
  "node_data_ok d = ((\<forall>n \<in> set required_ha_fields. has_key_str d n) \<or> (\<forall>n \<in> set required_ha_fields. \<not> has_key_str d n))"

text \<open>
  What is accepted of the whole of a request: an identifier or signatures by name; of these, not a single
  signature as well, and the identifier among them; with an endorser, both the endorser and the author
  among them.
\<close>

definition signed_by :: "(pyval \<times> pyval) list \<Rightarrow> pyval \<Rightarrow> bool" where
  "signed_by d x = (hashable x \<and> (\<exists>sigs. get_or_none d ''signatures'' = PDict sigs \<and> x \<in> fst ` set sigs))"

definition client_message_ok :: "(pyval \<times> pyval) list \<Rightarrow> bool" where
  "client_message_ok d =
     (let identifier = get_or_none d ''identifier''; signatures = get_or_none d ''signatures'';
          signature = get_or_none d ''signature''; endorser = get_or_none d ''endorser'' in
      \<not> (is_true signatures \<and> is_true signature) \<and>
      (endorser \<noteq> PNone \<longrightarrow> signed_by d endorser \<and> identifier \<noteq> PNone \<and> signed_by d identifier) \<and>
      (is_true identifier \<and> is_true signatures \<longrightarrow> signed_by d identifier) \<and>
      (is_true identifier \<or> is_true signatures))"

fun message_ok :: "message_check \<Rightarrow> (pyval \<times> pyval) list \<Rightarrow> bool" where
  "message_ok NoMessageCheck d = True"
| "message_ok NodeDataCheck d = node_data_ok d"
| "message_ok ClientMessageCheck d = client_message_ok d"

definition schema_type :: "(field \<Rightarrow> pyval \<Rightarrow> bool) \<Rightarrow> schema \<Rightarrow> bool \<Rightarrow> message_check \<Rightarrow> pyval \<Rightarrow> bool" where
  "schema_type field_type s strict mc v =
     (\<exists>d. v = PDict d \<and> (\<forall>(n, f) \<in> set s. is_optional f \<or> has_key_str d n) \<and>
        (\<forall>(k, x) \<in> set d. case schema_field s k of None \<Rightarrow> \<not> strict | Some f \<Rightarrow> field_type f x) \<and> message_ok mc d)"

lemma schema_type_cong [fundef_cong]:
  assumes "s = s'" "strict = strict'" "mc = mc'" "v = v'" "\<And>f v. f \<in> snd ` set s' \<Longrightarrow> g f v = g' f v"
  shows "schema_type g s strict mc v = schema_type g' s' strict' mc' v'"
proof -
  have "(case schema_field s' k of None \<Rightarrow> \<not> strict' | Some f \<Rightarrow> g f x) = (case schema_field s' k of None \<Rightarrow> \<not> strict' | Some f \<Rightarrow> g' f x)" for k x
    using assms(5) schema_field_in [of s' k] by (simp split: option.splits)
  then show ?thesis unfolding assms(1-4) schema_type_def by (simp only:)
qed

function (sequential) has_type :: "field_env \<Rightarrow> field \<Rightarrow> pyval \<Rightarrow> bool" where
  "has_type env (Field k nullable opt) v = (nullable \<and> v = PNone \<or> kind_type env k nullable v)"
| "has_type env (IterableField inner mn mx nullable opt) v =
     (nullable \<and> v = PNone \<or>
      (\<exists>vs. elements v = Some vs \<and> (\<forall>m. mn = Some m \<longrightarrow> m \<le> length vs) \<and> (\<forall>m. mx = Some m \<longrightarrow> length vs \<le> m) \<and>
         (\<forall>x \<in> set vs. has_type env inner x)))"
| "has_type env (MapField key_field value_field nullable opt) v =
     (nullable \<and> v = PNone \<or> (\<exists>d. v = PDict d \<and> (\<forall>(k, x) \<in> set d. has_type env key_field k \<and> has_type env value_field x)))"
| "has_type env (MessageValidator s strict mc opt) v = schema_type (\<lambda>f v. has_type env f v) s strict mc v"
| "has_type env (ClientOperationField operations opt) v =
     (\<exists>d. v = PDict d \<and> get_or_none d ''type'' \<noteq> PNone \<and> hashable (get_or_none d ''type'') \<and>
        (case as_str (get_or_none d ''type'') of
           None \<Rightarrow> True
         | Some n \<Rightarrow>
             (case map_of operations n of
                None \<Rightarrow> True
              | Some (s, strict, mc) \<Rightarrow> schema_type (\<lambda>f v. has_type env f v) s strict mc v)))"
  by pat_completeness auto
termination
  by (relation "measure (\<lambda>(env, f, v). size f)") (auto intro: schema_size operation_size)

section \<open>Validation decides the type\<close>

lemma raise_invalid_message_if_iff [simp]: "raise_invalid_message_if b = Inr u \<longleftrightarrow> \<not> b"
  by (simp add: raise_invalid_message_if_def)

lemma not_signed_by_iff: "not_signed_by (get_or_none d ''signatures'') x = Inr False \<longleftrightarrow> signed_by d x"
  by (auto simp: not_signed_by_def signed_by_def in_dict_def bindE_eq_Inr split: pyval.splits if_splits)

lemma in_dict_iff: "in_dict x (get_or_none d ''signatures'') = Inr True \<longleftrightarrow> signed_by d x"
  by (auto simp: signed_by_def in_dict_def split: pyval.splits)

lemma bind_raise_iff:
  "bindE m (\<lambda>b. raise_invalid_message_if (\<not> b)) = Inr u \<longleftrightarrow> m = Inr True"
  "bindE m raise_invalid_message_if = Inr u \<longleftrightarrow> m = Inr False"
  by (auto simp: bindE_eq_Inr)

lemma unit_bindE: "bindE (m :: unit result) f = Inr u \<longleftrightarrow> m = Inr () \<and> f () = Inr u"
  by (auto simp: bindE_eq_Inr)

lemma client_message_iff: "ClientMessageValidator_validate d = Inr u \<longleftrightarrow> client_message_ok d"
proof -
  have 1: "bindE (not_signed_by (get_or_none d ''signatures'') e) (\<lambda>b. bindE (raise_invalid_message_if b) (\<lambda>_. m)) = Inr u \<longleftrightarrow>
      signed_by d e \<and> m = Inr u" for e u and m :: "unit result"
    using not_signed_by_iff [of d e] by (auto simp: bindE_eq_Inr)
  have 2: "(if b then m else Inr ()) = Inr u \<longleftrightarrow> (b \<longrightarrow> m = Inr u)" "(if b then Inr () else m) = Inr u \<longleftrightarrow> (\<not> b \<longrightarrow> m = Inr u)"
    for b u and m :: "unit result" by auto
  show ?thesis
    unfolding ClientMessageValidator_validate_def client_message_ok_def Let_def
    by (simp only: unit_bindE raise_invalid_message_if_iff 1 2 bind_raise_iff not_signed_by_iff in_dict_iff not_not)
qed

lemma node_data_iff: "ClientNodeOperationData_validate_message d = Inr u \<longleftrightarrow> node_data_ok d"
proof -
  have "length (filter P xs) = length xs \<longleftrightarrow> (\<forall>x \<in> set xs. P x)" for P and xs :: "string list"
    using length_filter_less [of _ xs P] by fastforce
  then show ?thesis
    by (auto simp: ClientNodeOperationData_validate_message_def node_data_ok_def Let_def filter_empty_conv)
qed

lemma validate_message_iff: "validate_message mc d = Inr u \<longleftrightarrow> message_ok mc d"
  by (cases mc) (simp_all add: client_message_iff node_data_iff)

lemma missed_iff: "missed_required_fields s d = [] \<longleftrightarrow> (\<forall>(n, f) \<in> set s. is_optional f \<or> has_key_str d n)"
  by (auto simp: missed_required_fields_def filter_empty_conv)

lemma mapE_unit: "(\<exists>us. mapE f xs = Inr us) \<longleftrightarrow> (\<forall>x \<in> set xs. \<exists>u. f x = Inr u)"
  by (induction xs) (auto simp: bindE_eq_Inr)

lemma MapField_iff:
  "FieldBase_validate (Some [T_dict]) n (MapField_check f g) v = Inr None \<longleftrightarrow>
   n \<and> v = PNone \<or> (\<exists>d. v = PDict d \<and> (\<forall>(k, x) \<in> set d. f k = Inr None \<and> g x = Inr None))"
  by (cases v) (auto simp: FieldBase_validate_def type_check_def MapField_check_def)

lemma schema_items_iff:
  "(\<exists>us. mapE (\<lambda>(k, x). case g k of None \<Rightarrow> if strict then Inl TypeError else Inr ()
       | Some f \<Rightarrow> bindE (h f x) (\<lambda>err. if err = None then Inr () else Inl TypeError)) d = Inr us) \<longleftrightarrow>
   (\<forall>(k, x) \<in> set d. case g k of None \<Rightarrow> \<not> strict | Some f \<Rightarrow> h f x = Inr None)"
  unfolding mapE_unit by (auto simp: bindE_eq_Inr split: option.splits if_splits)

lemma bindE_returns: "bindE m (\<lambda>_. c) = Inr x \<longleftrightarrow> (\<exists>u. m = Inr u) \<and> c = Inr x"
  by (auto simp: bindE_eq_Inr)

lemma MessageValidator_iff:
  "MessageValidator_validate g s strict mc v = Inr u \<longleftrightarrow> schema_type (\<lambda>f x. g f x = Inr None) s strict mc v"
proof (cases v)
  case (PDict d)
  then show ?thesis
    by (auto simp: MessageValidator_validate_def validate_fields_with_schema_def schema_type_def missed_iff [symmetric] bindE_returns
        schema_items_iff validate_message_iff)
qed (simp_all add: MessageValidator_validate_def schema_type_def)

text \<open>
  What the validators accept, as one predicate on values. It has what the validators do, not what their
  comments say: a SHA-256 digest may end in a line feed, and a port is not 0.
\<close>

lemma validate_iff: "validate env f v = Inr None \<longleftrightarrow> has_type env f v"
proof (induction env f v rule: validate.induct)
  case (1 env k nullable opt val)
  then show ?case by (simp add: kind_validate_iff)
next
  case (2 env inner mn mx nullable opt val)
  then show ?case by (simp add: FieldBase_elements Iterable_iff)
next
  case (3 env key_field value_field nullable opt val)
  then show ?case by (simp add: MapField_iff)
next
  case (4 env s strict mc opt dct)
  then have "schema_type (\<lambda>f x. validate env f x = Inr None) s strict mc dct = schema_type (has_type env) s strict mc dct"
    by (intro schema_type_cong) auto
  then show ?case by (simp add: bindE_returns MessageValidator_iff)
next
  case (5 env operations opt dct)
  show ?case
  proof (cases dct)
    case (PDict d)
    have "schema_type (\<lambda>f x. validate env f x = Inr None) s strict mc dct = schema_type (has_type env) s strict mc dct"
      if "get_or_none d ''type'' \<noteq> PNone" "hashable (get_or_none d ''type'')" "as_str (get_or_none d ''type'') = Some n"
        "map_of operations n = Some (s, strict, mc)" for n s strict mc
      using 5 [OF PDict refl that(1) _ that(3,4) refl refl] that(2) by (intro schema_type_cong) auto
    then show ?thesis unfolding PDict
      by (auto simp: bindE_returns MessageValidator_iff Let_def split: option.splits)
  qed simp_all
qed

end
