(* ===== verification/Client_Request.thy ===== *)
theory Client_Request
  imports Message_Schema
begin

text \<open>
  \<^verbatim>\<open>plenum/common/messages/client_request.py\<close>: the schemas of client requests and of their
  operations, with the limits of \<^verbatim>\<open>plenum/config.py\<close>. The fields that plugins add to a request are
  a parameter.
\<close>

section \<open>Definitions\<close>

abbreviation required :: "kind \<Rightarrow> field" where
  "required k \<equiv> Field k False False"

abbreviation optional :: "kind \<Rightarrow> field" where
  "optional k \<equiv> Field k False True"

abbreviation nullable :: "kind \<Rightarrow> field" where
  "nullable k \<equiv> Field k True False"

abbreviation optional_nullable :: "kind \<Rightarrow> field" where
  "optional_nullable k \<equiv> Field k True True"

abbreviation MSG_LEN_LIMIT :: nat where
  "MSG_LEN_LIMIT \<equiv> 128 * 1024"

abbreviation ALIAS_FIELD_LIMIT :: nat where
  "ALIAS_FIELD_LIMIT \<equiv> 256"

abbreviation SIGNATURE_FIELD_LIMIT :: nat where
  "SIGNATURE_FIELD_LIMIT \<equiv> 512"

abbreviation TAA_ACCEPTANCE_MECHANISM_FIELD_LIMIT :: nat where
  "TAA_ACCEPTANCE_MECHANISM_FIELD_LIMIT \<equiv> 64"

abbreviation TXN_AUTHOR_AGREEMENT_VERSION_SIZE_LIMIT :: nat where
  "TXN_AUTHOR_AGREEMENT_VERSION_SIZE_LIMIT \<equiv> 256"

abbreviation TXN_AUTHOR_AGREEMENT_TEXT_SIZE_LIMIT :: nat where
  "TXN_AUTHOR_AGREEMENT_TEXT_SIZE_LIMIT \<equiv> MSG_LEN_LIMIT - 2048"

abbreviation TXN_AUTHOR_AGREEMENT_AML_VERSION_SIZE_LIMIT :: nat where
  "TXN_AUTHOR_AGREEMENT_AML_VERSION_SIZE_LIMIT \<equiv> 256"

abbreviation TXN_AUTHOR_AGREEMENT_AML_CONTEXT_LIMIT :: nat where
  "TXN_AUTHOR_AGREEMENT_AML_CONTEXT_LIMIT \<equiv> MSG_LEN_LIMIT - 2048"

definition SCHEMA_IS_STRICT :: bool where
  "SCHEMA_IS_STRICT = False"

definition ClientNodeOperationData :: schema where
  "ClientNodeOperationData =
     [(''node_ip'', optional NetworkIpAddressField),
      (''node_port'', optional NetworkPortField),
      (''client_ip'', optional NetworkIpAddressField),
      (''client_port'', optional NetworkPortField),
      (''alias'', required (LimitedLengthStringField ALIAS_FIELD_LIMIT False)),
      (''services'', IterableField (required (ChooseField [CStr ''VALIDATOR''] False)) None None False True),
      (''blskey'', optional (Base58Field (Some [128]))),
      (''blskey_pop'', optional (Base58Field (Some [128])))]"

definition ClientNodeOperation :: schema where
  "ClientNodeOperation =
     [(''type'', required (ConstantField (CStr ''0''))),
      (''data'', MessageValidator ClientNodeOperationData SCHEMA_IS_STRICT NodeDataCheck False),
      (''dest'', required DestNodeField),
      (''verkey'', optional VerkeyField)]"

definition ClientNYMOperation :: schema where
  "ClientNYMOperation =
     [(''type'', required (ConstantField (CStr ''1''))),
      (''alias'', optional (LimitedLengthStringField ALIAS_FIELD_LIMIT False)),
      (''verkey'', optional_nullable VerkeyField),
      (''dest'', required DestNymField),
      (''role'', optional RoleField)]"

definition ClientGetTxnOperation :: schema where
  "ClientGetTxnOperation =
     [(''type'', required (ConstantField (CStr ''3''))),
      (''ledgerId'', optional LedgerIdField),
      (''data'', required TxnSeqNoField)]"

definition ClientTxnAuthorAgreementOperation :: schema where
  "ClientTxnAuthorAgreementOperation =
     [(''type'', required (ConstantField (CStr ''4''))),
      (''text'', optional (LimitedLengthStringField TXN_AUTHOR_AGREEMENT_TEXT_SIZE_LIMIT True)),
      (''version'', required (LimitedLengthStringField TXN_AUTHOR_AGREEMENT_VERSION_SIZE_LIMIT False)),
      (''ratification_ts'', optional NonNegativeNumberField),
      (''retirement_ts'', optional NonNegativeNumberField)]"

definition ClientTxnAuthorAgreementDisableOperation :: schema where
  "ClientTxnAuthorAgreementDisableOperation = [(''type'', required (ConstantField (CStr ''8'')))]"

definition ClientTxnAuthorAgreementOperationAML :: schema where
  "ClientTxnAuthorAgreementOperationAML =
     [(''type'', required (ConstantField (CStr ''5''))),
      (''version'', required (LimitedLengthStringField TXN_AUTHOR_AGREEMENT_AML_VERSION_SIZE_LIMIT False)),
      (''aml'', required AnyMapField),
      (''amlContext'', optional (LimitedLengthStringField TXN_AUTHOR_AGREEMENT_AML_CONTEXT_LIMIT False))]"

definition ClientGetTxnAuthorAgreementOperation :: schema where
  "ClientGetTxnAuthorAgreementOperation =
     [(''type'', required (ConstantField (CStr ''6''))),
      (''version'', optional NonEmptyStringField),
      (''digest'', optional NonEmptyStringField),
      (''timestamp'', optional NonNegativeNumberField)]"

definition ClientGetTxnAuthorAgreementAMLOperation :: schema where
  "ClientGetTxnAuthorAgreementAMLOperation =
     [(''type'', required (ConstantField (CStr ''7''))),
      (''version'', optional NonEmptyStringField),
      (''timestamp'', optional NonNegativeNumberField)]"

definition ClientLedgersFreezeOperation :: schema where
  "ClientLedgersFreezeOperation =
     [(''type'', required (ConstantField (CStr ''9''))),
      (''ledgers_ids'', IterableField (required IntegerField) None None False False)]"

definition ClientGetFrozenLedgersOperation :: schema where
  "ClientGetFrozenLedgersOperation = [(''type'', required (ConstantField (CStr ''10'')))]"

text \<open>The operations by transaction type; the last two are never strict.\<close>

definition mk_ClientOperationField :: "bool \<Rightarrow> field" where
  "mk_ClientOperationField strict =
     ClientOperationField
       [(''0'', ClientNodeOperation, strict, NoMessageCheck),
        (''1'', ClientNYMOperation, strict, NoMessageCheck),
        (''3'', ClientGetTxnOperation, strict, NoMessageCheck),
        (''4'', ClientTxnAuthorAgreementOperation, strict, NoMessageCheck),
        (''8'', ClientTxnAuthorAgreementDisableOperation, strict, NoMessageCheck),
        (''5'', ClientTxnAuthorAgreementOperationAML, strict, NoMessageCheck),
        (''6'', ClientGetTxnAuthorAgreementOperation, strict, NoMessageCheck),
        (''7'', ClientGetTxnAuthorAgreementAMLOperation, strict, NoMessageCheck),
        (''9'', ClientLedgersFreezeOperation, SCHEMA_IS_STRICT, NoMessageCheck),
        (''10'', ClientGetFrozenLedgersOperation, SCHEMA_IS_STRICT, NoMessageCheck)] False"

definition ClientTAAAcceptance :: schema where
  "ClientTAAAcceptance =
     [(''taaDigest'', required Sha256HexField),
      (''mechanism'', required (LimitedLengthStringField TAA_ACCEPTANCE_MECHANISM_FIELD_LIMIT False)),
      (''time'', required TimestampField)]"

definition ClientMessageValidator_schema :: "bool \<Rightarrow> schema" where
  "ClientMessageValidator_schema operation_schema_is_strict =
     [(''identifier'', optional_nullable IdentifierField),
      (''reqId'', required NonNegativeNumberField),
      (''operation'', mk_ClientOperationField operation_schema_is_strict),
      (''signature'', optional (SignatureField SIGNATURE_FIELD_LIMIT False)),
      (''digest'', optional (LimitedLengthStringField DIGEST_FIELD_LIMIT False)),
      (''protocolVersion'', required ProtocolVersionField),
      (''taaAcceptance'', MessageValidator ClientTAAAcceptance SCHEMA_IS_STRICT NoMessageCheck True),
      (''signatures'', MapField (required IdentifierField) (required (SignatureField SIGNATURE_FIELD_LIMIT False)) True True),
      (''endorser'', optional IdentifierField)]"

definition ClientMessageValidator :: "schema \<Rightarrow> bool \<Rightarrow> field" where
  "ClientMessageValidator plugin_fields operation_schema_is_strict =
     MessageValidator (ClientMessageValidator_schema operation_schema_is_strict @ plugin_fields) SCHEMA_IS_STRICT ClientMessageCheck False"

section \<open>Properties\<close>

lemma client_field_typed:
  assumes "has_type env (ClientMessageValidator pf strict) (PDict d)" "n \<notin> fst ` set pf" "map_of (rev (ClientMessageValidator_schema strict)) n = Some f"
  shows "get_or_none d n = PNone \<or> has_type env f (get_or_none d n)"
proof (cases "dict_get d n")
  case None
  then show ?thesis by (simp add: get_or_none_def)
next
  case (Some v)
  then have "(PStr n, v) \<in> set d" by (simp add: dict_get_def map_of_SomeD)
  moreover have "schema_field (ClientMessageValidator_schema strict @ pf) (PStr n) = Some f"
    using assms(2,3) by (simp add: schema_field_def map_add_def map_of_eq_None_iff split: option.splits) (metis (no_types) image_set map_of_eq_None_iff option.simps(3) set_rev)
  ultimately have "has_type env f v"
    using assms(1) by (auto simp: ClientMessageValidator_def schema_type_def split: option.splits dest!: bspec)
  then show ?thesis using Some by (simp add: get_or_none_def)
qed

text \<open>
  C20: every request that is accepted names who answers for it: it has a non-empty identifier of its
  author or a non-empty map of signatures by name, and the names are well-formed identifiers. If it
  has signatures by name, the author, when named, is among those who sign, and there is no single
  signature beside them. If it names an endorser, the author is named and both are among those who
  sign. A request with the identifier of its author and no signature of either kind is accepted as
  well (\<open>unsigned_request_accepted\<close>); whether a signature is valid is not part of this check.
\<close>

theorem accepted_request_accountable:
  assumes "validate env (ClientMessageValidator pf strict) req = Inr None"
    and "fst ` set pf \<inter> {''identifier'', ''signatures'', ''endorser'', ''signature''} = {}"
  shows "\<exists>d identifier signatures endorser. req = PDict d \<and>
    identifier = get_or_none d ''identifier'' \<and> signatures = get_or_none d ''signatures'' \<and> endorser = get_or_none d ''endorser'' \<and>
    (identifier = PNone \<or> is_str (is_b58 env [16, 32]) identifier) \<and>
    (signatures = PNone \<or> (\<exists>sigs. signatures = PDict sigs \<and> (\<forall>(k, v) \<in> set sigs. is_str (is_b58 env [16, 32]) k))) \<and>
    (is_true identifier \<or> (\<exists>k v sigs. signatures = PDict ((k, v) # sigs))) \<and>
    (is_true identifier \<and> is_true signatures \<longrightarrow> signed_by d identifier) \<and>
    (endorser \<noteq> PNone \<longrightarrow> signed_by d endorser \<and> identifier \<noteq> PNone \<and> signed_by d identifier) \<and>
    \<not> (is_true signatures \<and> is_true (get_or_none d ''signature''))"
proof -
  have t: "has_type env (ClientMessageValidator pf strict) req" using assms(1) by (simp add: validate_iff)
  then obtain d where d: "req = PDict d" "client_message_ok d" by (auto simp: ClientMessageValidator_def schema_type_def)
  note field = client_field_typed [OF t [unfolded d(1)]]
  have 1: "get_or_none d ''identifier'' = PNone \<or> is_str (is_b58 env [16, 32]) (get_or_none d ''identifier'')"
    using field [of "''identifier''" "optional_nullable IdentifierField"] assms(2)
    by (auto simp: ClientMessageValidator_schema_def IdentifierField_def is_str_def is_b58_def)
  have 2: "get_or_none d ''signatures'' = PNone \<or>
      (\<exists>sigs. get_or_none d ''signatures'' = PDict sigs \<and> (\<forall>(k, v) \<in> set sigs. is_str (is_b58 env [16, 32]) k))"
  proof -
    let ?f = "MapField (required IdentifierField) (required (SignatureField SIGNATURE_FIELD_LIMIT False)) True True"
    have f: "map_of (rev (ClientMessageValidator_schema strict)) ''signatures'' = Some ?f" by (simp add: ClientMessageValidator_schema_def)
    have "get_or_none d ''signatures'' = PNone \<or> has_type env ?f (get_or_none d ''signatures'')" using field [OF _ f] assms(2) by blast
    moreover have "is_str (is_b58 env [16, 32]) k" if "has_type env (required IdentifierField) k" for k
      using that by (auto simp: IdentifierField_def is_str_def is_b58_def)
    ultimately show ?thesis unfolding has_type.simps(3) by blast
  qed
  have 3: "\<exists>k v sigs. get_or_none d ''signatures'' = PDict ((k, v) # sigs)" if "is_true (get_or_none d ''signatures'')"
    using 2 that by (auto simp: neq_Nil_conv)
  show ?thesis using d(1) 1 2 3 d(2) unfolding client_message_ok_def Let_def by blast
qed

text \<open>
  A request or message without a protocol version is rejected with the error that tells the
  client to set it, whatever else is wrong with it.
\<close>

theorem missing_protocol_version:
  assumes "\<not> has_key_str d ''protocolVersion''"
  shows "validate env (ClientMessageValidator pf strict) (PDict d) = Inl MissingProtocolVersionError"
proof -
  have "''protocolVersion'' \<in> set (missed_required_fields (ClientMessageValidator_schema strict @ pf) d)"
    using assms by (auto simp: missed_required_fields_def ClientMessageValidator_schema_def)
  then show ?thesis
    by (auto simp: ClientMessageValidator_def MessageValidator_validate_def validate_fields_with_schema_def raise_missed_fields_def)
qed

text \<open>An environment with a decoder that halves the length, and a request in it.\<close>

definition demo_field_env :: field_env where
  "demo_field_env =
     \<lparr>b58_alphabet = ''123456789ABCDEFGHJKLMNPQRSTUVWXYZabcdefghijkmnopqrstuvwxyz'',
      b58decode = (\<lambda>s. replicate (length s div 2) 0), parse_datetime = (\<lambda>s. False), plugin_ledger_ids = []\<rparr>"

definition demo_op :: "(pyval \<times> pyval) list" where
  "demo_op = [(PStr ''type'', PStr ''3''), (PStr ''data'', PInt 1)]"

definition demo_request :: "(pyval \<times> pyval) list" where
  "demo_request =
     [(PStr ''identifier'', PStr (replicate 32 CHR ''a'')), (PStr ''reqId'', PInt 7), (PStr ''protocolVersion'', PInt 2),
      (PStr ''operation'', PDict [(PStr ''type'', PStr ''3''), (PStr ''data'', PInt 1)]),
      (PStr ''signatures'', PDict [(PStr (replicate 32 CHR ''a''), PStr ''s''), (PStr (replicate 64 CHR ''b''), PStr ''t'')]),
      (PStr ''endorser'', PStr (replicate 64 CHR ''b''))]"

lemma demo_op_ok: "validate demo_field_env (mk_ClientOperationField False) (PDict demo_op) = Inr None"
proof -
  have "MessageValidator_validate (validate demo_field_env) ClientGetTxnOperation False NoMessageCheck (PDict demo_op) = Inr ()" by code_simp
  then show ?thesis by (simp add: mk_ClientOperationField_def demo_op_def get_or_none_def dict_get_def)
qed

lemma demo_request_ok: "validate demo_field_env (ClientMessageValidator [] False) (PDict demo_request) = Inr None"
proof -
  let ?a = "replicate 32 CHR ''a''" and ?b = "replicate 64 CHR ''b''"
  have 1: "validate demo_field_env (optional_nullable IdentifierField) (PStr ?a) = Inr None"
    "validate demo_field_env (optional IdentifierField) (PStr ?b) = Inr None"
    "validate demo_field_env (required NonNegativeNumberField) (PInt 7) = Inr None"
    "validate demo_field_env (required ProtocolVersionField) (PInt 2) = Inr None"
    "validate demo_field_env (MapField (required IdentifierField) (required (SignatureField SIGNATURE_FIELD_LIMIT False)) True True)
      (PDict [(PStr ?a, PStr ''s''), (PStr ?b, PStr ''t'')]) = Inr None"
    "ClientMessageValidator_validate demo_request = Inr ()"
    by code_simp+
  have "validate_message ClientMessageCheck demo_request = Inr ()" by (simp add: 1)
  moreover have "validate_fields_with_schema (validate demo_field_env) (ClientMessageValidator_schema False) False demo_request = Inr ()"
    using 1(1-5) demo_op_ok
    by (simp add: validate_fields_with_schema_def demo_request_def demo_op_def ClientMessageValidator_schema_def missed_required_fields_def
        schema_field_def has_key_str_def mk_ClientOperationField_def del: validate.simps)
  ultimately show ?thesis by (simp add: ClientMessageValidator_def MessageValidator_validate_def SCHEMA_IS_STRICT_def)
qed

theorem accepted_request_accountable_witness:
  "validate demo_field_env (ClientMessageValidator [] False) (PDict demo_request) = Inr None \<and>
   (\<exists>d. PDict demo_request = PDict d \<and> signed_by d (get_or_none d ''endorser'') \<and> signed_by d (get_or_none d ''identifier''))"
proof -
  have 2: "get_or_none demo_request ''endorser'' \<noteq> PNone" by code_simp
  show ?thesis using accepted_request_accountable [OF demo_request_ok] demo_request_ok 2 by auto
qed

lemma unsigned_request_accepted:
  "validate demo_field_env (ClientMessageValidator [] False) (PDict (take 4 demo_request)) = Inr None"
proof -
  let ?a = "replicate 32 CHR ''a''"
  have 1: "validate demo_field_env (optional_nullable IdentifierField) (PStr ?a) = Inr None"
    "validate demo_field_env (required NonNegativeNumberField) (PInt 7) = Inr None"
    "validate demo_field_env (required ProtocolVersionField) (PInt 2) = Inr None"
    "ClientMessageValidator_validate (take 4 demo_request) = Inr ()"
    by code_simp+
  have "validate_message ClientMessageCheck (take 4 demo_request) = Inr ()" by (simp add: 1)
  moreover have "validate_fields_with_schema (validate demo_field_env) (ClientMessageValidator_schema False) False (take 4 demo_request) = Inr ()"
    using 1(1-3) demo_op_ok
    by (simp add: validate_fields_with_schema_def demo_request_def demo_op_def ClientMessageValidator_schema_def missed_required_fields_def
        schema_field_def has_key_str_def mk_ClientOperationField_def del: validate.simps)
  ultimately show ?thesis by (simp add: ClientMessageValidator_def MessageValidator_validate_def SCHEMA_IS_STRICT_def)
qed

theorem missing_protocol_version_witness:
  "validate demo_field_env (ClientMessageValidator [] False) (PDict [(PStr ''reqId'', PInt (- 3))]) = Inl MissingProtocolVersionError"
  by (rule missing_protocol_version) code_simp

end
