(* ===== verification/Message_Classes.thy ===== *)
theory Message_Classes
  imports Client_Request
begin

text \<open>
  \<^verbatim>\<open>plenum/common/messages/message_base.py\<close> (the message objects), \<^verbatim>\<open>node_messages.py\<close> (the
  messages between nodes) and \<^verbatim>\<open>node_message_factory.py\<close> (messages from dictionaries). A message
  has the fields of its schema that were given, in the order of the schema, and the attributes that
  its constructor sets over them.
\<close>

section \<open>Limits and constants\<close>

abbreviation NAME_FIELD_LIMIT :: nat where
  "NAME_FIELD_LIMIT \<equiv> 256"

abbreviation SENDER_CLIENT_FIELD_LIMIT :: nat where
  "SENDER_CLIENT_FIELD_LIMIT \<equiv> 256"

abbreviation HASH_FIELD_LIMIT :: nat where
  "HASH_FIELD_LIMIT \<equiv> 256"

abbreviation BLS_SIG_LIMIT :: nat where
  "BLS_SIG_LIMIT \<equiv> 512"

abbreviation GENERAL_LIMIT_SIZE :: nat where
  "GENERAL_LIMIT_SIZE \<equiv> 256"

abbreviation digest_field :: kind where
  "digest_field \<equiv> LimitedLengthStringField DIGEST_FIELD_LIMIT False"

abbreviation name_field :: kind where
  "name_field \<equiv> LimitedLengthStringField NAME_FIELD_LIMIT False"

abbreviation iterable :: "field \<Rightarrow> field" where
  "iterable inner \<equiv> IterableField inner None None False False"

section \<open>Schemas\<close>

definition Batch_schema :: schema where
  "Batch_schema =
     [(''messages'', iterable (required SerializedValueField)),
      (''signature'', required (SignatureField SIGNATURE_FIELD_LIMIT False))]"

definition BlacklistMsg_schema :: schema where
  "BlacklistMsg_schema = [(''suspicionCode'', required AnyValueField), (''nodeName'', required AnyValueField)]"

definition RequestAck_schema :: schema where
  "RequestAck_schema = [(''identifier'', required AnyValueField), (''reqId'', required AnyValueField)]"

definition RequestNack_schema :: schema where
  "RequestNack_schema =
     [(''identifier'', required AnyValueField), (''reqId'', required AnyValueField),
      (''reason'', required AnyValueField), (''code'', optional IntegerField)]"

definition Reject_schema :: schema where
  "Reject_schema =
     [(''identifier'', required AnyValueField), (''reqId'', required AnyValueField),
      (''reason'', required AnyValueField), (''code'', optional_nullable IntegerField)]"

definition PoolLedgerTxns_schema :: schema where
  "PoolLedgerTxns_schema = [(''txn'', required AnyValueField)]"

definition Ordered_schema :: schema where
  "Ordered_schema =
     [(''instId'', required NonNegativeNumberField),
      (''viewNo'', required NonNegativeNumberField),
      (''valid_reqIdr'', iterable (required digest_field)),
      (''invalid_reqIdr'', iterable (required digest_field)),
      (''ppSeqNo'', required NonNegativeNumberField),
      (''ppTime'', required TimestampField),
      (''ledgerId'', required LedgerIdField),
      (''stateRootHash'', nullable MerkleRootField),
      (''txnRootHash'', nullable MerkleRootField),
      (''auditTxnRootHash'', nullable MerkleRootField),
      (''primaries'', iterable (required name_field)),
      (''nodeReg'', iterable (required name_field)),
      (''originalViewNo'', required NonNegativeNumberField),
      (''digest'', required digest_field),
      (''plugin_fields'', optional_nullable AnyMapField)]"

definition OPERATION_SCHEMA_IS_STRICT :: bool where
  "OPERATION_SCHEMA_IS_STRICT = False"

definition Propagate_schema :: "schema \<Rightarrow> schema" where
  "Propagate_schema plugin_fields =
     [(''request'', ClientMessageValidator plugin_fields OPERATION_SCHEMA_IS_STRICT),
      (''senderClient'', nullable (LimitedLengthStringField SENDER_CLIENT_FIELD_LIMIT False))]"

definition PrePrepare_schema :: schema where
  "PrePrepare_schema =
     [(''instId'', required NonNegativeNumberField),
      (''viewNo'', required NonNegativeNumberField),
      (''ppSeqNo'', required NonNegativeNumberField),
      (''ppTime'', required TimestampField),
      (''reqIdr'', iterable (required digest_field)),
      (''discarded'', nullable SerializedValueField),
      (''digest'', required digest_field),
      (''ledgerId'', required LedgerIdField),
      (''stateRootHash'', nullable MerkleRootField),
      (''txnRootHash'', nullable MerkleRootField),
      (''sub_seq_no'', required NonNegativeNumberField),
      (''final'', required BooleanField),
      (''poolStateRootHash'', optional_nullable MerkleRootField),
      (''auditTxnRootHash'', optional_nullable MerkleRootField),
      (''blsMultiSig'', optional_nullable BlsMultiSignatureField),
      (''blsMultiSigs'', IterableField (optional_nullable BlsMultiSignatureField) None None False True),
      (''originalViewNo'', optional_nullable NonNegativeNumberField),
      (''plugin_fields'', optional_nullable AnyMapField)]"

definition OldViewPrePrepareRequest_schema :: schema where
  "OldViewPrePrepareRequest_schema =
     [(''instId'', required NonNegativeNumberField), (''batch_ids'', iterable (required BatchIDField))]"

definition OldViewPrePrepareReply_schema :: schema where
  "OldViewPrePrepareReply_schema =
     [(''instId'', required NonNegativeNumberField), (''preprepares'', iterable (required AnyField))]"

definition Prepare_schema :: schema where
  "Prepare_schema =
     [(''instId'', required NonNegativeNumberField),
      (''viewNo'', required NonNegativeNumberField),
      (''ppSeqNo'', required NonNegativeNumberField),
      (''ppTime'', required TimestampField),
      (''digest'', required digest_field),
      (''stateRootHash'', nullable MerkleRootField),
      (''txnRootHash'', nullable MerkleRootField),
      (''auditTxnRootHash'', optional_nullable MerkleRootField),
      (''plugin_fields'', optional_nullable AnyMapField)]"

definition Commit_schema :: schema where
  "Commit_schema =
     [(''instId'', required NonNegativeNumberField),
      (''viewNo'', required NonNegativeNumberField),
      (''ppSeqNo'', required NonNegativeNumberField),
      (''blsSig'', optional (LimitedLengthStringField BLS_SIG_LIMIT False)),
      (''blsSigs'', MapField (required StringifiedNonNegativeNumberField) (required (LimitedLengthStringField BLS_SIG_LIMIT False)) False True),
      (''plugin_fields'', optional_nullable AnyMapField)]"

definition Checkpoint_schema :: schema where
  "Checkpoint_schema =
     [(''instId'', required NonNegativeNumberField),
      (''viewNo'', required NonNegativeNumberField),
      (''seqNoStart'', required NonNegativeNumberField),
      (''seqNoEnd'', required NonNegativeNumberField),
      (''digest'', nullable MerkleRootField)]"

definition Reply_schema :: schema where
  "Reply_schema = [(''result'', required AnyValueField)]"

definition InstanceChange_schema :: schema where
  "InstanceChange_schema = [(''viewNo'', required NonNegativeNumberField), (''reason'', required NonNegativeNumberField)]"

definition BackupInstanceFaulty_schema :: schema where
  "BackupInstanceFaulty_schema =
     [(''viewNo'', required NonNegativeNumberField),
      (''instancesIdr'', iterable (required NonNegativeNumberField)),
      (''reason'', required NonNegativeNumberField)]"

definition ViewChange_schema :: schema where
  "ViewChange_schema =
     [(''viewNo'', required NonNegativeNumberField),
      (''stableCheckpoint'', required NonNegativeNumberField),
      (''prepared'', iterable (required BatchIDField)),
      (''preprepared'', iterable (required BatchIDField)),
      (''checkpoints'', iterable (required AnyField))]"

definition ViewChangeAck_schema :: schema where
  "ViewChangeAck_schema =
     [(''viewNo'', required NonNegativeNumberField), (''name'', required name_field), (''digest'', required digest_field)]"

definition NewView_schema :: schema where
  "NewView_schema =
     [(''viewNo'', required NonNegativeNumberField),
      (''viewChanges'', iterable (required ViewChangeField)),
      (''checkpoint'', required AnyField),
      (''batches'', iterable (required BatchIDField)),
      (''primary'', optional (LimitedLengthStringField GENERAL_LIMIT_SIZE False))]"

definition LedgerStatus_schema :: schema where
  "LedgerStatus_schema =
     [(''ledgerId'', required LedgerIdField),
      (''txnSeqNo'', required NonNegativeNumberField),
      (''viewNo'', nullable NonNegativeNumberField),
      (''ppSeqNo'', nullable NonNegativeNumberField),
      (''merkleRoot'', required MerkleRootField),
      (''protocolVersion'', required ProtocolVersionField)]"

definition ConsistencyProof_schema :: schema where
  "ConsistencyProof_schema =
     [(''ledgerId'', required LedgerIdField),
      (''seqNoStart'', required NonNegativeNumberField),
      (''seqNoEnd'', required NonNegativeNumberField),
      (''viewNo'', required NonNegativeNumberField),
      (''ppSeqNo'', required NonNegativeNumberField),
      (''oldMerkleRoot'', required MerkleRootField),
      (''newMerkleRoot'', required MerkleRootField),
      (''hashes'', iterable (required (LimitedLengthStringField HASH_FIELD_LIMIT False)))]"

definition CatchupReq_schema :: schema where
  "CatchupReq_schema =
     [(''ledgerId'', required LedgerIdField),
      (''seqNoStart'', required NonNegativeNumberField),
      (''seqNoEnd'', required NonNegativeNumberField),
      (''catchupTill'', required NonNegativeNumberField)]"

definition CatchupRep_schema :: schema where
  "CatchupRep_schema =
     [(''ledgerId'', required LedgerIdField),
      (''txns'', required AnyValueField),
      (''consProof'', iterable (required (Base58Field (Some [32]))))]"

definition ViewChangeDone_schema :: schema where
  "ViewChangeDone_schema =
     [(''viewNo'', required NonNegativeNumberField),
      (''name'', nullable name_field),
      (''ledgerInfo'', iterable (required LedgerInfoField))]"

definition CurrentState_schema :: schema where
  "CurrentState_schema = [(''viewNo'', required NonNegativeNumberField), (''primary'', iterable (required AnyField))]"

definition MessageReq_allowed_types :: "pyconst list" where
  "MessageReq_allowed_types =
     map CStr [''LEDGER_STATUS'', ''CONSISTENCY_PROOF'', ''PREPREPARE'', ''PREPARE'', ''COMMIT'', ''PROPAGATE'', ''VIEW_CHANGE'', ''NEW_VIEW'']"

definition MessageReq_schema :: schema where
  "MessageReq_schema = [(''msg_type'', required (ChooseField MessageReq_allowed_types True)), (''params'', required AnyMapField)]"

definition MessageRep_schema :: schema where
  "MessageRep_schema =
     [(''msg_type'', required (ChooseField MessageReq_allowed_types True)), (''params'', required AnyMapField), (''msg'', required AnyField)]"

definition BatchCommitted_schema :: "schema \<Rightarrow> schema" where
  "BatchCommitted_schema plugin_fields =
     [(''requests'', iterable (ClientMessageValidator plugin_fields OPERATION_SCHEMA_IS_STRICT)),
      (''ledgerId'', required LedgerIdField),
      (''instId'', required NonNegativeNumberField),
      (''viewNo'', required NonNegativeNumberField),
      (''ppSeqNo'', required NonNegativeNumberField),
      (''ppTime'', required TimestampField),
      (''stateRootHash'', required MerkleRootField),
      (''txnRootHash'', required MerkleRootField),
      (''seqNoStart'', required NonNegativeNumberField),
      (''seqNoEnd'', required NonNegativeNumberField),
      (''auditTxnRootHash'', nullable MerkleRootField),
      (''primaries'', iterable (required name_field)),
      (''nodeReg'', iterable (required name_field)),
      (''originalViewNo'', required NonNegativeNumberField),
      (''digest'', required digest_field)]"

definition ObservedData_schema :: schema where
  "ObservedData_schema = [(''msg_type'', required (ChooseField [CStr ''BATCH''] True)), (''msg'', required AnyValueField)]"

definition ViewChangeStartMessage_schema :: schema where
  "ViewChangeStartMessage_schema = [(''proposed_view_no'', required IntegerField)]"

definition ViewChangeContinueMessage_schema :: schema where
  "ViewChangeContinueMessage_schema = [(''proposed_view_no'', required IntegerField)]"

section \<open>Message classes\<close>

text \<open>
  A class has its type name and schema. Three classes do more: a pre-prepare makes what was validated
  hashable, observed data is checked as a whole, and the messages of a view change make objects of
  the dictionaries in them.
\<close>

datatype class_kind = PlainMessage | PrePrepareMessage | ObservedDataMessage | ViewChangeMessage | NewViewMessage

record message_class =
  typename :: string
  class_schema :: schema
  class_kind :: class_kind

definition plain :: "string \<Rightarrow> schema \<Rightarrow> message_class" where
  "plain t s = \<lparr>typename = t, class_schema = s, class_kind = PlainMessage\<rparr>"

definition Checkpoint_class :: message_class where
  "Checkpoint_class = plain ''CHECKPOINT'' Checkpoint_schema"

definition BatchCommitted_class :: "schema \<Rightarrow> message_class" where
  "BatchCommitted_class plugin_fields = plain ''BATCH_COMMITTED'' (BatchCommitted_schema plugin_fields)"

definition ViewChange_class :: message_class where
  "ViewChange_class = \<lparr>typename = ''VIEW_CHANGE'', class_schema = ViewChange_schema, class_kind = ViewChangeMessage\<rparr>"

definition NewView_class :: message_class where
  "NewView_class = \<lparr>typename = ''NEW_VIEW'', class_schema = NewView_schema, class_kind = NewViewMessage\<rparr>"

definition node_message_classes :: "schema \<Rightarrow> message_class list" where
  "node_message_classes plugin_fields =
     [plain ''BATCH'' Batch_schema,
      plain ''BLACKLIST'' BlacklistMsg_schema,
      plain ''REQACK'' RequestAck_schema,
      plain ''REQNACK'' RequestNack_schema,
      plain ''REJECT'' Reject_schema,
      plain ''POOL_LEDGER_TXNS'' PoolLedgerTxns_schema,
      plain ''ORDERED'' Ordered_schema,
      plain ''PROPAGATE'' (Propagate_schema plugin_fields),
      \<lparr>typename = ''PREPREPARE'', class_schema = PrePrepare_schema, class_kind = PrePrepareMessage\<rparr>,
      plain ''OLD_VIEW_PREPREPARE_REQ'' OldViewPrePrepareRequest_schema,
      plain ''OLD_VIEW_PREPREPARE_REP'' OldViewPrePrepareReply_schema,
      plain ''PREPARE'' Prepare_schema,
      plain ''COMMIT'' Commit_schema,
      Checkpoint_class,
      plain ''REPLY'' Reply_schema,
      plain ''INSTANCE_CHANGE'' InstanceChange_schema,
      plain ''BACKUP_INSTANCE_FAULTY'' BackupInstanceFaulty_schema,
      ViewChange_class,
      plain ''VIEW_CHANGE_ACK'' ViewChangeAck_schema,
      NewView_class,
      plain ''LEDGER_STATUS'' LedgerStatus_schema,
      plain ''CONSISTENCY_PROOF'' ConsistencyProof_schema,
      plain ''CATCHUP_REQ'' CatchupReq_schema,
      plain ''CATCHUP_REP'' CatchupRep_schema,
      plain ''VIEW_CHANGE_DONE'' ViewChangeDone_schema,
      plain ''CURRENT_STATE'' CurrentState_schema,
      plain ''MESSAGE_REQUEST'' MessageReq_schema,
      plain ''MESSAGE_RESPONSE'' MessageRep_schema,
      BatchCommitted_class plugin_fields,
      \<lparr>typename = ''OBSERVED_DATA'', class_schema = ObservedData_schema, class_kind = ObservedDataMessage\<rparr>,
      plain ''ViewChangeStart'' ViewChangeStartMessage_schema,
      plain ''ViewChangeContinue'' ViewChangeContinueMessage_schema]"

section \<open>Message objects\<close>

record message =
  m_type :: string
  m_fields :: "(string \<times> pyval) list"
  m_attrs :: "(string \<times> pyval) list"

type_synonym kwargs = "(string \<times> pyval) list"

definition join_with_schema :: "schema \<Rightarrow> pyval list \<Rightarrow> kwargs" where
  "join_with_schema s args = zip (map fst s) args"

definition as_pydict :: "kwargs \<Rightarrow> (pyval \<times> pyval) list" where
  "as_pydict kw = map (\<lambda>(n, v). (PStr n, v)) kw"

definition to_tuple :: "pyval \<Rightarrow> pyval result" where
  "to_tuple v = (case elements v of Some vs \<Rightarrow> Inr (PTuple vs) | None \<Rightarrow> Inl TypeError)"

definition to_index :: "pyval \<Rightarrow> nat \<Rightarrow> pyval result" where
  "to_index v i =
     (case elements v of
        Some vs \<Rightarrow> if i < length vs then Inr (vs ! i) else Inl IndexError
      | None \<Rightarrow> Inl TypeError)"

definition hashable_multi_sig :: "pyval \<Rightarrow> pyval result" where
  "hashable_multi_sig bls =
     bindE (to_index bls 0) (\<lambda>sig.
     bindE (bindE (to_index bls 1) to_tuple) (\<lambda>participants.
     bindE (bindE (to_index bls 2) to_tuple) (\<lambda>value.
     Inr (PTuple [sig, participants, value]))))"

definition kw_update :: "string \<Rightarrow> pyval \<Rightarrow> kwargs \<Rightarrow> kwargs" where
  "kw_update = AList.update"

definition make_multi_sig_hashable :: "kwargs \<Rightarrow> kwargs result" where
  "make_multi_sig_hashable d =
     (case map_of d ''blsMultiSig'' of
        None \<Rightarrow> Inr d
      | Some bls \<Rightarrow> if bls = PNone then Inr d else bindE (hashable_multi_sig bls) (\<lambda>t. Inr (kw_update ''blsMultiSig'' t d)))"

definition make_multi_sigs_hashable :: "kwargs \<Rightarrow> kwargs result" where
  "make_multi_sigs_hashable d =
     (case map_of d ''blsMultiSigs'' of
        None \<Rightarrow> Inr d
      | Some sigs \<Rightarrow>
          if sigs = PNone then Inr d
          else bindE (case elements sigs of None \<Rightarrow> Inl TypeError | Some vs \<Rightarrow> mapE hashable_multi_sig vs) (\<lambda>sub.
               Inr (kw_update ''blsMultiSigs'' (PTuple sub) d)))"

definition PrePrepare_post_process :: "kwargs \<Rightarrow> kwargs result" where
  "PrePrepare_post_process input_as_dict =
     bindE (case map_of input_as_dict ''reqIdr'' of None \<Rightarrow> Inl KeyError | Some v \<Rightarrow> to_tuple v) (\<lambda>req_idr.
     bindE (make_multi_sig_hashable (kw_update ''reqIdr'' req_idr input_as_dict)) make_multi_sigs_hashable)"

text \<open>The fields given, in the order of the schema.\<close>

definition ordered_fields :: "schema \<Rightarrow> kwargs \<Rightarrow> kwargs" where
  "ordered_fields s d = concat (map (\<lambda>(n, _). case map_of d n of None \<Rightarrow> [] | Some v \<Rightarrow> [(n, v)]) s)"

text \<open>\<^verbatim>\<open>__init__\<close> up to the checks and changes of the particular classes\<close>

definition init_input :: "field_env \<Rightarrow> message_class \<Rightarrow> pyval list \<Rightarrow> kwargs \<Rightarrow> kwargs result" where
  "init_input env cls args kw =
     (if args \<noteq> [] \<and> kw \<noteq> [] then Inl ValueError
      else
        (let kw' = filter (\<lambda>(n, v). n \<noteq> ''op'') kw;
             args_len = (if args \<noteq> [] then length args else length kw') in
         if SCHEMA_IS_STRICT \<and> args_len > length (class_schema cls) then Inl ValueError
         else
           (let input_as_dict = (if kw' \<noteq> [] then kw' else join_with_schema (class_schema cls) args) in
            bindE (MessageValidator_validate (validate env) (class_schema cls) SCHEMA_IS_STRICT NoMessageCheck (PDict (as_pydict input_as_dict))) (\<lambda>_.
            Inr input_as_dict))))"

definition MessageBase_init :: "field_env \<Rightarrow> message_class \<Rightarrow> pyval list \<Rightarrow> kwargs \<Rightarrow> message result" where
  "MessageBase_init env cls args kw =
     bindE (init_input env cls args kw) (\<lambda>d.
     Inr \<lparr>m_type = typename cls, m_fields = ordered_fields (class_schema cls) d, m_attrs = []\<rparr>)"

text \<open>A call with a dictionary as keyword arguments\<close>

definition kwargs_of :: "(pyval \<times> pyval) list \<Rightarrow> kwargs result" where
  "kwargs_of d = mapE (\<lambda>(k, v). case as_str k of None \<Rightarrow> Inl TypeError | Some n \<Rightarrow> Inr (n, v)) d"

definition ObservedData_validate_message :: "field_env \<Rightarrow> schema \<Rightarrow> kwargs \<Rightarrow> unit result" where
  "ObservedData_validate_message env plugin_fields dct =
     (case map_of dct ''msg'' of
        None \<Rightarrow> Inl KeyError
      | Some (PMsg t fs) \<Rightarrow> if t = ''BATCH_COMMITTED'' then Inr () else Inl TypeError
      | Some (PDict d) \<Rightarrow> bindE (kwargs_of d) (\<lambda>kw. bindE (MessageBase_init env (BatchCommitted_class plugin_fields) [] kw) (\<lambda>_. Inr ()))
      | Some _ \<Rightarrow> Inl TypeError)"

definition getattr :: "message \<Rightarrow> string \<Rightarrow> pyval result" where
  "getattr m n =
     (case map_of (m_attrs m) n of
        Some v \<Rightarrow> Inr v
      | None \<Rightarrow> (case map_of (m_fields m) n of Some v \<Rightarrow> Inr v | None \<Rightarrow> Inl AttributeError))"

definition setattr :: "message \<Rightarrow> string \<Rightarrow> pyval \<Rightarrow> message" where
  "setattr m n v = m\<lparr>m_attrs := AList.update n v (m_attrs m)\<rparr>"

definition new_BatchID :: "(pyval \<times> pyval) list \<Rightarrow> pyval result" where
  "new_BatchID d =
     bindE (kwargs_of d) (\<lambda>kw.
     if set (map fst kw) \<noteq> set BatchID_fields then Inl TypeError
     else Inr (PNamed ''BatchID'' (map (\<lambda>n. (n, the (map_of kw n))) BatchID_fields)))"

definition dicts_of :: "pyval list \<Rightarrow> (pyval \<times> pyval) list list" where
  "dicts_of vs = concat (map (\<lambda>v. case v of PDict d \<Rightarrow> [d] | _ \<Rightarrow> []) vs)"

text \<open>Dictionaries in place of batch identifiers are made identifiers when the first is one.\<close>

definition deserialize_batch_ids :: "string \<Rightarrow> message \<Rightarrow> message result" where
  "deserialize_batch_ids n m =
     bindE (getattr m n) (\<lambda>v.
     case elements v of
       Some (PDict d # vs) \<Rightarrow> bindE (mapE new_BatchID (dicts_of (PDict d # vs))) (\<lambda>bids. Inr (setattr m n (PList bids)))
     | _ \<Rightarrow> Inr m)"

definition message_value :: "message \<Rightarrow> pyval" where
  "message_value m = PMsg (m_type m) (m_fields m)"

definition new_Checkpoint :: "field_env \<Rightarrow> (pyval \<times> pyval) list \<Rightarrow> pyval result" where
  "new_Checkpoint env d =
     bindE (kwargs_of d) (\<lambda>kw. bindE (MessageBase_init env Checkpoint_class [] kw) (\<lambda>m. Inr (message_value m)))"

definition ViewChange_init :: "field_env \<Rightarrow> message \<Rightarrow> message result" where
  "ViewChange_init env m =
     bindE (getattr m ''checkpoints'') (\<lambda>chks.
     bindE (case elements chks of None \<Rightarrow> Inl TypeError | Some vs \<Rightarrow> mapE (new_Checkpoint env) (dicts_of vs)) (\<lambda>checkpoints.
     let m1 = (if checkpoints \<noteq> [] then setattr m ''checkpoints'' (PList checkpoints) else m) in
     bindE (deserialize_batch_ids ''prepared'' m1) (deserialize_batch_ids ''preprepared'')))"

definition NewView_init :: "field_env \<Rightarrow> message \<Rightarrow> message result" where
  "NewView_init env m =
     bindE (getattr m ''checkpoint'') (\<lambda>chk.
     bindE
       (case chk of
          PDict d \<Rightarrow> bindE (new_Checkpoint env d) (\<lambda>c. Inr (setattr m ''checkpoint'' c))
        | _ \<Rightarrow> Inr m) (\<lambda>m1.
     deserialize_batch_ids ''batches'' m1))"

definition message_init :: "field_env \<Rightarrow> schema \<Rightarrow> message_class \<Rightarrow> pyval list \<Rightarrow> kwargs \<Rightarrow> message result" where
  "message_init env plugin_fields cls args kw =
     bindE (init_input env cls args kw) (\<lambda>d.
     bindE (if class_kind cls = ObservedDataMessage then ObservedData_validate_message env plugin_fields d else Inr ()) (\<lambda>_.
     bindE (if class_kind cls = PrePrepareMessage then PrePrepare_post_process d else Inr d) (\<lambda>d'.
     let m = \<lparr>m_type = typename cls, m_fields = ordered_fields (class_schema cls) d', m_attrs = []\<rparr> in
     if class_kind cls = ViewChangeMessage then ViewChange_init env m
     else if class_kind cls = NewViewMessage then NewView_init env m
     else Inr m)))"

section \<open>Dictionaries of messages\<close>

definition MessageBase_asdict :: "message \<Rightarrow> kwargs" where
  "MessageBase_asdict m = (''op'', PStr (m_type m)) # filter (\<lambda>(n, v). n \<noteq> ''op'') (m_fields m)"

text \<open>\<^verbatim>\<open>_asdict\<close> of what is in a message: messages and named tuples have it\<close>

definition value_asdict :: "pyval \<Rightarrow> pyval result" where
  "value_asdict v =
     (case v of
        PMsg t fs \<Rightarrow> Inr (PDict (as_pydict (MessageBase_asdict \<lparr>m_type = t, m_fields = fs, m_attrs = []\<rparr>)))
      | PNamed t fs \<Rightarrow> Inr (PDict (as_pydict fs))
      | _ \<Rightarrow> Inl AttributeError)"

definition is_BatchID :: "pyval \<Rightarrow> bool" where
  "is_BatchID v = (case v of PNamed t fs \<Rightarrow> t = ''BatchID'' | _ \<Rightarrow> False)"

definition is_dict :: "pyval \<Rightarrow> bool" where
  "is_dict v = (case v of PDict d \<Rightarrow> True | _ \<Rightarrow> False)"

definition serialize_batch_ids :: "message \<Rightarrow> string \<Rightarrow> kwargs \<Rightarrow> kwargs result" where
  "serialize_batch_ids m n result =
     bindE (getattr m n) (\<lambda>value.
     case elements value of
       Some (v # vs) \<Rightarrow>
         if is_BatchID v then bindE (mapE value_asdict (v # vs)) (\<lambda>ds. Inr (kw_update n (PList ds) result)) else Inr result
     | _ \<Rightarrow> Inr result)"

definition ViewChange_asdict :: "message \<Rightarrow> kwargs result" where
  "ViewChange_asdict m =
     bindE (getattr m ''checkpoints'') (\<lambda>chks.
     bindE
       (case elements chks of
          None \<Rightarrow> Inl TypeError
        | Some vs \<Rightarrow> mapE value_asdict (filter (\<lambda>v. \<not> is_dict v) vs)) (\<lambda>checkpoints.
     let result = (if checkpoints \<noteq> [] then kw_update ''checkpoints'' (PList checkpoints) (MessageBase_asdict m) else MessageBase_asdict m) in
     bindE (serialize_batch_ids m ''prepared'' result) (serialize_batch_ids m ''preprepared'')))"

definition NewView_asdict :: "message \<Rightarrow> kwargs result" where
  "NewView_asdict m =
     bindE (getattr m ''checkpoint'') (\<lambda>chk.
     bindE
       (if is_dict chk then Inr (MessageBase_asdict m)
        else bindE (value_asdict chk) (\<lambda>c. Inr (kw_update ''checkpoint'' c (MessageBase_asdict m)))) (\<lambda>result.
     serialize_batch_ids m ''batches'' result))"

definition message_asdict :: "message_class \<Rightarrow> message \<Rightarrow> kwargs result" where
  "message_asdict cls m =
     (if class_kind cls = ViewChangeMessage then ViewChange_asdict m
      else if class_kind cls = NewViewMessage then NewView_asdict m
      else Inr (MessageBase_asdict m))"

section \<open>The factory\<close>

definition check_obj_fits :: "message_class \<Rightarrow> bool" where
  "check_obj_fits cls = (class_schema cls \<noteq> [] \<and> typename cls \<noteq> [])"

type_synonym factory = "(string \<times> message_class) list"

definition get_message_classes :: "message_class list \<Rightarrow> factory" where
  "get_message_classes clss = map (\<lambda>cls. (typename cls, cls)) (filter check_obj_fits clss)"

definition mk_NodeMessageFactory :: "schema \<Rightarrow> factory" where
  "mk_NodeMessageFactory plugin_fields = get_message_classes (node_message_classes plugin_fields)"

definition get_type :: "factory \<Rightarrow> pyval \<Rightarrow> message_class result" where
  "get_type classes message_op =
     (if \<not> hashable message_op then Inl TypeError
      else (case as_str message_op of
              None \<Rightarrow> Inl InvalidNodeOp
            | Some n \<Rightarrow> (case map_of classes n of None \<Rightarrow> Inl InvalidNodeOp | Some cls \<Rightarrow> Inr cls)))"

definition get_instance :: "field_env \<Rightarrow> schema \<Rightarrow> factory \<Rightarrow> kwargs \<Rightarrow> message result" where
  "get_instance env plugin_fields classes message_raw =
     (case map_of message_raw ''op'' of
        None \<Rightarrow> Inl MissingNodeOp
      | Some message_op \<Rightarrow>
          if message_op = PNone then Inl MissingNodeOp
          else
            bindE (get_type classes message_op) (\<lambda>cls.
            message_init env plugin_fields cls [] (filter (\<lambda>(n, v). n \<noteq> ''op'') message_raw)))"

definition set_message_class :: "message_class \<Rightarrow> factory \<Rightarrow> factory result" where
  "set_message_class cls classes = (if \<not> check_obj_fits cls then Inl ValueError else Inr (AList.update (typename cls) cls classes))"

text \<open>The class of a field decides whether it is replaced; a map is made anew in any case.\<close>

definition transform_field :: "(field \<Rightarrow> bool) \<Rightarrow> field \<Rightarrow> field \<Rightarrow> field" where
  "transform_field is_old new_field field =
     (if is_old field then new_field
      else (case field of
              IterableField inner mn mx n opt \<Rightarrow> if is_old inner then IterableField new_field None None False False else field
            | MapField key val n opt \<Rightarrow>
                MapField (if is_old key then new_field else key) (if is_old val then new_field else val) False False
            | _ \<Rightarrow> field))"

definition update_schemas_by_field_type :: "(field \<Rightarrow> bool) \<Rightarrow> field \<Rightarrow> factory \<Rightarrow> factory" where
  "update_schemas_by_field_type is_old new_field classes =
     map (\<lambda>(t, cls). (t, cls\<lparr>class_schema := map (\<lambda>(n, f). (n, transform_field is_old new_field f)) (class_schema cls)\<rparr>)) classes"

end
