(* ===== verification/Message_Roundtrip.thy ===== *)
theory Message_Roundtrip
  imports Message_Classes
begin

text \<open>
  What a message object has and keeps: its fields have the types of its schema, and the dictionary
  that is sent makes an equal message at the receiver.
\<close>

section \<open>Schemas\<close>

abbreviation names :: "schema \<Rightarrow> string list" where
  "names s \<equiv> map fst s"

lemmas schema_defs =
  Batch_schema_def BlacklistMsg_schema_def RequestAck_schema_def RequestNack_schema_def Reject_schema_def
  PoolLedgerTxns_schema_def Ordered_schema_def Propagate_schema_def PrePrepare_schema_def OldViewPrePrepareRequest_schema_def
  OldViewPrePrepareReply_schema_def Prepare_schema_def Commit_schema_def Checkpoint_schema_def Reply_schema_def
  InstanceChange_schema_def BackupInstanceFaulty_schema_def ViewChange_schema_def ViewChangeAck_schema_def NewView_schema_def
  LedgerStatus_schema_def ConsistencyProof_schema_def CatchupReq_schema_def CatchupRep_schema_def ViewChangeDone_schema_def
  CurrentState_schema_def MessageReq_schema_def MessageRep_schema_def BatchCommitted_schema_def ObservedData_schema_def
  ViewChangeStartMessage_schema_def ViewChangeContinueMessage_schema_def

definition good_class :: "message_class \<Rightarrow> bool" where
  "good_class cls = (distinct (names (class_schema cls)) \<and> ''op'' \<notin> set (names (class_schema cls)) \<and> check_obj_fits cls)"

lemma good_plain: "good_class (plain t s) \<longleftrightarrow> distinct (names s) \<and> ''op'' \<notin> set (names s) \<and> s \<noteq> [] \<and> t \<noteq> []"
  by (auto simp: good_class_def plain_def check_obj_fits_def)

lemma classes_good: "list_all good_class (node_message_classes pf)"
  unfolding node_message_classes_def list.pred_inject Checkpoint_class_def BatchCommitted_class_def ViewChange_class_def NewView_class_def good_plain
  by (simp add: schema_defs good_class_def check_obj_fits_def)

lemma class_good: "cls \<in> set (node_message_classes pf) \<Longrightarrow> good_class cls"
  using classes_good by (simp add: list_all_iff)

lemma typenames_distinct: "distinct (map typename (node_message_classes pf))"
  by (simp add: node_message_classes_def plain_def Checkpoint_class_def BatchCommitted_class_def ViewChange_class_def NewView_class_def)

lemma factory_get:
  assumes "cls \<in> set (node_message_classes pf)"
  shows "get_type (mk_NodeMessageFactory pf) (PStr (typename cls)) = Inr cls"
proof -
  have "filter check_obj_fits (node_message_classes pf) = node_message_classes pf"
    using class_good by (intro filter_True) (auto simp: good_class_def)
  then have "map_of (mk_NodeMessageFactory pf) (typename cls) = Some cls"
    using assms typenames_distinct [of pf]
    by (auto simp: mk_NodeMessageFactory_def get_message_classes_def comp_def intro!: map_of_is_SomeI)
  then show ?thesis by (simp add: get_type_def)
qed

section \<open>Typed arguments\<close>

definition kw_typed :: "field_env \<Rightarrow> schema \<Rightarrow> kwargs \<Rightarrow> bool" where
  "kw_typed env s d =
     ((\<forall>(n, f) \<in> set s. is_optional f \<or> n \<in> fst ` set d) \<and> (\<forall>(n, f) \<in> set s. \<forall>v. (n, v) \<in> set d \<longrightarrow> has_type env f v))"

lemma has_key_as_pydict: "has_key_str (as_pydict d) n \<longleftrightarrow> n \<in> fst ` set d"
  by (force simp: has_key_str_def as_pydict_def)

lemma schema_type_kw:
  assumes "distinct (names s)"
  shows "schema_type (has_type env) s False NoMessageCheck (PDict (as_pydict d)) \<longleftrightarrow> kw_typed env s d"
proof -
  have "distinct (map fst (rev s))" using assms by (simp flip: rev_map)
  then have "map_of (rev s) n = Some f \<longleftrightarrow> (n, f) \<in> set s" for n f using map_of_eq_Some_iff [of "rev s" n f] by simp
  then have "(\<forall>(k, x) \<in> set (as_pydict d). case schema_field s k of None \<Rightarrow> \<not> False | Some f \<Rightarrow> has_type env f x) \<longleftrightarrow>
      (\<forall>(n, f) \<in> set s. \<forall>v. (n, v) \<in> set d \<longrightarrow> has_type env f v)"
    by (fastforce simp: as_pydict_def schema_field_def split: option.splits)
  then show ?thesis unfolding schema_type_def kw_typed_def by (simp add: has_key_as_pydict)
qed

lemma validate_kw:
  "distinct (names s) \<Longrightarrow>
   MessageValidator_validate (validate env) s SCHEMA_IS_STRICT NoMessageCheck (PDict (as_pydict d)) = Inr u \<longleftrightarrow> kw_typed env s d"
  using schema_type_kw [of s env d] by (simp add: MessageValidator_iff validate_iff SCHEMA_IS_STRICT_def)

lemma ordered_simps:
  "ordered_fields [] d = []"
  "ordered_fields ((n, f) # s) d = (case map_of d n of None \<Rightarrow> [] | Some v \<Rightarrow> [(n, v)]) @ ordered_fields s d"
  by (simp_all add: ordered_fields_def)

lemma set_ordered: "set (ordered_fields s d) = {(n, v). n \<in> set (names s) \<and> map_of d n = Some v}"
proof (induction s)
  case (Cons x s)
  obtain n f where x: "x = (n, f)" by force
  show ?case unfolding x ordered_simps set_append Cons.IH by (cases "map_of d n") auto
qed (simp add: ordered_simps)

lemma map_of_ordered: "map_of (ordered_fields s d) n = (if n \<in> set (names s) then map_of d n else None)"
proof (induction s)
  case (Cons x s)
  then show ?case by (cases x) (auto simp: ordered_simps split: option.splits)
qed (simp add: ordered_simps)

lemma ordered_cong: "(\<And>n. n \<in> set (names s) \<Longrightarrow> map_of d n = map_of d' n) \<Longrightarrow> ordered_fields s d = ordered_fields s d'"
  by (induction s) (auto simp: ordered_simps)

lemma ordered_idem: "ordered_fields s (ordered_fields s d) = ordered_fields s d"
  by (rule ordered_cong) (simp add: map_of_ordered)

lemma ordered_no_op: "good_class cls \<Longrightarrow> filter (\<lambda>(n, v). n \<noteq> ''op'') (ordered_fields (class_schema cls) d) = ordered_fields (class_schema cls) d"
  by (rule filter_True) (unfold set_ordered good_class_def, blast)

lemma kw_typedI:
  "(\<And>n f. (n, f) \<in> set s \<Longrightarrow> is_optional f \<or> n \<in> fst ` set d) \<Longrightarrow>
   (\<And>n f v. (n, f) \<in> set s \<Longrightarrow> (n, v) \<in> set d \<Longrightarrow> has_type env f v) \<Longrightarrow> kw_typed env s d"
  unfolding kw_typed_def by blast

lemma kw_typedD1: "kw_typed env s d \<Longrightarrow> (n, f) \<in> set s \<Longrightarrow> is_optional f \<or> n \<in> fst ` set d"
  unfolding kw_typed_def by blast

lemma kw_typedD2: "kw_typed env s d \<Longrightarrow> (n, f) \<in> set s \<Longrightarrow> (n, v) \<in> set d \<Longrightarrow> has_type env f v"
  unfolding kw_typed_def by blast

lemma kw_typed_ordered:
  assumes "kw_typed env s d"
  shows "kw_typed env s (ordered_fields s d)"
proof (rule kw_typedI)
  fix n f
  assume nf: "(n, f) \<in> set s"
  have "n \<in> fst ` set (ordered_fields s d)" if n: "n \<in> fst ` set d"
  proof -
    have "map_of d n \<noteq> None" using n by (simp add: map_of_eq_None_iff)
    then obtain v where "map_of d n = Some v" by blast
    moreover have "n \<in> set (names s)" using nf by force
    ultimately have "(n, v) \<in> set (ordered_fields s d)" by (simp add: set_ordered)
    then show ?thesis by (rule rev_image_eqI) simp
  qed
  then show "is_optional f \<or> n \<in> fst ` set (ordered_fields s d)" using kw_typedD1 [OF assms nf] by blast
  show "has_type env f v" if "(n, v) \<in> set (ordered_fields s d)" for v
  proof -
    have "(n, v) \<in> set d" using that by (simp add: set_ordered map_of_SomeD)
    then show ?thesis by (rule kw_typedD2 [OF assms nf])
  qed
qed

section \<open>Pre-prepares\<close>

lemma update_same: "map_of d n = Some v \<Longrightarrow> AList.update n v d = d"
  by (induction d) auto

lemma to_tuple_PTuple [simp]: "to_tuple (PTuple vs) = Inr (PTuple vs)"
  by (simp add: to_tuple_def)

lemma to_tuple_eq: "to_tuple v = Inr t \<longleftrightarrow> (\<exists>vs. elements v = Some vs \<and> t = PTuple vs)"
  by (auto simp: to_tuple_def split: option.splits)

definition sig_tuple :: "pyval \<Rightarrow> bool" where
  "sig_tuple t = (\<exists>sig ps vs. t = PTuple [sig, PTuple ps, PTuple vs])"

lemma hashable_multi_sig_tuple: "hashable_multi_sig bls = Inr t \<Longrightarrow> sig_tuple t"
  by (auto simp: hashable_multi_sig_def bindE_eq_Inr to_tuple_eq sig_tuple_def)

lemma hashable_multi_sig_same: "sig_tuple t \<Longrightarrow> hashable_multi_sig t = Inr t"
  by (auto simp: sig_tuple_def hashable_multi_sig_def to_index_def)

lemma hashable_multi_sig_typed:
  "is_multi_sig env bls \<Longrightarrow> \<exists>t. hashable_multi_sig bls = Inr t \<and> is_multi_sig env t"
  unfolding is_multi_sig_def is_multi_sig_value_def
  by (auto simp: hashable_multi_sig_def to_index_def to_tuple_def)

lemma mapE_same: "(\<And>x. x \<in> set xs \<Longrightarrow> f x = Inr x) \<Longrightarrow> mapE f xs = Inr xs"
  by (induction xs) simp_all

lemma mapE_set: "mapE f xs = Inr ys \<Longrightarrow> y \<in> set ys \<Longrightarrow> \<exists>x \<in> set xs. f x = Inr y"
  by (induction xs arbitrary: ys) (auto simp: bindE_eq_Inr)

definition hashable_input :: "kwargs \<Rightarrow> bool" where
  "hashable_input d =
     ((\<exists>vs. map_of d ''reqIdr'' = Some (PTuple vs)) \<and>
      (\<forall>t. map_of d ''blsMultiSig'' = Some t \<longrightarrow> t = PNone \<or> sig_tuple t) \<and>
      (\<forall>t. map_of d ''blsMultiSigs'' = Some t \<longrightarrow> t = PNone \<or> (\<exists>ts. t = PTuple ts \<and> (\<forall>t \<in> set ts. sig_tuple t))))"

lemma multi_sig_step:
  assumes "make_multi_sig_hashable d = Inr d'"
  shows "d' = d \<and> (map_of d ''blsMultiSig'' = None \<or> map_of d ''blsMultiSig'' = Some PNone) \<or>
    (\<exists>bls t. map_of d ''blsMultiSig'' = Some bls \<and> hashable_multi_sig bls = Inr t \<and> d' = AList.update ''blsMultiSig'' t d)"
  using assms by (auto simp: make_multi_sig_hashable_def bindE_eq_Inr kw_update_def split: option.splits if_splits)

lemma multi_sigs_step:
  assumes "make_multi_sigs_hashable d = Inr d'"
  shows "d' = d \<and> (map_of d ''blsMultiSigs'' = None \<or> map_of d ''blsMultiSigs'' = Some PNone) \<or>
    (\<exists>sigs vs ts. map_of d ''blsMultiSigs'' = Some sigs \<and> elements sigs = Some vs \<and> mapE hashable_multi_sig vs = Inr ts \<and>
       d' = AList.update ''blsMultiSigs'' (PTuple ts) d)"
  using assms by (auto simp: make_multi_sigs_hashable_def bindE_eq_Inr kw_update_def split: option.splits if_splits)

lemma post_process_step:
  assumes "PrePrepare_post_process d = Inr d'"
  obtains r vs d2 where "map_of d ''reqIdr'' = Some r" "elements r = Some vs"
    "make_multi_sig_hashable (AList.update ''reqIdr'' (PTuple vs) d) = Inr d2" "make_multi_sigs_hashable d2 = Inr d'"
  using assms that by (auto simp: PrePrepare_post_process_def bindE_eq_Inr to_tuple_eq kw_update_def split: option.splits)

lemma post_process_hashable:
  assumes "PrePrepare_post_process d = Inr d'"
  shows "hashable_input d'"
proof -
  obtain r vs d2 where r: "make_multi_sig_hashable (AList.update ''reqIdr'' (PTuple vs) d) = Inr d2" "make_multi_sigs_hashable d2 = Inr d'"
    using post_process_step [OF assms] by metis
  have 2: "map_of d2 ''reqIdr'' = Some (PTuple vs)" "\<forall>t. map_of d2 ''blsMultiSig'' = Some t \<longrightarrow> t = PNone \<or> sig_tuple t"
    using multi_sig_step [OF r(1)] hashable_multi_sig_tuple by (auto simp: update_conv')
  have "\<forall>t \<in> set ts. sig_tuple t" if "mapE hashable_multi_sig vs = Inr ts" for vs ts
    using mapE_set [OF that] hashable_multi_sig_tuple by blast
  then show ?thesis
    using multi_sigs_step [OF r(2)] 2 unfolding hashable_input_def by (auto simp: update_conv')
qed

lemma post_process_same:
  assumes "hashable_input d"
  shows "PrePrepare_post_process d = Inr d"
proof -
  obtain vs where 1: "map_of d ''reqIdr'' = Some (PTuple vs)" using assms by (auto simp: hashable_input_def)
  have 2: "make_multi_sig_hashable d = Inr d"
    using assms by (auto simp: hashable_input_def make_multi_sig_hashable_def kw_update_def update_same hashable_multi_sig_same split: option.splits)
  have "mapE hashable_multi_sig ts = Inr ts" if "\<forall>t \<in> set ts. sig_tuple t" for ts
    using that by (intro mapE_same) (simp add: hashable_multi_sig_same)
  then have "make_multi_sigs_hashable d = Inr d"
    using assms by (auto simp: hashable_input_def make_multi_sigs_hashable_def kw_update_def update_same split: option.splits)
  then show ?thesis by (simp add: PrePrepare_post_process_def 1 kw_update_def update_same [OF 1] 2)
qed

lemma kw_typed_update:
  assumes "kw_typed env s d" "\<And>f. (n, f) \<in> set s \<Longrightarrow> has_type env f v"
  shows "kw_typed env s (AList.update n v d)"
proof (rule kw_typedI)
  fix n' f
  assume nf: "(n', f) \<in> set s"
  have "fst ` set d \<subseteq> fst ` set (AList.update n v d)" by (auto simp: update_keys [symmetric] dom_update)
  then show "is_optional f \<or> n' \<in> fst ` set (AList.update n v d)" using kw_typedD1 [OF assms(1) nf] by blast
  show "has_type env f v'" if "(n', v') \<in> set (AList.update n v d)" for v'
  proof -
    have "(n', v') \<in> set d \<or> n' = n \<and> v' = v" using that by (induction d) (auto split: if_splits)
    then show ?thesis using kw_typedD2 [OF assms(1) nf] assms(2) nf by blast
  qed
qed

lemma pre_prepare_fields:
  "(''reqIdr'', f) \<in> set PrePrepare_schema \<longleftrightarrow> f = iterable (required digest_field)"
  "(''blsMultiSig'', f) \<in> set PrePrepare_schema \<longleftrightarrow> f = optional_nullable BlsMultiSignatureField"
  "(''blsMultiSigs'', f) \<in> set PrePrepare_schema \<longleftrightarrow> f = IterableField (optional_nullable BlsMultiSignatureField) None None False True"
  by (simp_all add: PrePrepare_schema_def)

lemma multi_sig_typed:
  "hashable_multi_sig bls = Inr t \<Longrightarrow> has_type env (optional_nullable BlsMultiSignatureField) bls \<Longrightarrow> is_multi_sig env t"
proof -
  assume h: "hashable_multi_sig bls = Inr t" and t: "has_type env (optional_nullable BlsMultiSignatureField) bls"
  have "bls \<noteq> PNone" using h by (auto simp: hashable_multi_sig_def to_index_def)
  then show ?thesis using t hashable_multi_sig_typed [of env bls] h by auto
qed

lemma post_process_typed:
  assumes "PrePrepare_post_process d = Inr d'" "kw_typed env PrePrepare_schema d"
  shows "kw_typed env PrePrepare_schema d'"
proof -
  obtain r vs d2 where r: "map_of d ''reqIdr'' = Some r" "elements r = Some vs"
    "make_multi_sig_hashable (AList.update ''reqIdr'' (PTuple vs) d) = Inr d2" "make_multi_sigs_hashable d2 = Inr d'"
    by (rule post_process_step [OF assms(1)])
  have "has_type env (iterable (required digest_field)) r"
    by (rule kw_typedD2 [OF assms(2)]) (use map_of_SomeD [OF r(1)] in \<open>simp_all add: pre_prepare_fields\<close>)
  then have 1: "kw_typed env PrePrepare_schema (AList.update ''reqIdr'' (PTuple vs) d)"
    using r(2) by (intro kw_typed_update [OF assms(2)]) (auto simp: pre_prepare_fields)
  have 2: "kw_typed env PrePrepare_schema d2" using multi_sig_step [OF r(3)]
  proof (elim disjE exE conjE)
    fix bls t
    assume b: "map_of (AList.update ''reqIdr'' (PTuple vs) d) ''blsMultiSig'' = Some bls" "hashable_multi_sig bls = Inr t"
      and d2: "d2 = AList.update ''blsMultiSig'' t (AList.update ''reqIdr'' (PTuple vs) d)"
    have "has_type env (optional_nullable BlsMultiSignatureField) bls"
      by (rule kw_typedD2 [OF 1]) (use map_of_SomeD [OF b(1)] in \<open>simp_all add: pre_prepare_fields\<close>)
    then show ?thesis using multi_sig_typed [OF b(2)] unfolding d2 by (intro kw_typed_update [OF 1]) (auto simp: pre_prepare_fields)
  qed (simp_all add: 1)
  show ?thesis using multi_sigs_step [OF r(4)]
  proof (elim disjE exE conjE)
    fix sigs ws ts
    assume b: "map_of d2 ''blsMultiSigs'' = Some sigs" "elements sigs = Some ws" "mapE hashable_multi_sig ws = Inr ts"
      and d': "d' = AList.update ''blsMultiSigs'' (PTuple ts) d2"
    have "has_type env (IterableField (optional_nullable BlsMultiSignatureField) None None False True) sigs"
      by (rule kw_typedD2 [OF 2]) (use map_of_SomeD [OF b(1)] in \<open>simp_all add: pre_prepare_fields\<close>)
    then have "has_type env (optional_nullable BlsMultiSignatureField) w" if "w \<in> set ws" for w using b(2) that by auto
    then have "is_multi_sig env t" if "t \<in> set ts" for t using mapE_set [OF b(3) that] multi_sig_typed by blast
    then show ?thesis unfolding d' by (intro kw_typed_update [OF 2]) (auto simp: pre_prepare_fields)
  qed (simp_all add: 2)
qed

section \<open>Messages\<close>

lemma init_input_typed: "init_input env cls args kw = Inr d \<Longrightarrow> good_class cls \<Longrightarrow> kw_typed env (class_schema cls) d"
  by (auto simp: init_input_def Let_def bindE_eq_Inr good_class_def validate_kw split: if_splits)

lemma init_input_same:
  assumes "kw_typed env (class_schema cls) d" "good_class cls" "filter (\<lambda>(n, v). n \<noteq> ''op'') d = d"
  shows "init_input env cls [] d = Inr d"
proof -
  have "MessageValidator_validate (validate env) (class_schema cls) SCHEMA_IS_STRICT NoMessageCheck (PDict (as_pydict d)) = Inr ()"
    using assms(1,2) by (simp add: validate_kw good_class_def)
  then show ?thesis by (cases "d = []") (simp_all add: init_input_def assms(3) SCHEMA_IS_STRICT_def join_with_schema_def)
qed

lemma setattr_fields [simp]: "m_fields (setattr m n v) = m_fields m" "m_type (setattr m n v) = m_type m"
  by (simp_all add: setattr_def)

lemma deserialize_batch_ids_fields: "deserialize_batch_ids n m = Inr m' \<Longrightarrow> m_fields m' = m_fields m \<and> m_type m' = m_type m"
  by (cases "getattr m n") (auto simp: deserialize_batch_ids_def bindE_eq_Inr split: option.splits list.splits pyval.splits)

lemma ViewChange_init_fields: "ViewChange_init env m = Inr m' \<Longrightarrow> m_fields m' = m_fields m \<and> m_type m' = m_type m"
  unfolding ViewChange_init_def bindE_eq_Inr Let_def by (force dest!: deserialize_batch_ids_fields split: if_splits)

lemma NewView_init_fields: "NewView_init env m = Inr m' \<Longrightarrow> m_fields m' = m_fields m \<and> m_type m' = m_type m"
  by (cases "getattr m ''checkpoint''") (auto dest!: deserialize_batch_ids_fields simp: NewView_init_def bindE_eq_Inr split: pyval.splits)

text \<open>What every successful construction goes through\<close>

lemma message_init_steps:
  assumes "message_init env pf cls args kw = Inr m"
  shows "\<exists>d d'. init_input env cls args kw = Inr d \<and>
    (class_kind cls = ObservedDataMessage \<longrightarrow> ObservedData_validate_message env pf d = Inr ()) \<and>
    (if class_kind cls = PrePrepareMessage then PrePrepare_post_process d = Inr d' else d' = d) \<and>
    m_fields m = ordered_fields (class_schema cls) d' \<and> m_type m = typename cls \<and>
    (class_kind cls \<notin> {ViewChangeMessage, NewViewMessage} \<longrightarrow> m_attrs m = [])"
  using assms unfolding message_init_def bindE_eq_Inr Let_def
  by (auto split: if_splits dest!: ViewChange_init_fields NewView_init_fields)

lemma PrePrepare_class: "cls \<in> set (node_message_classes pf) \<Longrightarrow> class_kind cls = PrePrepareMessage \<Longrightarrow> class_schema cls = PrePrepare_schema"
  by (auto simp: node_message_classes_def plain_def Checkpoint_class_def BatchCommitted_class_def ViewChange_class_def NewView_class_def)

lemma ObservedData_class: "cls \<in> set (node_message_classes pf) \<Longrightarrow> class_kind cls = ObservedDataMessage \<Longrightarrow> class_schema cls = ObservedData_schema"
  by (auto simp: node_message_classes_def plain_def Checkpoint_class_def BatchCommitted_class_def ViewChange_class_def NewView_class_def)

lemma input_typed:
  assumes "cls \<in> set (node_message_classes pf)" "init_input env cls args kw = Inr d"
    "if class_kind cls = PrePrepareMessage then PrePrepare_post_process d = Inr d' else d' = d"
  shows "kw_typed env (class_schema cls) d'"
proof -
  have "kw_typed env (class_schema cls) d" using init_input_typed [OF assms(2) class_good [OF assms(1)]] .
  then show ?thesis using assms(3) post_process_typed [of d d' env] PrePrepare_class [OF assms(1)] by (auto split: if_splits)
qed

text \<open>
  C6: every message between nodes that is made, from arguments or from a received dictionary, is
  well typed: each field of its schema either is there with a value of its type, or is optional and
  missing.
\<close>

theorem made_messages_typed:
  assumes "cls \<in> set (node_message_classes pf)" "message_init env pf cls args kw = Inr m"
  shows "\<forall>(n, f) \<in> set (class_schema cls).
    (\<exists>v. map_of (m_fields m) n = Some v \<and> has_type env f v) \<or> is_optional f \<and> map_of (m_fields m) n = None"
proof -
  obtain d d' where d: "init_input env cls args kw = Inr d"
    "if class_kind cls = PrePrepareMessage then PrePrepare_post_process d = Inr d' else d' = d"
    "m_fields m = ordered_fields (class_schema cls) d'"
    using message_init_steps [OF assms(2)] by blast
  have t: "kw_typed env (class_schema cls) (m_fields m)" unfolding d(3) by (intro kw_typed_ordered input_typed [OF assms(1) d(1,2)])
  show ?thesis
  proof clarify
    fix n f
    assume nf: "(n, f) \<in> set (class_schema cls)" and "\<not> (is_optional f \<and> map_of (m_fields m) n = None)"
    then have "map_of (m_fields m) n \<noteq> None" using kw_typedD1 [OF t nf] by (auto simp: map_of_eq_None_iff)
    then obtain v where v: "map_of (m_fields m) n = Some v" by blast
    then have "has_type env f v" by (intro kw_typedD2 [OF t nf] map_of_SomeD)
    then show "\<exists>v. map_of (m_fields m) n = Some v \<and> has_type env f v" using v by blast
  qed
qed

text \<open>
  C17: what is sent is what is received, for every message class other than \<^verbatim>\<open>ViewChange\<close> and
  \<^verbatim>\<open>NewView\<close>: the dictionary of a message makes, through the factory of the receiver, the same
  message again. The two messages of a view change, which have objects inside, have round trips
  of their own below.
\<close>

theorem message_round_trip:
  assumes "cls \<in> set (node_message_classes pf)" "class_kind cls \<noteq> ViewChangeMessage" "class_kind cls \<noteq> NewViewMessage"
    and "message_init env pf cls args kw = Inr m"
  shows "bindE (message_asdict cls m) (get_instance env pf (mk_NodeMessageFactory pf)) = Inr m"
proof -
  obtain d d' where d: "init_input env cls args kw = Inr d"
    "class_kind cls = ObservedDataMessage \<longrightarrow> ObservedData_validate_message env pf d = Inr ()"
    "if class_kind cls = PrePrepareMessage then PrePrepare_post_process d = Inr d' else d' = d"
    "m_fields m = ordered_fields (class_schema cls) d'" "m_type m = typename cls" "m_attrs m = []"
    using message_init_steps [OF assms(4)] assms(2,3) by blast
  have good: "good_class cls" by (rule class_good [OF assms(1)])
  have "kw_typed env (class_schema cls) (m_fields m)" unfolding d(4) by (intro kw_typed_ordered input_typed [OF assms(1) d(1,3)])
  moreover have op: "filter (\<lambda>(n, v). n \<noteq> ''op'') (m_fields m) = m_fields m" unfolding d(4) by (rule ordered_no_op [OF good])
  ultimately have 1: "init_input env cls [] (m_fields m) = Inr (m_fields m)" by (rule init_input_same [OF _ good])
  have "map_of (m_fields m) ''msg'' = map_of d ''msg''" if "class_kind cls = ObservedDataMessage"
    using ObservedData_class [OF assms(1) that] d(3,4) that by (simp add: map_of_ordered ObservedData_schema_def)
  then have 2: "ObservedData_validate_message env pf (m_fields m) = Inr ()" if "class_kind cls = ObservedDataMessage"
    using d(2) that by (simp add: ObservedData_validate_message_def)
  have "hashable_input (m_fields m)" if k: "class_kind cls = PrePrepareMessage"
  proof -
    have "hashable_input d'" using d(3) k by (auto intro: post_process_hashable)
    then show ?thesis by (simp add: hashable_input_def d(4) map_of_ordered PrePrepare_class [OF assms(1) k] PrePrepare_schema_def)
  qed
  then have 3: "PrePrepare_post_process (m_fields m) = Inr (m_fields m)" if "class_kind cls = PrePrepareMessage"
    using post_process_same that by blast
  have "message_init env pf cls [] (m_fields m) = Inr m"
    using assms(2,3) 2 3 d(5,6) ordered_idem [of "class_schema cls" d'] by (simp add: message_init_def 1 d(4) [symmetric])
  then show ?thesis
    using assms(2,3) factory_get [OF assms(1)] by (simp add: message_asdict_def MessageBase_asdict_def get_instance_def op d(5))
qed

section \<open>Messages of a view change\<close>

definition batch_id_object :: "pyval \<Rightarrow> bool" where
  "batch_id_object p = (\<exists>fs. p = PNamed ''BatchID'' fs \<and> map fst fs = BatchID_fields)"

definition checkpoint_object :: "field_env \<Rightarrow> pyval \<Rightarrow> bool" where
  "checkpoint_object env c = (\<exists>args kw m. MessageBase_init env Checkpoint_class args kw = Inr m \<and> c = message_value m)"

definition dict_of :: "pyval \<Rightarrow> (pyval \<times> pyval) list" where
  "dict_of v =
     (case v of
        PMsg t fs \<Rightarrow> as_pydict (MessageBase_asdict \<lparr>m_type = t, m_fields = fs, m_attrs = []\<rparr>)
      | PNamed t fs \<Rightarrow> as_pydict fs
      | _ \<Rightarrow> [])"

lemma kwargs_of_as_pydict [simp]: "kwargs_of (as_pydict kw) = Inr kw"
proof -
  have "mapE (\<lambda>(k, v). case as_str k of None \<Rightarrow> Inl TypeError | Some n \<Rightarrow> Inr (n, v)) (map (\<lambda>(n, v). (PStr n, v)) kw) = Inr kw"
    by (induction kw) auto
  then show ?thesis by (simp add: kwargs_of_def as_pydict_def)
qed

lemma Checkpoint_good: "good_class Checkpoint_class"
  using class_good [of Checkpoint_class "[]"] by (simp add: node_message_classes_def)

lemma new_Checkpoint_dict:
  assumes "checkpoint_object env c"
  shows "new_Checkpoint env (dict_of c) = Inr c" "value_asdict c = Inr (PDict (dict_of c))" "\<not> is_dict c"
proof -
  obtain args kw m d where m: "init_input env Checkpoint_class args kw = Inr d" "c = message_value m"
    "m = \<lparr>m_type = typename Checkpoint_class, m_fields = ordered_fields (class_schema Checkpoint_class) d, m_attrs = []\<rparr>"
    using assms by (auto simp: checkpoint_object_def MessageBase_init_def bindE_eq_Inr)
  let ?fs = "ordered_fields (class_schema Checkpoint_class) d"
  have "kw_typed env (class_schema Checkpoint_class) ?fs" by (intro kw_typed_ordered init_input_typed [OF m(1) Checkpoint_good])
  moreover have op: "filter (\<lambda>(n, v). n \<noteq> ''op'') ?fs = ?fs" by (rule ordered_no_op [OF Checkpoint_good])
  ultimately have "init_input env Checkpoint_class [] ?fs = Inr ?fs" by (rule init_input_same [OF _ Checkpoint_good])
  then have "init_input env Checkpoint_class [] ((''op'', v) # ?fs) = Inr ?fs" for v
    using op by (cases "?fs = []") (auto simp: init_input_def Let_def)
  then show "new_Checkpoint env (dict_of c) = Inr c"
    by (simp add: new_Checkpoint_def dict_of_def m message_value_def MessageBase_asdict_def MessageBase_init_def op ordered_idem)
  show "value_asdict c = Inr (PDict (dict_of c))" "\<not> is_dict c"
    by (simp_all add: m message_value_def value_asdict_def dict_of_def is_dict_def)
qed

lemma map_of_keys: "distinct (map fst fs) \<Longrightarrow> map (map_of fs) (map fst fs) = map Some (map snd fs)"
  by (auto intro!: map_cong)

lemma dict_get_as_pydict: "dict_get (as_pydict fs) = map_of fs"
proof
  show "dict_get (as_pydict fs) n = map_of fs n" for n by (induction fs) (auto simp: dict_get_def as_pydict_def)
qed

lemma keys_as_pydict: "fst ` set (as_pydict fs) = PStr ` set (map fst fs)"
  by (simp add: as_pydict_def image_image case_prod_beta)

lemma new_BatchID_dict:
  assumes "batch_id_object p"
  shows "new_BatchID (dict_of p) = Inr p" "value_asdict p = Inr (PDict (dict_of p))" "is_BatchID p" "is_batch_id p \<Longrightarrow> is_batch_id (PDict (dict_of p))"
proof -
  obtain fs where p: "p = PNamed ''BatchID'' fs" "map fst fs = BatchID_fields" using assms by (auto simp: batch_id_object_def)
  have d: "distinct (map fst fs)" unfolding p(2) by (simp add: BatchID_fields_def)
  have fs: "map (\<lambda>n. (n, the (map_of fs n))) BatchID_fields = fs" unfolding p(2) [symmetric] map_map
    by (rule map_idI) (use d in auto)
  have set_fs: "set (map fst fs) = set BatchID_fields" by (simp only: p(2))
  show "new_BatchID (dict_of p) = Inr p" unfolding new_BatchID_def dict_of_def p(1) pyval.case kwargs_of_as_pydict bindE_simps set_fs fs by simp
  show "value_asdict p = Inr (PDict (dict_of p))" "is_BatchID p" by (simp_all add: p value_asdict_def dict_of_def is_BatchID_def)
  show "is_batch_id (PDict (dict_of p))" if "is_batch_id p"
  proof -
    have "batch_id_values (map snd fs)" using that by (simp add: is_batch_id_def p(1))
    moreover have "map (dict_get (as_pydict fs)) BatchID_fields = map Some (map snd fs)"
      unfolding dict_get_as_pydict p(2) [symmetric] by (rule map_of_keys [OF d])
    moreover have "length (as_pydict fs) = 4" using arg_cong [OF p(2), of length] by (simp add: as_pydict_def BatchID_fields_def)
    moreover have "fst ` set (as_pydict fs) \<subseteq> PStr ` set BatchID_fields" unfolding keys_as_pydict set_fs ..
    ultimately have "batch_id_dict (as_pydict fs)" unfolding batch_id_dict_def by blast
    then show ?thesis by (simp add: is_batch_id_def dict_of_def p(1))
  qed
qed

lemma mapE_all: "(\<And>x. x \<in> set xs \<Longrightarrow> f (g x) = Inr x) \<Longrightarrow> mapE f (map g xs) = Inr xs"
  by (induction xs) simp_all

lemma dicts_of_map: "dicts_of (map (\<lambda>x. PDict (dict_of x)) xs) = map dict_of xs"
  by (induction xs) (simp_all add: dicts_of_def)

definition dicts :: "pyval list \<Rightarrow> pyval" where
  "dicts xs = PList (map (\<lambda>x. PDict (dict_of x)) xs)"

lemma serialize_objects:
  assumes "getattr m n = Inr (PList ps)" "\<forall>p \<in> set ps. batch_id_object p"
  shows "serialize_batch_ids m n r = Inr (if ps = [] then r else kw_update n (dicts ps) r)"
proof (cases ps)
  case (Cons p ps')
  have "mapE value_asdict ps = Inr (map (\<lambda>x. PDict (dict_of x)) ps)" using assms(2) new_BatchID_dict(2) by (intro mapE_eq_map) blast
  then show ?thesis using assms new_BatchID_dict(3) by (simp add: serialize_batch_ids_def Cons dicts_def del: mapE.simps)
qed (simp add: serialize_batch_ids_def assms)

lemma deserialize_dicts:
  assumes "getattr m n = Inr (dicts ps)" "\<forall>p \<in> set ps. batch_id_object p"
  shows "deserialize_batch_ids n m = Inr (if ps = [] then m else setattr m n (PList ps))"
proof (cases ps)
  case (Cons p ps')
  have "mapE new_BatchID (map dict_of ps) = Inr ps" using assms(2) new_BatchID_dict(1) by (intro mapE_all) blast
  then have "mapE new_BatchID (dicts_of (map (\<lambda>x. PDict (dict_of x)) ps)) = Inr ps" by (simp only: dicts_of_map)
  then show ?thesis using assms(1) by (simp add: deserialize_batch_ids_def Cons dicts_def del: mapE.simps)
qed (simp add: deserialize_batch_ids_def assms dicts_def)

lemma deserialize_objects:
  assumes "getattr m n = Inr (PList ps)" "\<forall>p \<in> set ps. batch_id_object p"
  shows "deserialize_batch_ids n m = Inr m"
  using assms by (cases ps) (auto simp: deserialize_batch_ids_def batch_id_object_def)

lemma getattr_setattr: "getattr (setattr m n v) n' = (if n' = n then Inr v else getattr m n')"
  by (simp add: getattr_def setattr_def update_conv' split: option.split)

lemma batch_ids_typed:
  assumes "has_type env (iterable (required BatchIDField)) (PList ps)" "\<forall>p \<in> set ps. batch_id_object p"
  shows "has_type env (iterable (required BatchIDField)) (dicts ps)"
  using assms new_BatchID_dict(4) by (auto simp: dicts_def)

lemma no_dicts: "\<forall>c \<in> set cs. \<not> is_dict c \<Longrightarrow> dicts_of cs = []"
  by (induction cs) (auto simp: dicts_of_def is_dict_def split: pyval.splits)

lemma checkpoints_asdict:
  assumes "\<forall>c \<in> set cs. checkpoint_object env c"
  shows "mapE value_asdict (filter (\<lambda>v. \<not> is_dict v) cs) = Inr (map (\<lambda>x. PDict (dict_of x)) cs)"
proof -
  have "filter (\<lambda>v. \<not> is_dict v) cs = cs" using assms new_Checkpoint_dict(3) by (intro filter_True) blast
  moreover have "mapE value_asdict cs = Inr (map (\<lambda>x. PDict (dict_of x)) cs)" using assms new_Checkpoint_dict(2) by (intro mapE_eq_map) blast
  ultimately show ?thesis by simp
qed

text \<open>The keyword arguments of a view change message, with objects or with dictionaries in it\<close>

definition view_change_kw :: "pyval \<Rightarrow> pyval \<Rightarrow> pyval \<Rightarrow> pyval \<Rightarrow> pyval \<Rightarrow> kwargs" where
  "view_change_kw view_no stable_checkpoint prepared preprepared checkpoints =
     [(''viewNo'', view_no), (''stableCheckpoint'', stable_checkpoint), (''prepared'', prepared), (''preprepared'', preprepared), (''checkpoints'', checkpoints)]"

lemma view_change_init:
  assumes "kw = view_change_kw a b p q c"
  shows "message_init env pf ViewChange_class [] kw =
    (if kw_typed env ViewChange_schema kw then ViewChange_init env \<lparr>m_type = ''VIEW_CHANGE'', m_fields = kw, m_attrs = []\<rparr>
     else bindE (init_input env ViewChange_class [] kw) (\<lambda>_. Inl TypeError))"
proof -
  have o: "ordered_fields ViewChange_schema kw = kw" by (simp add: assms view_change_kw_def ordered_simps ViewChange_schema_def)
  have g: "good_class ViewChange_class" using class_good [of ViewChange_class "[]"] by (simp add: node_message_classes_def)
  have "filter (\<lambda>(n, v). n \<noteq> ''op'') kw = kw" by (simp add: assms view_change_kw_def)
  then have "init_input env ViewChange_class [] kw = Inr kw" if "kw_typed env ViewChange_schema kw"
    using init_input_same [OF _ g, of env kw] that by (simp add: ViewChange_class_def)
  moreover have "kw_typed env ViewChange_schema kw" if "init_input env ViewChange_class [] kw = Inr d" for d
  proof -
    have "d = kw" using that \<open>filter (\<lambda>(n, v). n \<noteq> ''op'') kw = kw\<close>
      by (auto simp: init_input_def Let_def bindE_eq_Inr assms view_change_kw_def split: if_splits)
    then show ?thesis using init_input_typed [OF that g] by (simp add: ViewChange_class_def)
  qed
  ultimately show ?thesis
    by (cases "kw_typed env ViewChange_schema kw"; cases "init_input env ViewChange_class [] kw")
      (auto simp: message_init_def o ViewChange_class_def)
qed

lemma view_change_asdict:
  assumes "getattr m ''checkpoints'' = Inr (PList cs)" "getattr m ''prepared'' = Inr (PList ps)" "getattr m ''preprepared'' = Inr (PList qs)"
    "\<forall>c \<in> set cs. checkpoint_object env c" "\<forall>p \<in> set ps. batch_id_object p" "\<forall>p \<in> set qs. batch_id_object p"
    "m_type m = ''VIEW_CHANGE''" "m_fields m = view_change_kw a b p q c"
    "cs = [] \<Longrightarrow> c = dicts []" "ps = [] \<Longrightarrow> p = dicts []" "qs = [] \<Longrightarrow> q = dicts []"
  shows "ViewChange_asdict m = Inr ((''op'', PStr ''VIEW_CHANGE'') # view_change_kw a b (dicts ps) (dicts qs) (dicts cs))"
proof -
  have "MessageBase_asdict m = (''op'', PStr ''VIEW_CHANGE'') # view_change_kw a b p q c"
    by (simp add: MessageBase_asdict_def assms(7,8) view_change_kw_def)
  moreover have "mapE value_asdict (filter (\<lambda>v. \<not> is_dict v) cs) = Inr (map (\<lambda>x. PDict (dict_of x)) cs)" by (rule checkpoints_asdict [OF assms(4)])
  moreover note serialize_objects [OF assms(2,5)] serialize_objects [OF assms(3,6)]
  ultimately show ?thesis
    using assms(9-11) by (cases "cs = []"; cases "ps = []"; cases "qs = []")
      (simp_all add: ViewChange_asdict_def assms(1) Let_def kw_update_def view_change_kw_def dicts_def [symmetric])
qed

lemma view_change_from_dicts:
  assumes "\<forall>c \<in> set cs. checkpoint_object env c" "\<forall>p \<in> set ps. batch_id_object p" "\<forall>p \<in> set qs. batch_id_object p"
    "m = \<lparr>m_type = ''VIEW_CHANGE'', m_fields = view_change_kw a b (dicts ps) (dicts qs) (dicts cs), m_attrs = []\<rparr>"
  shows "\<exists>m'. ViewChange_init env m = Inr m' \<and>
    ViewChange_asdict m' = Inr ((''op'', PStr ''VIEW_CHANGE'') # view_change_kw a b (dicts ps) (dicts qs) (dicts cs))"
proof -
  let ?m1 = "if cs = [] then m else setattr m ''checkpoints'' (PList cs)"
  let ?m2 = "if ps = [] then ?m1 else setattr ?m1 ''prepared'' (PList ps)"
  let ?m3 = "if qs = [] then ?m2 else setattr ?m2 ''preprepared'' (PList qs)"
  have f: "getattr m ''checkpoints'' = Inr (dicts cs)" "getattr m ''prepared'' = Inr (dicts ps)" "getattr m ''preprepared'' = Inr (dicts qs)"
    by (simp_all add: assms(4) getattr_def view_change_kw_def)
  have "mapE (new_Checkpoint env) (map dict_of cs) = Inr cs" using assms(1) new_Checkpoint_dict(1) by (intro mapE_all) blast
  then have "mapE (new_Checkpoint env) (dicts_of (map (\<lambda>x. PDict (dict_of x)) cs)) = Inr cs" by (simp only: dicts_of_map)
  moreover have "deserialize_batch_ids ''prepared'' ?m1 = Inr ?m2" using f(2) assms(2) by (intro deserialize_dicts) (simp_all add: getattr_setattr)
  moreover have "deserialize_batch_ids ''preprepared'' ?m2 = Inr ?m3" using f(3) assms(3) by (intro deserialize_dicts) (simp_all add: getattr_setattr)
  moreover have "elements (dicts cs) = Some (map (\<lambda>x. PDict (dict_of x)) cs)" by (simp add: dicts_def)
  ultimately have "ViewChange_init env m = Inr ?m3" using f(1) by (cases "cs = []") (simp_all add: ViewChange_init_def Let_def)
  have g: "getattr ?m3 ''checkpoints'' = Inr (PList cs)" "getattr ?m3 ''prepared'' = Inr (PList ps)" "getattr ?m3 ''preprepared'' = Inr (PList qs)"
    using f by (simp_all add: getattr_setattr dicts_def)
  note \<open>ViewChange_init env m = Inr ?m3\<close>
  moreover have "ViewChange_asdict ?m3 = Inr ((''op'', PStr ''VIEW_CHANGE'') # view_change_kw a b (dicts ps) (dicts qs) (dicts cs))"
  proof (rule view_change_asdict [OF g assms(1-3), where p = "dicts ps" and q = "dicts qs" and c = "dicts cs"])
    show "m_type ?m3 = ''VIEW_CHANGE''" "m_fields ?m3 = view_change_kw a b (dicts ps) (dicts qs) (dicts cs)" by (simp_all add: assms(4))
  qed simp_all
  ultimately show ?thesis by blast
qed

lemma view_change_objects:
  assumes "message_init env pf ViewChange_class [] (view_change_kw a b (PList ps) (PList qs) (PList cs)) = Inr m"
    "\<forall>c \<in> set cs. checkpoint_object env c" "\<forall>p \<in> set ps \<union> set qs. batch_id_object p"
  shows "m = \<lparr>m_type = ''VIEW_CHANGE'', m_fields = view_change_kw a b (PList ps) (PList qs) (PList cs), m_attrs = []\<rparr>"
    "kw_typed env ViewChange_schema (view_change_kw a b (PList ps) (PList qs) (PList cs))"
proof -
  let ?m = "\<lparr>m_type = ''VIEW_CHANGE'', m_fields = view_change_kw a b (PList ps) (PList qs) (PList cs), m_attrs = []\<rparr>"
  have g: "getattr ?m ''checkpoints'' = Inr (PList cs)" "getattr ?m ''prepared'' = Inr (PList ps)" "getattr ?m ''preprepared'' = Inr (PList qs)"
    by (simp_all add: getattr_def view_change_kw_def)
  have "dicts_of cs = []" using assms(2) new_Checkpoint_dict(3) by (intro no_dicts) blast
  then have "ViewChange_init env ?m = Inr ?m"
    using assms(3) deserialize_objects [OF g(2)] deserialize_objects [OF g(3)] by (simp add: ViewChange_init_def g)
  then show "m = ?m" "kw_typed env ViewChange_schema (view_change_kw a b (PList ps) (PList qs) (PList cs))"
    using assms(1) view_change_init [OF refl, of env pf a b "PList ps" "PList qs" "PList cs"] by (auto simp: bindE_eq_Inr split: if_splits)
qed

lemma view_change_dicts_typed:
  assumes "kw_typed env ViewChange_schema (view_change_kw a b (PList ps) (PList qs) (PList cs))" "\<forall>p \<in> set ps \<union> set qs. batch_id_object p"
  shows "kw_typed env ViewChange_schema (view_change_kw a b (dicts ps) (dicts qs) (dicts cs))"
proof -
  have "has_type env (iterable (required BatchIDField)) (PList ps)"
    by (rule kw_typedD2 [OF assms(1), of "''prepared''"]) (simp_all add: ViewChange_schema_def view_change_kw_def)
  moreover have "has_type env (iterable (required BatchIDField)) (PList qs)"
    by (rule kw_typedD2 [OF assms(1), of "''preprepared''"]) (simp_all add: ViewChange_schema_def view_change_kw_def)
  ultimately have "has_type env (iterable (required BatchIDField)) (dicts ps)" "has_type env (iterable (required BatchIDField)) (dicts qs)"
    using assms(2) by (auto intro!: batch_ids_typed simp del: has_type.simps)
  then show ?thesis
    using assms(1) by (simp add: kw_typed_def ViewChange_schema_def view_change_kw_def) (simp add: dicts_def)
qed

text \<open>
  C18: a view change message keeps its dictionary, and with it its digest, on the way to other nodes: the
  dictionary of the message that a node makes of its checkpoints and batch identifiers has dictionaries
  in place of all these objects, it is turned into a message by the receiver, and that message has the
  same dictionary.
\<close>

theorem view_change_round_trip:
  assumes "message_init env pf ViewChange_class [] (view_change_kw a b (PList ps) (PList qs) (PList cs)) = Inr m"
    and "\<forall>c \<in> set cs. checkpoint_object env c" "\<forall>p \<in> set ps \<union> set qs. batch_id_object p"
  shows "\<exists>d m'. d = (''op'', PStr ''VIEW_CHANGE'') # view_change_kw a b (dicts ps) (dicts qs) (dicts cs) \<and>
    message_asdict ViewChange_class m = Inr d \<and>
    get_instance env pf (mk_NodeMessageFactory pf) d = Inr m' \<and> message_asdict ViewChange_class m' = Inr d"
proof -
  let ?d = "(''op'', PStr ''VIEW_CHANGE'') # view_change_kw a b (dicts ps) (dicts qs) (dicts cs)"
  note m = view_change_objects [OF assms]
  have "ViewChange_asdict m = Inr ?d"
    using assms(2,3) by (intro view_change_asdict [where p = "PList ps" and q = "PList qs" and c = "PList cs"])
      (simp_all add: m(1) getattr_def view_change_kw_def dicts_def)
  moreover have "get_instance env pf (mk_NodeMessageFactory pf) ?d = message_init env pf ViewChange_class [] (view_change_kw a b (dicts ps) (dicts qs) (dicts cs))"
    using factory_get [of ViewChange_class pf] by (simp add: get_instance_def view_change_kw_def node_message_classes_def ViewChange_class_def)
  moreover have "\<exists>m'. message_init env pf ViewChange_class [] (view_change_kw a b (dicts ps) (dicts qs) (dicts cs)) = Inr m' \<and> ViewChange_asdict m' = Inr ?d"
    using view_change_from_dicts [OF assms(2) _ _ refl, of ps qs a b] assms(3)
      view_change_init [OF refl, of env pf a b "dicts ps" "dicts qs" "dicts cs"] view_change_dicts_typed [OF m(2) assms(3)] by auto
  ultimately show ?thesis by (auto simp: message_asdict_def ViewChange_class_def)
qed

text \<open>The keyword arguments of a new view message; the primary is only in a reply to a request.\<close>

definition new_view_kw :: "pyval \<Rightarrow> pyval \<Rightarrow> pyval \<Rightarrow> pyval \<Rightarrow> pyval option \<Rightarrow> kwargs" where
  "new_view_kw view_no view_changes checkpoint batches primary =
     [(''viewNo'', view_no), (''viewChanges'', view_changes), (''checkpoint'', checkpoint), (''batches'', batches)] @
     (case primary of None \<Rightarrow> [] | Some p \<Rightarrow> [(''primary'', p)])"

lemma new_view_init:
  assumes "kw = new_view_kw a v c b r"
  shows "message_init env pf NewView_class [] kw =
    (if kw_typed env NewView_schema kw then NewView_init env \<lparr>m_type = ''NEW_VIEW'', m_fields = kw, m_attrs = []\<rparr>
     else bindE (init_input env NewView_class [] kw) (\<lambda>_. Inl TypeError))"
proof -
  have o: "ordered_fields NewView_schema kw = kw" by (cases r) (simp_all add: assms new_view_kw_def ordered_simps NewView_schema_def)
  have g: "good_class NewView_class" using class_good [of NewView_class "[]"] by (simp add: node_message_classes_def)
  have op: "filter (\<lambda>(n, v). n \<noteq> ''op'') kw = kw" by (cases r) (simp_all add: assms new_view_kw_def)
  then have "init_input env NewView_class [] kw = Inr kw" if "kw_typed env NewView_schema kw"
    using init_input_same [OF _ g, of env kw] that by (simp add: NewView_class_def)
  moreover have "kw_typed env NewView_schema kw" if "init_input env NewView_class [] kw = Inr d" for d
  proof -
    have "d = kw" using that op by (auto simp: init_input_def Let_def bindE_eq_Inr assms new_view_kw_def split: if_splits)
    then show ?thesis using init_input_typed [OF that g] by (simp add: NewView_class_def)
  qed
  ultimately show ?thesis
    by (cases "kw_typed env NewView_schema kw"; cases "init_input env NewView_class [] kw")
      (auto simp: message_init_def o NewView_class_def)
qed

lemma new_view_asdict:
  assumes "getattr m ''checkpoint'' = Inr c" "getattr m ''batches'' = Inr (PList bs)"
    "checkpoint_object env c" "\<forall>p \<in> set bs. batch_id_object p"
    "m_type m = ''NEW_VIEW''" "m_fields m = new_view_kw a v c' b r" "bs = [] \<Longrightarrow> b = dicts []"
  shows "NewView_asdict m = Inr ((''op'', PStr ''NEW_VIEW'') # new_view_kw a v (PDict (dict_of c)) (dicts bs) r)"
proof -
  have "MessageBase_asdict m = (''op'', PStr ''NEW_VIEW'') # new_view_kw a v c' b r"
    by (cases r) (simp_all add: MessageBase_asdict_def assms(5,6) new_view_kw_def)
  then show ?thesis
    using new_Checkpoint_dict(2,3) [OF assms(3)] serialize_objects [OF assms(2,4)] assms(7)
    by (cases "bs = []"; cases r) (simp_all add: NewView_asdict_def assms(1) kw_update_def new_view_kw_def dicts_def [symmetric])
qed

lemma new_view_from_dicts:
  assumes "checkpoint_object env c" "\<forall>p \<in> set bs. batch_id_object p"
    "m = \<lparr>m_type = ''NEW_VIEW'', m_fields = new_view_kw a v (PDict (dict_of c)) (dicts bs) r, m_attrs = []\<rparr>"
  shows "\<exists>m'. NewView_init env m = Inr m' \<and>
    NewView_asdict m' = Inr ((''op'', PStr ''NEW_VIEW'') # new_view_kw a v (PDict (dict_of c)) (dicts bs) r)"
proof -
  let ?m1 = "setattr m ''checkpoint'' c"
  let ?m2 = "if bs = [] then ?m1 else setattr ?m1 ''batches'' (PList bs)"
  have f: "getattr m ''checkpoint'' = Inr (PDict (dict_of c))" "getattr m ''batches'' = Inr (dicts bs)"
    by (simp_all add: assms(3) getattr_def new_view_kw_def)
  have "deserialize_batch_ids ''batches'' ?m1 = Inr ?m2" using f(2) assms(2) by (intro deserialize_dicts) (simp_all add: getattr_setattr)
  then have init: "NewView_init env m = Inr ?m2" using f(1) new_Checkpoint_dict(1) [OF assms(1)] by (simp add: NewView_init_def)
  have "getattr ?m2 ''checkpoint'' = Inr c" "getattr ?m2 ''batches'' = Inr (PList bs)"
    using f by (simp_all add: getattr_setattr dicts_def)
  then have "NewView_asdict ?m2 = Inr ((''op'', PStr ''NEW_VIEW'') # new_view_kw a v (PDict (dict_of c)) (dicts bs) r)"
    by (rule new_view_asdict [where env = env and c' = "PDict (dict_of c)" and b = "dicts bs"]) (simp_all add: assms)
  then show ?thesis using init by blast
qed

lemma new_view_objects:
  assumes "message_init env pf NewView_class [] (new_view_kw a v c (PList bs) r) = Inr m"
    "\<not> is_dict c" "\<forall>p \<in> set bs. batch_id_object p"
  shows "m = \<lparr>m_type = ''NEW_VIEW'', m_fields = new_view_kw a v c (PList bs) r, m_attrs = []\<rparr>"
    "kw_typed env NewView_schema (new_view_kw a v c (PList bs) r)"
proof -
  let ?m = "\<lparr>m_type = ''NEW_VIEW'', m_fields = new_view_kw a v c (PList bs) r, m_attrs = []\<rparr>"
  have g: "getattr ?m ''checkpoint'' = Inr c" "getattr ?m ''batches'' = Inr (PList bs)"
    by (simp_all add: getattr_def new_view_kw_def)
  have "(case c of PDict d \<Rightarrow> bindE (new_Checkpoint env d) (\<lambda>c. Inr (setattr ?m ''checkpoint'' c)) | _ \<Rightarrow> Inr ?m) = Inr ?m"
    using assms(2) by (cases c) (simp_all add: is_dict_def)
  then have "NewView_init env ?m = Inr ?m"
    using deserialize_objects [OF g(2) assms(3)] by (simp add: NewView_init_def g)
  then show "m = ?m" "kw_typed env NewView_schema (new_view_kw a v c (PList bs) r)"
    using assms(1) new_view_init [OF refl, of env pf a v c "PList bs" r] by (auto simp: bindE_eq_Inr split: if_splits)
qed

lemma new_view_dicts_typed:
  assumes "kw_typed env NewView_schema (new_view_kw a v c (PList bs) r)" "\<forall>p \<in> set bs. batch_id_object p"
  shows "kw_typed env NewView_schema (new_view_kw a v c' (dicts bs) r)"
proof -
  have "has_type env (iterable (required BatchIDField)) (PList bs)"
    by (rule kw_typedD2 [OF assms(1), of "''batches''"]) (simp_all add: NewView_schema_def new_view_kw_def)
  then have "has_type env (iterable (required BatchIDField)) (dicts bs)" using assms(2) by (rule batch_ids_typed)
  then show ?thesis
    using assms(1) by (cases r) (simp_all add: kw_typed_def NewView_schema_def new_view_kw_def del: has_type.simps, simp_all)
qed

text \<open>
  C19: a new view message keeps its dictionary, and with it its digest, on the way to other nodes: the
  dictionary of the message that a node makes of a checkpoint and of batch identifiers has dictionaries in
  place of these objects, it is turned into a message by the receiver, and that message has the same
  dictionary; so with a reply, which also names the primary. A new view whose checkpoint is neither a
  dictionary nor an object can be made, but has no dictionary (\<open>new_view_asdict_raises\<close>).
\<close>

theorem new_view_round_trip:
  assumes "message_init env pf NewView_class [] (new_view_kw a v c (PList bs) r) = Inr m"
    and "checkpoint_object env c" "\<forall>p \<in> set bs. batch_id_object p"
  shows "\<exists>d m'. d = (''op'', PStr ''NEW_VIEW'') # new_view_kw a v (PDict (dict_of c)) (dicts bs) r \<and>
    message_asdict NewView_class m = Inr d \<and>
    get_instance env pf (mk_NodeMessageFactory pf) d = Inr m' \<and> message_asdict NewView_class m' = Inr d"
proof -
  let ?kw = "new_view_kw a v (PDict (dict_of c)) (dicts bs) r"
  let ?d = "(''op'', PStr ''NEW_VIEW'') # ?kw"
  note m = new_view_objects [OF assms(1) new_Checkpoint_dict(3) [OF assms(2)] assms(3)]
  have "NewView_asdict m = Inr ?d"
    using assms(2,3) by (intro new_view_asdict [where c' = c and b = "PList bs"]) (simp_all add: m(1) getattr_def new_view_kw_def dicts_def)
  moreover have "get_instance env pf (mk_NodeMessageFactory pf) ?d = message_init env pf NewView_class [] ?kw"
    using factory_get [of NewView_class pf] by (cases r) (simp_all add: get_instance_def new_view_kw_def node_message_classes_def NewView_class_def)
  moreover have "\<exists>m'. message_init env pf NewView_class [] ?kw = Inr m' \<and> NewView_asdict m' = Inr ?d"
    using new_view_from_dicts [OF assms(2,3) refl, of a v r] new_view_dicts_typed [OF m(2) assms(3)]
      new_view_init [OF refl, of env pf a v "PDict (dict_of c)" "dicts bs" r] by auto
  ultimately show ?thesis by (auto simp: message_asdict_def NewView_class_def)
qed

lemma new_view_asdict_raises:
  assumes "message_init env pf NewView_class [] (new_view_kw a v c (PList bs) r) = Inr m" "\<forall>p \<in> set bs. batch_id_object p"
    and "\<not> is_dict c" "value_asdict c = Inl AttributeError"
  shows "message_asdict NewView_class m = Inl AttributeError"
  using new_view_objects(1) [OF assms(1,3,2)] assms(3,4)
  by (simp add: message_asdict_def NewView_class_def NewView_asdict_def getattr_def new_view_kw_def)

section \<open>Replacing fields\<close>

text \<open>
  C40: replacing the fields of some class in all schemas makes every map anew without its parameters, so
  the optional signatures of a commit become required: a commit without them, as it is sent when
  there are none, is no longer accepted.
\<close>

theorem commit_rejected_after_field_update:
  assumes "\<not> is_old (MapField (required StringifiedNonNegativeNumberField) (required (LimitedLengthStringField BLS_SIG_LIMIT False)) False True)"
    and "map_of kw ''op'' = Some (PStr ''COMMIT'')" "''blsSigs'' \<notin> fst ` set kw"
  shows "get_instance env pf (update_schemas_by_field_type is_old new_field (mk_NodeMessageFactory pf)) kw = Inl TypeError"
proof -
  let ?s = "map (\<lambda>(n, f). (n, transform_field is_old new_field f)) Commit_schema"
  let ?d = "filter (\<lambda>(n, v). n \<noteq> ''op'') kw"
  have missed: "''blsSigs'' \<in> set (missed_required_fields ?s (as_pydict ?d))" "''protocolVersion'' \<notin> set (missed_required_fields ?s (as_pydict ?d))"
    using assms(1,3) by (auto simp: missed_required_fields_def Commit_schema_def transform_field_def has_key_as_pydict)
  then have v: "MessageValidator_validate (validate env) ?s SCHEMA_IS_STRICT NoMessageCheck (PDict (as_pydict ?d)) = Inl TypeError"
    by (auto simp: MessageValidator_validate_def validate_fields_with_schema_def raise_missed_fields_def)
  have t: "get_type (update_schemas_by_field_type is_old new_field (mk_NodeMessageFactory pf)) (PStr ''COMMIT'') =
      Inr \<lparr>typename = ''COMMIT'', class_schema = ?s, class_kind = PlainMessage\<rparr>"
    using factory_get [of "plain ''COMMIT'' Commit_schema" pf]
    by (simp add: get_type_def update_schemas_by_field_type_def plain_def map_of_map node_message_classes_def comp_def split: option.splits)
  have "?d \<noteq> [] \<or> ?d = [] \<and> join_with_schema ?s [] = []" by (simp add: join_with_schema_def)
  then show ?thesis
    using v by (auto simp: get_instance_def assms(2) t message_init_def init_input_def Let_def SCHEMA_IS_STRICT_def comp_def)
qed

section \<open>Instances\<close>

definition demo_checkpoint :: pyval where
  "demo_checkpoint =
     PMsg ''CHECKPOINT'' [(''instId'', PInt 0), (''viewNo'', PInt 1), (''seqNoStart'', PInt 0), (''seqNoEnd'', PInt 100), (''digest'', PNone)]"

definition demo_batch_id :: pyval where
  "demo_batch_id = PNamed ''BatchID'' [(''view_no'', PInt 1), (''pp_view_no'', PInt 0), (''pp_seq_no'', PInt 101), (''pp_digest'', PStr ''d'')]"

definition demo_pre_prepare :: kwargs where
  "demo_pre_prepare =
     [(''instId'', PInt 0), (''viewNo'', PInt 1), (''ppSeqNo'', PInt 101), (''ppTime'', PInt 1600000000), (''reqIdr'', PList [PStr ''r'']),
      (''discarded'', PStr ''x''), (''digest'', PStr ''d''), (''ledgerId'', PInt 1), (''stateRootHash'', PNone), (''txnRootHash'', PNone),
      (''sub_seq_no'', PInt 0), (''final'', PBool False)]"

definition demo_pre_prepare_class :: message_class where
  "demo_pre_prepare_class = \<lparr>typename = ''PREPREPARE'', class_schema = PrePrepare_schema, class_kind = PrePrepareMessage\<rparr>"

definition demo_pre_prepare_message :: message where
  "demo_pre_prepare_message =
     \<lparr>m_type = ''PREPREPARE'', m_fields = kw_update ''reqIdr'' (PTuple [PStr ''r'']) demo_pre_prepare, m_attrs = []\<rparr>"

lemma demo_pre_prepare_init:
  "demo_pre_prepare_class \<in> set (node_message_classes [])"
  "message_init demo_field_env [] demo_pre_prepare_class [] demo_pre_prepare = Inr demo_pre_prepare_message"
  by (simp add: node_message_classes_def demo_pre_prepare_class_def) code_simp

theorem made_messages_typed_witness:
  "message_init demo_field_env [] demo_pre_prepare_class [] demo_pre_prepare = Inr demo_pre_prepare_message \<and>
   (\<exists>v. map_of (m_fields demo_pre_prepare_message) ''reqIdr'' = Some v \<and> has_type demo_field_env (iterable (required digest_field)) v)"
proof -
  have "(''reqIdr'', iterable (required digest_field)) \<in> set (class_schema demo_pre_prepare_class)"
    by (simp add: demo_pre_prepare_class_def PrePrepare_schema_def)
  then show ?thesis
    using made_messages_typed [OF demo_pre_prepare_init] demo_pre_prepare_init(2) by fastforce
qed

theorem message_round_trip_witness:
  "bindE (message_asdict demo_pre_prepare_class demo_pre_prepare_message) (get_instance demo_field_env [] (mk_NodeMessageFactory [])) =
   Inr demo_pre_prepare_message"
  by (rule message_round_trip [OF demo_pre_prepare_init(1) _ _ demo_pre_prepare_init(2)]) (simp_all add: demo_pre_prepare_class_def)

lemma demo_objects: "checkpoint_object demo_field_env demo_checkpoint" "batch_id_object demo_batch_id"
proof -
  have "MessageBase_init demo_field_env Checkpoint_class [PInt 0, PInt 1, PInt 0, PInt 100, PNone] [] =
      Inr \<lparr>m_type = ''CHECKPOINT'', m_fields = [(''instId'', PInt 0), (''viewNo'', PInt 1), (''seqNoStart'', PInt 0), (''seqNoEnd'', PInt 100), (''digest'', PNone)],
           m_attrs = []\<rparr>"
    by code_simp
  then show "checkpoint_object demo_field_env demo_checkpoint"
    unfolding checkpoint_object_def demo_checkpoint_def by (intro exI conjI) (assumption, simp add: message_value_def)
  show "batch_id_object demo_batch_id" by (simp add: batch_id_object_def demo_batch_id_def BatchID_fields_def)
qed

theorem view_change_round_trip_witness:
  "\<exists>m d m'. message_init demo_field_env [] ViewChange_class []
      (view_change_kw (PInt 2) (PInt 100) (PList [demo_batch_id]) (PList []) (PList [demo_checkpoint])) = Inr m \<and>
    message_asdict ViewChange_class m = Inr d \<and> get_instance demo_field_env [] (mk_NodeMessageFactory []) d = Inr m' \<and>
    message_asdict ViewChange_class m' = Inr d"
proof -
  let ?kw = "view_change_kw (PInt 2) (PInt 100) (PList [demo_batch_id]) (PList []) (PList [demo_checkpoint])"
  have "message_init demo_field_env [] ViewChange_class [] ?kw = Inr \<lparr>m_type = ''VIEW_CHANGE'', m_fields = ?kw, m_attrs = []\<rparr>" by code_simp
  from view_change_round_trip [OF this] this show ?thesis using demo_objects by fastforce
qed

theorem new_view_round_trip_witness:
  "\<exists>m d m'. message_init demo_field_env [] NewView_class []
      (new_view_kw (PInt 2) (PList []) demo_checkpoint (PList [demo_batch_id]) (Some (PStr ''A''))) = Inr m \<and>
    message_asdict NewView_class m = Inr d \<and> get_instance demo_field_env [] (mk_NodeMessageFactory []) d = Inr m' \<and>
    message_asdict NewView_class m' = Inr d"
proof -
  let ?kw = "new_view_kw (PInt 2) (PList []) demo_checkpoint (PList [demo_batch_id]) (Some (PStr ''A''))"
  have "message_init demo_field_env [] NewView_class [] ?kw = Inr \<lparr>m_type = ''NEW_VIEW'', m_fields = ?kw, m_attrs = []\<rparr>" by code_simp
  from new_view_round_trip [OF this] this show ?thesis using demo_objects by fastforce
qed

theorem commit_rejected_after_field_update_witness:
  "get_instance demo_field_env [] (update_schemas_by_field_type (\<lambda>f. f = required LedgerIdField) (optional LedgerIdField) (mk_NodeMessageFactory []))
     [(''op'', PStr ''COMMIT''), (''instId'', PInt 0), (''viewNo'', PInt 0), (''ppSeqNo'', PInt 1)] = Inl TypeError \<and>
   message_init demo_field_env [] (plain ''COMMIT'' Commit_schema) [] [(''instId'', PInt 0), (''viewNo'', PInt 0), (''ppSeqNo'', PInt 1)] =
     Inr \<lparr>m_type = ''COMMIT'', m_fields = [(''instId'', PInt 0), (''viewNo'', PInt 0), (''ppSeqNo'', PInt 1)], m_attrs = []\<rparr>"
proof
  show "get_instance demo_field_env [] (update_schemas_by_field_type (\<lambda>f. f = required LedgerIdField) (optional LedgerIdField) (mk_NodeMessageFactory []))
     [(''op'', PStr ''COMMIT''), (''instId'', PInt 0), (''viewNo'', PInt 0), (''ppSeqNo'', PInt 1)] = Inl TypeError"
    by (rule commit_rejected_after_field_update) simp_all
  show "message_init demo_field_env [] (plain ''COMMIT'' Commit_schema) [] [(''instId'', PInt 0), (''viewNo'', PInt 0), (''ppSeqNo'', PInt 1)] =
     Inr \<lparr>m_type = ''COMMIT'', m_fields = [(''instId'', PInt 0), (''viewNo'', PInt 0), (''ppSeqNo'', PInt 1)], m_attrs = []\<rparr>"
    by code_simp
qed

end
