(* ===== verification/Spec2Isabelle.thy ===== *)
theory Spec2Isabelle
  imports Plenum_Ledger Vote_Tracking Checkpoint_Service View_Change_Service Instance_Change
    Replica_Helper Stashing_Router Pruning_State Message_Roundtrip
begin

text \<open>
  Verification of indy-plenum, a Byzantine fault tolerant replicated ledger. The development models
  how a node stores what was agreed (Merkle ledgers, the state trie), how replicas agree (quorums,
  votes, checkpoints, view changes) and which messages a node accepts. Paths are below \<^verbatim>\<open>src/\<close>.

  \<^bold>\<open>Conventions.\<close> A class is a record, a method a function from the record to the record after it; a
  method that can raise returns \<open>py_error + 'a\<close> with every exception of the source as a value
  (\<^verbatim>\<open>Prelude\<close>). A \<^verbatim>\<open>dict\<close> whose order is observable is an association list, bytes are lists of
  8-bit words, Python integers are \<open>int\<close> or, where the code keeps them non-negative, \<open>nat\<close>.
  Messages sent, timers and callbacks are the ordered list of effects of a step. Code outside the
  repository (hash functions, \<^verbatim>\<open>ujson\<close>, the \<^verbatim>\<open>rlp\<close> package, sorted containers, databases) is an
  argument of the definitions, with its documented behaviour as hypotheses or as a locale; each
  locale is interpreted on the definitions of the model that provide it.

  \<^bold>\<open>Ledger.\<close> \<^verbatim>\<open>Ledger_Util\<close> (\<^verbatim>\<open>ledger/util.py\<close>), \<^verbatim>\<open>Tree_Hasher\<close> (\<^verbatim>\<open>ledger/tree_hasher.py\<close>), \<^verbatim>\<open>KV_Store\<close>
  (\<^verbatim>\<open>storage/\<close>: the storage contract and the in-memory storage), \<^verbatim>\<open>Hash_Store\<close>
  (\<^verbatim>\<open>ledger/hash_stores\<close>), \<^verbatim>\<open>Compact_Merkle_Tree\<close>, \<^verbatim>\<open>Merkle_Verifier\<close>, \<^verbatim>\<open>Ledger_Base\<close>
  (\<^verbatim>\<open>ledger/ledger.py\<close>) and \<^verbatim>\<open>Plenum_Ledger\<close> (\<^verbatim>\<open>plenum/common/ledger.py\<close>) follow the layers of the
  code. \<^verbatim>\<open>Merkle_Proofs\<close> shows that the incremental tree has the hash of the RFC 6962 tree, that
  its inclusion and consistency proofs are accepted, and that an accepted inclusion proof is right
  unless hashes collide. \<^verbatim>\<open>Ledger_Base\<close> shows that a ledger recovers from its storage,
  \<^verbatim>\<open>Plenum_Ledger\<close> that staged transactions commit to the root announced for them or vanish.

  \<^bold>\<open>State.\<close> \<^verbatim>\<open>Nibbles\<close> and \<^verbatim>\<open>Pruning_Trie\<close> (\<^verbatim>\<open>state/trie/pruning_trie.py\<close>, \<^verbatim>\<open>state/db/persistent_db.py\<close>) and
  \<^verbatim>\<open>Rlp\<close> (\<^verbatim>\<open>state/util/fast_rlp.py\<close>) model the trie on its encoded nodes, with the database and the proof
  recorder as state that survives an exception. \<^verbatim>\<open>Trie_Spec\<close> has the abstract radix tree,
  \<^verbatim>\<open>Trie_Refinement\<close> the simulation between the two, and \<^verbatim>\<open>State_Trie\<close> what it gives: the trie is a map
  under any history of updates with non-empty values and deletions, and its root hash is a function of the
  contents; the empty value, which the code does not refuse, breaks both.
  \<^verbatim>\<open>Trie_Proofs\<close> has the proofs that go with the answer to a read: the proof of a value is accepted, an
  accepted proof shows the value unless hashes collide, and a malformed proof raises. \<^verbatim>\<open>Trie_Dict\<close> lists
  the contents and proves all values below a prefix. \<^verbatim>\<open>Pruning_State\<close> (\<^verbatim>\<open>state/pruning_state.py\<close>) keeps a
  committed and an uncommitted root; any sequence of its operations is simulated by a pair of maps.
  Recursive methods take the number of nested calls Python still allows; the theorems ask for more
  than two per byte of the key.

  \<^bold>\<open>Agreement.\<close> \<^verbatim>\<open>Quorums\<close> (\<^verbatim>\<open>plenum/server/quorums.py\<close>) has the arithmetic that every vote count rests on.
  \<^verbatim>\<open>Node_Messages\<close> has the messages, \<^verbatim>\<open>Shared_Data\<close> the data that the services of a replica share,
  \<^verbatim>\<open>Vote_Tracking\<close> (\<^verbatim>\<open>plenum/server/models.py\<close>) and \<^verbatim>\<open>View_Change_Storages\<close> the votes, \<^verbatim>\<open>Msg_Validator\<close> the verdicts on
  three-phase messages, \<^verbatim>\<open>Stashing_Router\<close> the stashes, \<^verbatim>\<open>Replica_Helper\<close> the tracker of ordered
  batches, \<^verbatim>\<open>Sorted_Containers\<close> the contract of the sorted containers used. \<^verbatim>\<open>Checkpoint_Service\<close>,
  \<^verbatim>\<open>New_View_Builder\<close> with \<^verbatim>\<open>View_Change_Service\<close>, \<^verbatim>\<open>Primary_Selector\<close> and \<^verbatim>\<open>Instance_Change\<close> model the services of
  \<^verbatim>\<open>plenum/server/consensus\<close>. The lemmas show that decisions need quorums of which two share a correct
  node, that a new view keeps every batch that may have been committed, that checkpoints and
  watermarks keep their invariant along every sequence of handlers, that the votes for a view change survive a
  restart (\<^verbatim>\<open>Json_Serializer\<close>, \<^verbatim>\<open>common/serializers/json_serializer.py\<close>), and that the choice of primaries ends. Two
  theorems of \<^verbatim>\<open>View_Change_Service\<close> show where the view change falls short: a new view may list one vote
  again and again, and a correct new view may be rejected for the order of its votes.

  \<^bold>\<open>Messages.\<close> \<^verbatim>\<open>Py_Values\<close> has the Python values that arrive from outside. \<^verbatim>\<open>Message_Fields\<close>
  (\<^verbatim>\<open>plenum/common/messages/fields.py\<close>) has the check of each class of fields, \<^verbatim>\<open>Message_Schema\<close>
  (\<^verbatim>\<open>message_base.py\<close>) the validation of a dictionary against a schema, \<^verbatim>\<open>Client_Request\<close> (\<^verbatim>\<open>client_request.py\<close>)
  the schemas of requests, \<^verbatim>\<open>Message_Classes\<close> (\<^verbatim>\<open>node_messages.py\<close>, \<^verbatim>\<open>node_message_factory.py\<close>) those of the
  messages between nodes, the message objects and the factory. Base58, dates and the identifiers of plugin ledgers
  are fields of an environment, the request fields of plugins an argument. The lemmas characterise what
  each validator accepts, show that an accepted request names who answers for it, and
  (\<^verbatim>\<open>Message_Roundtrip\<close>) that every message object is well typed and survives the way to another node, the messages of
  a view change with the objects in them.

  \<^bold>\<open>Bounds.\<close> Loops that the source cannot bound are \<open>partial_function\<close>s whose termination is proved under stated
  conditions (primary selection, stash processing). There is no other fuel than the recursion limit of
  the trie.

  \<^bold>\<open>Not modelled.\<close> Sockets and encryption (\<^verbatim>\<open>stp_zmq\<close>, \<^verbatim>\<open>stp_core/network\<close>), bindings to RocksDB, LevelDB and ZeroMQ, file
  storages, BLS cryptography, the serializers other than the JSON one, process control, the command line, metrics, statistics over clocks
  (\<^verbatim>\<open>monitor.py\<close>), diagnostics and scripts are input and output or wrappers of foreign libraries. Within reach of
  the same methods but not done: the ordering service (\<^verbatim>\<open>ordering_service.py\<close>), propagation of requests, catchup,
  requests for missing messages, observers and the handlers of transactions; the parts they rest on (votes,
  validators, ledgers, state, proofs, schemas) are modelled. The fields \<^verbatim>\<open>JsonField\<close> and \<^verbatim>\<open>MessageField\<close> are in no schema, and
  of the versions only \<^verbatim>\<open>GenericVersion\<close> is modelled. The node, which wires the services together, and the pool as a
  network with delays are not modelled: the properties are about one replica and about sets of votes.
\<close>

end
